(* ===== verification/Prelude.thy ===== *)
theory Prelude
  imports Main "HOL-Library.Word"
begin

text \<open>
  Shared ground of the development: bytes and big-endian words, blocks of memory that are
  read and written by offset and length, results that can be a memory fault, and the
  generic facts about lists that the component theories use.

  A C object is modelled by the list of its bytes.  An access outside the object, a use of
  a freed object or of a null pointer is undefined behaviour in C; every model function
  that can meet one returns \<open>Inl\<close> of a \<open>fault\<close> value in that branch, so that
  the absence of faults is a property that has to be proved.
\<close>

unbundle bit_operations_syntax

section \<open>Faults and results\<close>

datatype fault = OutOfBounds | UseAfterFree | NullDeref | SignedOverflow | BadOperand

type_synonym 'a result = "fault + 'a"

definition then_do :: "'a result \<Rightarrow> ('a \<Rightarrow> 'b result) \<Rightarrow> 'b result" where
  "then_do m f = (case m of Inl e \<Rightarrow> Inl e | Inr x \<Rightarrow> f x)"

lemma then_do_simps [simp]:
  "then_do (Inr x) f = f x"
  "then_do (Inl e) f = Inl e"
  by (simp_all add: then_do_def)

lemma then_do_eq_Inr [simp]:
  "then_do m f = Inr y \<longleftrightarrow> (\<exists>x. m = Inr x \<and> f x = Inr y)"
  by (cases m) auto

lemma then_do_cong [fundef_cong]:
  "m = m' \<Longrightarrow> (\<And>x. m' = Inr x \<Longrightarrow> f x = f' x) \<Longrightarrow> then_do m f = then_do m' f'"
  by (cases m') auto

section \<open>Bytes and big-endian words\<close>

type_synonym byte = "8 word"

text \<open>
  \<open>AV_RB32\<close>/\<open>AV_WB32\<close>: four bytes, most significant first.  On a list that does not have
  four bytes the reader is a fault; callers that go through a block of memory get that
  fault from \<open>mem_rd\<close> below.
\<close>

definition rb32 :: "byte \<Rightarrow> byte \<Rightarrow> byte \<Rightarrow> byte \<Rightarrow> 32 word" where
  "rb32 b0 b1 b2 b3 =
     push_bit 24 (ucast b0) OR push_bit 16 (ucast b1) OR push_bit 8 (ucast b2) OR ucast b3"

definition wb32 :: "32 word \<Rightarrow> byte list" where
  "wb32 d = [ucast (drop_bit 24 d), ucast (drop_bit 16 d), ucast (drop_bit 8 d), ucast d]"

lemma length_wb32 [simp]: "length (wb32 d) = 4"
  by (simp add: wb32_def)

lemma rb32_split:
  "rb32 (ucast (drop_bit 24 d)) (ucast (drop_bit 16 d)) (ucast (drop_bit 8 d)) (ucast d) = d"
proof (rule bit_word_eqI)
  fix n :: nat
  assume n: "n < LENGTH(32)"
  then consider "n < 8" | "8 \<le> n" "n < 16" | "16 \<le> n" "n < 24" | "24 \<le> n" "n < 32"
    by fastforce
  then show "bit (rb32 (ucast (drop_bit 24 d)) (ucast (drop_bit 16 d)) (ucast (drop_bit 8 d))
                (ucast d)) n = bit d n"
    by cases (auto simp: rb32_def bit_simps)
qed

fun rb32_list :: "byte list \<Rightarrow> 32 word result" where
  "rb32_list (b0 # b1 # b2 # b3 # _) = Inr (rb32 b0 b1 b2 b3)"
| "rb32_list _ = Inl OutOfBounds"

lemma rb32_list_wb32 [simp]: "rb32_list (wb32 d @ xs) = Inr d"
  by (simp add: wb32_def rb32_split)

lemma rb32_list_wb32' [simp]: "rb32_list (wb32 d) = Inr d"
  using rb32_list_wb32 [of d "[]"] by simp

text \<open>An \<open>int\<close> that is not negative survives the trip through the 32-bit field.\<close>

lemma sint_word_of_int_32 [simp]:
  "0 \<le> n \<Longrightarrow> n < 2147483648 \<Longrightarrow> sint (word_of_int n :: 32 word) = n"
  by (simp add: sint_uint signed_take_bit_int_eq_self uint_word_of_int)

text \<open>The negative error number of \<open>ENOMEM\<close>, as FFmpeg's functions return it.\<close>

definition AVERROR_ENOMEM :: int where "AVERROR_ENOMEM = -12"

section \<open>Blocks of memory\<close>

definition mem_rd :: "'b list \<Rightarrow> int \<Rightarrow> int \<Rightarrow> 'b list result" where
  "mem_rd blk off n =
     (if 0 \<le> off \<and> 0 \<le> n \<and> off + n \<le> int (length blk)
      then Inr (take (nat n) (drop (nat off) blk)) else Inl OutOfBounds)"

definition mem_wr :: "'b list \<Rightarrow> int \<Rightarrow> 'b list \<Rightarrow> 'b list result" where
  "mem_wr blk off ds =
     (if 0 \<le> off \<and> off + int (length ds) \<le> int (length blk)
      then Inr (take (nat off) blk @ ds @ drop (nat off + length ds) blk) else Inl OutOfBounds)"

lemma mem_rd_Inr:
  "mem_rd blk off n = Inr ds \<longleftrightarrow>
     0 \<le> off \<and> 0 \<le> n \<and> off + n \<le> int (length blk) \<and> ds = take (nat n) (drop (nat off) blk)"
  by (auto simp: mem_rd_def)

lemma mem_wr_Inr:
  "mem_wr blk off ds = Inr blk' \<longleftrightarrow>
     0 \<le> off \<and> off + int (length ds) \<le> int (length blk) \<and>
     blk' = take (nat off) blk @ ds @ drop (nat off + length ds) blk"
  by (auto simp: mem_wr_def)

lemma mem_rd_length: "mem_rd blk off n = Inr ds \<Longrightarrow> int (length ds) = n"
  by (auto simp: mem_rd_def min_def nat_le_iff split: if_splits)

lemma mem_wr_length: "mem_wr blk off ds = Inr blk' \<Longrightarrow> length blk' = length blk"
  by (auto simp: mem_wr_def min_def nat_le_iff split: if_splits)

text \<open>Offsets that are natural numbers, and their way back from \<open>int\<close>.\<close>

lemma nat_of_int_diff [simp]: "nat (int a - int b) = a - b"
  by simp

lemma nat_of_int_plus [simp]: "nat (int a + int b) = a + b"
  by simp

lemma mem_rd_nat [simp]:
  "r + n \<le> length b \<Longrightarrow> mem_rd b (int r) (int n) = Inr (take n (drop r b))"
  by (simp add: mem_rd_def)

lemma mem_wr_nat [simp]:
  "r + length ds \<le> length b \<Longrightarrow>
   mem_wr b (int r) ds = Inr (take r b @ ds @ drop (r + length ds) b)"
  by (simp add: mem_wr_def)

lemma mem_rd_all [simp]: "mem_rd ds 0 (int (length ds)) = Inr ds"
  by (simp add: mem_rd_def)

lemma mem_wr_0 [simp]:
  "length ds \<le> length b \<Longrightarrow> mem_wr b 0 ds = Inr (ds @ drop (length ds) b)"
  by (simp add: mem_wr_def)

text \<open>Writing at the end of a known prefix.\<close>

lemma mem_wr_at:
  assumes "off = int (length pre)" "length d \<le> length y"
  shows "mem_wr (pre @ y) off d = Inr (pre @ d @ drop (length d) y)"
  using assms by (simp add: mem_wr_def)

lemma mem_rd_at:
  assumes "off = int (length pre)" "n = int (length d)"
  shows "mem_rd (pre @ d @ y) off n = Inr d"
  using assms by (simp add: mem_rd_def)

section \<open>Slices of lists\<close>

lemma take_drop_split:
  "a \<le> b \<Longrightarrow> b \<le> c \<Longrightarrow>
   take (c - a) (drop a xs) = take (b - a) (drop a xs) @ take (c - b) (drop b xs)"
proof -
  assume ab: "a \<le> b" "b \<le> c"
  have "take ((b - a) + (c - b)) (drop a xs)
        = take (b - a) (drop a xs) @ take (c - b) (drop (b - a) (drop a xs))"
    by (rule take_add)
  with ab show ?thesis by (simp add: add.commute)
qed

lemma length_dropWhile_pred: "xs \<noteq> [] \<Longrightarrow> length (dropWhile P xs) - Suc 0 < length xs"
  using length_dropWhile_le [of P xs] by (cases xs) (auto simp: less_Suc_eq_le)

lemma length_4E:
  assumes "length xs = 4"
  obtains a b c d where "xs = [a, b, c, d]"
proof -
  from assms have "\<exists>a b c d. xs = [a, b, c, d]"
    by (auto simp: numeral_eq_Suc length_Suc_conv)
  with that show ?thesis by blast
qed

lemma concat_map_append_snoc:
  "concat (map f (xs @ [x])) = concat (map f xs) @ f x"
  by simp

end
