(* ===== verification/Posix.thy ===== *)
theory Posix
  imports Prelude
begin

text \<open>
  The part of the operating system the program talks to, as explicit data: what a socket
  delivers is a script of receive events, what it takes is a script of how much room
  it has, and \<open>errno\<close> is a value that only failing calls set.

  \<^item> \<open>recv(fd, buf, n, 0)\<close> is \<open>sock_recv n\<close>: at most \<open>n\<close> of the bytes that are there, 0 once
    the peer has shut down, or -1 with \<open>errno\<close>.
  \<^item> \<open>send(fd, ptr, n, 0)\<close> is \<open>sock_send\<close>: a prefix of what is offered, or -1 with \<open>errno\<close>.

  All interleavings of the network with the program are covered by the choice of the two
  scripts: a segment may be split anywhere and \<open>EAGAIN\<close> may come at any call.
\<close>

datatype errno = EOK | EAGAIN | EINTR | EOTHER

datatype 'b rx_event = RxData "'b list" | RxEof | RxErr errno

datatype tx_event = TxRoom nat | TxErr errno

datatype 'b io_result = Got "'b list" | Failed errno

fun sock_recv :: "nat \<Rightarrow> 'b rx_event list \<Rightarrow> 'b io_result \<times> 'b rx_event list" where
  "sock_recv n [] = (Failed EAGAIN, [])"
| "sock_recv n (RxErr e # es) = (Failed e, es)"
| "sock_recv n (RxEof # es) = (Got [], RxEof # es)"
| "sock_recv n (RxData bs # es) =
     (if bs = [] then sock_recv n es
      else if length bs \<le> n then (Got bs, es)
      else (Got (take n bs), RxData (drop n bs) # es))"

text \<open>The bytes a script still holds, in the order they will be delivered.\<close>

fun rx_bytes :: "'b rx_event list \<Rightarrow> 'b list" where
  "rx_bytes [] = []"
| "rx_bytes (RxData bs # es) = bs @ rx_bytes es"
| "rx_bytes (RxEof # es) = []"
| "rx_bytes (RxErr e # es) = rx_bytes es"

lemma sock_recv_bytes:
  "sock_recv n es = (Got bs, es') \<Longrightarrow> rx_bytes es = bs @ rx_bytes es' \<and> length bs \<le> n"
  by (induction n es rule: sock_recv.induct) (auto split: if_splits)

lemma sock_recv_failed_bytes:
  "sock_recv n es = (Failed e, es') \<Longrightarrow> rx_bytes es = rx_bytes es'"
  by (induction n es rule: sock_recv.induct) (auto split: if_splits)

text \<open>How much a script can still do; every successful call of a positive size shrinks it.\<close>

fun rx_size :: "'b rx_event list \<Rightarrow> nat" where
  "rx_size [] = 0"
| "rx_size (RxData bs # es) = Suc (length bs) + rx_size es"
| "rx_size (_ # es) = Suc (rx_size es)"

lemma sock_recv_size:
  "sock_recv n es = (Got (b # bs), es') \<Longrightarrow> rx_size es' < rx_size es"
  by (induction n es rule: sock_recv.induct)
     (auto split: if_splits simp: take_eq_Nil dest: arg_cong [where f = length])

text \<open>
  \<open>send\<close>: the script says how many bytes the kernel takes; with no entry left it takes
  everything.
\<close>

fun sock_send :: "'b list \<Rightarrow> tx_event list \<Rightarrow> 'b io_result \<times> tx_event list" where
  "sock_send bs [] = (Got bs, [])"
| "sock_send bs (TxRoom k # es) = (Got (take k bs), es)"
| "sock_send bs (TxErr e # es) = (Failed e, es)"

lemma sock_send_prefix:
  "sock_send bs es = (Got cs, es') \<Longrightarrow> cs = take (length cs) bs"
  by (cases "(bs, es)" rule: sock_send.cases) (auto simp: min_def)

text \<open>The \<open>int\<close> a call returns.\<close>

fun io_len :: "'b io_result \<Rightarrow> int" where
  "io_len (Got bs) = int (length bs)"
| "io_len (Failed e) = -1"

end
