(* ===== verification/StreamBuffer.thy ===== *)
theory StreamBuffer
  imports Posix
begin

text \<open>
  \<open>src/stream_buffer.c\<close>: the linear byte buffer (\<open>StreamBuffer\<close>, \<open>sb_init\<close>, \<open>sb_write\<close>,
  \<open>sb_read\<close>) and the control channel that frames messages on top of a pair of them
  (\<open>ff_ctl_send\<close>, \<open>ff_ctl_recv\<close>, \<open>ctl_msg_recv\<close>, \<open>ctl_msg_send\<close>).

  The first half states the buffer's contract as the locale \<open>byte_fifo\<close> and interprets it
  on the code's model; the second half models the receiver's loop with its labels and
  shows on which inputs it delivers the messages, and on which it never returns.
\<close>

section \<open>The buffer\<close>

record StreamBuffer =
  rpos :: int
  wpos :: int
  msize :: int
  buf :: "byte list"

text \<open>
  \<open>malloc\<close> is the parameter \<open>s_ok\<close> (is there room for the struct) and \<open>blk\<close> (the block of
  \<open>msize\<close> bytes it returned, with whatever they hold).
\<close>

definition sb_init :: "bool \<Rightarrow> byte list option \<Rightarrow> int \<Rightarrow> StreamBuffer option" where
  "sb_init s_ok blk sz =
     (if sz < 1 then None
      else if \<not> s_ok then None
      else case blk of
             None \<Rightarrow> None
           | Some b \<Rightarrow> Some \<lparr>rpos = 0, wpos = 0, msize = sz, buf = b\<rparr>)"

definition sb_write ::
  "StreamBuffer option \<Rightarrow> byte list option \<Rightarrow> int \<Rightarrow> (int \<times> StreamBuffer option) result" where
  "sb_write so dato len =
     (case (so, dato) of
        (Some s, Some dat) \<Rightarrow>
          if len < 0 then Inr (-1, Some s)
          else if msize s - wpos s \<ge> len then
            then_do (mem_rd dat 0 len) (\<lambda>ds.
            then_do (mem_wr (buf s) (wpos s) ds) (\<lambda>b.
            Inr (0, Some (s\<lparr>buf := b, wpos := wpos s + len\<rparr>))))
          else if msize s - wpos s + rpos s \<ge> len then
            (let sz = wpos s - rpos s in
             then_do (mem_rd (buf s) (rpos s) sz) (\<lambda>old.
             then_do (mem_wr (buf s) 0 old) (\<lambda>b.
             then_do (mem_rd dat 0 len) (\<lambda>ds.
             then_do (mem_wr b sz ds) (\<lambda>b'.
             Inr (0, Some (s\<lparr>buf := b', rpos := 0, wpos := sz + len\<rparr>)))))))
          else Inr (-1, Some s)
      | _ \<Rightarrow> Inr (-1, so))"

text \<open>\<open>sb_read\<close> copies into the caller's block; the new block is part of the result.\<close>

definition sb_read ::
  "StreamBuffer option \<Rightarrow> byte list option \<Rightarrow> int
     \<Rightarrow> (int \<times> byte list option \<times> StreamBuffer option) result" where
  "sb_read so dato len =
     (case (so, dato) of
        (Some s, Some dat) \<Rightarrow>
          if len < 0 then Inr (0, dato, so)
          else
            (let sz0 = wpos s - rpos s; sz = (if sz0 > len then len else sz0) in
             then_do (mem_rd (buf s) (rpos s) sz) (\<lambda>ds.
             then_do (mem_wr dat 0 ds) (\<lambda>dat'.
             Inr (sz, Some dat', Some (s\<lparr>rpos := rpos s + sz\<rparr>)))))
      | _ \<Rightarrow> Inr (0, dato, so))"

text \<open>What the program means by the buffer: the bytes written and not yet read.\<close>

definition sb_inv :: "StreamBuffer \<Rightarrow> bool" where
  "sb_inv s \<longleftrightarrow> 0 \<le> rpos s \<and> rpos s \<le> wpos s \<and> wpos s \<le> msize s \<and> msize s = int (length (buf s))"

definition sb_pending :: "StreamBuffer \<Rightarrow> byte list" where
  "sb_pending s = take (nat (wpos s - rpos s)) (drop (nat (rpos s)) (buf s))"

lemma sb_init_inv:
  "sb_init ok blk sz = Some s \<Longrightarrow> (\<And>b. blk = Some b \<Longrightarrow> int (length b) = sz)
     \<Longrightarrow> sb_inv s \<and> sb_pending s = [] \<and> msize s = sz"
  by (auto simp: sb_init_def sb_inv_def sb_pending_def split: if_splits option.splits)

lemma sb_pending_length: "sb_inv s \<Longrightarrow> int (length (sb_pending s)) = wpos s - rpos s"
  by (auto simp: sb_inv_def sb_pending_def)

text \<open>
  In a well-formed buffer the positions are natural numbers; the copying branches are
  easiest to see there.
\<close>

lemma sb_inv_natE:
  assumes "sb_inv s"
  obtains r w where "rpos s = int r" "wpos s = int w" "r \<le> w" "w \<le> length (buf s)"
    "msize s = int (length (buf s))"
  using assms unfolding sb_inv_def
  by (metis nonneg_int_cases of_nat_le_iff order_trans)

text \<open>The two branches of \<open>sb_write\<close> that copy, and the one that refuses.\<close>

lemma sb_write_direct:
  assumes inv: "sb_inv s" and fits: "int (length ds) \<le> msize s - wpos s"
  shows "\<exists>s'. sb_write (Some s) (Some ds) (int (length ds)) = Inr (0, Some s')
              \<and> sb_inv s' \<and> sb_pending s' = sb_pending s @ ds \<and> msize s' = msize s"
proof -
  from inv obtain r w where rw: "rpos s = int r" "wpos s = int w" "r \<le> w"
    "w \<le> length (buf s)" "msize s = int (length (buf s))" by (rule sb_inv_natE)
  from fits rw have len: "w + length ds \<le> length (buf s)" by simp
  let ?b = "take w (buf s) @ ds @ drop (w + length ds) (buf s)"
  let ?s = "s\<lparr>buf := ?b, wpos := int w + int (length ds)\<rparr>"
  have "sb_write (Some s) (Some ds) (int (length ds)) = Inr (0, Some ?s)"
    using len rw by (simp add: sb_write_def)
  moreover have "sb_inv ?s" using len rw by (simp add: sb_inv_def)
  moreover have "sb_pending ?s = sb_pending s @ ds"
  proof -
    have "nat (int w + int (length ds) - int r) = (w - r) + length ds"
      using rw by simp
    then show ?thesis using rw len by (simp add: sb_pending_def drop_take nat_diff_distrib)
  qed
  ultimately show ?thesis by auto
qed

lemma sb_write_moved:
  assumes inv: "sb_inv s" and nofit: "int (length ds) > msize s - wpos s"
    and fits: "int (length ds) \<le> msize s - wpos s + rpos s"
  shows "\<exists>s'. sb_write (Some s) (Some ds) (int (length ds)) = Inr (0, Some s')
              \<and> sb_inv s' \<and> sb_pending s' = sb_pending s @ ds \<and> msize s' = msize s"
proof -
  from inv obtain r w where rw: "rpos s = int r" "wpos s = int w" "r \<le> w"
    "w \<le> length (buf s)" "msize s = int (length (buf s))" by (rule sb_inv_natE)
  from fits rw have len: "(w - r) + length ds \<le> length (buf s)" by simp
  let ?old = "take (w - r) (drop r (buf s))"
  have old: "length ?old = w - r" using rw by simp
  let ?b = "?old @ drop (w - r) (buf s)"
  let ?b' = "?old @ ds @ drop (w - r + length ds) (buf s)"
  let ?s = "s\<lparr>buf := ?b', rpos := 0, wpos := int (w - r) + int (length ds)\<rparr>"
  have wr: "mem_wr ?b (int (w - r)) ds = Inr ?b'"
    using len rw old by (subst mem_wr_nat) (simp_all del: of_nat_diff add: add.commute)
  have "mem_rd (buf s) (int r) (int (w - r)) = Inr ?old"
    using rw by (simp del: of_nat_diff)
  moreover have "mem_wr (buf s) 0 ?old = Inr ?b" using old rw by simp
  moreover have "int w - int r = int (w - r)" using rw by simp
  ultimately have "sb_write (Some s) (Some ds) (int (length ds)) = Inr (0, Some ?s)"
    using nofit fits rw wr by (simp add: sb_write_def Let_def del: of_nat_diff)
  moreover have "sb_inv ?s" using len rw old by (simp add: sb_inv_def)
  moreover have "sb_pending ?s = sb_pending s @ ds"
    using rw old by (simp add: sb_pending_def nat_add_distrib)
  ultimately show ?thesis by auto
qed

lemma sb_write_full:
  "int (length ds) > msize s - wpos s + rpos s \<Longrightarrow> sb_inv s \<Longrightarrow>
   sb_write (Some s) (Some ds) (int (length ds)) = Inr (-1, Some s)"
  by (auto simp: sb_write_def sb_inv_def)


text \<open>
  \<open>sb_write\<close> on a well-formed buffer: all or nothing, decided by the room that is left over
  the whole block and not only behind the write position.
\<close>

lemma sb_write_cases:
  assumes "sb_inv s"
  shows "if length (sb_pending s) + length ds \<le> nat (msize s)
         then \<exists>s'. sb_write (Some s) (Some ds) (int (length ds)) = Inr (0, Some s')
                   \<and> sb_inv s' \<and> sb_pending s' = sb_pending s @ ds \<and> msize s' = msize s
         else sb_write (Some s) (Some ds) (int (length ds)) = Inr (-1, Some s)"
proof (cases "length (sb_pending s) + length ds \<le> nat (msize s)")
  case True
  with sb_pending_length [OF assms] assms
  have "int (length ds) \<le> msize s - wpos s + rpos s"
    by (auto simp: sb_inv_def)
  with True show ?thesis
    using sb_write_direct [OF assms, of ds] sb_write_moved [OF assms, of ds] by fastforce
next
  case False
  with sb_pending_length [OF assms] assms
  have "int (length ds) > msize s - wpos s + rpos s"
    by (auto simp: sb_inv_def)
  with False show ?thesis
    using sb_write_full [OF _ assms] by simp
qed

lemma sb_read_cases:
  assumes inv: "sb_inv s" and room: "n \<le> length dat"
  shows "\<exists>s'. sb_read (Some s) (Some dat) (int n)
           = Inr (int (length (take n (sb_pending s))),
                  Some (take n (sb_pending s) @ drop (length (take n (sb_pending s))) dat), Some s')
         \<and> sb_inv s' \<and> sb_pending s' = drop n (sb_pending s) \<and> msize s' = msize s"
proof -
  from inv obtain r w where rw: "rpos s = int r" "wpos s = int w" "r \<le> w"
    "w \<le> length (buf s)" "msize s = int (length (buf s))" by (rule sb_inv_natE)
  define k where "k = min n (w - r)"
  then have k: "k \<le> w - r" "(if int w - int r > int n then int n else int w - int r) = int k"
    using rw by (auto simp: min_def)
  let ?s = "s\<lparr>rpos := int (r + k)\<rparr>"
  have pend: "sb_pending s = take (w - r) (drop r (buf s))"
    using rw by (simp add: sb_pending_def nat_diff_distrib)
  have tk: "take n (sb_pending s) = take k (drop r (buf s))" "length (take n (sb_pending s)) = k"
    using rw by (simp_all add: pend k_def min.commute)
  have "k \<le> length dat" using room by (simp add: k_def)
  then have "sb_read (Some s) (Some dat) (int n)
     = Inr (int k, Some (take k (drop r (buf s)) @ drop k dat), Some ?s)"
    using rw k by (simp add: sb_read_def Let_def)
  moreover have "sb_inv ?s" using rw k(1) by (simp add: sb_inv_def)
  moreover have "sb_pending ?s = drop n (sb_pending s)"
  proof -
    have "nat (int w - int (r + k)) = w - r - k"
      by (simp add: nat_diff_distrib)
    moreover have "drop n (take (w - r) (drop r (buf s))) = drop k (take (w - r) (drop r (buf s)))"
      using rw by (cases "n \<le> w - r") (simp_all add: k_def)
    ultimately show ?thesis using rw
      by (simp add: sb_pending_def pend drop_take add.commute)
  qed
  moreover have lk: "length (take k (drop r (buf s))) = k" using tk by simp
  ultimately show ?thesis unfolding tk(1) lk by auto
qed

subsection \<open>The contract of a byte queue\<close>

text \<open>
  What the control channel relies on: a bounded first-in first-out queue of bytes whose
  \<open>put\<close> is all or nothing.  \<open>fifo_run\<close> is any sequence of calls (what was accepted, what came out,
  the queue left over); the law proved once here is that
  what was taken out, followed by what is still inside, is exactly what went in.
\<close>

datatype fifo_op = Put "byte list" | Get nat

fun fifo_run ::
  "('q \<Rightarrow> byte list \<Rightarrow> 'q option) \<Rightarrow> ('q \<Rightarrow> nat \<Rightarrow> byte list \<times> 'q) \<Rightarrow> 'q \<Rightarrow> fifo_op list
     \<Rightarrow> byte list \<times> byte list \<times> 'q" where
  "fifo_run put get q [] = ([], [], q)"
| "fifo_run put get q (Put ds # ops) =
     (case put q ds of
        None \<Rightarrow> fifo_run put get q ops
      | Some q' \<Rightarrow> (case fifo_run put get q' ops of (i, out, q'') \<Rightarrow> (ds @ i, out, q'')))"
| "fifo_run put get q (Get n # ops) =
     (case get q n of (bs, q') \<Rightarrow>
      (case fifo_run put get q' ops of (i, out, q'') \<Rightarrow> (i, bs @ out, q'')))"

locale byte_fifo =
  fixes inv :: "'q \<Rightarrow> bool"
    and contents :: "'q \<Rightarrow> byte list"
    and capacity :: "'q \<Rightarrow> nat"
    and put :: "'q \<Rightarrow> byte list \<Rightarrow> 'q option"
    and get :: "'q \<Rightarrow> nat \<Rightarrow> byte list \<times> 'q"
  assumes put_Some: "inv q \<Longrightarrow> length (contents q) + length ds \<le> capacity q \<Longrightarrow>
      \<exists>q'. put q ds = Some q' \<and> inv q' \<and> contents q' = contents q @ ds \<and> capacity q' = capacity q"
    and put_None: "inv q \<Longrightarrow> capacity q < length (contents q) + length ds \<Longrightarrow> put q ds = None"
    and get_spec: "inv q \<Longrightarrow>
      \<exists>q'. get q n = (take n (contents q), q') \<and> inv q' \<and> contents q' = drop n (contents q)
           \<and> capacity q' = capacity q"
begin

lemma run_fifo:
  "inv q \<Longrightarrow> fifo_run put get q ops = (i, out, q') \<Longrightarrow>
   contents q @ i = out @ contents q' \<and> inv q' \<and> capacity q' = capacity q"
proof (induction ops arbitrary: q i out q')
  case Nil
  then show ?case by simp
next
  case (Cons op ops)
  show ?case
  proof (cases op)
    case (Put ds)
    show ?thesis
    proof (cases "put q ds")
      case None
      with Put Cons show ?thesis by simp
    next
      case (Some q1)
      then have "length (contents q) + length ds \<le> capacity q"
        using put_None [OF Cons.prems(1), of ds] by fastforce
      with Some put_Some [OF Cons.prems(1)] have
        q1: "inv q1" "contents q1 = contents q @ ds" "capacity q1 = capacity q" by fastforce+
      obtain i1 out1 q2 where r: "fifo_run put get q1 ops = (i1, out1, q2)" by (metis surj_pair)
      with Some Put Cons.prems(2) have "i = ds @ i1" "out = out1" "q' = q2" by simp_all
      with Cons.IH [OF q1(1) r] q1 show ?thesis by simp
    qed
  next
    case (Get n)
    from get_spec [OF Cons.prems(1), of n] obtain q1 where
      g: "get q n = (take n (contents q), q1)" and
      q1: "inv q1" "contents q1 = drop n (contents q)" "capacity q1 = capacity q" by blast
    obtain i1 out1 q2 where r: "fifo_run put get q1 ops = (i1, out1, q2)" by (metis surj_pair)
    with g Get Cons.prems(2) have "i = i1" "out = take n (contents q) @ out1" "q' = q2" by simp_all
    with Cons.IH [OF q1(1) r] q1 show ?thesis by (metis append.assoc append_take_drop_id)
  qed
qed

lemma run_bounded:
  "inv q \<Longrightarrow> fifo_run put get q ops = (i, out, q') \<Longrightarrow> length (contents q) \<le> capacity q \<Longrightarrow>
   length out \<le> length (contents q) + length i"
  by (drule (1) run_fifo) (metis length_append le_add1)

end

text \<open>The code's buffer, seen through the return values of its two operations.\<close>

definition sb_put :: "StreamBuffer \<Rightarrow> byte list \<Rightarrow> StreamBuffer option" where
  "sb_put s ds =
     (case sb_write (Some s) (Some ds) (int (length ds)) of
        Inr (r, Some s') \<Rightarrow> if r = 0 then Some s' else None
      | _ \<Rightarrow> None)"

definition sb_get :: "StreamBuffer \<Rightarrow> nat \<Rightarrow> byte list \<times> StreamBuffer" where
  "sb_get s n =
     (case sb_read (Some s) (Some (replicate n 0)) (int n) of
        Inr (r, Some bs, Some s') \<Rightarrow> (take (nat r) bs, s')
      | _ \<Rightarrow> ([], s))"

interpretation sbq: byte_fifo sb_inv sb_pending "\<lambda>s. nat (msize s)" sb_put sb_get
proof
  fix q and ds :: "byte list"
  assume inv: "sb_inv q" and room: "length (sb_pending q) + length ds \<le> nat (msize q)"
  from sb_write_cases [OF inv, of ds] room
  show "\<exists>q'. sb_put q ds = Some q' \<and> sb_inv q' \<and> sb_pending q' = sb_pending q @ ds
          \<and> nat (msize q') = nat (msize q)"
    by (auto simp: sb_put_def)
next
  fix q and ds :: "byte list"
  assume inv: "sb_inv q" and room: "nat (msize q) < length (sb_pending q) + length ds"
  from sb_write_cases [OF inv, of ds] room show "sb_put q ds = None"
    by (auto simp: sb_put_def)
next
  fix q n
  assume inv: "sb_inv q"
  from sb_read_cases [OF inv, of n "replicate n 0"]
  show "\<exists>q'. sb_get q n = (take n (sb_pending q), q') \<and> sb_inv q'
          \<and> sb_pending q' = drop n (sb_pending q) \<and> nat (msize q') = nat (msize q)"
    by (auto simp: sb_get_def min_def)
qed


section \<open>The control channel\<close>

text \<open>
  \<open>ctrl_msg_t\<close>.  The two pointers are \<open>None\<close> when they are null; all integers are zero and
  both pointers null in the initial value of the function-static \<open>msg\<close>.
\<close>

record ctrl_msg =
  cmd :: int
  nlen :: int
  dlen :: int
  mname :: "byte list option"
  mdata :: "byte list option"

definition msg_zero :: ctrl_msg where
  "msg_zero = \<lparr>cmd = 0, nlen = 0, dlen = 0, mname = None, mdata = None\<rparr>"

text \<open>\<open>ctrl_fd\<close>, \<open>serv_fd\<close>, \<open>sb_in\<close>, \<open>sb_out\<close> and the \<open>msg\<close> of \<open>ff_ctl_recv\<close>.\<close>

record ctl =
  ctrl_fd :: int
  serv_fd :: int
  sb_in :: "StreamBuffer option"
  sb_out :: "StreamBuffer option"
  ctl_msg :: ctrl_msg

definition ctl_tag :: "byte list" where
  "ctl_tag = [0x4D, 0x53, 0x47]"

subsection \<open>Sending\<close>

text \<open>
  The return values of the three \<open>sb_write\<close> calls are ignored by the code, so a refused
  write drops its part of the message and the function still returns 0.
\<close>

definition ff_ctl_send ::
  "ctl \<Rightarrow> int \<Rightarrow> byte list option \<Rightarrow> int \<Rightarrow> byte list option \<Rightarrow> int \<Rightarrow> (int \<times> ctl) result" where
  "ff_ctl_send c cm nm nl dat dl =
     (if sb_out c = None \<or> \<not> (0 < cm \<and> cm \<le> 255) \<or> nm = None \<or> nl < 1 \<or> dl < 1 \<or> dl < 1
      then Inr (-1, c)
      else
        let hdr = ctl_tag @ [word_of_int cm] @ wb32 (word_of_int nl) @ wb32 (word_of_int dl) in
        then_do (sb_write (sb_out c) (Some hdr) (int (length hdr))) (\<lambda>(_, s1).
        then_do (sb_write s1 nm nl) (\<lambda>(_, s2).
        then_do (sb_write s2 dat dl) (\<lambda>(_, s3).
        Inr (0, c\<lparr>sb_out := s3\<rparr>)))))"

text \<open>
  \<open>ff_ctl_send_string\<close>: two C strings, given without their terminators; \<open>strlen(x) + 1\<close>
  bytes of each are sent.
\<close>

definition ff_ctl_send_string :: "ctl \<Rightarrow> int \<Rightarrow> byte list \<Rightarrow> byte list \<Rightarrow> (int \<times> ctl) result" where
  "ff_ctl_send_string c cm nm dat =
     (let nl = int (length nm) + 1; dl = int (length dat) + 1 in
      ff_ctl_send c cm (Some (nm @ [0])) nl (Some (dat @ [0])) dl)"

text \<open>\<open>ctl_msg_pending\<close> and \<open>ctl_msg_send\<close>: one \<open>send\<close> of everything that is pending.\<close>

definition ctl_msg_pending :: "ctl \<Rightarrow> int" where
  "ctl_msg_pending c = (case sb_out c of None \<Rightarrow> -1 | Some sb \<Rightarrow> wpos sb - rpos sb)"

definition ctl_msg_send ::
  "ctl \<Rightarrow> tx_event list \<Rightarrow> (int \<times> ctl \<times> byte list \<times> tx_event list) result" where
  "ctl_msg_send c tx =
     (case sb_out c of
        None \<Rightarrow> Inr (-1, c, [], tx)
      | Some sb \<Rightarrow>
          let len = wpos sb - rpos sb in
          if len \<le> 0 then Inr (1, c, [], tx)
          else
            then_do (mem_rd (buf sb) (rpos sb) len) (\<lambda>ds.
            case sock_send ds tx of
              (Got bs, tx') \<Rightarrow>
                Inr (0, (if int (length bs) > 0
                         then c\<lparr>sb_out := Some (sb\<lparr>rpos := rpos sb + int (length bs)\<rparr>)\<rparr>
                         else c), bs, tx')
            | (Failed e, tx') \<Rightarrow> Inr (0, c, [], tx')))"

subsection \<open>Receiving\<close>

text \<open>
  \<open>ctl_msg_recv\<close> reads 1024 bytes at a time until the socket has nothing more; what
  \<open>sb_write\<close> refuses is lost.
\<close>

function ctl_msg_recv_loop ::
  "StreamBuffer option \<Rightarrow> byte rx_event list \<Rightarrow> (StreamBuffer option \<times> byte rx_event list) result" where
  "ctl_msg_recv_loop s es =
     (case sock_recv 1024 es of
        (Got (b # bs), es') \<Rightarrow>
          then_do (sb_write s (Some (b # bs)) (int (length (b # bs)))) (\<lambda>(_, s').
            ctl_msg_recv_loop s' es')
      | (_, es') \<Rightarrow> Inr (s, es'))"
  by pat_completeness auto
termination
  by (relation "measure (\<lambda>(s, es). rx_size es)") (auto dest!: sock_recv_size [OF sym])

declare ctl_msg_recv_loop.simps [simp del]

definition ctl_msg_recv :: "ctl \<Rightarrow> byte rx_event list \<Rightarrow> (int \<times> ctl \<times> byte rx_event list) result" where
  "ctl_msg_recv c es =
     then_do (ctl_msg_recv_loop (sb_in c) es) (\<lambda>(s, es'). Inr (0, c\<lparr>sb_in := s\<rparr>, es'))"

text \<open>
  The loop of \<open>ff_ctl_recv\<close>.  Its labels are functions; each returns whether the loop was
  left by \<open>break\<close>, the new \<open>ptr\<close> (an offset into the buffer), the static \<open>msg\<close> and the
  messages that the callback has been given so far.
\<close>

type_synonym recv_st = "int \<times> ctrl_msg \<times> ctrl_msg list"

definition rd32 :: "byte list \<Rightarrow> int \<Rightarrow> int result" where
  "rd32 b off = then_do (mem_rd b off 4) (\<lambda>bs. then_do (rb32_list bs) (\<lambda>w. Inr (sint w)))"

definition lbl_data ::
  "byte list \<Rightarrow> int \<Rightarrow> bool \<Rightarrow> recv_st \<Rightarrow> (bool \<times> recv_st) result" where
  "lbl_data b end cb st = (case st of (ptr, m, out) \<Rightarrow>
     if dlen m > 0 \<and> ptr + dlen m \<le> end then
       then_do (mem_rd b ptr (dlen m)) (\<lambda>d.
         Inr (False, ptr + dlen m, msg_zero, if cb then out @ [m\<lparr>mdata := Some d\<rparr>] else out))
     else Inr (False, st))"

definition lbl_name ::
  "byte list \<Rightarrow> int \<Rightarrow> bool \<Rightarrow> recv_st \<Rightarrow> (bool \<times> recv_st) result" where
  "lbl_name b end cb st = (case st of (ptr, m, out) \<Rightarrow>
     then_do
       (if nlen m > 0 \<and> ptr + nlen m \<le> end then
          then_do (mem_rd b ptr (nlen m)) (\<lambda>n. Inr (ptr + nlen m, m\<lparr>mname := Some n\<rparr>, out))
        else Inr st)
       (\<lambda>(ptr, m, out).
          if ptr \<ge> end then Inr (True, ptr, m, out) else lbl_data b end cb (ptr, m, out)))"

definition lbl_dlen ::
  "byte list \<Rightarrow> int \<Rightarrow> bool \<Rightarrow> recv_st \<Rightarrow> (bool \<times> recv_st) result" where
  "lbl_dlen b end cb st = (case st of (ptr, m, out) \<Rightarrow>
     then_do (rd32 b ptr) (\<lambda>n.
       if ptr + 4 \<ge> end then Inr (True, ptr + 4, m\<lparr>dlen := n\<rparr>, out)
       else lbl_name b end cb (ptr + 4, m\<lparr>dlen := n\<rparr>, out)))"

definition lbl_nlen ::
  "byte list \<Rightarrow> int \<Rightarrow> bool \<Rightarrow> recv_st \<Rightarrow> (bool \<times> recv_st) result" where
  "lbl_nlen b end cb st = (case st of (ptr, m, out) \<Rightarrow>
     then_do (rd32 b ptr) (\<lambda>n.
       if ptr + 4 \<ge> end then Inr (True, ptr + 4, m\<lparr>nlen := n\<rparr>, out)
       else lbl_dlen b end cb (ptr + 4, m\<lparr>nlen := n\<rparr>, out)))"

definition ctl_iter ::
  "byte list \<Rightarrow> int \<Rightarrow> bool \<Rightarrow> recv_st \<Rightarrow> (bool \<times> recv_st) result" where
  "ctl_iter b end cb st = (case st of (ptr, m, out) \<Rightarrow>
     if mname m \<noteq> None then lbl_data b end cb st
     else if dlen m \<noteq> 0 then lbl_name b end cb st
     else if nlen m \<noteq> 0 then lbl_dlen b end cb st
     else if cmd m \<noteq> 0 then lbl_nlen b end cb st
     else
       then_do (mem_rd b ptr 3) (\<lambda>tag.
         if tag \<noteq> ctl_tag then Inr (False, ptr + 1, m, out)
         else
           then_do (mem_rd b (ptr + 3) 1) (\<lambda>c.
             let m' = m\<lparr>cmd := uint (hd c)\<rparr> in
             if ptr + 4 \<ge> end then Inr (True, ptr + 4, m', out)
             else lbl_nlen b end cb (ptr + 4, m', out))))"

text \<open>
  The \<open>while\<close> loop.  \<open>None\<close> is a loop that never ends: the iteration may leave its state as
  it is, and then it leaves it so for ever.
\<close>

partial_function (option) ctl_loop ::
  "byte list \<Rightarrow> int \<Rightarrow> bool \<Rightarrow> recv_st \<Rightarrow> recv_st result option" where
  "ctl_loop b end cb st =
     (if fst st + 4 < end then
        (case ctl_iter b end cb st of
           Inl e \<Rightarrow> Some (Inl e)
         | Inr (brk, st') \<Rightarrow> (if brk then Some (Inr st') else ctl_loop b end cb st'))
      else Some (Inr st))"

definition ff_ctl_recv :: "ctl \<Rightarrow> bool \<Rightarrow> (int \<times> ctl \<times> ctrl_msg list) result option" where
  "ff_ctl_recv c cb =
     (case sb_in c of
        None \<Rightarrow> Some (Inr (-1, c, []))
      | Some sb \<Rightarrow>
          map_option (\<lambda>r. then_do r (\<lambda>(ptr, m, out).
              Inr (0, c\<lparr>sb_in := Some (sb\<lparr>rpos := ptr\<rparr>), ctl_msg := m\<rparr>, out)))
            (ctl_loop (buf sb) (wpos sb) cb (rpos sb, ctl_msg c, [])))"


subsection \<open>What the two ends promise each other\<close>

text \<open>The wire format, and the message the receiver's callback is given for it.\<close>

type_synonym ctl_item = "int \<times> byte list \<times> byte list"

definition ctl_header :: "ctl_item \<Rightarrow> byte list" where
  "ctl_header it = (case it of (cm, nm, dat) \<Rightarrow>
     ctl_tag @ [word_of_int cm] @ wb32 (word_of_int (int (length nm)))
       @ wb32 (word_of_int (int (length dat))))"

definition ctl_encode :: "ctl_item \<Rightarrow> byte list" where
  "ctl_encode it = (case it of (cm, nm, dat) \<Rightarrow> ctl_header it @ nm @ dat)"

definition ctl_valid :: "ctl_item \<Rightarrow> bool" where
  "ctl_valid it = (case it of (cm, nm, dat) \<Rightarrow>
     0 < cm \<and> cm \<le> 255 \<and> nm \<noteq> [] \<and> dat \<noteq> [] \<and>
     int (length nm) < 2147483648 \<and> int (length dat) < 2147483648)"

definition ctl_head_msg :: "ctl_item \<Rightarrow> ctrl_msg" where
  "ctl_head_msg it = (case it of (cm, nm, dat) \<Rightarrow>
     \<lparr>cmd = cm, nlen = int (length nm), dlen = int (length dat), mname = None, mdata = None\<rparr>)"

definition ctl_item_msg :: "ctl_item \<Rightarrow> ctrl_msg" where
  "ctl_item_msg it = (case it of (cm, nm, dat) \<Rightarrow>
     (ctl_head_msg it)\<lparr>mname := Some nm, mdata := Some dat\<rparr>)"

lemma length_ctl_header [simp]: "length (ctl_header it) = 12"
  by (simp add: ctl_header_def ctl_tag_def split: prod.splits)

lemma mem_rd_mid:
  "i = int (length pre) \<Longrightarrow> n = int (length ds) \<Longrightarrow> mem_rd (pre @ ds @ post) i n = Inr ds"
  by (simp add: mem_rd_def)

lemma uint_cmd_byte: "0 < cm \<Longrightarrow> cm \<le> 255 \<Longrightarrow> uint (word_of_int cm :: byte) = cm"
  by (simp add: uint_word_of_int)

lemma rd32_mid:
  "i = int (length pre) \<Longrightarrow> 0 \<le> n \<Longrightarrow> n < 2147483648 \<Longrightarrow>
   rd32 (pre @ wb32 (word_of_int n) @ post) i = Inr n"
  by (simp add: rd32_def mem_rd_mid)

text \<open>
  One iteration over a complete header that is followed by at least one more byte: the
  loop goes straight from the tag to the label \<open>name\<close>.
\<close>

lemma ctl_iter_header:
  assumes v: "ctl_valid it" and b: "b = pre @ ctl_header it @ post"
    and e: "end > int (length pre) + 12"
  shows "ctl_iter b end cb (int (length pre), msg_zero, out)
         = lbl_name b end cb (int (length pre) + 12, ctl_head_msg it, out)"
proof -
  obtain cm nm dat where it: "it = (cm, nm, dat)" by (cases it)
  let ?w = "\<lambda>xs. wb32 (word_of_int (int (length xs))) :: byte list"
  let ?i = "int (length pre)"
  have tag: "mem_rd b ?i 3 = Inr ctl_tag"
    using mem_rd_mid [of ?i pre 3 ctl_tag] by (simp add: b it ctl_header_def ctl_tag_def)
  have c: "mem_rd b (?i + 3) 1 = Inr [word_of_int cm]"
    using mem_rd_mid [of "?i + 3" "pre @ ctl_tag" 1 "[word_of_int cm]" "?w nm @ ?w dat @ post"]
    by (simp add: b it ctl_header_def ctl_tag_def)
  have n: "rd32 b (?i + 4) = Inr (int (length nm))"
    using rd32_mid [of "?i + 4" "pre @ ctl_tag @ [word_of_int cm]" "int (length nm)" "?w dat @ post"] v
    by (simp add: b it ctl_header_def ctl_tag_def ctl_valid_def)
  have d: "rd32 b (?i + 8) = Inr (int (length dat))"
    using rd32_mid [of "?i + 8" "pre @ ctl_tag @ [word_of_int cm] @ ?w nm" "int (length dat)" post] v
    by (simp add: b it ctl_header_def ctl_tag_def ctl_valid_def)
  have cm: "uint (word_of_int cm :: byte) = cm"
    using v by (intro uint_cmd_byte) (simp_all add: it ctl_valid_def)
  show ?thesis
    using e tag c n d cm
    by (simp add: ctl_iter_def lbl_nlen_def lbl_dlen_def msg_zero_def ctl_head_msg_def it add.commute)
qed

lemma ctl_iter_whole:
  assumes v: "ctl_valid it" and b: "b = pre @ ctl_encode it @ post"
    and e: "end \<ge> int (length pre + length (ctl_encode it))"
  shows "ctl_iter b end cb (int (length pre), msg_zero, out)
         = Inr (False, int (length pre + length (ctl_encode it)), msg_zero,
                if cb then out @ [ctl_item_msg it] else out)"
proof -
  obtain cm nm dat where it: "it = (cm, nm, dat)" by (cases it)
  let ?i = "int (length pre) + 12"
  have nz: "0 < length nm" "0 < length dat" using v by (simp_all add: it ctl_valid_def)
  have e': "end \<ge> ?i + int (length nm) + int (length dat)" using e by (simp add: it ctl_encode_def)
  with nz have "end > ?i" and lt: "\<not> end \<le> ?i + int (length nm)" by linarith+
  have n: "mem_rd b ?i (int (length nm)) = Inr nm"
    using mem_rd_mid [of ?i "pre @ ctl_header it" "int (length nm)" nm "dat @ post"]
    by (simp add: b it ctl_encode_def)
  have d: "mem_rd b (?i + int (length nm)) (int (length dat)) = Inr dat"
    using mem_rd_mid [of "?i + int (length nm)" "pre @ ctl_header it @ nm" "int (length dat)" dat post]
    by (simp add: b it ctl_encode_def)
  have "ctl_iter b end cb (int (length pre), msg_zero, out)
        = lbl_name b end cb (?i, ctl_head_msg it, out)"
    using \<open>end > ?i\<close> by (intro ctl_iter_header [OF v, where post = "nm @ dat @ post"])
      (simp_all add: b it ctl_encode_def)
  also have "\<dots> = Inr (False, ?i + int (length nm) + int (length dat), msg_zero,
                if cb then out @ [ctl_item_msg it] else out)"
    using n d nz e' lt by (simp add: lbl_name_def lbl_data_def ctl_head_msg_def ctl_item_msg_def it)
  finally show ?thesis by (simp add: it ctl_encode_def add.assoc)
qed

text \<open>A buffer that holds whole messages is dispatched message by message.\<close>

lemma ctl_loop_whole:
  assumes "\<forall>it \<in> set its. ctl_valid it"
    and "b = pre @ concat (map ctl_encode its) @ post"
    and "end = int (length pre + length (concat (map ctl_encode its)))"
  shows "ctl_loop b end True (int (length pre), msg_zero, out)
         = Some (Inr (end, msg_zero, out @ map ctl_item_msg its))"
  using assms
proof (induction its arbitrary: pre out)
  case Nil
  then show ?case by (simp add: ctl_loop.simps)
next
  case (Cons it its)
  let ?pre = "pre @ ctl_encode it"
  have len: "12 < length (ctl_encode it)"
    using Cons.prems(1) by (auto simp: ctl_encode_def ctl_valid_def split: prod.splits)
  have "ctl_iter b end True (int (length pre), msg_zero, out)
        = Inr (False, int (length ?pre), msg_zero, out @ [ctl_item_msg it])"
    using ctl_iter_whole [of it b pre "concat (map ctl_encode its) @ post" "end" True out] Cons.prems
    by simp
  then have "ctl_loop b end True (int (length pre), msg_zero, out)
      = ctl_loop b end True (int (length ?pre), msg_zero, out @ [ctl_item_msg it])"
    using len Cons.prems(3) by (subst ctl_loop.simps) simp
  also have "\<dots> = Some (Inr (end, msg_zero, (out @ [ctl_item_msg it]) @ map ctl_item_msg its))"
    using Cons.prems by (intro Cons.IH) simp_all
  finally show ?case by simp
qed

lemma sb_inv_splitE:
  assumes "sb_inv s"
  obtains pre post where "buf s = pre @ sb_pending s @ post" "rpos s = int (length pre)"
    "wpos s = int (length pre + length (sb_pending s))"
proof -
  from assms obtain r w where rw: "rpos s = int r" "wpos s = int w" "r \<le> w"
    "w \<le> length (buf s)" "msize s = int (length (buf s))" by (rule sb_inv_natE)
  have pend: "sb_pending s = take (w - r) (drop r (buf s))"
    using rw by (simp add: sb_pending_def)
  have "buf s = take r (buf s) @ sb_pending s @ drop w (buf s)"
    unfolding pend using rw(3) append_take_drop_id [of "w - r" "drop r (buf s)"]
    by (metis append_take_drop_id drop_drop le_add_diff_inverse2)
  then show ?thesis
    using rw by (intro that [of "take r (buf s)" "drop w (buf s)"]) (simp_all add: pend)
qed


subsection \<open>Sending into the buffer\<close>

lemma ff_ctl_send_steps:
  "ctl_valid (cm, nm, dat) \<Longrightarrow> sb_out c = Some s \<Longrightarrow>
   ff_ctl_send c cm (Some nm) (int (length nm)) (Some dat) (int (length dat))
   = then_do (sb_write (Some s) (Some (ctl_header (cm, nm, dat))) 12) (\<lambda>(_, s1).
     then_do (sb_write s1 (Some nm) (int (length nm))) (\<lambda>(_, s2).
     then_do (sb_write s2 (Some dat) (int (length dat))) (\<lambda>(_, s3).
     Inr (0, c\<lparr>sb_out := s3\<rparr>))))"
  by (cases nm; cases dat)
     (simp_all add: ff_ctl_send_def ctl_valid_def ctl_header_def ctl_tag_def)

lemma ff_ctl_send_fits:
  assumes v: "ctl_valid (cm, nm, dat)" and s: "sb_out c = Some s" "sb_inv s"
    and room: "length (sb_pending s) + length (ctl_encode (cm, nm, dat)) \<le> nat (msize s)"
  shows "\<exists>s'. ff_ctl_send c cm (Some nm) (int (length nm)) (Some dat) (int (length dat))
                = Inr (0, c\<lparr>sb_out := Some s'\<rparr>)
              \<and> sb_inv s' \<and> sb_pending s' = sb_pending s @ ctl_encode (cm, nm, dat)
              \<and> msize s' = msize s"
proof -
  let ?h = "ctl_header (cm, nm, dat)"
  from room have r: "length (sb_pending s) + 12 + length nm + length dat \<le> nat (msize s)"
    by (simp add: ctl_encode_def)
  from sb_write_cases [OF s(2), of ?h] r obtain s1 where
    w1: "sb_write (Some s) (Some ?h) 12 = Inr (0, Some s1)" and
    i1: "sb_inv s1" "sb_pending s1 = sb_pending s @ ?h" "msize s1 = msize s" by auto
  from sb_write_cases [OF i1(1), of nm] r i1 obtain s2 where
    w2: "sb_write (Some s1) (Some nm) (int (length nm)) = Inr (0, Some s2)" and
    i2: "sb_inv s2" "sb_pending s2 = sb_pending s1 @ nm" "msize s2 = msize s" by auto
  from sb_write_cases [OF i2(1), of dat] r i1 i2 obtain s3 where
    w3: "sb_write (Some s2) (Some dat) (int (length dat)) = Inr (0, Some s3)" and
    i3: "sb_inv s3" "sb_pending s3 = sb_pending s2 @ dat" "msize s3 = msize s" by auto
  have "ff_ctl_send c cm (Some nm) (int (length nm)) (Some dat) (int (length dat))
        = Inr (0, c\<lparr>sb_out := Some s3\<rparr>)"
    using w1 w2 w3 by (simp add: ff_ctl_send_steps [OF v s(1)])
  with i1 i2 i3 show ?thesis by (auto simp: ctl_encode_def)
qed

text \<open>A caller that sends a list of messages.\<close>

fun ctl_send_all :: "ctl \<Rightarrow> ctl_item list \<Rightarrow> ctl result" where
  "ctl_send_all c [] = Inr c"
| "ctl_send_all c ((cm, nm, dat) # its) =
     then_do (ff_ctl_send c cm (Some nm) (int (length nm)) (Some dat) (int (length dat)))
       (\<lambda>(_, c'). ctl_send_all c' its)"

lemma ctl_send_all_fits:
  assumes "\<forall>it \<in> set its. ctl_valid it" and "sb_out c = Some s" and "sb_inv s"
    and "length (sb_pending s) + length (concat (map ctl_encode its)) \<le> nat (msize s)"
  shows "\<exists>s'. ctl_send_all c its = Inr (c\<lparr>sb_out := Some s'\<rparr>)
              \<and> sb_inv s' \<and> sb_pending s' = sb_pending s @ concat (map ctl_encode its)"
  using assms
proof (induction its arbitrary: c s)
  case Nil
  then show ?case by (intro exI [of _ s]) simp
next
  case (Cons it its)
  obtain cm nm dat where it: "it = (cm, nm, dat)" by (cases it)
  from Cons.prems it ff_ctl_send_fits [of cm nm dat c s] obtain s1 where
    f: "ff_ctl_send c cm (Some nm) (int (length nm)) (Some dat) (int (length dat))
        = Inr (0, c\<lparr>sb_out := Some s1\<rparr>)" and
    s1: "sb_inv s1" "sb_pending s1 = sb_pending s @ ctl_encode it" "msize s1 = msize s"
    by auto
  from Cons.IH [of "c\<lparr>sb_out := Some s1\<rparr>" s1] Cons.prems s1 obtain s2 where
    "ctl_send_all (c\<lparr>sb_out := Some s1\<rparr>) its = Inr (c\<lparr>sb_out := Some s2\<rparr>)"
    "sb_inv s2" "sb_pending s2 = sb_pending s1 @ concat (map ctl_encode its)"
    by auto
  with f s1 it show ?case by auto
qed

lemma ctl_msg_recv_loop_data:
  assumes "sb_inv s" and "length (sb_pending s) + length (concat segs) \<le> nat (msize s)"
  shows "\<exists>s'. ctl_msg_recv_loop (Some s) (map RxData segs) = Inr (Some s', [])
              \<and> sb_inv s' \<and> sb_pending s' = sb_pending s @ concat segs"
  using assms
proof (induction "rx_size (map RxData segs)" arbitrary: s segs rule: less_induct)
  case less
  show ?case
  proof (cases segs)
    case Nil
    then show ?thesis using less.prems by (simp add: ctl_msg_recv_loop.simps)
  next
    case (Cons d ds)
    show ?thesis
    proof (cases "d = []")
      case True
      have "ctl_msg_recv_loop (Some s) (map RxData segs) = ctl_msg_recv_loop (Some s) (map RxData ds)"
        using Cons True by (simp add: ctl_msg_recv_loop.simps [of "Some s"])
      with less.hyps [of ds s] less.prems Cons True show ?thesis by simp
    next
      case False
      define got where "got = take 1024 d"
      define rest where "rest = (if length d \<le> 1024 then ds else drop 1024 d # ds)"
      have r: "sock_recv 1024 (map RxData segs) = (Got got, map RxData rest)"
        using Cons False by (simp add: got_def rest_def)
      have cc: "concat segs = got @ concat rest" using Cons by (simp add: got_def rest_def)
      obtain b bs where g: "got = b # bs" using False by (cases got) (simp_all add: got_def)
      from sb_write_cases [OF less.prems(1), of got] less.prems cc obtain s1 where
        w: "sb_write (Some s) (Some got) (int (length got)) = Inr (0, Some s1)" and
        s1: "sb_inv s1" "sb_pending s1 = sb_pending s @ got" "msize s1 = msize s"
        by auto
      have "rx_size (map RxData rest) < rx_size (map RxData segs)"
        using r g by (intro sock_recv_size) auto
      from less.hyps [OF this s1(1)] less.prems s1 cc obtain s2 where
        "ctl_msg_recv_loop (Some s1) (map RxData rest) = Inr (Some s2, [])" "sb_inv s2"
        "sb_pending s2 = sb_pending s1 @ concat rest" by auto
      moreover have "ctl_msg_recv_loop (Some s) (map RxData segs)
          = ctl_msg_recv_loop (Some s1) (map RxData rest)"
        using r g w by (subst ctl_msg_recv_loop.simps) simp
      ultimately show ?thesis using s1 cc by auto
    qed
  qed
qed

subsection \<open>Properties of the control channel\<close>

lemma ctl_msg_send_all:
  assumes "sb_out c = Some s" "sb_inv s"
  shows "\<exists>r c'. ctl_msg_send c [] = Inr (r, c', sb_pending s, [])"
proof (cases "wpos s - rpos s \<le> 0")
  case True
  then show ?thesis using assms by (simp add: ctl_msg_send_def sb_pending_def)
next
  case False
  from assms(2) obtain pre post where b: "buf s = pre @ sb_pending s @ post"
    "rpos s = int (length pre)" "wpos s = int (length pre + length (sb_pending s))"
    by (rule sb_inv_splitE)
  have "mem_rd (buf s) (rpos s) (wpos s - rpos s) = Inr (sb_pending s)"
    by (subst b(1), rule mem_rd_mid) (simp_all add: b(2,3))
  then show ?thesis using False assms(1) by (simp add: ctl_msg_send_def Let_def)
qed

text \<open>C20. A caller sends messages that fit into the output buffer; the kernel takes the bytes
  and the network delivers them in any segmentation; the receiver drains the socket and
  dispatches.  The callback is given exactly the messages that were sent, in their order,
  the input buffer is empty afterwards, and no step touches memory outside the buffers.
\<close>

theorem ctl_channel_roundtrip:
  assumes valid: "\<forall>it \<in> set its. ctl_valid it"
    and snd: "sb_out cl = Some so" "sb_inv so" "sb_pending so = []"
      "length (concat (map ctl_encode its)) \<le> nat (msize so)"
    and rcv: "sb_in sv = Some si" "sb_inv si" "sb_pending si = []" "ctl_msg sv = msg_zero"
      "length (concat (map ctl_encode its)) \<le> nat (msize si)"
  shows "\<exists>cl1 r cl2 bytes. ctl_send_all cl its = Inr cl1
           \<and> ctl_msg_send cl1 [] = Inr (r, cl2, bytes, [])
           \<and> (\<forall>segs. concat segs = bytes \<longrightarrow>
                (\<exists>sv1 sv2 si2. ctl_msg_recv sv (map RxData segs) = Inr (0, sv1, [])
                   \<and> ff_ctl_recv sv1 True = Some (Inr (0, sv2, map ctl_item_msg its))
                   \<and> sb_in sv2 = Some si2 \<and> sb_pending si2 = [] \<and> ctl_msg sv2 = msg_zero))"
proof -
  from ctl_send_all_fits [OF valid snd(1,2)] snd(3,4) obtain so1 where
    sent: "ctl_send_all cl its = Inr (cl\<lparr>sb_out := Some so1\<rparr>)" and
    so1: "sb_inv so1" "sb_pending so1 = concat (map ctl_encode its)" by auto
  from ctl_msg_send_all [of "cl\<lparr>sb_out := Some so1\<rparr>" so1] so1 obtain r cl2 where
    out: "ctl_msg_send (cl\<lparr>sb_out := Some so1\<rparr>) [] = Inr (r, cl2, sb_pending so1, [])" by auto
  have "\<exists>sv1 sv2 si2. ctl_msg_recv sv (map RxData segs) = Inr (0, sv1, [])
          \<and> ff_ctl_recv sv1 True = Some (Inr (0, sv2, map ctl_item_msg its))
          \<and> sb_in sv2 = Some si2 \<and> sb_pending si2 = [] \<and> ctl_msg sv2 = msg_zero"
    if net: "concat segs = sb_pending so1" for segs
  proof -
    from ctl_msg_recv_loop_data [OF rcv(2), of segs] rcv net so1 obtain s1 where
      l: "ctl_msg_recv_loop (Some si) (map RxData segs) = Inr (Some s1, [])" and
      s1: "sb_inv s1" "sb_pending s1 = concat (map ctl_encode its)" by auto
    from s1(1) obtain pre post where b: "buf s1 = pre @ sb_pending s1 @ post"
      "rpos s1 = int (length pre)" "wpos s1 = int (length pre + length (sb_pending s1))"
      by (rule sb_inv_splitE)
    have "ctl_loop (buf s1) (wpos s1) True (rpos s1, msg_zero, [])
          = Some (Inr (wpos s1, msg_zero, map ctl_item_msg its))"
      using ctl_loop_whole [OF valid, of "buf s1" pre post "wpos s1" "[]"] b s1(2) by simp
    then show ?thesis using l rcv(1,4)
      by (simp add: ctl_msg_recv_def ff_ctl_recv_def sb_pending_def)
  qed
  with sent out show ?thesis by blast
qed

text \<open>
  The witness: two messages through fresh buffers of 64 bytes.
\<close>

definition ctl_demo :: ctl where
  "ctl_demo = \<lparr>ctrl_fd = 4, serv_fd = 3, sb_in = sb_init True (Some (replicate 64 0)) 64,
     sb_out = sb_init True (Some (replicate 64 0)) 64, ctl_msg = msg_zero\<rparr>"

lemma ctl_demo_buffer:
  "sb_init True (Some (replicate 64 0)) 64
   = Some \<lparr>rpos = 0, wpos = 0, msize = 64, buf = replicate 64 0\<rparr>"
  by (simp add: sb_init_def)

theorem ctl_channel_roundtrip_witness:
  "\<exists>cl1 r cl2 bytes. ctl_send_all ctl_demo [(1, [99], [50, 0]), (2, [99, 0], [51])] = Inr cl1
     \<and> ctl_msg_send cl1 [] = Inr (r, cl2, bytes, [])
     \<and> (\<forall>segs. concat segs = bytes \<longrightarrow>
          (\<exists>sv1 sv2 si2. ctl_msg_recv ctl_demo (map RxData segs) = Inr (0, sv1, [])
             \<and> ff_ctl_recv sv1 True = Some (Inr (0, sv2,
                 map ctl_item_msg [(1, [99], [50, 0]), (2, [99, 0], [51])]))
             \<and> sb_in sv2 = Some si2 \<and> sb_pending si2 = [] \<and> ctl_msg sv2 = msg_zero))"
proof -
  let ?b = "\<lparr>rpos = 0, wpos = 0, msize = 64, buf = replicate 64 0\<rparr>"
  have i: "sb_inv ?b" "sb_pending ?b = []" by (simp_all add: sb_inv_def sb_pending_def)
  have len: "length (concat (map ctl_encode [(1, [99], [50, 0]), (2, [99, 0], [51])])) \<le> nat (msize ?b)"
    by (simp add: ctl_encode_def)
  show ?thesis
    by (rule ctl_channel_roundtrip [OF _ _ i len _ i _ len])
       (simp_all add: ctl_valid_def ctl_demo_def ctl_demo_buffer)
qed

text \<open>
  An iteration of \<open>ff_ctl_recv\<close> that changes nothing is repeated for ever, because nothing
  but the loop itself could change its state.
\<close>

lemma ctl_loop_stuck:
  assumes "ctl_iter b end cb st = Inr (False, st)" and "fst st + 4 < end"
  shows "ctl_loop b end cb st = None"
proof (rule ccontr)
  assume "ctl_loop b end cb st \<noteq> None"
  then obtain r where ret: "ctl_loop b end cb st = Some r" by blast
  have "ctl_iter b end cb st = Inr (False, st) \<and> fst st + 4 < end \<longrightarrow> False"
    by (rule ctl_loop.raw_induct [where
          P = "\<lambda>b end cb st r. ctl_iter b end cb st = Inr (False, st) \<and> fst st + 4 < end \<longrightarrow> False",
          OF _ ret]) fastforce
  with assms show False by blast
qed


text \<open>The receiver has no way to wait for the rest of a message.  If the header has arrived
  together with a part of the payload (more than four bytes of it, or all of the name and
  more than four bytes of the data), the loop of \<open>ff_ctl_recv\<close> neither reads on nor
  leaves: it never returns, and the single-threaded server stops.
\<close>

theorem ff_ctl_recv_hangs_on_partial_payload:
  assumes v: "ctl_valid (cm, nm, dat)"
    and sv: "sb_in sv = Some s" "sb_inv s" "ctl_msg sv = msg_zero"
    and pend: "sb_pending s = ctl_header (cm, nm, dat) @ take k (nm @ dat)"
    and part: "(5 \<le> k \<and> k < length nm \<and> k < length dat)
               \<or> (length nm + 5 \<le> k \<and> k < length nm + length dat)"
  shows "ff_ctl_recv sv cb = None"
proof -
  from sv(2) obtain pre post where b: "buf s = pre @ sb_pending s @ post"
    "rpos s = int (length pre)" "wpos s = int (length pre + length (sb_pending s))"
    by (rule sb_inv_splitE)
  let ?it = "(cm, nm, dat)" and ?i = "int (length pre) + 12" and ?m = "ctl_head_msg (cm, nm, dat)"
  have w: "wpos s = ?i + int k" using part by (auto simp: b(3) pend min_def)
  have nz: "0 < length nm" "0 < length dat" using v by (simp_all add: ctl_valid_def)
  have first: "ctl_iter (buf s) (wpos s) cb (int (length pre), msg_zero, [])
      = lbl_name (buf s) (wpos s) cb (?i, ?m, [])"
    using b(1) pend w part by (intro ctl_iter_header [OF v, of _ _ "take k (nm @ dat) @ post"]) auto
  have "\<exists>st. lbl_name (buf s) (wpos s) cb (?i, ?m, []) = Inr (False, st)
          \<and> ctl_iter (buf s) (wpos s) cb st = Inr (False, st) \<and> fst st + 4 < wpos s"
  proof (cases "k < length nm")
    case True
    then show ?thesis
      using part w nz
      by (intro exI [of _ "(?i, ?m, [])"])
         (simp add: lbl_name_def lbl_data_def ctl_iter_def ctl_head_msg_def)
  next
    case False
    then have k: "length nm + 5 \<le> k" "k < length nm + length dat" using part by auto
    have n: "mem_rd (buf s) ?i (int (length nm)) = Inr nm"
      using mem_rd_mid [of ?i "pre @ ctl_header ?it" "int (length nm)" nm
          "take (k - length nm) dat @ post"] k
      by (simp add: b(1) pend)
    show ?thesis
      using k w nz n
      by (intro exI [of _ "(?i + int (length nm), ?m\<lparr>mname := Some nm\<rparr>, [])"])
         (simp add: lbl_name_def lbl_data_def ctl_iter_def ctl_head_msg_def)
  qed
  then obtain st where st: "lbl_name (buf s) (wpos s) cb (?i, ?m, []) = Inr (False, st)"
    "ctl_loop (buf s) (wpos s) cb st = None"
    using ctl_loop_stuck by blast
  have "ctl_loop (buf s) (wpos s) cb (int (length pre), msg_zero, []) = None"
    using first st w part by (subst ctl_loop.simps) auto
  then show ?thesis using sv(1,3) b(2) by (simp add: ff_ctl_recv_def)
qed

text \<open>Five of six bytes of the name are there.\<close>

theorem ff_ctl_recv_hangs_witness:
  "ff_ctl_recv (ctl_demo\<lparr>sb_in := Some \<lparr>rpos = 0, wpos = 17, msize = 64,
       buf = ctl_header (1, [1, 2, 3, 4, 5, 6], [1, 2, 3, 4, 5, 6]) @ [1, 2, 3, 4, 5]
               @ replicate 47 0\<rparr>\<rparr>) True = None"
  by (rule ff_ctl_recv_hangs_on_partial_payload
        [where cm = 1 and nm = "[1, 2, 3, 4, 5, 6]" and dat = "[1, 2, 3, 4, 5, 6]" and k = 5,
         OF _ _ _ _ _ disjI1])
     (auto simp: ctl_valid_def ctl_demo_def sb_inv_def sb_pending_def)

text \<open>A header that has arrived only in part (the tag, the command and one to three bytes of
  the name length) is read past the write position: the loop consumes eight bytes and
  \<open>rpos\<close> ends up behind \<open>wpos\<close>, so the buffer's invariant is gone.
\<close>

theorem ff_ctl_recv_overruns_partial_header:
  assumes v: "ctl_valid it"
    and sv: "sb_in sv = Some s" "sb_inv s" "ctl_msg sv = msg_zero"
    and pend: "sb_pending s = take k (ctl_header it)" and k: "5 \<le> k" "k < 8"
    and room: "rpos s + 8 \<le> msize s"
  shows "\<exists>sv' s'. ff_ctl_recv sv cb = Some (Inr (0, sv', [])) \<and> sb_in sv' = Some s'
           \<and> rpos s' = rpos s + 8 \<and> wpos s' < rpos s' \<and> \<not> sb_inv s'"
proof -
  obtain cm nm dat where it: "it = (cm, nm, dat)" by (cases it)
  from sv(2) obtain pre post where b: "buf s = pre @ sb_pending s @ post"
    "rpos s = int (length pre)" "wpos s = int (length pre + length (sb_pending s))"
    by (rule sb_inv_splitE)
  have lk: "length (sb_pending s) = k" using k by (simp add: pend)
  have w: "wpos s = int (length pre) + int k" using b(3) lk by simp
  have "sb_pending s = ctl_tag @ [word_of_int cm] @ drop 4 (sb_pending s)"
    using k by (simp add: pend it ctl_header_def ctl_tag_def numeral_eq_Suc take_Cons')
  then obtain tl where tl: "sb_pending s = ctl_tag @ [word_of_int cm] @ tl" by blast
  have tag: "mem_rd (buf s) (int (length pre)) 3 = Inr ctl_tag"
    using mem_rd_mid [of _ pre 3 ctl_tag "[word_of_int cm] @ tl @ post"]
    by (simp add: b(1) tl ctl_tag_def)
  have c: "mem_rd (buf s) (int (length pre) + 3) 1 = Inr [word_of_int cm]"
    using mem_rd_mid [of "int (length pre) + 3" "pre @ ctl_tag" 1 "[word_of_int cm]" "tl @ post"]
    by (simp add: b(1) tl ctl_tag_def)
  have len: "length pre + 8 \<le> length (buf s)" using room b(2) sv(2) by (simp add: sb_inv_def)
  have "\<exists>n. rd32 (buf s) (int (length pre) + 4) = Inr n"
  proof -
    let ?xs = "take 4 (drop (length pre + 4) (buf s))"
    have "length ?xs = 4" using len by simp
    then obtain a b c d where "?xs = [a, b, c, d]" by (rule length_4E)
    moreover have "mem_rd (buf s) (int (length pre) + 4) 4 = Inr ?xs"
      using mem_rd_nat [of "length pre + 4" 4 "buf s"] len by simp
    ultimately show ?thesis by (simp add: rd32_def)
  qed
  then obtain n where n: "rd32 (buf s) (int (length pre) + 4) = Inr n" by blast
  let ?m = "msg_zero\<lparr>cmd := uint (word_of_int cm :: byte), nlen := n\<rparr>"
  have "ctl_iter (buf s) (wpos s) cb (int (length pre), msg_zero, [])
        = Inr (True, int (length pre) + 8, ?m, [])"
    using tag c n k w by (simp add: ctl_iter_def lbl_nlen_def msg_zero_def add.commute)
  then have "ctl_loop (buf s) (wpos s) cb (int (length pre), msg_zero, [])
             = Some (Inr (int (length pre) + 8, ?m, []))"
    using w k by (subst ctl_loop.simps) simp
  then show ?thesis using sv(1,3) b(2) w k
    by (simp add: ff_ctl_recv_def sb_inv_def)
qed

theorem ff_ctl_recv_overruns_witness:
  "\<exists>sv' s'. ff_ctl_recv (ctl_demo\<lparr>sb_in := Some \<lparr>rpos = 0, wpos = 6, msize = 64,
       buf = take 6 (ctl_header (1, [1], [2])) @ replicate 58 0\<rparr>\<rparr>) True = Some (Inr (0, sv', []))
     \<and> sb_in sv' = Some s' \<and> rpos s' = 8 \<and> wpos s' < rpos s' \<and> \<not> sb_inv s'"
  using ff_ctl_recv_overruns_partial_header [of "(1, [1], [2])"
      "ctl_demo\<lparr>sb_in := Some \<lparr>rpos = 0, wpos = 6, msize = 64,
         buf = take 6 (ctl_header (1, [1], [2])) @ replicate 58 0\<rparr>\<rparr>" _ 6 True]
  by (simp add: ctl_valid_def ctl_demo_def sb_inv_def sb_pending_def)


text \<open>The byte queue itself: over any sequence of writes and reads of a well-formed buffer,
  the bytes it held followed by the bytes accepted are the bytes handed out followed by
  the bytes still pending: nothing is lost, duplicated or reordered, also when a write moves
  the contents to the front of the block.
\<close>

definition sb_run :: "StreamBuffer \<Rightarrow> fifo_op list \<Rightarrow> byte list \<times> byte list \<times> StreamBuffer" where
  "sb_run = fifo_run sb_put sb_get"

theorem sb_run_is_fifo:
  assumes "sb_inv s" and "sb_run s ops = (accepted, out, s')"
  shows "sb_pending s @ accepted = out @ sb_pending s' \<and> sb_inv s' \<and> nat (msize s') = nat (msize s)"
  using sbq.run_fifo [of s ops accepted out s'] assms by (simp add: sb_run_def)

theorem sb_run_witness:
  "sb_pending \<lparr>rpos = 0, wpos = 0, msize = 4, buf = [0, 0, 0, 0]\<rparr> @ [1, 2, 3, 4, 5]
   = [1, 2] @ sb_pending (snd (snd (sb_run \<lparr>rpos = 0, wpos = 0, msize = 4, buf = [0, 0, 0, 0]\<rparr>
                              [Put [1, 2, 3], Get 2, Put [4, 5], Put [6, 7]])))"
proof -
  let ?s = "\<lparr>rpos = 0, wpos = 0, msize = 4, buf = [0, 0, 0, 0]\<rparr>"
  let ?ops = "[Put [1, 2, 3], Get 2, Put [4, 5], Put [6, 7]]"
  have "sb_run ?s ?ops = ([1, 2, 3, 4, 5], [1, 2], snd (snd (sb_run ?s ?ops)))"
    by (simp add: sb_run_def sb_put_def sb_get_def sb_write_def sb_read_def mem_rd_def mem_wr_def
        Let_def numeral_eq_Suc)
  then show ?thesis
    by (rule sb_run_is_fifo [THEN conjunct1, rotated]) (simp add: sb_inv_def)
qed

text \<open>\<open>ff_ctl_send\<close> reports success although the message is torn: when the output buffer has
  room for the header but not for the name, the header alone is queued and the return
  value is 0.
\<close>

theorem ff_ctl_send_torn:
  assumes v: "ctl_valid (cm, nm, dat)" and s: "sb_out c = Some s" "sb_inv s"
    and room: "length (sb_pending s) + 12 \<le> nat (msize s)"
    and no_name: "nat (msize s) < length (sb_pending s) + 12 + length nm"
    and no_data: "nat (msize s) < length (sb_pending s) + 12 + length dat"
  shows "\<exists>s'. ff_ctl_send c cm (Some nm) (int (length nm)) (Some dat) (int (length dat))
                = Inr (0, c\<lparr>sb_out := Some s'\<rparr>)
              \<and> sb_pending s' = sb_pending s @ ctl_header (cm, nm, dat)"
proof -
  let ?h = "ctl_header (cm, nm, dat)"
  from sb_write_cases [OF s(2), of ?h] room obtain s1 where
    w1: "sb_write (Some s) (Some ?h) 12 = Inr (0, Some s1)" and
    i1: "sb_inv s1" "sb_pending s1 = sb_pending s @ ?h" "msize s1 = msize s" by auto
  from sb_write_cases [OF i1(1), of nm] no_name i1 have
    w2: "sb_write (Some s1) (Some nm) (int (length nm)) = Inr (-1, Some s1)" by auto
  from sb_write_cases [OF i1(1), of dat] no_data i1 have
    w3: "sb_write (Some s1) (Some dat) (int (length dat)) = Inr (-1, Some s1)" by auto
  have "ff_ctl_send c cm (Some nm) (int (length nm)) (Some dat) (int (length dat))
        = Inr (0, c\<lparr>sb_out := Some s1\<rparr>)"
    using w1 w2 w3 by (simp add: ff_ctl_send_steps [OF v s(1)])
  with i1 show ?thesis by blast
qed

theorem ff_ctl_send_torn_witness:
  "\<exists>s'. ff_ctl_send (ctl_demo\<lparr>sb_out := Some \<lparr>rpos = 0, wpos = 0, msize = 16, buf = replicate 16 0\<rparr>\<rparr>)
           1 (Some (replicate 8 7)) 8 (Some (replicate 8 9)) 8
         = Inr (0, ctl_demo\<lparr>sb_out := Some s'\<rparr>)
       \<and> sb_pending s' = ctl_header (1, replicate 8 7, replicate 8 9)"
  using ff_ctl_send_torn [of 1 "replicate 8 7" "replicate 8 9"
      "ctl_demo\<lparr>sb_out := Some \<lparr>rpos = 0, wpos = 0, msize = 16, buf = replicate 16 0\<rparr>\<rparr>"]
  by (simp add: ctl_valid_def ctl_demo_def sb_inv_def sb_pending_def)

end
