(* ===== verification/AvString.thy ===== *)
theory AvString
  imports Prelude "HOL-Library.Signed_Division"
begin

text \<open>
  \<open>src/avstring.c\<close> and the character helpers of \<open>src/compact.h\<close>: prefix and substring search,
  bounded copies, tokens, case-insensitive comparison, name lists, and the calendar code
  behind \<open>ff_strptime\<close>.

  A C string that is only read is the list of its characters before the terminator; a
  \<open>const char *\<close> into it is the suffix that starts there, so \<open>*p\<close> is \<open>cread\<close> (0 at the end)
  and \<open>p++\<close> is \<open>tl\<close>.  A buffer that is written is a block of characters, accessed through
  \<open>mem_rd\<close>/\<open>mem_wr\<close>.  A search that returns a pointer or null is an option of a suffix.
\<close>

section \<open>Characters\<close>

abbreviation NUL :: char where "NUL \<equiv> CHR 0x00"

definition ord :: "char \<Rightarrow> int" where
  "ord c = of_char c"

fun cread :: "string \<Rightarrow> int" where
  "cread [] = 0"
| "cread (c # cs) = ord c"

definition av_toupper :: "int \<Rightarrow> int" where
  "av_toupper c = (if c \<ge> 97 \<and> c \<le> 122 then c XOR 0x20 else c)"

definition av_tolower :: "int \<Rightarrow> int" where
  "av_tolower c = (if c \<ge> 65 \<and> c \<le> 90 then c XOR 0x20 else c)"

definition av_isdigit :: "int \<Rightarrow> bool" where
  "av_isdigit c \<longleftrightarrow> c \<ge> 48 \<and> c \<le> 57"

definition av_isgraph :: "int \<Rightarrow> bool" where
  "av_isgraph c \<longleftrightarrow> c > 32 \<and> c < 127"

definition av_isspace :: "int \<Rightarrow> bool" where
  "av_isspace c \<longleftrightarrow> c = 32 \<or> c = 12 \<or> c = 10 \<or> c = 13 \<or> c = 9 \<or> c = 11"

definition av_isxdigit :: "int \<Rightarrow> bool" where
  "av_isxdigit c = (let c = av_tolower c in av_isdigit c \<or> (c \<ge> 97 \<and> c \<le> 102))"

lemma ord_mod: "ord c = ord c mod 256"
  unfolding ord_def by (metis char_of_char of_char_of)

lemma ord_range: "0 \<le> ord c" "ord c < 256"
  using ord_mod [of c] by (metis pos_mod_sign pos_mod_bound zero_less_numeral)+

lemma ord_eq_iff [simp]: "ord a = ord b \<longleftrightarrow> a = b"
  by (simp add: ord_def)

lemma ord_0_iff [simp]: "ord c = 0 \<longleftrightarrow> c = NUL"
  using ord_eq_iff [of c NUL] by (simp add: ord_def)

lemma xor_0x20_letters:
  "\<forall>n \<in> set [97..122]. n XOR (0x20 :: int) = n - 32"
  "\<forall>n \<in> set [65..90]. n XOR (0x20 :: int) = n + 32"
  by code_simp+

lemma av_tolower_eq: "av_tolower c = (if 65 \<le> c \<and> c \<le> 90 then c + 32 else c)"
proof (cases "65 \<le> c \<and> c \<le> 90")
  case True
  then have "c \<in> set [65..90]" by (simp only: set_upto atLeastAtMost_iff)
  with bspec [OF xor_0x20_letters(2) this] True show ?thesis by (simp add: av_tolower_def)
next
  case False
  then show ?thesis by (auto simp: av_tolower_def)
qed

lemma av_toupper_eq: "av_toupper c = (if 97 \<le> c \<and> c \<le> 122 then c - 32 else c)"
proof (cases "97 \<le> c \<and> c \<le> 122")
  case True
  then have "c \<in> set [97..122]" by (simp only: set_upto atLeastAtMost_iff)
  with bspec [OF xor_0x20_letters(1) this] True show ?thesis by (simp add: av_toupper_def)
next
  case False
  then show ?thesis by (auto simp: av_toupper_def)
qed

lemma av_tolower_zero [simp]: "av_tolower 0 = 0"
  by (simp add: av_tolower_def)

lemma av_tolower_0 [simp]: "av_tolower c = 0 \<longleftrightarrow> c = 0"
  by (auto simp: av_tolower_eq)

lemma av_toupper_tolower_eq:
  "av_toupper a = av_toupper b \<longleftrightarrow> av_tolower a = av_tolower b"
  by (auto simp: av_tolower_eq av_toupper_eq split: if_splits)

section \<open>Prefixes and substrings\<close>

text \<open>\<open>Some r\<close> is a return value of 1 with \<open>*ptr = r\<close>; \<open>None\<close> is 0 and \<open>*ptr\<close> left alone.\<close>

fun av_strstart :: "string \<Rightarrow> string \<Rightarrow> string option" where
  "av_strstart s [] = Some s"
| "av_strstart s (p # ps) =
     (if ord p \<noteq> 0 \<and> ord p = cread s then av_strstart (tl s) ps
      else if ord p = 0 then Some s else None)"

fun av_stristart :: "string \<Rightarrow> string \<Rightarrow> string option" where
  "av_stristart s [] = Some s"
| "av_stristart s (p # ps) =
     (if ord p \<noteq> 0 \<and> av_toupper (ord p) = av_toupper (cread s) then av_stristart (tl s) ps
      else if ord p = 0 then Some s else None)"

text \<open>\<open>do ... while (*s1++)\<close>: every suffix is tried, the empty one included.\<close>

fun av_stristr_loop :: "string \<Rightarrow> string \<Rightarrow> string option" where
  "av_stristr_loop s1 s2 =
     (if av_stristart s1 s2 \<noteq> None then Some s1
      else case s1 of [] \<Rightarrow> None | _ # s1' \<Rightarrow> av_stristr_loop s1' s2)"

definition av_stristr :: "string \<Rightarrow> string \<Rightarrow> string option" where
  "av_stristr s1 s2 = (if s2 = [] then Some s1 else av_stristr_loop s1 s2)"

text \<open>
  \<open>av_strnstr\<close> compares blocks with \<open>memcmp\<close>; the haystack is a block that need not be
  terminated, and a comparison that leaves it is a fault.
\<close>

fun av_strnstr_loop :: "char list \<Rightarrow> string \<Rightarrow> nat \<Rightarrow> char list option result" where
  "av_strnstr_loop hay needle n =
     (if n \<ge> length needle then
        then_do (mem_rd hay 0 (int (length needle))) (\<lambda>w.
          if w = needle then Inr (Some hay)
          else (case n of 0 \<Rightarrow> Inr None | Suc k \<Rightarrow> av_strnstr_loop (tl hay) needle k))
      else Inr None)"

definition av_strnstr :: "char list \<Rightarrow> string \<Rightarrow> nat \<Rightarrow> char list option result" where
  "av_strnstr hay needle n =
     (if length needle = 0 then Inr (Some hay) else av_strnstr_loop hay needle n)"

lemma cread_eq_ord: "NUL \<notin> set s \<Longrightarrow> c \<noteq> NUL \<Longrightarrow> ord c = cread s \<longleftrightarrow> (\<exists>s'. s = c # s')"
  by (cases s) auto

lemma av_strstart_iff:
  "NUL \<notin> set p \<Longrightarrow> av_strstart s p = Some r \<longleftrightarrow> s = p @ r"
proof (induction s p rule: av_strstart.induct)
  case (1 s)
  then show ?case by auto
next
  case (2 s p ps)
  then show ?case by (cases s) auto
qed

definition lower :: "string \<Rightarrow> int list" where
  "lower s = map (av_tolower \<circ> ord) s"

lemma lower_simps [simp]:
  "lower [] = []" "lower (c # s) = av_tolower (ord c) # lower s"
  "lower (s @ t) = lower s @ lower t" "length (lower s) = length s"
  by (simp_all add: lower_def)

lemma in_lower: "x \<in> set (lower s) \<longleftrightarrow> (\<exists>c \<in> set s. x = av_tolower (ord c))"
  by (auto simp: lower_def)

lemma av_stristart_iff:
  "NUL \<notin> set p \<Longrightarrow> av_stristart s p = Some r \<longleftrightarrow> (\<exists>q. s = q @ r \<and> lower q = lower p)"
proof (induction s p rule: av_stristart.induct)
  case (1 s)
  then show ?case by (auto simp: lower_def)
next
  case (2 s p ps)
  show ?case
  proof (cases s)
    case Nil
    then show ?thesis using 2 by (auto simp: av_toupper_eq lower_def split: if_splits)
  next
    case (Cons c cs)
    have "(\<exists>q. c # cs = q @ r \<and> lower q = lower (p # ps)) \<longleftrightarrow>
          av_tolower (ord c) = av_tolower (ord p) \<and> (\<exists>q. cs = q @ r \<and> lower q = lower ps)"
      by (auto simp: Cons_eq_append_conv lower_def)
    then show ?thesis using 2 Cons by (auto simp: av_toupper_tolower_eq)
  qed
qed


lemma av_stristr_loop_iff:
  "NUL \<notin> set p \<Longrightarrow>
   av_stristr_loop s p \<noteq> None \<longleftrightarrow> (\<exists>pre q post. s = pre @ q @ post \<and> lower q = lower p)"
proof (induction s p rule: av_stristr_loop.induct)
  case (1 s p)
  show ?case
  proof (cases "av_stristart s p")
    case (Some r)
    then obtain q where "s = q @ r" "lower q = lower p"
      using av_stristart_iff [OF "1.prems"] by blast
    then have "\<exists>pre q post. s = pre @ q @ post \<and> lower q = lower p"
      by (intro exI [of _ "[]"] exI [of _ q] exI [of _ r]) simp
    with Some show ?thesis by (subst av_stristr_loop.simps) simp
  next
    case None
    then have here: "\<not> (\<exists>q post. s = q @ post \<and> lower q = lower p)"
      using av_stristart_iff [OF "1.prems"] by (metis not_None_eq)
    show ?thesis
    proof (cases s)
      case Nil
      with None here show ?thesis by (subst av_stristr_loop.simps) auto
    next
      case (Cons c cs)
      have "(\<exists>pre q post. s = pre @ q @ post \<and> lower q = lower p) \<longleftrightarrow>
            (\<exists>pre q post. cs = pre @ q @ post \<and> lower q = lower p)"
        using here Cons by (metis append_Cons append_eq_Cons_conv append_Nil)
      with None Cons "1.IH" [OF _ Cons] "1.prems" show ?thesis
        by (subst av_stristr_loop.simps) simp
    qed
  qed
qed

lemma av_stristr_iff:
  "NUL \<notin> set p \<Longrightarrow>
   av_stristr s p \<noteq> None \<longleftrightarrow> (\<exists>pre q post. s = pre @ q @ post \<and> lower q = lower p)"
  using av_stristr_loop_iff [of p s] by (cases p) (auto simp: av_stristr_def)

section \<open>Bounded copies\<close>

text \<open>
  \<open>dst\<close> is a position \<open>p\<close> in a block \<open>d\<close>.  The first loop of \<open>av_strlcpy\<close>, which returns the
  block, the position, the rest of the source and \<open>len\<close>.
\<close>

fun av_strlcpy_loop ::
  "char list \<Rightarrow> int \<Rightarrow> string \<Rightarrow> nat \<Rightarrow> nat \<Rightarrow> (char list \<times> int \<times> string \<times> nat) result" where
  "av_strlcpy_loop d p [] sz len = Inr (d, p, [], len + 1)"
| "av_strlcpy_loop d p (c # cs) sz len =
     (if len + 1 < sz \<and> ord c \<noteq> 0
      then then_do (mem_wr d p [c]) (\<lambda>d'. av_strlcpy_loop d' (p + 1) cs sz (len + 1))
      else Inr (d, p, c # cs, len + 1))"

definition av_strlcpy :: "char list \<Rightarrow> int \<Rightarrow> string \<Rightarrow> nat \<Rightarrow> (nat \<times> char list) result" where
  "av_strlcpy d p src sz =
     then_do (av_strlcpy_loop d p src sz 0) (\<lambda>(d1, o1, rest, len).
     then_do (if len \<le> sz then mem_wr d1 o1 [NUL] else Inr d1) (\<lambda>d2.
     Inr (len + length rest - 1, d2)))"

text \<open>\<open>strlen\<close> of a block: the characters before the first terminator, or a fault.\<close>

definition cstr :: "char list \<Rightarrow> string result" where
  "cstr d = (if NUL \<in> set d then Inr (takeWhile (\<lambda>c. c \<noteq> NUL) d) else Inl OutOfBounds)"

definition av_strlcat :: "char list \<Rightarrow> string \<Rightarrow> nat \<Rightarrow> (nat \<times> char list) result" where
  "av_strlcat d src sz =
     then_do (cstr d) (\<lambda>s.
       let len = length s in
       if sz \<le> len + 1 then Inr (len + length src, d)
       else then_do (av_strlcpy d (int len) src (sz - len)) (\<lambda>(n, d'). Inr (len + n, d')))"

text \<open>
  \<open>av_strlcatf\<close>: \<open>fmt\<close> and its arguments are given as the text they format to; \<open>vsnprintf\<close>
  writes at most \<open>n - 1\<close> characters of it and a terminator, and returns its length.
\<close>

definition vsnprintf :: "char list \<Rightarrow> int \<Rightarrow> nat \<Rightarrow> string \<Rightarrow> (nat \<times> char list) result" where
  "vsnprintf d p n txt =
     (if n = 0 then Inr (length txt, d)
      else then_do (mem_wr d p (take (n - 1) txt @ [NUL])) (\<lambda>d'. Inr (length txt, d')))"

definition av_strlcatf :: "char list \<Rightarrow> nat \<Rightarrow> string \<Rightarrow> (nat \<times> char list) result" where
  "av_strlcatf d sz txt =
     then_do (cstr d) (\<lambda>s.
       let len = length s in
       then_do (vsnprintf d (int len) (if sz > len then sz - len else 0) txt) (\<lambda>(n, d').
         Inr (len + n, d')))"

lemma mem_wr_one:
  "k < length d \<Longrightarrow> mem_wr d (int k) [c] = Inr (d[k := c])"
  by (simp add: mem_wr_def upd_conv_take_nth_drop)

lemma av_strlcpy_loop_spec:
  assumes "NUL \<notin> set src" and "len < sz" and "k + min (sz - 1 - len) (length src) \<le> length d"
  shows "av_strlcpy_loop d (int k) src sz len =
     (let m = min (sz - 1 - len) (length src) in
      Inr (take k d @ take m src @ drop (k + m) d, int (k + m), drop m src, len + m + 1))"
  using assms
proof (induction src arbitrary: d k len)
  case Nil
  then show ?case by simp
next
  case (Cons c cs)
  show ?case
  proof (cases "len + 1 < sz")
    case False
    then show ?thesis using Cons.prems by (simp add: Let_def)
  next
    case True
    let ?m = "min (sz - 1 - (len + 1)) (length cs)"
    have m: "min (sz - 1 - len) (length (c # cs)) = Suc ?m" using True by auto
    have k: "k < length d" using Cons.prems(3) unfolding m by simp
    have "av_strlcpy_loop d (int k) (c # cs) sz len
        = av_strlcpy_loop (d[k := c]) (int (Suc k)) cs sz (len + 1)"
      using True Cons.prems(1) k by (auto simp: mem_wr_one add.commute upd_conv_take_nth_drop)
    also have "\<dots> = Inr (take (Suc k) (d[k := c]) @ take ?m cs @ drop (Suc k + ?m) (d[k := c]),
                        int (Suc k + ?m), drop ?m cs, len + 1 + ?m + 1)"
      using Cons.prems True unfolding m
      by (subst Cons.IH) (simp_all add: Let_def)
    also have "take (Suc k) (d[k := c]) = take k d @ [c]"
      using k by (simp add: take_Suc_conv_app_nth)
    finally show ?thesis unfolding m by (simp add: Let_def)
  qed
qed

lemma av_strlcpy_spec:
  assumes "NUL \<notin> set src" and "0 < sz" and "k + min sz (length src + 1) \<le> length d"
  shows "av_strlcpy d (int k) src sz =
     Inr (length src, take k d @ take (sz - 1) src @ [NUL] @ drop (k + min sz (length src + 1)) d)"
proof -
  let ?m = "min (sz - 1) (length src)"
  have m: "min sz (length src + 1) = ?m + 1" using assms(2) by auto
  have "av_strlcpy_loop d (int k) src sz 0
    = Inr (take k d @ take ?m src @ drop (k + ?m) d, int (k + ?m), drop ?m src, ?m + 1)"
    using av_strlcpy_loop_spec [of src 0 sz k d] assms m by (simp add: Let_def)
  moreover have "mem_wr (take k d @ take ?m src @ drop (k + ?m) d) (int (k + ?m)) [NUL]
    = Inr (take k d @ take ?m src @ [NUL] @ drop (k + ?m + 1) d)"
    using assms(3) m by (subst mem_wr_nat) (simp_all add: min_absorb2)
  moreover have "take ?m src = take (sz - 1) src" by (simp add: min_def)
  ultimately show ?thesis using assms(2) m by (simp add: av_strlcpy_def)
qed


section \<open>Tokens\<close>

definition whitespaces :: string where
  "whitespaces = '' '' @ [CHR 0x0A, CHR 0x09]"

text \<open>
  The loop of \<open>av_get_token\<close>: what is left of the input, the characters written to \<open>out\<close>
  and the number of them that \<open>end\<close> protects from the final trimming.
\<close>

function av_get_token_loop :: "string \<Rightarrow> string \<Rightarrow> string \<Rightarrow> nat \<Rightarrow> string \<times> nat \<times> string" where
  "av_get_token_loop term [] out e = (out, e, [])"
| "av_get_token_loop term (c # p) out e =
     (if c \<in> set term then (out, e, c # p)
      else if c = CHR 0x5C \<and> p \<noteq> [] then
        av_get_token_loop term (tl p) (out @ [hd p]) (length out + 1)
      else if c = CHR 0x27 then
        (let q = takeWhile (\<lambda>x. x \<noteq> CHR 0x27) p; r = dropWhile (\<lambda>x. x \<noteq> CHR 0x27) p in
         if r \<noteq> [] then av_get_token_loop term (tl r) (out @ q) (length (out @ q))
         else av_get_token_loop term r (out @ q) e)
      else av_get_token_loop term p (out @ [c]) e)"
  by pat_completeness auto
termination
  by (relation "measure (\<lambda>(term, p, out, e). length p)")
     (auto simp: less_Suc_eq_le length_dropWhile_le intro: le_trans [OF diff_le_self])

text \<open>
  \<open>do *out-- = 0; while (out >= end && strspn(out, WHITESPACES))\<close> cuts the white space after
  \<open>end\<close>.  The result is the token and the new value of \<open>*buf\<close>.
\<close>

definition av_get_token :: "string \<Rightarrow> string \<Rightarrow> string \<times> string" where
  "av_get_token buf term =
     (case av_get_token_loop term (dropWhile (\<lambda>c. c \<in> set whitespaces) buf) [] 0 of
        (out, e, rest) \<Rightarrow>
          (take e out @ rev (dropWhile (\<lambda>c. c \<in> set whitespaces) (rev (drop e out))), rest))"

text \<open>\<open>av_strtok\<close>: the token, and \<open>*saveptr\<close>.\<close>

definition av_strtok ::
  "string option \<Rightarrow> string \<Rightarrow> string option \<Rightarrow> string option \<times> string option" where
  "av_strtok so delim saveptr =
     (case (if so = None then saveptr else so) of
        None \<Rightarrow> (None, saveptr)
      | Some x \<Rightarrow>
          (case dropWhile (\<lambda>c. c \<in> set delim) x of
             [] \<Rightarrow> (None, None)
           | c # y \<Rightarrow>
               (let tok = c # takeWhile (\<lambda>c. c \<notin> set delim) y;
                    rest = dropWhile (\<lambda>c. c \<notin> set delim) y in
                (Some tok, if rest \<noteq> [] then Some (tl rest) else None))))"

text \<open>Every backslash-quoted text comes back from \<open>av_get_token\<close> as it was.\<close>

fun backslash_quote :: "string \<Rightarrow> string" where
  "backslash_quote [] = []"
| "backslash_quote (c # s) = CHR 0x5C # c # backslash_quote s"

lemma av_get_token_loop_quoted:
  assumes "CHR 0x5C \<notin> set term" and "rest = [] \<or> hd rest \<in> set term"
  shows "av_get_token_loop term (backslash_quote s @ rest) out (length out)
         = (out @ s, length (out @ s), rest)"
proof (induction s arbitrary: out)
  case Nil
  then show ?case using assms by (cases rest) auto
next
  case (Cons c s)
  from Cons.IH [of "out @ [c]"] show ?case using assms by simp
qed

section \<open>Comparison without case\<close>

fun av_strcasecmp :: "string \<Rightarrow> string \<Rightarrow> int" where
  "av_strcasecmp [] b = 0 - av_tolower (cread b)"
| "av_strcasecmp (x # xs) b =
     (let c1 = av_tolower (ord x); c2 = av_tolower (cread b) in
      if c1 \<noteq> 0 \<and> c1 = c2 then av_strcasecmp xs (tl b) else c1 - c2)"

text \<open>The first character is compared whatever \<open>n\<close> is: \<open>do ... while (a < end && ...)\<close>.\<close>

fun av_strncasecmp :: "string \<Rightarrow> string \<Rightarrow> nat \<Rightarrow> int" where
  "av_strncasecmp a b n =
     (let c1 = av_tolower (cread a); c2 = av_tolower (cread b) in
      if n > 1 \<and> c1 \<noteq> 0 \<and> c1 = c2 then av_strncasecmp (tl a) (tl b) (n - 1) else c1 - c2)"

declare av_strncasecmp.simps [simp del]

function match_name_loop :: "string \<Rightarrow> string \<Rightarrow> bool" where
  "match_name_loop name names =
     (let item = takeWhile (\<lambda>c. c \<noteq> CHR '','') names;
          p = dropWhile (\<lambda>c. c \<noteq> CHR '','') names in
      if p \<noteq> [] then
        (if av_strncasecmp name names (max (length item) (length name)) = 0 then True
         else match_name_loop name (tl p))
      else av_strcasecmp name names = 0)"
  by pat_completeness auto
termination
  by (relation "measure (\<lambda>(name, names). length names)")
     (auto intro!: length_dropWhile_pred)

declare match_name_loop.simps [simp del]

definition av_match_name :: "string option \<Rightarrow> string option \<Rightarrow> bool" where
  "av_match_name no nso =
     (case (no, nso) of (Some name, Some names) \<Rightarrow> match_name_loop name names | _ \<Rightarrow> False)"

text \<open>\<open>strrchr(s, c)\<close>: the suffix that starts at the last occurrence of \<open>c\<close>.\<close>

fun strrchr :: "string \<Rightarrow> char \<Rightarrow> string option" where
  "strrchr [] c = None"
| "strrchr (x # xs) c =
     (case strrchr xs c of Some r \<Rightarrow> Some r | None \<Rightarrow> if x = c then Some (x # xs) else None)"

definition av_match_ext :: "string option \<Rightarrow> string \<Rightarrow> bool" where
  "av_match_ext filename extensions =
     (case filename of
        None \<Rightarrow> False
      | Some f \<Rightarrow>
          (case strrchr f (CHR ''.'') of
             Some ext \<Rightarrow> av_match_name (Some (tl ext)) (Some extensions)
           | None \<Rightarrow> False))"


lemma av_strcasecmp_eq_0:
  "NUL \<notin> set a \<Longrightarrow> NUL \<notin> set b \<Longrightarrow> av_strcasecmp a b = 0 \<longleftrightarrow> lower a = lower b"
proof (induction a b rule: av_strcasecmp.induct)
  case (1 b)
  then show ?case by (cases b) auto
next
  case (2 x xs b)
  then show ?case by (cases b) (auto simp: Let_def)
qed

text \<open>
  \<open>av_strncasecmp\<close> agrees on two strings when their first characters up to \<open>n\<close> (one at
  least), terminators included, are equal without case.
\<close>

lemma take_lower:
  "take (max 1 n) (lower s @ [0]) = av_tolower (cread s) # take (n - 1) (tl (lower s @ [0]))"
proof -
  have "max 1 n = Suc (n - 1)" by simp
  then show ?thesis by (cases s) (simp_all only: take_Suc_Cons lower_simps append.simps cread.simps
        list.sel av_tolower_zero)
qed

lemma cread_tolower_0: "NUL \<notin> set s \<Longrightarrow> av_tolower (cread s) = 0 \<longleftrightarrow> s = []"
  by (cases s) auto

lemma av_strncasecmp_eq_0:
  "NUL \<notin> set a \<Longrightarrow> NUL \<notin> set b \<Longrightarrow>
   av_strncasecmp a b n = 0 \<longleftrightarrow>
   take (max 1 n) (lower a @ [0]) = take (max 1 n) (lower b @ [0])"
proof (induction a b n rule: av_strncasecmp.induct)
  case (1 a b n)
  let ?c1 = "av_tolower (cread a)" and ?c2 = "av_tolower (cread b)"
  show ?case
  proof (cases "n > 1 \<and> ?c1 \<noteq> 0 \<and> ?c1 = ?c2")
    case True
    then have ab: "a \<noteq> []" "b \<noteq> []" using 1(2,3) cread_tolower_0 by metis+
    have nul: "NUL \<notin> set (tl a)" "NUL \<notin> set (tl b)"
      using 1(2,3) by (metis list.set_sel(2) tl_Nil)+
    have "av_strncasecmp a b n = av_strncasecmp (tl a) (tl b) (n - 1)"
      using True by (subst av_strncasecmp.simps) (simp add: Let_def del: av_tolower_0)
    moreover have "tl (lower s @ [0]) = lower (tl s) @ [0]" if "s \<noteq> []" for s
      using that by (cases s) simp_all
    moreover have "max 1 (n - 1) = n - 1" using conjunct1 [OF True] by simp
    ultimately show ?thesis
      using 1(1) [OF refl refl True nul] True ab unfolding take_lower [of n] by simp
  next
    case False
    then have e: "av_strncasecmp a b n = ?c1 - ?c2"
      by (subst av_strncasecmp.simps) (auto simp add: Let_def simp del: av_tolower_0)
    show ?thesis
    proof (cases "?c1 = ?c2")
      case True
      then consider "?c1 = 0" "?c2 = 0" | "n \<le> 1" using False by fastforce
      then show ?thesis
      proof cases
        case 1
        then have "a = []" "b = []" using \<open>NUL \<notin> set a\<close> \<open>NUL \<notin> set b\<close> cread_tolower_0 by blast+
        then show ?thesis using e by simp
      next
        case 2
        then show ?thesis using e True unfolding take_lower by simp
      qed
    next
      case False
      then show ?thesis using e unfolding take_lower by simp
    qed
  qed
qed

fun split_on :: "char \<Rightarrow> string \<Rightarrow> string list" where
  "split_on c [] = [[]]"
| "split_on c (x # xs) =
     (if x = c then [] # split_on c xs
      else case split_on c xs of [] \<Rightarrow> [[x]] | w # ws \<Rightarrow> (x # w) # ws)"

lemma split_on_not_Nil [simp]: "split_on c s \<noteq> []"
  by (induction s) (auto split: list.splits)

lemma split_on_no_sep: "c \<notin> set s \<Longrightarrow> split_on c s = [s]"
  by (induction s) auto

lemma split_on_append: "c \<notin> set w \<Longrightarrow> split_on c (w @ c # s) = w # split_on c s"
  by (induction w) auto

lemma dropWhile_neq_Cons:
  "dropWhile (\<lambda>x. x \<noteq> c) s \<noteq> [] \<Longrightarrow>
   s = takeWhile (\<lambda>x. x \<noteq> c) s @ c # tl (dropWhile (\<lambda>x. x \<noteq> c) s)"
  by (induction s) auto

text \<open>One comparison of \<open>av_match_name\<close>: an item that is followed by a comma.\<close>

lemma take_max_append_eq:
  assumes "x \<notin> set u" "z \<notin> set v"
  shows "take (max (length v) (length u)) (u @ [z]) = take (max (length v) (length u)) (v @ x # r)
         \<longleftrightarrow> u = v"
proof
  assume eq: "take (max (length v) (length u)) (u @ [z]) = take (max (length v) (length u)) (v @ x # r)"
  consider "length u < length v" | "length u = length v" | "length v < length u" by linarith
  then show "u = v"
  proof cases
    case 1
    then have "take (length v) (u @ [z]) = v" using eq by (simp add: max_def)
    moreover have "z \<in> set (take (length v) (u @ [z]))" using 1 by simp
    ultimately show ?thesis using assms(2) by simp
  next
    case 2
    then show ?thesis using eq by simp
  next
    case 3
    then have "u = take (length u) (v @ x # r)" using eq by (simp add: max_def)
    moreover have "x \<in> set (take (length u) (v @ x # r))"
      using 3 by (simp add: take_Cons')
    ultimately show ?thesis using assms(1) by metis
  qed
qed simp

lemma lower_no_0: "NUL \<notin> set s \<Longrightarrow> 0 \<notin> set (lower s)"
  by (auto simp: lower_def)

lemma av_tolower_comma: "av_tolower (ord c) = av_tolower (ord (CHR '','')) \<longleftrightarrow> c = CHR '',''"
proof -
  have "ord (CHR '','') = 44" by (simp add: ord_def)
  then show ?thesis using ord_eq_iff [of c "CHR '',''"] by (auto simp: av_tolower_eq)
qed

lemma match_item:
  assumes n: "NUL \<notin> set name" "CHR '','' \<notin> set name" "name \<noteq> []"
    and i: "NUL \<notin> set item" "NUL \<notin> set r"
  shows "av_strncasecmp name (item @ CHR '','' # r) (max (length item) (length name)) = 0
         \<longleftrightarrow> lower name = lower item"
proof -
  let ?n = "max (length item) (length name)" and ?sep = "av_tolower (ord (CHR '',''))"
  have n1: "max 1 ?n = ?n" using n(3) by (cases name) auto
  have sep: "?sep \<notin> set (lower name)"
  proof
    assume "?sep \<in> set (lower name)"
    then have "\<exists>c \<in> set name. ?sep = av_tolower (ord c)" by (simp only: in_lower)
    then obtain c where c: "c \<in> set name" "?sep = av_tolower (ord c)" by (elim bexE)
    from c(2) have "c = CHR '',''" by (rule av_tolower_comma [THEN iffD1, OF sym])
    with c(1) n(2) show False by simp
  qed
  have "av_strncasecmp name (item @ CHR '','' # r) ?n = 0 \<longleftrightarrow>
        take ?n (lower name @ [0]) = take ?n (lower item @ ?sep # (lower r @ [0]))"
    using av_strncasecmp_eq_0 [of name "item @ CHR '','' # r" ?n] n(1) i unfolding n1 by simp
  also have "\<dots> \<longleftrightarrow> lower name = lower item"
    using take_max_append_eq [OF sep lower_no_0 [OF i(1)], of "lower r @ [0]"] by simp
  finally show ?thesis .
qed

lemma sep_split:
  "c \<notin> set w \<Longrightarrow> takeWhile (\<lambda>x. x \<noteq> c) (w @ c # s) = w"
  "c \<notin> set w \<Longrightarrow> dropWhile (\<lambda>x. x \<noteq> c) (w @ c # s) = c # s"
  by (induction w) auto

lemma match_name_loop_comma:
  "CHR '','' \<notin> set item \<Longrightarrow>
   match_name_loop name (item @ CHR '','' # r)
   \<longleftrightarrow> av_strncasecmp name (item @ CHR '','' # r) (max (length item) (length name)) = 0
       \<or> match_name_loop name r"
  by (subst match_name_loop.simps) (auto simp: sep_split)

lemma match_name_loop_last:
  "CHR '','' \<notin> set names \<Longrightarrow> match_name_loop name names \<longleftrightarrow> av_strcasecmp name names = 0"
  by (subst match_name_loop.simps) (auto simp: dropWhile_eq_Nil_conv)

lemma match_name_loop_iff:
  assumes n: "NUL \<notin> set name" "CHR '','' \<notin> set name" "name \<noteq> []"
  shows "NUL \<notin> set names \<Longrightarrow> match_name_loop name names
   \<longleftrightarrow> (\<exists>item \<in> set (split_on (CHR '','') names). lower name = lower item)"
proof (induction "length names" arbitrary: names rule: less_induct)
  case less
  show ?case
  proof (cases "CHR '','' \<in> set names")
    case False
    then show ?thesis using n less.prems
      by (simp add: match_name_loop_last split_on_no_sep av_strcasecmp_eq_0)
  next
    case True
    then obtain item r where names: "names = item @ CHR '','' # r" "CHR '','' \<notin> set item"
      by (meson split_list_first)
    have "match_name_loop name r
        \<longleftrightarrow> (\<exists>item \<in> set (split_on (CHR '','') r). lower name = lower item)"
      using names(1) less.prems by (intro less.hyps) auto
    moreover have "av_strncasecmp name names (max (length item) (length name)) = 0
        \<longleftrightarrow> lower name = lower item"
      unfolding names(1) using names(1) less.prems by (intro match_item [OF n]) auto
    ultimately show ?thesis
      using names match_name_loop_comma [OF names(2), of name r] by (simp add: split_on_append)
  qed
qed


text \<open>\<open>av_match_name\<close> on names without a comma: true exactly when the name is, without
  case, one of the comma-separated items, although the code compares with a length that
  may run over the comma.
\<close>

theorem av_match_name_iff:
  assumes "NUL \<notin> set name" "CHR '','' \<notin> set name" "name \<noteq> []" "NUL \<notin> set names"
  shows "av_match_name (Some name) (Some names)
         \<longleftrightarrow> (\<exists>item \<in> set (split_on (CHR '','') names). lower name = lower item)"
  using match_name_loop_iff [OF assms] by (simp add: av_match_name_def)

theorem av_match_name_witness:
  "av_match_name (Some ''TS'') (Some ''m3u8,ts,flv'') \<and> \<not> av_match_name (Some ''t'') (Some ''m3u8,ts,flv'')"
proof -
  have "av_match_name (Some ''TS'') (Some ''m3u8,ts,flv'')"
    by (subst av_match_name_iff) (simp_all add: lower_def ord_def av_tolower_eq)
  moreover have "\<not> av_match_name (Some ''t'') (Some ''m3u8,ts,flv'')"
    by (subst av_match_name_iff) (simp_all add: lower_def ord_def av_tolower_eq)
  ultimately show ?thesis ..
qed

text \<open>The extension test of the server: everything behind the last dot.\<close>

lemma strrchr_None: "strrchr s c = None \<longleftrightarrow> c \<notin> set s"
  by (induction s) (auto split: option.splits)

lemma strrchr_Some:
  "strrchr s c = Some r \<longleftrightarrow> (\<exists>pre t. s = pre @ r \<and> r = c # t \<and> c \<notin> set t)"
proof (induction s)
  case Nil
  then show ?case by simp
next
  case (Cons x xs)
  show ?case
  proof (cases "strrchr xs c")
    case None
    then have n: "c \<notin> set xs" by (simp add: strrchr_None)
    have "(\<exists>pre t. x # xs = pre @ r \<and> r = c # t \<and> c \<notin> set t) \<longleftrightarrow> x = c \<and> r = x # xs"
      using n by (auto simp: Cons_eq_append_conv)
    then show ?thesis using None by auto
  next
    case (Some r')
    then have "c \<in> set xs" by (metis strrchr_None option.distinct(1))
    then have "(\<exists>pre t. x # xs = pre @ r \<and> r = c # t \<and> c \<notin> set t)
        \<longleftrightarrow> (\<exists>pre t. xs = pre @ r \<and> r = c # t \<and> c \<notin> set t)"
      by (auto simp: Cons_eq_append_conv)
    then show ?thesis using Cons.IH Some by simp
  qed
qed

lemma av_match_ext_no_dot: "CHR ''.'' \<notin> set f \<Longrightarrow> \<not> av_match_ext (Some f) e"
  by (simp add: av_match_ext_def strrchr_None [symmetric])

lemma av_match_ext_single:
  assumes "NUL \<notin> set (f @ CHR ''.'' # x)" "CHR ''.'' \<notin> set x" "x \<noteq> []" "CHR '','' \<notin> set x"
    "NUL \<notin> set e" "CHR '','' \<notin> set e"
  shows "av_match_ext (Some (f @ CHR ''.'' # x)) e \<longleftrightarrow> lower x = lower e"
proof -
  have "strrchr (f @ CHR ''.'' # x) (CHR ''.'') = Some (CHR ''.'' # x)"
    using assms(2) by (auto simp: strrchr_Some)
  then show ?thesis using assms
    by (simp add: av_match_ext_def av_match_name_def match_name_loop_last av_strcasecmp_eq_0)
qed

text \<open>\<open>av_strlcpy\<close> of a string into a buffer with room for what it may write: the buffer holds
  the longest prefix that fits together with its terminator, everything else is untouched, and
  the return value is the length of the source, so truncation is seen by the caller.
\<close>

theorem av_strlcpy_truncates:
  assumes "NUL \<notin> set src" and "0 < sz" and "k + min sz (length src + 1) \<le> length d"
  shows "\<exists>d'. av_strlcpy d (int k) src sz = Inr (length src, d') \<and> length d' = length d
           \<and> cstr (drop k d') = Inr (take (sz - 1) src)
           \<and> take k d' = take k d
           \<and> drop (k + min sz (length src + 1)) d' = drop (k + min sz (length src + 1)) d"
proof -
  let ?m = "min sz (length src + 1)"
  let ?d = "take k d @ take (sz - 1) src @ [NUL] @ drop (k + ?m) d"
  have m: "length (take (sz - 1) src) + 1 = ?m" using assms(2) by auto
  have len: "length ?d = length d" using assms(3) m by auto
  have pre: "length (take k d @ take (sz - 1) src @ [NUL]) = k + ?m" using assms(3) m by auto
  have dk: "drop k ?d = take (sz - 1) src @ NUL # drop (k + ?m) d" using assms(3) by simp
  have "NUL \<notin> set (take (sz - 1) src)" using assms(1) by (meson in_set_takeD)
  then have "cstr (drop k ?d) = Inr (take (sz - 1) src)"
    unfolding dk by (simp add: cstr_def sep_split)
  moreover have "drop (k + ?m) ?d = drop (k + ?m) d"
    using pre by (metis append.assoc append_eq_conv_conj)
  moreover have "take k ?d = take k d" using assms(3) by simp
  ultimately show ?thesis using av_strlcpy_spec [OF assms] len by blast
qed

theorem av_strlcpy_witness:
  "\<exists>d'. av_strlcpy ''xxxxxx'' (int 1) ''hello'' 3 = Inr (5, d') \<and> length d' = 6
     \<and> cstr (drop 1 d') = Inr ''he'' \<and> take 1 d' = ''x'' \<and> drop (1 + min 3 6) d' = ''xx''"
  using av_strlcpy_truncates [of "''hello''" 3 1 "''xxxxxx''"]
  by (simp add: eval_nat_numeral)

section \<open>The calendar behind \<open>ff_strptime\<close>\<close>

record tm =
  tm_year :: int
  tm_mon :: int
  tm_mday :: int
  tm_hour :: int
  tm_min :: int
  tm_sec :: int

text \<open>C's division truncates: \<open>sdiv\<close>.\<close>

definition av_timegm :: "tm \<Rightarrow> int" where
  "av_timegm t =
     (let y0 = tm_year t + 1900; m0 = tm_mon t + 1; d = tm_mday t;
          m = (if m0 < 3 then m0 + 12 else m0);
          y = (if m0 < 3 then y0 - 1 else y0);
          t1 = 86400 *
               (d + (153 * m - 457) sdiv 5 + 365 * y + y sdiv 4 - y sdiv 100 + y sdiv 400 - 719469)
      in t1 + (3600 * tm_hour t + 60 * tm_min t + tm_sec t))"

definition mon_names :: "string list" where
  "mon_names = [[], ''Jan'', ''Feb'', ''Mar'', ''Apr'', ''May'', ''Jun'',
     ''Jul'', ''Aug'', ''Sep'', ''Oct'', ''Nov'', ''Dec'']"

fun get_mon_loop :: "string \<Rightarrow> int \<Rightarrow> string list \<Rightarrow> int" where
  "get_mon_loop m i [] = 0"
| "get_mon_loop m i (n # ns) = (if n = m then i else get_mon_loop m (i + 1) ns)"

definition get_mon :: "string \<Rightarrow> int" where
  "get_mon m = get_mon_loop m 0 mon_names"

text \<open>
  The \<open>get_word\<close> of this file copies without a bound; the destination is the caller's
  \<open>word[64]\<close>, here a block, and a longer word is a write outside it.  Returned are the
  block and the number of characters consumed.
\<close>

definition tm_get_word :: "string \<Rightarrow> char list \<Rightarrow> (char list \<times> nat) result" where
  "tm_get_word src dst =
     (let p = dropWhile (\<lambda>c. av_isspace (ord c)) src;
          w = takeWhile (\<lambda>c. \<not> av_isspace (ord c)) p;
          r = dropWhile (\<lambda>c. \<not> av_isspace (ord c)) p in
      then_do (mem_wr dst 0 (w @ [NUL])) (\<lambda>dst'. Inr (dst', length src - length r)))"

text \<open>The civil calendar to compare with.\<close>

definition leap_year :: "int \<Rightarrow> bool" where
  "leap_year y \<longleftrightarrow> 4 dvd y \<and> (\<not> 100 dvd y \<or> 400 dvd y)"

definition days_in_month :: "int \<Rightarrow> int \<Rightarrow> int" where
  "days_in_month y m =
     (if m = 2 then (if leap_year y then 29 else 28)
      else if m = 4 \<or> m = 6 \<or> m = 9 \<or> m = 11 then 30 else 31)"

definition valid_date :: "int \<times> int \<times> int \<Rightarrow> bool" where
  "valid_date dt = (case dt of (y, m, d) \<Rightarrow>
     0 < y \<and> 1 \<le> m \<and> m \<le> 12 \<and> 1 \<le> d \<and> d \<le> days_in_month y m)"

fun next_date :: "int \<times> int \<times> int \<Rightarrow> int \<times> int \<times> int" where
  "next_date (y, m, d) =
     (if d < days_in_month y m then (y, m, d + 1)
      else if m < 12 then (y, m + 1, 1) else (y + 1, 1, 1))"

definition tm_of :: "int \<times> int \<times> int \<Rightarrow> tm" where
  "tm_of dt = (case dt of (y, m, d) \<Rightarrow>
     \<lparr>tm_year = y - 1900, tm_mon = m - 1, tm_mday = d, tm_hour = 0, tm_min = 0, tm_sec = 0\<rparr>)"

lemma sdiv_nonneg: "0 \<le> a \<Longrightarrow> 0 < b \<Longrightarrow> a sdiv b = a div (b :: int)"
  by (cases "a = 0") (simp_all add: signed_divide_int_def)

definition leap_days :: "int \<Rightarrow> int" where
  "leap_days y = y div 4 - y div 100 + y div 400"

definition day_number :: "int \<Rightarrow> int \<Rightarrow> int \<Rightarrow> int" where
  "day_number y m d = d + (153 * m - 457) div 5 + 365 * y + leap_days y - 719469"

lemma av_timegm_day:
  assumes "0 < y" "1 \<le> m" "m \<le> 12"
  shows "av_timegm (tm_of (y, m, d)) =
    86400 * (if m < 3 then day_number (y - 1) (m + 12) d else day_number y m d)"
  using assms
  by (simp add: av_timegm_def tm_of_def day_number_def leap_days_def Let_def sdiv_nonneg)

lemma div_pred:
  assumes "0 < n"
  shows "y div n = (y - 1) div n + (if n dvd y then 1 else 0 :: int)"
proof (cases "n dvd y")
  case True
  then obtain k where k: "y = n * k" ..
  have "(y - 1) div n = k - 1"
    using assms by (intro int_div_pos_eq [where r = "n - 1"]) (simp_all add: k algebra_simps)
  with k assms show ?thesis by simp
next
  case False
  then have "0 < y mod n"
    using assms pos_mod_sign [of n y] by (metis dvd_eq_mod_eq_0 order_less_le)
  moreover have "y mod n < n" using assms by simp
  ultimately have "(y - 1) div n = y div n"
    using mult_div_mod_eq [of n y]
    by (intro int_div_pos_eq [where r = "y mod n - 1"]) linarith+
  with False show ?thesis by simp
qed

lemma leap_days_step: "leap_days y = leap_days (y - 1) + (if leap_year y then 1 else 0)"
proof -
  have sum: "(a + (if p then 1 else 0)) - (b + (if q then 1 else 0)) + (c + (if r then 1 else 0))
      = (a - b + c) + (if p \<and> (\<not> q \<or> r) then 1 else 0)"
    if "q \<longrightarrow> p" "r \<longrightarrow> q" for a b c :: int and p q r
    using that by (cases p; cases q; cases r) simp_all
  have "(4 :: int) dvd 100" "(100 :: int) dvd 400" by simp_all
  then have "100 dvd y \<longrightarrow> 4 dvd y" "400 dvd y \<longrightarrow> 100 dvd y"
    by (blast intro: dvd_trans)+
  note sum [OF this, of "(y - 1) div 4" "(y - 1) div 100" "(y - 1) div 400"]
  then show ?thesis
    unfolding leap_days_def leap_year_def
    using div_pred [of 4 y] div_pred [of 100 y] div_pred [of 400 y]
    by (simp only: zero_less_numeral simp_thms)
qed

lemma next_date_days:
  assumes "valid_date (y, m, d)"
  shows "av_timegm (tm_of (next_date (y, m, d))) = av_timegm (tm_of (y, m, d)) + 86400"
proof -
  from assms have v: "0 < y" "1 \<le> m" "m \<le> 12" "d \<le> days_in_month y m"
    by (auto simp: valid_date_def)
  show ?thesis
  proof (cases "d < days_in_month y m")
    case True
    then show ?thesis using v by (simp add: av_timegm_day day_number_def)
  next
    case False
    then have d: "d = days_in_month y m" using v(4) by simp
    have "m = 1 \<or> m = 2 \<or> m = 3 \<or> m = 4 \<or> m = 5 \<or> m = 6 \<or> m = 7 \<or> m = 8 \<or> m = 9
          \<or> m = 10 \<or> m = 11 \<or> m = 12" using v by presburger
    then show ?thesis using v(1) False leap_days_step [of y]
      by (elim disjE) (simp_all add: av_timegm_day day_number_def d days_in_month_def)
  qed
qed

fun nth_date :: "nat \<Rightarrow> int \<times> int \<times> int" where
  "nth_date 0 = (1970, 1, 1)"
| "nth_date (Suc n) = next_date (nth_date n)"

lemma next_date_valid: "valid_date dt \<Longrightarrow> valid_date (next_date dt)"
  by (cases dt) (auto simp: valid_date_def days_in_month_def)

lemma nth_date_valid: "valid_date (nth_date n)"
proof (induction n)
  case 0
  then show ?case by (simp add: valid_date_def days_in_month_def)
next
  case (Suc n)
  then show ?case by (simp add: next_date_valid)
qed

text \<open>\<open>av_timegm\<close> agrees with the calendar: the date that is \<open>n\<close> days after 1 January 1970,
  found by stepping through months and leap years, is converted to \<open>n\<close> times 86400.
\<close>

lemma av_timegm_counts_days: "av_timegm (tm_of (nth_date n)) = 86400 * int n"
proof (induction n)
  case 0
  then show ?case
    by (simp add: av_timegm_day day_number_def leap_days_def)
next
  case (Suc n)
  obtain y m d where "nth_date n = (y, m, d)" by (cases "nth_date n")
  with Suc next_date_days [of y m d] nth_date_valid [of n] show ?case by simp
qed

end
