(* ===== verification/HttpText.thy ===== *)
theory HttpText
  imports AvString
begin

text \<open>
  The text routines of \<open>src/ffserver.c\<close>: URL decoding in place, the UTF-8 test, the content
  type table, the filter of the error page, and the word and line readers of the request
  parser, with the \<open>strtol\<close> family they rely on.
\<close>

section \<open>Numbers in text\<close>

text \<open>
  \<open>strtoll\<close> for the two bases the program uses: white space, a sign, for base 16 an optional
  \<open>0x\<close> before a digit, then digits; the value saturates at the ends of \<open>long long\<close>.
\<close>

definition digit_val :: "int \<Rightarrow> char \<Rightarrow> int option" where
  "digit_val base c =
     (let n = ord c;
          v = (if 48 \<le> n \<and> n \<le> 57 then n - 48
               else if 97 \<le> n \<and> n \<le> 122 then n - 87
               else if 65 \<le> n \<and> n \<le> 90 then n - 55 else 99) in
      if v < base then Some v else None)"

fun strto_digits :: "int \<Rightarrow> int \<Rightarrow> string \<Rightarrow> int" where
  "strto_digits base acc [] = acc"
| "strto_digits base acc (c # cs) =
     (case digit_val base c of None \<Rightarrow> acc | Some v \<Rightarrow> strto_digits base (acc * base + v) cs)"

definition saturate64 :: "int \<Rightarrow> int" where
  "saturate64 n = max (- (2 ^ 63)) (min (2 ^ 63 - 1) n)"

definition strtoll :: "int \<Rightarrow> string \<Rightarrow> int" where
  "strtoll base s =
     (let s1 = dropWhile (\<lambda>c. av_isspace (ord c)) s;
          neg = (case s1 of c # _ \<Rightarrow> c = CHR ''-'' | [] \<Rightarrow> False);
          s2 = (case s1 of c # r \<Rightarrow> if c = CHR ''-'' \<or> c = CHR ''+'' then r else s1 | [] \<Rightarrow> []);
          s3 = (case s2 of z # x # d # r \<Rightarrow>
                  if base = 16 \<and> z = CHR ''0'' \<and> (x = CHR ''x'' \<or> x = CHR ''X'')
                     \<and> digit_val 16 d \<noteq> None then d # r else s2
                | _ \<Rightarrow> s2);
          v = strto_digits base 0 s3 in
      saturate64 (if neg then - v else v))"

text \<open>The conversion to \<open>int\<close> that \<open>(int)strtol(...)\<close> and \<open>atoi\<close> apply.\<close>

definition to_int32 :: "int \<Rightarrow> int" where
  "to_int32 n = sint (word_of_int n :: 32 word)"

section \<open>URL decoding\<close>

definition hex2int :: "char \<Rightarrow> int" where
  "hex2int c =
     (let u = av_toupper (ord c) in if av_isdigit u then u - 48 else u - 65 + 10)"

definition c_isxdigit :: "char \<Rightarrow> bool" where
  "c_isxdigit c \<longleftrightarrow> av_isxdigit (ord c)"

definition hex_char :: "char \<Rightarrow> char \<Rightarrow> char" where
  "hex_char x y = char_of (push_bit 4 (hex2int x) OR hex2int y)"

text \<open>Reading one element of a block.\<close>

definition rd1 :: "char list \<Rightarrow> nat \<Rightarrow> char result" where
  "rd1 b i = (if i < length b then Inr (b ! i) else Inl OutOfBounds)"

text \<open>
  \<open>url_decode(src)\<close> works in place: \<open>i\<close> reads, \<open>j\<close> writes behind it, both into the same
  block.
\<close>

function url_decode_loop :: "char list \<Rightarrow> nat \<Rightarrow> nat \<Rightarrow> (nat \<times> char list) result" where
  "url_decode_loop b i j =
     then_do (rd1 b i) (\<lambda>c.
       if c = NUL then then_do (mem_wr b (int j) [NUL]) (\<lambda>b'. Inr (j, b'))
       else if c = CHR ''%'' then
         then_do (rd1 b (i + 1)) (\<lambda>x.
         then_do (if c_isxdigit x then rd1 b (i + 2) else Inr x) (\<lambda>y.
           if c_isxdigit x \<and> c_isxdigit y then
             then_do (mem_wr b (int j) [hex_char x y]) (\<lambda>b'. url_decode_loop b' (i + 3) (j + 1))
           else
             then_do (mem_wr b (int j) [c]) (\<lambda>b'. url_decode_loop b' (i + 1) (j + 1))))
       else then_do (mem_wr b (int j) [c]) (\<lambda>b'. url_decode_loop b' (i + 1) (j + 1)))"
  by pat_completeness auto
termination
  by (relation "measure (\<lambda>(b, i, j). length b - i)")
     (auto simp: rd1_def dest!: mem_wr_length split: if_splits)

declare url_decode_loop.simps [simp del]

definition url_decode :: "char list \<Rightarrow> (nat \<times> char list) result" where
  "url_decode b = url_decode_loop b 0 0"

text \<open>What decoding means, without the aliasing.\<close>

fun url_decode_spec :: "string \<Rightarrow> string" where
  "url_decode_spec [] = []"
| "url_decode_spec (c # s) =
     (if c = CHR ''%'' then
        (case s of
           x # y # r \<Rightarrow> if c_isxdigit x \<and> c_isxdigit y then hex_char x y # url_decode_spec r
                        else c # url_decode_spec s
         | _ \<Rightarrow> c # url_decode_spec s)
      else c # url_decode_spec s)"

declare url_decode_spec.simps(2) [simp del]

lemma url_decode_spec_hex:
  "c_isxdigit x \<Longrightarrow> c_isxdigit y \<Longrightarrow>
   url_decode_spec (CHR ''%'' # x # y # r) = hex_char x y # url_decode_spec r"
  by (simp add: url_decode_spec.simps(2))

lemma url_decode_spec_copy:
  assumes "\<not> (c = CHR ''%'' \<and> (\<exists>x y r. t = x # y # r \<and> c_isxdigit x \<and> c_isxdigit y))"
  shows "url_decode_spec (c # t) = c # url_decode_spec t"
proof (cases t)
  case (Cons x t')
  then show ?thesis using assms by (cases t') (auto simp: url_decode_spec.simps(2) [of c])
qed (simp add: url_decode_spec.simps(2))

lemma rd1_mid: "i = length pre \<Longrightarrow> rd1 (pre @ c # post) i = Inr c"
  by (simp add: rd1_def)

lemma mem_wr_over:
  "j = length pre \<Longrightarrow> xs \<noteq> [] \<Longrightarrow> mem_wr (pre @ xs @ post) (int j) [d] = Inr (pre @ d # tl xs @ post)"
  by (cases xs) (simp_all add: mem_wr_def)

lemma c_isxdigit_NUL [simp]: "\<not> c_isxdigit NUL"
  by (simp add: c_isxdigit_def av_isxdigit_def av_isdigit_def av_tolower_def ord_def)

text \<open>One round of the loop on a block split at its two positions.\<close>

lemma url_decode_hex_step:
  assumes "c_isxdigit x" "c_isxdigit y"
  shows "url_decode_loop (pre @ gap @ CHR ''%'' # x # y # r) (length (pre @ gap)) (length pre)
       = url_decode_loop ((pre @ [hex_char x y]) @ tl (gap @ [CHR ''%'', x, y]) @ r)
           (length ((pre @ [hex_char x y]) @ tl (gap @ [CHR ''%'', x, y])))
           (length (pre @ [hex_char x y]))"
proof -
  let ?b = "pre @ gap @ CHR ''%'' # x # y # r"
  have "rd1 ?b (length (pre @ gap)) = Inr CHR ''%''" "rd1 ?b (length (pre @ gap) + 1) = Inr x"
      "rd1 ?b (length (pre @ gap) + 2) = Inr y"
    using rd1_mid [of _ "pre @ gap" "CHR ''%''" "x # y # r"]
      rd1_mid [of _ "pre @ gap @ [CHR ''%'']" x "y # r"]
      rd1_mid [of _ "pre @ gap @ [CHR ''%'', x]" y r] by simp_all
  moreover have "mem_wr ?b (int (length pre)) [hex_char x y]
      = Inr ((pre @ [hex_char x y]) @ tl (gap @ [CHR ''%'', x, y]) @ r)"
    using mem_wr_over [of "length pre" pre "gap @ [CHR ''%'', x, y]" r] by simp
  moreover have "length ((pre @ [hex_char x y]) @ tl (gap @ [CHR ''%'', x, y]))
      = length (pre @ gap) + 3" by simp
  moreover have "length (pre @ [hex_char x y]) = length pre + 1" by simp
  moreover have pct: "(CHR ''%'' = NUL) = False" by simp
  ultimately show ?thesis
    using assms by (subst url_decode_loop.simps) (simp only: then_do_simps if_True simp_thms
        if_False pct)
qed

lemma url_decode_copy_step:
  assumes "c \<noteq> NUL"
    and "c = CHR ''%'' \<Longrightarrow> r \<noteq> [] \<and> (c_isxdigit (hd r) \<longrightarrow> tl r \<noteq> [] \<and> \<not> c_isxdigit (hd (tl r)))"
  shows "url_decode_loop (pre @ gap @ c # r) (length (pre @ gap)) (length pre)
       = url_decode_loop ((pre @ [c]) @ tl (gap @ [c]) @ r)
           (length ((pre @ [c]) @ tl (gap @ [c]))) (length (pre @ [c]))"
proof -
  let ?b = "pre @ gap @ c # r"
  have c: "rd1 ?b (length (pre @ gap)) = Inr c"
    using rd1_mid [of _ "pre @ gap" c r] by simp
  have w: "mem_wr ?b (int (length pre)) [c] = Inr ((pre @ [c]) @ tl (gap @ [c]) @ r)"
    using mem_wr_over [of "length pre" pre "gap @ [c]" r] by simp
  have l: "length ((pre @ [c]) @ tl (gap @ [c])) = length (pre @ gap) + 1"
    "length (pre @ [c]) = length pre + 1" by simp_all
  show ?thesis
  proof (cases "c = CHR ''%''")
    case False
    then show ?thesis
      using assms(1) by (subst url_decode_loop.simps) (simp only: c w l then_do_simps if_False)
  next
    case True
    with assms(2) obtain x r' where r: "r = x # r'" and xy: "c_isxdigit x \<Longrightarrow> r' \<noteq> [] \<and> \<not> c_isxdigit (hd r')"
      by (cases r) auto
    have x: "rd1 ?b (length (pre @ gap) + 1) = Inr x"
      using rd1_mid [of _ "pre @ gap @ [c]" x r'] r by simp
    show ?thesis
    proof (cases "c_isxdigit x")
      case False
      then show ?thesis
        using assms(1) by (subst url_decode_loop.simps)
          (simp only: c w l x then_do_simps if_False if_True simp_thms if_cancel)
    next
      case xd: True
      with xy obtain y r'' where r': "r' = y # r''" "\<not> c_isxdigit y" by (cases r') auto
      then have "rd1 ?b (length (pre @ gap) + 2) = Inr y"
        using rd1_mid [of _ "pre @ gap @ [c, x]" y r''] r by simp
      then show ?thesis
        using assms(1) r'(2) xd by (subst url_decode_loop.simps)
          (simp only: c w l x then_do_simps if_False if_True simp_thms if_cancel)
    qed
  qed
qed

text \<open>
  The invariant of the loop: the block is the decoded text, a gap of characters already
  read, and the text still to be read.
\<close>

lemma url_decode_loop_spec:
  assumes "NUL \<notin> set s"
  shows "\<exists>tail. url_decode_loop (pre @ gap @ s @ NUL # post) (length (pre @ gap)) (length pre)
       = Inr (length (pre @ url_decode_spec s), pre @ url_decode_spec s @ NUL # tail)
     \<and> length (pre @ url_decode_spec s @ NUL # tail) = length (pre @ gap @ s @ NUL # post)"
  using assms
proof (induction s arbitrary: pre gap rule: length_induct)
  case (1 s)
  show ?case
  proof (cases s)
    case Nil
    have "mem_wr (pre @ (gap @ [NUL]) @ post) (int (length pre)) [NUL]
          = Inr (pre @ NUL # tl (gap @ [NUL]) @ post)"
      by (rule mem_wr_over) simp_all
    then show ?thesis
      using rd1_mid [of _ "pre @ gap" NUL post] Nil
      by (subst url_decode_loop.simps) simp
  next
    case (Cons c t)
    show ?thesis
    proof (cases "c = CHR ''%'' \<and> (\<exists>x y r. t = x # y # r \<and> c_isxdigit x \<and> c_isxdigit y)")
      case True
      then obtain x y r where xy: "c = CHR ''%''" "t = x # y # r" "c_isxdigit x" "c_isxdigit y"
        by blast
      let ?d = "hex_char x y" and ?g = "tl (gap @ [CHR ''%'', x, y])"
      have sp: "url_decode_spec s = ?d # url_decode_spec r"
        using url_decode_spec_hex Cons xy by simp
      have "\<exists>tail. url_decode_loop ((pre @ [?d]) @ ?g @ r @ NUL # post)
              (length ((pre @ [?d]) @ ?g)) (length (pre @ [?d]))
          = Inr (length ((pre @ [?d]) @ url_decode_spec r),
                 (pre @ [?d]) @ url_decode_spec r @ NUL # tail)
          \<and> length ((pre @ [?d]) @ url_decode_spec r @ NUL # tail)
            = length ((pre @ [?d]) @ ?g @ r @ NUL # post)"
        using 1 Cons xy by (intro "1.IH" [rule_format]) auto
      then show ?thesis
        using url_decode_hex_step [OF xy(3,4), of pre gap "r @ NUL # post"] sp Cons xy(1,2) by simp
    next
      case False
      have sp: "url_decode_spec s = c # url_decode_spec t"
        using url_decode_spec_copy [OF False] Cons by simp
      have nul: "c \<noteq> NUL" using 1 Cons by auto
      have st: "t @ NUL # post \<noteq> [] \<and> (c_isxdigit (hd (t @ NUL # post)) \<longrightarrow>
          tl (t @ NUL # post) \<noteq> [] \<and> \<not> c_isxdigit (hd (tl (t @ NUL # post))))"
        if "c = CHR ''%''"
        using False
      proof (cases t)
        case (Cons x t')
        then show ?thesis using False that by (cases t') simp_all
      qed simp
      let ?g = "tl (gap @ [c])"
      have "\<exists>tail. url_decode_loop ((pre @ [c]) @ ?g @ t @ NUL # post)
              (length ((pre @ [c]) @ ?g)) (length (pre @ [c]))
          = Inr (length ((pre @ [c]) @ url_decode_spec t),
                 (pre @ [c]) @ url_decode_spec t @ NUL # tail)
          \<and> length ((pre @ [c]) @ url_decode_spec t @ NUL # tail)
            = length ((pre @ [c]) @ ?g @ t @ NUL # post)"
        using 1 Cons by (intro "1.IH" [rule_format]) auto
      then show ?thesis
        using url_decode_copy_step [OF nul st, of pre gap] sp Cons by simp
    qed
  qed
qed

text \<open>What \<open>url_decode\<close> does to a whole block that holds a C string.\<close>

text \<open>C21. \<open>url_decode\<close> (\<open>ffserver.c\<close>) rewrites the string inside the block it is stored in while it is
still reading from that block.  For every string, whatever stands behind its terminator, it
never reads or writes outside the block, leaves the block's size unchanged, stores exactly the
text that decoding without aliasing gives (a percent sign that two hexadecimal digits follow
is their byte, every other character is itself), terminates it and returns its length.\<close>

theorem url_decode_in_place:
  assumes "NUL \<notin> set s"
  shows "\<exists>tail. url_decode (s @ NUL # post)
           = Inr (length (url_decode_spec s), url_decode_spec s @ NUL # tail)
         \<and> length (url_decode_spec s @ NUL # tail) = length (s @ NUL # post)"
  using url_decode_loop_spec [OF assms, of "[]" "[]" post] by (simp add: url_decode_def)

theorem url_decode_in_place_witness:
  "\<exists>tail. url_decode (''a%2Fb%4'' @ NUL # ''zz'')
           = Inr (6, ''a/b%4'' @ NUL # tail) \<or> url_decode (''a%2Fb%4'' @ NUL # ''zz'')
           = Inr (5, ''a/b%4'' @ NUL # tail)"
proof -
  have "NUL \<notin> set ''a%2Fb%4''" by simp
  moreover have "url_decode_spec ''a%2Fb%4'' = ''a/b%4''" by code_simp
  ultimately show ?thesis using url_decode_in_place [of "''a%2Fb%4''" "''zz''"] by auto
qed

text \<open>The inverse of decoding: every character as its two hexadecimal digits.\<close>

definition hex_digit :: "nat \<Rightarrow> char" where
  "hex_digit n = (if n < 10 then char_of (48 + n) else char_of (55 + n))"

definition percent_char :: "char \<Rightarrow> string" where
  "percent_char c = [CHR ''%'', hex_digit (of_char c div 16), hex_digit (of_char c mod 16)]"

lemma ord_char_of: "n < 256 \<Longrightarrow> ord (char_of n) = int n" for n :: nat
  unfolding ord_def by (subst of_nat_of_char [symmetric]) simp

lemma char_of_NUL: "n < 256 \<Longrightarrow> char_of n = NUL \<longleftrightarrow> n = 0" for n :: nat
  using ord_0_iff [of "char_of n"] by (simp add: ord_char_of)

lemma ord_hex_digit:
  "n < 16 \<Longrightarrow> ord (hex_digit n) = (if n < 10 then 48 + int n else 55 + int n)"
  by (simp add: hex_digit_def ord_char_of)

lemma hex_digit_props:
  assumes "n < 16"
  shows "c_isxdigit (hex_digit n)" "hex2int (hex_digit n) = int n" "hex_digit n \<noteq> NUL"
proof -
  show "c_isxdigit (hex_digit n)"
    using assms by (simp add: c_isxdigit_def av_isxdigit_def av_isdigit_def av_tolower_eq ord_hex_digit)
  show "hex2int (hex_digit n) = int n"
    using assms by (simp add: hex2int_def av_isdigit_def av_toupper_eq ord_hex_digit)
  show "hex_digit n \<noteq> NUL"
    using assms ord_hex_digit [of n] ord_0_iff [of "hex_digit n"] by (simp split: if_splits)
qed

lemma push_bit_4_or:
  fixes a b :: int
  assumes "0 \<le> b" "b < 16"
  shows "push_bit 4 a OR b = 16 * a + b"
proof -
  have "take_bit 4 b = b" using assms by (simp add: take_bit_int_eq_self)
  then have lt: "bit b n \<Longrightarrow> n < 4" for n by (metis bit_take_bit_iff)
  have "push_bit 4 a + b = push_bit 4 a OR b"
    by (intro disjunctive_add_eq_or bit_eqI) (auto simp: bit_simps dest: lt)
  then show ?thesis by (simp add: push_bit_eq_mult)
qed

lemma of_char_lt: "(of_char c :: nat) < 256"
  by (metis mod_less_divisor of_char_of char_of_char zero_less_numeral)

lemma percent_char_decodes:
  "c_isxdigit (hex_digit (of_char c div 16))" "c_isxdigit (hex_digit (of_char c mod 16))"
  "hex_char (hex_digit (of_char c div 16)) (hex_digit (of_char c mod 16)) = c"
proof -
  let ?n = "of_char c :: nat"
  have l: "?n div 16 < 16" "?n mod 16 < 16" using of_char_lt [of c] by linarith+
  show "c_isxdigit (hex_digit (?n div 16))" "c_isxdigit (hex_digit (?n mod 16))"
    using l by (simp_all only: hex_digit_props)
  have "push_bit 4 (int (?n div 16)) OR int (?n mod 16) = 16 * int (?n div 16) + int (?n mod 16)"
    using l by (intro push_bit_4_or) simp_all
  also have "\<dots> = int (16 * (?n div 16) + ?n mod 16)" by (simp only: of_nat_add of_nat_mult of_nat_numeral)
  also have "\<dots> = int ?n" by (simp only: mult_div_mod_eq)
  finally show "hex_char (hex_digit (?n div 16)) (hex_digit (?n mod 16)) = c"
    using l by (simp only: hex_char_def hex_digit_props) simp
qed

lemma url_decode_spec_percent: "url_decode_spec (concat (map percent_char s)) = s"
  by (induction s) (simp_all add: percent_char_def url_decode_spec_hex percent_char_decodes)

lemma percent_no_NUL: "NUL \<notin> set (concat (map percent_char s))"
proof -
  have "NUL \<notin> set (percent_char c)" for c
  proof -
    have "(of_char c :: nat) div 16 < 16" "(of_char c :: nat) mod 16 < 16"
      using of_char_lt [of c] by linarith+
    then have "hex_digit (of_char c div 16) \<noteq> NUL" "hex_digit (of_char c mod 16) \<noteq> NUL"
      by (simp_all only: hex_digit_props not_False_eq_True)
    then show ?thesis by (auto simp: percent_char_def)
  qed
  then show ?thesis by simp
qed

text \<open>Round trip of the request target: whatever bytes a name consists of, a client that sends
each of them as \<open>%XX\<close> gets exactly that name out of \<open>url_decode\<close>, with its length as result.\<close>

theorem url_decode_roundtrip:
  "\<exists>tail. url_decode (concat (map percent_char s) @ NUL # post) = Inr (length s, s @ NUL # tail)"
  using url_decode_loop_spec [OF percent_no_NUL, of "[]" "[]" s post]
  by (auto simp: url_decode_def url_decode_spec_percent)

section \<open>The UTF-8 test\<close>

text \<open>
  \<open>is_utf8(s)\<close>: a walk over the terminated string.  The reads of \<open>s[1]\<close>, \<open>s[2]\<close>, \<open>s[3]\<close>
  happen in the order of the short-circuit conjunctions.  A byte that matches none of the
  four patterns is passed over.
\<close>

definition is_cont :: "char \<Rightarrow> bool" where
  "is_cont c \<longleftrightarrow> drop_bit 6 (ord c) = 0x2"

function is_utf8 :: "char list \<Rightarrow> bool result" where
  "is_utf8 b =
     then_do (rd1 b 0) (\<lambda>c.
       if c = NUL then Inr True
       else if drop_bit 7 (ord c) = 0 then is_utf8 (drop 1 b)
       else if drop_bit 5 (ord c) = 0x6 then
         then_do (rd1 b 1) (\<lambda>x. if is_cont x then is_utf8 (drop 2 b) else Inr False)
       else if drop_bit 4 (ord c) = 0xE then
         then_do (rd1 b 1) (\<lambda>x. if \<not> is_cont x then Inr False else
         then_do (rd1 b 2) (\<lambda>y. if is_cont y then is_utf8 (drop 3 b) else Inr False))
       else if drop_bit 3 (ord c) = 0x1E then
         then_do (rd1 b 1) (\<lambda>x. if \<not> is_cont x then Inr False else
         then_do (rd1 b 2) (\<lambda>y. if \<not> is_cont y then Inr False else
         then_do (rd1 b 3) (\<lambda>z. if is_cont z then is_utf8 (drop 4 b) else Inr False)))
       else is_utf8 (drop 1 b))"
  by pat_completeness auto
termination
  by (relation "measure length") (auto simp: rd1_def split: if_splits)

declare is_utf8.simps [simp del]

text \<open>UTF-8 as the standard encodes one code point.\<close>

definition utf8_char :: "nat \<Rightarrow> string" where
  "utf8_char n =
     (if n < 0x80 then [char_of n]
      else if n < 0x800 then [char_of (0xC0 + n div 64), char_of (0x80 + n mod 64)]
      else if n < 0x10000 then
        [char_of (0xE0 + n div 4096), char_of (0x80 + n div 64 mod 64), char_of (0x80 + n mod 64)]
      else
        [char_of (0xF0 + n div 262144), char_of (0x80 + n div 4096 mod 64),
         char_of (0x80 + n div 64 mod 64), char_of (0x80 + n mod 64)])"

lemma is_cont_of: "n < 64 \<Longrightarrow> is_cont (char_of (0x80 + n))" for n :: nat
proof -
  assume n: "n < 64"
  have "int (0x80 + n) div 64 = 2" using n by linarith
  with n show ?thesis
    by (simp add: is_cont_def drop_bit_eq_div ord_char_of del: of_nat_add)
qed

lemma is_utf8_step:
  assumes "0 < n" "n < 0x110000"
  shows "is_utf8 (utf8_char n @ r) = is_utf8 r"
proof -
  consider "n < 0x80" | "0x80 \<le> n" "n < 0x800" | "0x800 \<le> n" "n < 0x10000"
    | "0x10000 \<le> n" "n < 0x110000" using assms by linarith
  then show ?thesis
  proof cases
    case 1
    then have "int n div 128 = 0" by simp
    with 1 assms show ?thesis
      by (subst is_utf8.simps) (simp add: utf8_char_def rd1_def drop_bit_eq_div ord_char_of char_of_NUL)
  next
    case 2
    let ?a = "0xC0 + n div 64"
    have b: "?a < 224" using 2 by linarith
    then have "int ?a div 128 = 1" "int ?a div 32 = 6" by linarith+
    with 2 b show ?thesis
      by (subst is_utf8.simps) (simp add: utf8_char_def rd1_def drop_bit_eq_div ord_char_of char_of_NUL
          is_cont_of del: of_nat_add)
  next
    case 3
    let ?a = "0xE0 + n div 4096"
    have b: "?a < 240" using 3 by linarith
    then have "int ?a div 128 = 1" "int ?a div 32 = 7" "int ?a div 16 = 14" by linarith+
    with 3 b show ?thesis
      by (subst is_utf8.simps) (simp add: utf8_char_def rd1_def drop_bit_eq_div ord_char_of char_of_NUL
          is_cont_of del: of_nat_add)
  next
    case 4
    let ?a = "0xF0 + n div 262144"
    have b: "?a < 248" using 4 by linarith
    then have "int ?a div 128 = 1" "int ?a div 32 = 7" "int ?a div 16 = 15" "int ?a div 8 = 30"
      by linarith+
    with 4 b show ?thesis
      by (subst is_utf8.simps) (simp add: utf8_char_def rd1_def drop_bit_eq_div ord_char_of char_of_NUL
          is_cont_of del: of_nat_add)
  qed
qed

lemma is_utf8_end: "is_utf8 (NUL # post) = Inr True"
  by (subst is_utf8.simps) (simp add: rd1_def)

text \<open>Every name that really is UTF-8 passes \<open>is_utf8\<close>: for any list of code points above 0 and up
to U+10FFFF, encoded by the standard, the test answers true and never reads behind the
terminator.\<close>

theorem is_utf8_accepts_encoded:
  assumes "\<forall>n \<in> set ns. 0 < n \<and> n < 0x110000"
  shows "is_utf8 (concat (map utf8_char ns) @ NUL # post) = Inr True"
  using assms by (induction ns) (simp_all add: is_utf8_end is_utf8_step)

theorem is_utf8_accepts_witness:
  "is_utf8 (concat (map utf8_char [0x61, 0xE9, 0x4E2D, 0x1F600]) @ NUL # ''x'') = Inr True"
  by (rule is_utf8_accepts_encoded) simp

text \<open>The converse fails.  A byte that no UTF-8 text can start a character with (80 to BF, or F8 and
above) is passed over without an error, so a whole name of such bytes, which is what names
in the legacy encoding the caller wants to detect look like, also counts as UTF-8; the
conversion of \<open>url_local\<close> is then skipped.\<close>

theorem is_utf8_accepts_stray:
  assumes "\<forall>c \<in> set s. ord c div 64 = 2 \<or> 248 \<le> ord c"
  shows "is_utf8 (s @ NUL # post) = Inr True"
  using assms
proof (induction s)
  case (Cons c s)
  then have c: "ord c div 64 = 2 \<or> 248 \<le> ord c" by simp
  have "ord c div 128 \<noteq> 0" "ord c div 32 \<noteq> 6" "ord c div 16 \<noteq> 14" "ord c div 8 \<noteq> 30" "ord c \<noteq> 0"
    using c ord_range [of c] by linarith+
  then show ?case
    using Cons by (subst is_utf8.simps) (simp add: rd1_def drop_bit_eq_div)
qed (simp add: is_utf8_end)

theorem is_utf8_stray_witness:
  "is_utf8 ([CHR 0x80, CHR 0xBF, CHR 0xFE] @ NUL # []) = Inr True"
  by (rule is_utf8_accepts_stray) (auto simp: ord_def)

section \<open>Conversion of a legacy name\<close>

text \<open>
  \<open>strncpy(dst, src, n)\<close> from a block: characters up to the terminator, then padding; without a
  terminator in the block the read leaves it.
\<close>

fun strncpy :: "nat \<Rightarrow> char list \<Rightarrow> char list result" where
  "strncpy 0 src = Inr []"
| "strncpy (Suc n) [] = Inl OutOfBounds"
| "strncpy (Suc n) (c # src) =
     (if c = NUL then Inr (replicate (Suc n) NUL)
      else then_do (strncpy n src) (\<lambda>r. Inr (c # r)))"

text \<open>
  \<open>url_local(utf8, len)\<close>.  \<open>iconv\<close> is a library: for the input text it gives its return value, how
  many input bytes it left, and the bytes it stored.  \<open>junk n\<close> is what a fresh block of \<open>n\<close>
  bytes from \<open>av_malloc\<close> holds.
\<close>

definition url_local ::
  "(string \<Rightarrow> int \<times> nat \<times> string) \<Rightarrow> (nat \<Rightarrow> char list) \<Rightarrow> char list \<Rightarrow> int \<Rightarrow> (int \<times> char list) result"
where
  "url_local iconv junk b len =
     (if len < 1 then Inr (0, b)
      else then_do (is_utf8 b) (\<lambda>u. if u then Inr (0, b)
      else then_do (cstr b) (\<lambda>s.
        let inlen = length s;
            (ret, left, out) = iconv s;
            outbuf = out @ drop (length out) (junk (inlen * 3)) in
        if ret = 0 \<and> left = 0 then
          then_do (strncpy (nat (len - 1)) outbuf) (\<lambda>d.
          then_do (mem_wr b 0 d) (\<lambda>b1.
          then_do (mem_wr b1 (len - 1) [NUL]) (\<lambda>b2. Inr (1, b2))))
        else Inr (1, b))))"

lemma strncpy_runs_out: "NUL \<notin> set src \<Longrightarrow> length src < n \<Longrightarrow> strncpy n src = Inl OutOfBounds"
proof (induction src arbitrary: n)
  case Nil
  then show ?case by (cases n) simp_all
next
  case (Cons c src)
  then show ?case by (cases n) auto
qed

text \<open>\<open>url_local\<close> copies the converted name with \<open>strncpy\<close> although \<open>iconv\<close> does not terminate its
output.  When a name is not UTF-8, the conversion succeeds, and the rest of the freshly
allocated block happens to hold no zero byte, the copy runs on behind the end of that block
as soon as the target is larger than it (and if there is a zero byte, what stands before it
is appended to the name).\<close>

theorem url_local_reads_behind_output:
  assumes "is_utf8 b = Inr False" "cstr b = Inr s" "iconv s = (0, 0, out)"
    and "NUL \<notin> set out" "length out \<le> 3 * length s"
    and "length (junk (length s * 3)) = length s * 3" "NUL \<notin> set (junk (length s * 3))"
    and "int (3 * length s) < len - 1"
  shows "url_local iconv junk b len = Inl OutOfBounds"
proof -
  let ?o = "out @ drop (length out) (junk (length s * 3))"
  have "length ?o = length s * 3" using assms by simp
  moreover have "NUL \<notin> set ?o" using assms in_set_dropD by fastforce
  ultimately have "strncpy (nat (len - 1)) ?o = Inl OutOfBounds"
    using assms(8) by (intro strncpy_runs_out) auto
  moreover have "\<not> len < 1" using assms(8) by simp
  ultimately show ?thesis using assms by (simp add: url_local_def)
qed

text \<open>A two-byte name in the legacy encoding, whose conversion has three bytes.\<close>

theorem url_local_reads_witness:
  "url_local (\<lambda>s. (0, 0, [CHR 0xE4, CHR 0xBD, CHR 0xA0])) (\<lambda>n. replicate n CHR 0x55)
     ([CHR 0xC4, CHR 0xE3] @ NUL # replicate 15 CHR 0x55) 18 = Inl OutOfBounds"
proof -
  have u: "is_utf8 ([CHR 0xC4, CHR 0xE3] @ NUL # replicate 15 CHR 0x55) = Inr False"
    by (subst is_utf8.simps) (simp add: rd1_def ord_def is_cont_def drop_bit_eq_div)
  show ?thesis
    by (rule url_local_reads_behind_output [OF u, where s = "[CHR 0xC4, CHR 0xE3]"
          and out = "[CHR 0xE4, CHR 0xBD, CHR 0xA0]"])
       (simp_all add: cstr_def)
qed

section \<open>Content types\<close>

definition mime_table :: "(string \<times> string) list" where
  "mime_table =
     [(''.htm'', ''text/html''), (''.m3u8'', ''text/plain''), (''.ts'', ''video/MP2T''),
      (''.flv'', ''video/MP2T''), (''.xml'', ''text/xml''), (''.css'', ''text/css''),
      (''.h'', ''text/plain''), (''.c'', ''text/plain''), (''.txt'', ''text/plain''),
      ('''', ''application/octet-stream'')]"

fun mime_find :: "string \<Rightarrow> (string \<times> string) list \<Rightarrow> string" where
  "mime_find name [] = ''application/octet-stream''"
| "mime_find name ((ext, ty) # mm) =
     (if av_stristr name ext \<noteq> None then ty else mime_find name mm)"

definition get_mine_type :: "string option \<Rightarrow> string" where
  "get_mine_type name = (case name of None \<Rightarrow> '''' | Some n \<Rightarrow> mime_find n mime_table)"

section \<open>The filter of the error page\<close>

definition html_safe :: "char \<Rightarrow> bool" where
  "html_safe c \<longleftrightarrow>
     c \<in> set (''0123456789abcdefghijklmnopqrstuvwxyzABCDEFGHIJKLMNOPQRSTUVWXYZ,. '')"

text \<open>\<open>htmlstrip\<close>: skip what \<open>strspn\<close> accepts, overwrite one character, go on behind it.\<close>

function htmlstrip :: "string \<Rightarrow> string" where
  "htmlstrip s =
     takeWhile html_safe s @
     (case dropWhile html_safe s of [] \<Rightarrow> [] | c # r \<Rightarrow> CHR ''?'' # htmlstrip r)"
  by pat_completeness auto
termination
proof (relation "measure length")
  fix s c r
  assume "dropWhile html_safe s = c # r"
  then have "Suc (length r) = length (dropWhile html_safe s)" by simp
  with length_dropWhile_le [of html_safe s] show "(r, s) \<in> measure length" by simp
qed simp

declare htmlstrip.simps [simp del]

lemma htmlstrip_map: "htmlstrip s = map (\<lambda>c. if html_safe c then c else CHR ''?'') s"
proof (induction s rule: htmlstrip.induct)
  case (1 s)
  have t: "map (\<lambda>c. if html_safe c then c else CHR ''?'') (takeWhile html_safe s)
      = takeWhile html_safe s"
    by (rule map_idI) (metis set_takeWhileD)
  have s: "s = takeWhile html_safe s @ dropWhile html_safe s" by simp
  show ?case
  proof (cases "dropWhile html_safe s")
    case Nil
    then show ?thesis using s t by (metis append_Nil2 htmlstrip.simps list.simps(4))
  next
    case (Cons c r)
    then have "\<not> html_safe c" using hd_dropWhile [of html_safe s] by simp
    moreover have "htmlstrip s = takeWhile html_safe s @ CHR ''?'' # htmlstrip r"
      by (subst htmlstrip.simps) (simp add: Cons)
    moreover have "map (\<lambda>c. if html_safe c then c else CHR ''?'') s
        = takeWhile html_safe s @ map (\<lambda>c. if html_safe c then c else CHR ''?'') (c # r)"
      by (subst s, subst map_append, subst t, subst Cons) (rule refl)
    ultimately show ?thesis using 1 [OF Cons] by simp
  qed
qed

section \<open>Words and lines\<close>

text \<open>
  The word reader: \<open>p\<close> is the rest of a C string.  \<open>get_word\<close> gives the characters stored (at most
  \<open>buf_size - 1\<close>; its return value is their number) and the rest of the line; without a buffer
  it counts and leaves the caller's pointer alone.
\<close>

fun skip_spaces :: "string \<Rightarrow> string" where
  "skip_spaces [] = []"
| "skip_spaces (c # p) = (if c = CHR '' '' \<or> c = CHR 0x09 then skip_spaces p else c # p)"

fun get_word_loop :: "int \<Rightarrow> string \<Rightarrow> string \<Rightarrow> string \<times> string" where
  "get_word_loop buf_size q [] = (q, [])"
| "get_word_loop buf_size q (c # p) =
     (if \<not> av_isspace (ord c) then
        get_word_loop buf_size (if int (length q) < buf_size - 1 then q @ [c] else q) p
      else (q, c # p))"

definition get_word :: "int \<Rightarrow> string \<Rightarrow> string \<times> string" where
  "get_word buf_size p = get_word_loop buf_size [] (skip_spaces p)"

fun word_count_loop :: "int \<Rightarrow> string \<Rightarrow> int" where
  "word_count_loop n [] = n"
| "word_count_loop n (c # p) = (if \<not> av_isspace (ord c) then word_count_loop (n + 1) p else n)"

definition get_word_null :: "string \<Rightarrow> int" where
  "get_word_null p = word_count_loop 0 (skip_spaces p)"

abbreviation word_of :: "string \<Rightarrow> string" where
  "word_of p \<equiv> takeWhile (\<lambda>c. \<not> av_isspace (ord c)) (skip_spaces p)"

lemma get_word_loop_eq:
  assumes "int (length q) \<le> n - 1"
  shows "get_word_loop n q p =
    (take (nat (n - 1)) (q @ takeWhile (\<lambda>c. \<not> av_isspace (ord c)) p),
     dropWhile (\<lambda>c. \<not> av_isspace (ord c)) p)"
  using assms
proof (induction n q p rule: get_word_loop.induct)
  case (2 n q c p)
  show ?case
  proof (cases "int (length q) < n - 1")
    case True
    with 2 show ?thesis by (cases "av_isspace (ord c)") auto
  next
    case False
    with 2 show ?thesis by (cases "av_isspace (ord c)") auto
  qed
qed simp

lemma get_word_eq:
  "0 < n \<Longrightarrow> get_word n p =
    (take (nat (n - 1)) (word_of p), dropWhile (\<lambda>c. \<not> av_isspace (ord c)) (skip_spaces p))"
  by (simp add: get_word_def get_word_loop_eq)

lemma get_word_length: "0 < n \<Longrightarrow> int (length (fst (get_word n p))) < n"
  by (simp add: get_word_eq)

lemma word_count_loop_eq:
  "word_count_loop n p = n + int (length (takeWhile (\<lambda>c. \<not> av_isspace (ord c)) p))"
  by (induction n p rule: word_count_loop.induct) auto

lemma get_word_null_eq: "get_word_null p = int (length (word_of p))"
  by (simp add: get_word_null_def word_count_loop_eq)

text \<open>
  The line reader runs over a block.  Inside the loop the pointer only moves while there is
  room in \<open>buf\<close>, so the loop may not end; that is the value \<open>None\<close>.  \<open>Inr (n, line, p)\<close>: the
  return value, the stored line (when a terminator was written), the caller's pointer.
\<close>

partial_function (option) get_line_loop ::
  "int \<Rightarrow> char list \<Rightarrow> char list \<Rightarrow> (char list \<times> char list) result option" where
  "get_line_loop buf_size q p =
     (case p of
        [] \<Rightarrow> Some (Inl OutOfBounds)
      | c # p' \<Rightarrow>
          if c \<noteq> NUL \<and> \<not> (c = CHR 0x0D \<or> c = CHR 0x0A) then
            (if int (length q) < buf_size - 1 then get_line_loop buf_size (q @ [c]) p'
             else get_line_loop buf_size q p)
          else Some (Inr (q, p)))"

definition drop_char :: "char \<Rightarrow> char list \<Rightarrow> char list result" where
  "drop_char c p = then_do (rd1 p 0) (\<lambda>d. Inr (if d = c then drop 1 p else p))"

definition get_line :: "int \<Rightarrow> char list \<Rightarrow> (int \<times> string option \<times> char list) result option" where
  "get_line buf_size p =
     (case get_line_loop buf_size [] p of
        None \<Rightarrow> None
      | Some r \<Rightarrow> Some (then_do r (\<lambda>(q, p1).
          then_do (rd1 p1 0) (\<lambda>c.
            if c = NUL then Inr (0, None, p)
            else then_do (drop_char CHR 0x0D p1) (\<lambda>p2.
                 then_do (drop_char CHR 0x0A p2) (\<lambda>p3.
                   Inr (int (length q), Some q, p3)))))))"

definition line_char :: "char \<Rightarrow> bool" where
  "line_char c \<longleftrightarrow> c \<noteq> NUL \<and> c \<noteq> CHR 0x0D \<and> c \<noteq> CHR 0x0A"

lemma get_line_loop_reads:
  assumes "\<forall>c \<in> set l. line_char c" "\<not> line_char t" "int (length q + length l) < buf_size"
  shows "get_line_loop buf_size q (l @ t # p) = Some (Inr (q @ l, t # p))"
  using assms
proof (induction l arbitrary: q)
  case Nil
  then show ?case by (subst get_line_loop.simps) (auto simp: line_char_def)
next
  case (Cons c l)
  then have "get_line_loop buf_size (q @ [c]) (l @ t # p) = Some (Inr ((q @ [c]) @ l, t # p))"
    by (intro Cons.IH) auto
  with Cons.prems show ?case
    by (subst get_line_loop.simps) (auto simp: line_char_def)
qed

text \<open>With the buffer full and more of the line to come, the loop only ever calls itself.\<close>

lemma get_line_loop_stuck:
  assumes "buf_size \<le> int (length q) + 1" "line_char c"
  shows "get_line_loop buf_size q (c # p) = None"
proof (rule ccontr)
  assume "get_line_loop buf_size q (c # p) \<noteq> None"
  then obtain r where ret: "get_line_loop buf_size q (c # p) = Some r" by blast
  have "buf_size \<le> int (length q) + 1 \<and> (\<exists>c' p'. c # p = c' # p' \<and> line_char c') \<longrightarrow> False"
    by (rule get_line_loop.raw_induct [where
          P = "\<lambda>n q b r. n \<le> int (length q) + 1 \<and> (\<exists>c' p'. b = c' # p' \<and> line_char c') \<longrightarrow> False",
          OF _ ret]) (auto simp: line_char_def split: if_splits, blast)
  with assms show False by blast
qed

lemma get_line_loop_hangs:
  assumes "\<forall>c \<in> set l. line_char c" "buf_size \<le> int (length q + length l)"
    "int (length q) < buf_size" "0 < buf_size"
  shows "get_line_loop buf_size q (l @ p) = None"
  using assms
proof (induction l arbitrary: q)
  case (Cons c l)
  show ?case
  proof (cases "int (length q) < buf_size - 1")
    case True
    with Cons have "get_line_loop buf_size (q @ [c]) (l @ p) = None" by (intro Cons.IH) auto
    with True Cons.prems show ?thesis
      by (subst get_line_loop.simps) (auto simp: line_char_def)
  next
    case False
    with Cons.prems show ?thesis using get_line_loop_stuck [of buf_size q c "l @ p"] by simp
  qed
qed simp

definition crlf :: string where
  "crlf = [CHR 0x0D, CHR 0x0A]"

text \<open>A line that fits is read, with any of the three line ends; a longer one never returns.\<close>

lemma get_line_crlf:
  assumes "\<forall>c \<in> set l. line_char c" "int (length l) < buf_size"
  shows "get_line buf_size (l @ crlf @ p) = Some (Inr (int (length l), Some l, p))"
  using get_line_loop_reads [OF assms(1), of "CHR 0x0D" "[]" buf_size "CHR 0x0A # p"] assms(2)
  by (simp add: get_line_def crlf_def line_char_def rd1_def drop_char_def)

lemma get_line_lf:
  assumes "\<forall>c \<in> set l. line_char c" "int (length l) < buf_size"
  shows "get_line buf_size (l @ CHR 0x0A # p) = Some (Inr (int (length l), Some l, p))"
  using get_line_loop_reads [OF assms(1), of "CHR 0x0A" "[]" buf_size p] assms(2)
  by (simp add: get_line_def line_char_def rd1_def drop_char_def)

lemma get_line_long:
  assumes "\<forall>c \<in> set l. line_char c" "buf_size \<le> int (length l)" "0 < buf_size"
  shows "get_line buf_size (l @ p) = None"
  using get_line_loop_hangs [OF assms(1), of buf_size "[]" p] assms by (simp add: get_line_def)

text \<open>C22. \<open>get_line\<close> on a line ended by carriage return and line feed: if the line is shorter than the
buffer it returns the line, its length and the text behind the line end; if the line has as
many characters as the buffer or more, the loop stops moving its pointer and never returns,
so one over-long header line stops the whole single-threaded server.\<close>

theorem get_line_returns_iff_line_fits:
  assumes "\<forall>c \<in> set l. line_char c" "0 < buf_size"
  shows "get_line buf_size (l @ crlf @ p)
       = (if int (length l) < buf_size then Some (Inr (int (length l), Some l, p)) else None)"
  using get_line_crlf [OF assms(1), of buf_size p] get_line_long [OF assms(1) _ assms(2), of "crlf @ p"]
  by auto

theorem get_line_returns_witness:
  "get_line 4 (''abc'' @ crlf @ ''d'') = Some (Inr (3, Some ''abc'', ''d''))
   \<and> get_line 4 (''abcd'' @ crlf @ ''d'') = None"
  using get_line_returns_iff_line_fits [of "''abc''" 4 "''d''"]
    get_line_returns_iff_line_fits [of "''abcd''" 4 "''d''"]
  by (simp add: line_char_def)

section \<open>Printing numbers\<close>

text \<open>\<open>%d\<close>, \<open>%u\<close> and \<open>%lx\<close> of \<open>printf\<close>.\<close>

definition digit_char :: "nat \<Rightarrow> char" where
  "digit_char n = char_of (if n < 10 then 48 + n else 87 + n)"

fun nat_str :: "nat \<Rightarrow> nat \<Rightarrow> string" where
  "nat_str b n = (if n < b \<or> b < 2 then [digit_char n] else nat_str b (n div b) @ [digit_char (n mod b)])"

declare nat_str.simps [simp del]

definition int_str :: "int \<Rightarrow> string" where
  "int_str n = (if n < 0 then CHR ''-'' # nat_str 10 (nat (- n)) else nat_str 10 (nat n))"

text \<open>\<open>strtol\<close> reads back what \<open>printf\<close> wrote.\<close>

lemma digit_val_digit_char:
  "n < b \<Longrightarrow> b \<le> 36 \<Longrightarrow> digit_val (int b) (digit_char n) = Some (int n)"
  by (auto simp: digit_val_def digit_char_def ord_char_of Let_def)

lemma strto_digits_append:
  "\<forall>c \<in> set xs. digit_val b c \<noteq> None \<Longrightarrow>
   strto_digits b acc (xs @ ys) = strto_digits b (strto_digits b acc xs) ys"
  by (induction xs arbitrary: acc) (auto split: option.splits)

lemma nat_str_digits:
  assumes "2 \<le> b" "b \<le> 36"
  shows "\<forall>c \<in> set (nat_str b n). digit_val (int b) c \<noteq> None"
  using assms
proof (induction b n rule: nat_str.induct)
  case (1 b n)
  then show ?case
    by (subst nat_str.simps) (auto simp: digit_val_digit_char)
qed

lemma strto_digits_nat_str:
  assumes "2 \<le> b" "b \<le> 36"
  shows "strto_digits (int b) 0 (nat_str b n) = int n"
  using assms
proof (induction b n rule: nat_str.induct)
  case (1 b n)
  show ?case
  proof (cases "n < b")
    case True
    with 1 show ?thesis by (subst nat_str.simps) (simp add: digit_val_digit_char)
  next
    case False
    then have "strto_digits (int b) 0 (nat_str b (n div b)) = int (n div b)"
      using 1 by auto
    moreover have "strto_digits (int b) 0 (nat_str b n)
        = strto_digits (int b) (strto_digits (int b) 0 (nat_str b (n div b))) [digit_char (n mod b)]"
      using False 1 by (subst nat_str.simps) (simp add: strto_digits_append [OF nat_str_digits])
    moreover have "int (n div b) * int b + int (n mod b) = int n"
      by (metis div_mult_mod_eq of_nat_add of_nat_mult)
    ultimately show ?thesis using 1 by (simp add: digit_val_digit_char)
  qed
qed

lemma nat_str_not_Nil [simp]: "nat_str b n \<noteq> []"
  by (subst nat_str.simps) simp

lemma nat_str_length: "2 \<le> b \<Longrightarrow> n < b ^ m \<Longrightarrow> 0 < m \<Longrightarrow> length (nat_str b n) \<le> m"
proof (induction m arbitrary: n)
  case (Suc m)
  show ?case
  proof (cases "n < b")
    case True
    then show ?thesis by (subst nat_str.simps) simp
  next
    case False
    with Suc.prems have "0 < m" by (cases m) auto
    moreover have "n div b < b ^ m" using Suc.prems by (simp add: less_mult_imp_div_less mult.commute)
    ultimately show ?thesis using Suc.IH [of "n div b"] Suc.prems(1) False by (subst nat_str.simps) simp
  qed
qed simp

text \<open>A number followed by something that is no digit, and with white space before it.\<close>

lemma digit_val_props:
  assumes "digit_val b c \<noteq> None" "b \<le> 36"
  shows "\<not> av_isspace (ord c)" "c \<noteq> CHR ''-''" "c \<noteq> CHR ''+''" "c \<noteq> NUL"
proof -
  have "48 \<le> ord c"
    using assms by (auto simp: digit_val_def Let_def split: if_splits)
  moreover have "ord CHR ''-'' = 45" "ord CHR ''+'' = 43" "\<not> 48 \<le> ord NUL"
    by (simp_all add: ord_def)
  ultimately show "\<not> av_isspace (ord c)" "c \<noteq> CHR ''-''" "c \<noteq> CHR ''+''" "c \<noteq> NUL"
    by (auto simp: av_isspace_def)
qed

lemma digit_val_x: "digit_val 16 CHR ''x'' = None" "digit_val 16 CHR ''X'' = None"
  by (simp_all add: digit_val_def ord_def Let_def)

lemma strtoll_hex:
  assumes "\<forall>c \<in> set ws. av_isspace (ord c)" "digit_val 16 t = None" "t \<noteq> CHR ''x''" "t \<noteq> CHR ''X''"
    and "int n < 2 ^ 63"
  shows "strtoll 16 (ws @ nat_str 16 n @ t # r) = int n"
proof -
  let ?d = "nat_str 16 n"
  obtain c cs where d: "?d = c # cs" by (cases ?d) auto
  have dig: "\<forall>c \<in> set ?d. digit_val 16 c \<noteq> None" using nat_str_digits [of 16 n] by simp
  then have c: "\<not> av_isspace (ord c)" "c \<noteq> CHR ''-''" "c \<noteq> CHR ''+''"
    using d digit_val_props [of 16 c] by auto
  have s1: "dropWhile (\<lambda>c. av_isspace (ord c)) (ws @ ?d @ t # r) = c # cs @ t # r"
    using assms(1) c d by (simp add: dropWhile_append)
  have no0x: "\<not> (x = CHR ''x'' \<or> x = CHR ''X'')" if "cs @ t # r = x # y # z" for x y z
  proof (cases cs)
    case Nil
    with that assms(3,4) show ?thesis by simp
  next
    case (Cons e es)
    with that dig d have "digit_val 16 x \<noteq> None" by simp
    then show ?thesis using digit_val_x by auto
  qed
  have s3: "(case c # cs @ t # r of z # x # e # q \<Rightarrow>
                  if z = CHR ''0'' \<and> (x = CHR ''x'' \<or> x = CHR ''X'')
                     \<and> digit_val 16 e \<noteq> None then e # q else c # cs @ t # r
                | _ \<Rightarrow> c # cs @ t # r) = c # cs @ t # r"
    using no0x by (auto split: list.splits)
  have v: "strto_digits 16 0 (c # cs @ t # r) = int n"
  proof -
    have "strto_digits 16 0 (?d @ t # r) = strto_digits 16 (strto_digits 16 0 ?d) (t # r)"
      by (rule strto_digits_append [OF dig])
    also have "\<dots> = strto_digits 16 0 ?d" using assms(2) by simp
    also have "\<dots> = int n" using strto_digits_nat_str [of 16 n] by simp
    finally show ?thesis using d by simp
  qed
  have "strtoll 16 (ws @ ?d @ t # r) = saturate64 (int n)"
    unfolding strtoll_def s1 Let_def using c(2,3)
    by (simp only: list.case if_False simp_thms s3 [unfolded list.case] v)
  with assms(5) show ?thesis by (simp add: saturate64_def)
qed

end
