(* ===== verification/HttpTypes.thy ===== *)
theory HttpTypes
  imports HttpText Posix
begin

text \<open>
  The data of \<open>src/ffserver.c\<close>: the connection record, the segment cells and packets, the
  server's static variables, the pointers into buffers, and the operating system calls the
  handlers make.

  A byte of a buffer is a \<^typ>\<open>char\<close>.  Objects that several structures point to (connections,
  packets) live in maps from identities, so a dangling pointer is an identity that maps to
  \<open>None\<close>; a pointer into a buffer is a region and an offset.
\<close>

section \<open>Constants\<close>

definition IOBUFFER_INIT_SIZE :: int where "IOBUFFER_INIT_SIZE = 8192"
definition HTTP_REQUEST_TIMEOUT :: int where "HTTP_REQUEST_TIMEOUT = 15 * 1000"
definition CHUNK_HEAD_LEN :: int where "CHUNK_HEAD_LEN = 8"
definition SEG_INC_SIZE :: int where "SEG_INC_SIZE = 4 * 1024"
definition FILE_BUF_SIZE :: int where "FILE_BUF_SIZE = 2 * 1024 * 1024"
definition MIN_SIZE_OF_LOCAL_FILE_FOR_CHUNKED :: int where
  "MIN_SIZE_OF_LOCAL_FILE_FOR_CHUNKED = 8 * 1024"
definition DIR_UPLOAD_MAX_SIZE :: int where "DIR_UPLOAD_MAX_SIZE = 2 * 1024 * 1024 * 1024 * 1024"
abbreviation SEGS :: nat where "SEGS \<equiv> 10"
abbreviation NPKT :: nat where "NPKT \<equiv> 128"

section \<open>Pointers into buffers\<close>

text \<open>
  \<open>RBuf\<close> and \<open>RPb\<close> are the connection's own two buffers, \<open>RHls i g\<close> the memory of segment cell \<open>i\<close>
  after \<open>g\<close> reallocations (a reallocation may move it, after which older pointers dangle),
  \<open>RSff k\<close> the data of packet \<open>k\<close>.
\<close>

datatype region = RBuf | RPb | RHls nat nat | RSff nat

type_synonym ptr = "region \<times> int"

abbreviation ptr_add :: "ptr \<Rightarrow> int \<Rightarrow> ptr" where
  "ptr_add p n \<equiv> (fst p, snd p + n)"

text \<open>\<open>q - p\<close> and \<open>p >= q\<close> only mean something inside one object.\<close>

definition ptr_diff :: "ptr \<Rightarrow> ptr \<Rightarrow> int result" where
  "ptr_diff q p = (if fst q = fst p then Inr (snd q - snd p) else Inl OutOfBounds)"

lemma ptr_diff_same [simp]: "ptr_diff (r, a) (r, b) = Inr (a - b)"
  by (simp add: ptr_diff_def)

section \<open>Segments, packets, connections\<close>

record HLS =
  hls_data :: "char list option"
  hls_msize :: int
  hls_csize :: int
  hls_flag :: int
  hls_gen :: nat

record SFF =
  sff_type :: int
  sff_size :: int
  sff_data :: "char list"
  sff_wpos :: int
  sff_wflag :: int

record packet_t =
  pkt_data :: ptr
  pkt_size :: int
  stream_index :: "32 word"

datatype HTTPState =
    HTTPSTATE_WAIT_REQUEST | HTTPSTATE_SEND_HEADER | HTTPSTATE_SEND_DATA_HEADER
  | HTTPSTATE_SEND_DATA | HTTPSTATE_SEND_DATA_TRAILER | HTTPSTATE_RECEIVE_DATA
  | HTTPSTATE_WAIT_FEED | HTTPSTATE_CLOSE

text \<open>What \<open>poll\<close> reports: the three bits of \<open>revents\<close> the code tests.\<close>

record revents =
  pollin :: bool
  pollout :: bool
  pollerr :: bool

text \<open>A connected socket: what will arrive, what the kernel will take, what has been sent.\<close>

record sock =
  rx :: "char rx_event list"
  tx :: "tx_event list"
  sent :: string

record HTTPContext =
  state :: HTTPState
  fd :: sock
  poll_entry :: "revents option"
  timeout :: int
  url :: "string option"
  post :: int
  http_error :: int
  keep_alive :: int
  content_length :: int
  data_count :: int
  last_packet_sent :: int
  buffer_size :: int
  buffer :: "char list"
  buffer_off :: int
  pb_buffer :: "char list option"
  buffer_ptr :: ptr
  buffer_end :: ptr
  hls_idx :: int
  hls_wpos :: int
  hls_rpos :: int
  sff :: "nat option"
  sff_pkts :: "nat option list"
  sff_w :: int
  sff_ref_cnt :: int
  feed_ctx :: "nat option"
  sff_r :: int
  local_fd :: int
  total_count :: int
  only_header :: int
  http_version :: int
  tr_encoding :: int
  chunk_size :: int
  inm :: string
  ims :: string
  xToken :: string

record RequestData =
  domain :: string
  cookie :: string
  content :: "char list"
  range :: string
  expect :: string

text \<open>The record as \<open>av_mallocz\<close> makes it, with the two fields that are set at once.\<close>

definition ctx_zero :: "sock \<Rightarrow> char list \<Rightarrow> HTTPContext" where
  "ctx_zero s b =
     \<lparr>state = HTTPSTATE_WAIT_REQUEST, fd = s, poll_entry = None, timeout = 0, url = None, post = 0,
      http_error = 0, keep_alive = 0, content_length = 0, data_count = 0, last_packet_sent = 0,
      buffer_size = IOBUFFER_INIT_SIZE, buffer = b, buffer_off = 0, pb_buffer = None,
      buffer_ptr = (RBuf, 0), buffer_end = (RBuf, 0), hls_idx = 0, hls_wpos = 0, hls_rpos = 0,
      sff = None, sff_pkts = replicate (NPKT + 1) None, sff_w = 0, sff_ref_cnt = 0,
      feed_ctx = None, sff_r = 0, local_fd = 0, total_count = 0, only_header = 0,
      http_version = 0, tr_encoding = 0, chunk_size = 0, inm = '''', ims = '''', xToken = ''''\<rparr>"

section \<open>The operating system\<close>

record stat =
  st_size :: int
  st_mtime :: int
  st_isdir :: bool

datatype sysev =
    SysOpen string bool int
  | SysRead int int
  | SysWrite int string
  | SysSeek int int
  | SysClose int
  | SysRemove string
  | SysMkdir string
  | SysSystem string

text \<open>
  The system answers a call as a function of everything that has happened before and of the
  arguments; every file system and every pattern of failures is one value of this record.
  \<open>k_malloc\<close> says whether an allocation succeeds, \<open>k_junk\<close> what a fresh block holds,
  \<open>k_stack_stat\<close> what an uninitialised \<open>struct stat\<close> holds; \<open>k_strftime\<close>, \<open>k_ftime\<close> and \<open>k_fsize\<close>
  are the calendar and float texts of the C library.
\<close>

record kernel =
  k_open :: "sysev list \<Rightarrow> string \<Rightarrow> errno + nat"
  k_stat :: "sysev list \<Rightarrow> string \<Rightarrow> stat option"
  k_fstat :: "sysev list \<Rightarrow> int \<Rightarrow> stat option"
  k_read :: "sysev list \<Rightarrow> int \<Rightarrow> int \<Rightarrow> char io_result"
  k_write :: "sysev list \<Rightarrow> int \<Rightarrow> string \<Rightarrow> errno + nat"
  k_remove :: "sysev list \<Rightarrow> string \<Rightarrow> bool"
  k_mkdir :: "sysev list \<Rightarrow> string \<Rightarrow> bool"
  k_readdir :: "sysev list \<Rightarrow> string \<Rightarrow> string list option"
  k_malloc :: "sysev list \<Rightarrow> int \<Rightarrow> bool"
  k_junk :: "nat \<Rightarrow> char list"
  k_strftime :: "int \<Rightarrow> string"
  k_iconv :: "string \<Rightarrow> int \<times> nat \<times> string"
  k_neterr :: "errno \<Rightarrow> int"
  k_fsize :: "int \<Rightarrow> string"
  k_ftime :: "int \<Rightarrow> string"
  k_stack_stat :: stat

record world =
  log :: "sysev list"
  neterrno :: errno

definition sys_open :: "kernel \<Rightarrow> string \<Rightarrow> bool \<Rightarrow> 'a world_scheme \<Rightarrow> int \<times> 'a world_scheme" where
  "sys_open k path wr w =
     (case k_open k (log w) path of
        Inl e \<Rightarrow> (-1, w\<lparr>log := log w @ [SysOpen path wr (-1)], neterrno := e\<rparr>)
      | Inr n \<Rightarrow> (int n, w\<lparr>log := log w @ [SysOpen path wr (int n)]\<rparr>))"

definition sys_read :: "kernel \<Rightarrow> int \<Rightarrow> int \<Rightarrow> 'a world_scheme \<Rightarrow> char io_result \<times> 'a world_scheme" where
  "sys_read k f n w =
     (let r = k_read k (log w) f n;
          w' = w\<lparr>log := log w @ [SysRead f n]\<rparr> in
      (r, case r of Got _ \<Rightarrow> w' | Failed e \<Rightarrow> w'\<lparr>neterrno := e\<rparr>))"

definition sys_write :: "kernel \<Rightarrow> int \<Rightarrow> string \<Rightarrow> 'a world_scheme \<Rightarrow> int \<times> 'a world_scheme" where
  "sys_write k f ds w =
     (case k_write k (log w) f ds of
        Inl e \<Rightarrow> (-1, w\<lparr>log := log w @ [SysWrite f []], neterrno := e\<rparr>)
      | Inr n \<Rightarrow> (int (min n (length ds)), w\<lparr>log := log w @ [SysWrite f (take n ds)]\<rparr>))"

definition sys_note :: "sysev \<Rightarrow> 'a world_scheme \<Rightarrow> 'a world_scheme" where
  "sys_note e w = w\<lparr>log := log w @ [e]\<rparr>"

section \<open>The server\<close>

record server = world +
  conns :: "nat \<Rightarrow> HTTPContext option"
  first_http_ctx :: "nat list"
  sffs :: "nat \<Rightarrow> SFF option"
  next_id :: nat
  s_hls :: "HLS list"
  s_hls_name :: string
  nb_connections :: int
  nb_max_connections :: int
  cur_time :: int
  sUploadToken :: string

definition get_conn :: "nat \<Rightarrow> server \<Rightarrow> HTTPContext result" where
  "get_conn i s = (case conns s i of None \<Rightarrow> Inl UseAfterFree | Some c \<Rightarrow> Inr c)"

definition put_conn :: "nat \<Rightarrow> HTTPContext \<Rightarrow> server \<Rightarrow> server" where
  "put_conn i c s = s\<lparr>conns := (conns s)(i := Some c)\<rparr>"

text \<open>The cell that a connection's index selects; \<open>s_hls\<close> has \<open>S+1\<close> cells.\<close>

definition get_hls :: "int \<Rightarrow> server \<Rightarrow> HLS result" where
  "get_hls i s = (if 0 \<le> i \<and> i < int (length (s_hls s)) then Inr (s_hls s ! nat i) else Inl OutOfBounds)"

definition put_hls :: "int \<Rightarrow> HLS \<Rightarrow> server \<Rightarrow> server" where
  "put_hls i h s = s\<lparr>s_hls := (s_hls s)[nat i := h]\<rparr>"

section \<open>Access through pointers\<close>

definition region_mem :: "server \<Rightarrow> HTTPContext \<Rightarrow> region \<Rightarrow> char list result" where
  "region_mem s c r =
     (case r of
        RBuf \<Rightarrow> Inr (buffer c)
      | RPb \<Rightarrow> (case pb_buffer c of None \<Rightarrow> Inl UseAfterFree | Some b \<Rightarrow> Inr b)
      | RHls i g \<Rightarrow>
          then_do (get_hls (int i) s) (\<lambda>h.
            case hls_data h of
              Some b \<Rightarrow> if hls_gen h = g then Inr b else Inl UseAfterFree
            | None \<Rightarrow> Inl UseAfterFree)
      | RSff k \<Rightarrow> (case sffs s k of None \<Rightarrow> Inl UseAfterFree | Some p \<Rightarrow> Inr (sff_data p)))"

definition put_region ::
  "region \<Rightarrow> char list \<Rightarrow> HTTPContext \<Rightarrow> server \<Rightarrow> HTTPContext \<times> server" where
  "put_region r b c s =
     (case r of
        RBuf \<Rightarrow> (c\<lparr>buffer := b\<rparr>, s)
      | RPb \<Rightarrow> (c\<lparr>pb_buffer := Some b\<rparr>, s)
      | RHls i g \<Rightarrow> (c, put_hls (int i) ((s_hls s ! i)\<lparr>hls_data := Some b\<rparr>) s)
      | RSff k \<Rightarrow> (c, s\<lparr>sffs := (sffs s)(k := map_option (\<lambda>p. p\<lparr>sff_data := b\<rparr>) (sffs s k))\<rparr>))"

definition rd_ptr :: "server \<Rightarrow> HTTPContext \<Rightarrow> ptr \<Rightarrow> int \<Rightarrow> char list result" where
  "rd_ptr s c p n = then_do (region_mem s c (fst p)) (\<lambda>b. mem_rd b (snd p) n)"

definition wr_ptr ::
  "ptr \<Rightarrow> char list \<Rightarrow> HTTPContext \<Rightarrow> server \<Rightarrow> (HTTPContext \<times> server) result" where
  "wr_ptr p ds c s =
     then_do (region_mem s c (fst p)) (\<lambda>b.
     then_do (mem_wr b (snd p) ds) (\<lambda>b'. Inr (put_region (fst p) b' c s)))"

section \<open>Socket calls of a connection\<close>

text \<open>
  \<open>recv(c->fd, ptr, n, 0)\<close>: the length is a \<open>size_t\<close>, so a negative \<open>int\<close> becomes a huge one.  The
  call gives the bytes; the caller stores them.
\<close>

definition conn_recv ::
  "int \<Rightarrow> HTTPContext \<Rightarrow> 'a world_scheme \<Rightarrow> char io_result \<times> HTTPContext \<times> 'a world_scheme" where
  "conn_recv n c w =
     (let (r, es) = sock_recv (nat (n mod 2 ^ 64)) (rx (fd c)) in
      (r, c\<lparr>fd := (fd c)\<lparr>rx := es\<rparr>\<rparr>, case r of Got _ \<Rightarrow> w | Failed e \<Rightarrow> w\<lparr>neterrno := e\<rparr>))"

text \<open>\<open>recv\<close> into the connection's own buffer at an offset from \<open>c->buffer\<close>.\<close>

definition recv_buf ::
  "int \<Rightarrow> int \<Rightarrow> HTTPContext \<Rightarrow> 'a world_scheme \<Rightarrow> (int \<times> HTTPContext \<times> 'a world_scheme) result" where
  "recv_buf off n c w =
     (let (r, c', w') = conn_recv n c w in
      case r of
        Failed e \<Rightarrow> Inr (-1, c', w')
      | Got bs \<Rightarrow> then_do (mem_wr (buffer c') (buffer_off c' + off) bs)
                   (\<lambda>b. Inr (int (length bs), c'\<lparr>buffer := b\<rparr>, w')))"

definition conn_send ::
  "char list \<Rightarrow> HTTPContext \<Rightarrow> 'a world_scheme \<Rightarrow> int \<times> HTTPContext \<times> 'a world_scheme" where
  "conn_send ds c w =
     (case sock_send ds (tx (fd c)) of
        (Got bs, es) \<Rightarrow> (int (length bs), c\<lparr>fd := (fd c)\<lparr>tx := es, sent := sent (fd c) @ bs\<rparr>\<rparr>, w)
      | (Failed e, es) \<Rightarrow> (-1, c\<lparr>fd := (fd c)\<lparr>tx := es\<rparr>\<rparr>, w\<lparr>neterrno := e\<rparr>))"

text \<open>\<open>ff_neterrno() != AVERROR(EAGAIN) && ff_neterrno() != AVERROR(EINTR)\<close>.\<close>

definition hard_error :: "'a world_scheme \<Rightarrow> bool" where
  "hard_error w \<longleftrightarrow> neterrno w \<noteq> EAGAIN \<and> neterrno w \<noteq> EINTR"

section \<open>A start state for concrete runs\<close>

text \<open>
  The server right after start-up (all statics zero, the limits of \<open>parse_config\<close>), a system with
  an empty disk, and a quiet socket.
\<close>

definition server_start :: server where
  "server_start =
     \<lparr>log = [], neterrno = EOK, conns = (\<lambda>_. None), first_http_ctx = [], sffs = (\<lambda>_. None), next_id = 0,
      s_hls = replicate (SEGS + 1)
        \<lparr>hls_data = None, hls_msize = 0, hls_csize = 0, hls_flag = 0, hls_gen = 0\<rparr>,
      s_hls_name = [], nb_connections = 0, nb_max_connections = 1000, cur_time = 0,
      sUploadToken = []\<rparr>"

definition kernel_empty_disk :: kernel where
  "kernel_empty_disk =
     \<lparr>k_open = (\<lambda>_ _. Inl EOTHER), k_stat = (\<lambda>_ _. None), k_fstat = (\<lambda>_ _. None),
      k_read = (\<lambda>_ _ _. Got []), k_write = (\<lambda>_ _ ds. Inr (length ds)), k_remove = (\<lambda>_ _. False),
      k_mkdir = (\<lambda>_ _. True), k_readdir = (\<lambda>_ _. None), k_malloc = (\<lambda>_ _. True),
      k_junk = (\<lambda>n. replicate n CHR 0x55), k_strftime = (\<lambda>_. ''Thu, 01 Jan 1970 00:00:00 GMT''),
      k_iconv = (\<lambda>s. (-1, length s, [])), k_neterr = (\<lambda>_. -5),
      k_fsize = (\<lambda>_. ''1.0''), k_ftime = (\<lambda>_. ''01-Jan-1970 00:00''),
      k_stack_stat = \<lparr>st_size = 0, st_mtime = 0, st_isdir = False\<rparr>\<rparr>"

definition sock_with :: "string \<Rightarrow> sock" where
  "sock_with ds = \<lparr>rx = [RxData ds], tx = [], sent = []\<rparr>"

definition ctx_demo :: "string \<Rightarrow> HTTPContext" where
  "ctx_demo ds = (ctx_zero (sock_with ds) (replicate 8192 CHR 0x55))
     \<lparr>hls_idx := -1, local_fd := -1, buffer_end := (RBuf, 8191)\<rparr>"

section \<open>Big-endian words in buffers\<close>

definition byte_of_char :: "char \<Rightarrow> byte" where
  "byte_of_char c = word_of_nat (of_char c)"

definition char_of_byte :: "byte \<Rightarrow> char" where
  "char_of_byte b = char_of (unat b)"

lemma byte_of_char_of_byte [simp]: "byte_of_char (char_of_byte b) = b"
proof -
  have "unat b < 2 ^ LENGTH(8)" by (rule unsigned_less)
  then have "unat b < 256" by simp
  then show ?thesis by (simp add: byte_of_char_def char_of_byte_def)
qed

text \<open>\<open>AV_RB32\<close> on a buffer.\<close>

definition rb32_chars :: "char list \<Rightarrow> 32 word result" where
  "rb32_chars cs = rb32_list (map byte_of_char cs)"

definition wb32_chars :: "32 word \<Rightarrow> char list" where
  "wb32_chars w = map char_of_byte (wb32 w)"

lemma rb32_wb32_chars [simp]: "rb32_chars (wb32_chars w @ cs) = Inr w"
  by (simp add: rb32_chars_def wb32_chars_def comp_def)

lemma length_wb32_chars [simp]: "length (wb32_chars w) = 4"
  by (simp add: wb32_chars_def)

end
