(* ===== verification/HlsCells.thy ===== *)
theory HlsCells
  imports HttpTypes
begin

text \<open>
  The live segment cells of \<open>src/ffserver.c\<close>: eleven growing buffers, ten for the segments of the
  one channel that is being relayed and one for its play list.  A writer fills a cell while
  readers follow it at their own position.
\<close>

section \<open>Comparison of string prefixes\<close>

fun strncmp :: "string \<Rightarrow> string \<Rightarrow> nat \<Rightarrow> int" where
  "strncmp a b 0 = 0"
| "strncmp a b (Suc n) =
     (if cread a \<noteq> cread b then cread a - cread b
      else if cread a = 0 then 0 else strncmp (tl a) (tl b) n)"

lemma cread_0_iff: "NUL \<notin> set s \<Longrightarrow> cread s = 0 \<longleftrightarrow> s = []"
  by (cases s) auto

lemma strncmp_eq_0:
  assumes "NUL \<notin> set a" "NUL \<notin> set b"
  shows "strncmp a b n = 0 \<longleftrightarrow> take n a = take n b"
  using assms
proof (induction a b n rule: strncmp.induct)
  case (2 a b n)
  show ?case
  proof (cases a)
    case Nil
    with 2 show ?thesis by (cases b) (auto simp: eq_commute [of 0])
  next
    case (Cons x a')
    note a = this
    show ?thesis
    proof (cases b)
      case Nil
      with 2 a show ?thesis by auto
    next
      case (Cons y b')
      show ?thesis
      proof (cases "x = y")
        case True
        with 2 a Cons show ?thesis by auto
      next
        case False
        then have "ord x - ord y \<noteq> 0" by simp
        with False a Cons show ?thesis by simp
      qed
    qed
  qed
qed simp

section \<open>The operations\<close>

definition hls_close :: "server \<Rightarrow> server" where
  "hls_close s =
     s\<lparr>s_hls_name := [], s_hls := map (\<lambda>h. h\<lparr>hls_csize := 0, hls_flag := 0\<rparr>) (s_hls s)\<rparr>"

text \<open>\<open>ext[-1] - '0'\<close>: the character before the extension; a name that starts with it has none.\<close>

definition seg_digit :: "string \<Rightarrow> string \<Rightarrow> int result" where
  "seg_digit name ext =
     (if length name = length ext then Inl OutOfBounds
      else then_do (rd1 name (length name - length ext - 1)) (\<lambda>c. Inr (ord c - 48)))"

text \<open>The writer's part: a fresh or reused cell, opened for receiving.\<close>

definition hls_open_writer :: "kernel \<Rightarrow> HTTPContext \<Rightarrow> int \<Rightarrow> HLS \<Rightarrow> server \<Rightarrow> HTTPContext \<times> server" where
  "hls_open_writer k c idx h s =
     (let h1 = (case hls_data h of
                  None \<Rightarrow> h\<lparr>hls_data := (if k_malloc k (log s) SEG_INC_SIZE
                                          then Some (k_junk k (nat SEG_INC_SIZE)) else None),
                             hls_msize := SEG_INC_SIZE\<rparr>
                | Some _ \<Rightarrow> h);
          h2 = h1\<lparr>hls_flag := 1, hls_csize := 0\<rparr> in
      (c\<lparr>hls_wpos := 0, http_error := 0, state := HTTPSTATE_RECEIVE_DATA\<rparr>, put_hls idx h2 s))"

definition hls_parse_request ::
  "kernel \<Rightarrow> HTTPContext \<Rightarrow> string \<Rightarrow> bool \<Rightarrow> server \<Rightarrow> (int \<times> HTTPContext \<times> server) result" where
  "hls_parse_request k c name is_first s =
     (case strrchr name CHR ''.'' of
        None \<Rightarrow> Inr (-1, c, s)
      | Some ext \<Rightarrow>
          let n = length name - length ext in
          if n > 31 then Inr (-1, c, s)
          else then_do
            (if ext = ''.m3u8'' then Inr (int SEGS)
             else if ext = ''.ts'' then
               then_do (seg_digit name ext) (\<lambda>i. Inr (if 0 \<le> i \<and> i < int SEGS then i else -1))
             else Inr (-1)) (\<lambda>idx.
            if idx = -1 then Inr (-1, c, s)
            else
              let c1 = c\<lparr>hls_idx := idx\<rparr> in
              then_do (get_hls idx s) (\<lambda>h.
                if post c1 \<noteq> 0 then
                  let (c2, s2) = hls_open_writer k c1 idx h s in Inr (0, c2, s2)
                else
                  let switch = (is_first \<and> idx = int SEGS \<and> strncmp (s_hls_name s) name n \<noteq> 0);
                      s2 = (if switch then (hls_close s)\<lparr>s_hls_name := take n name\<rparr> else s) in
                  Inr (if switch then 1 else 0,
                       c1\<lparr>hls_rpos := 0, http_error := 0, state := HTTPSTATE_SEND_HEADER\<rparr>, s2))))"

text \<open>
  \<open>hls_write(c, data, size)\<close>; \<open>ds\<close> are the bytes at \<open>data\<close>.  A reallocation keeps the old bytes and
  starts a new generation of the cell's memory.
\<close>

definition hls_grow :: "kernel \<Rightarrow> int \<Rightarrow> HLS \<Rightarrow> sysev list \<Rightarrow> HLS option" where
  "hls_grow k sz h l =
     (if hls_csize h + sz > hls_msize h then
        let inc = (hls_csize h + sz - hls_msize h + SEG_INC_SIZE) div SEG_INC_SIZE;
            new = inc * SEG_INC_SIZE + hls_msize h in
        if k_malloc k l new then
          Some (h\<lparr>hls_data := map_option (\<lambda>b. b @ k_junk k (nat (inc * SEG_INC_SIZE))) (hls_data h),
                  hls_msize := new, hls_gen := hls_gen h + 1\<rparr>)
        else None
      else Some h)"

definition hls_write ::
  "kernel \<Rightarrow> HTTPContext \<Rightarrow> char list \<Rightarrow> server \<Rightarrow> (int \<times> HTTPContext \<times> server) result" where
  "hls_write k c ds s =
     then_do (get_hls (hls_idx c) s) (\<lambda>h.
       if hls_data h = None then Inr (-1, c, s)
       else case hls_grow k (int (length ds)) h (log s) of
         None \<Rightarrow> Inr (-2, c, s)
       | Some h1 \<Rightarrow>
           then_do (mem_wr (the (hls_data h1)) (hls_csize h1) ds) (\<lambda>b.
             Inr (0, c\<lparr>hls_wpos := hls_wpos c + int (length ds)\<rparr>,
                  put_hls (hls_idx c)
                    (h1\<lparr>hls_data := Some b, hls_csize := hls_csize h1 + int (length ds)\<rparr>) s)))"

definition hls_read :: "HTTPContext \<Rightarrow> server \<Rightarrow> (int \<times> HTTPContext) result" where
  "hls_read c s =
     then_do (get_hls (hls_idx c) s) (\<lambda>h.
       let left = hls_csize h - hls_rpos c in
       if hls_data h = None \<or> left \<le> 0 then
         Inr (1, c\<lparr>state := if hls_flag h = 2 then HTTPSTATE_SEND_DATA_TRAILER else HTTPSTATE_WAIT_FEED,
                   buffer_ptr := (RBuf, buffer_off c), buffer_end := (RBuf, buffer_off c)\<rparr>)
       else
         let p = (RHls (nat (hls_idx c)) (hls_gen h), hls_rpos c) in
         Inr (0, c\<lparr>buffer_ptr := p, buffer_end := ptr_add p left, hls_rpos := hls_rpos c + left\<rparr>))"

definition hls_reset :: "HTTPContext option \<Rightarrow> int \<times> HTTPContext option" where
  "hls_reset co =
     (case co of None \<Rightarrow> (-1, None)
      | Some c \<Rightarrow> (0, Some (c\<lparr>hls_wpos := 0, hls_rpos := 0, hls_idx := -1\<rparr>)))"

section \<open>The invariant of a cell\<close>

definition hls_inv :: "HLS \<Rightarrow> bool" where
  "hls_inv h \<longleftrightarrow>
     (case hls_data h of
        None \<Rightarrow> hls_csize h = 0
      | Some b \<Rightarrow> int (length b) = hls_msize h \<and> 0 \<le> hls_csize h \<and> hls_csize h \<le> hls_msize h)"

definition hls_content :: "HLS \<Rightarrow> char list" where
  "hls_content h = (case hls_data h of None \<Rightarrow> [] | Some b \<Rightarrow> take (nat (hls_csize h)) b)"

definition cells_inv :: "server \<Rightarrow> bool" where
  "cells_inv s \<longleftrightarrow> length (s_hls s) = SEGS + 1 \<and> (\<forall>h \<in> set (s_hls s). hls_inv h)"

text \<open>\<open>malloc\<close> gives a block of the size asked for.\<close>

definition junk_ok :: "kernel \<Rightarrow> bool" where
  "junk_ok k \<longleftrightarrow> (\<forall>n. length (k_junk k n) = n)"

lemma get_hls_inv: "cells_inv s \<Longrightarrow> get_hls i s = Inr h \<Longrightarrow> hls_inv h"
  by (auto simp: get_hls_def cells_inv_def split: if_splits)

lemma get_hls_ok: "cells_inv s \<Longrightarrow> 0 \<le> i \<Longrightarrow> i \<le> int SEGS \<Longrightarrow> \<exists>h. get_hls i s = Inr h"
  by (auto simp: get_hls_def cells_inv_def)

lemma put_hls_inv:
  "cells_inv s \<Longrightarrow> hls_inv h \<Longrightarrow> cells_inv (put_hls i h s)"
  by (auto simp: cells_inv_def put_hls_def dest: set_update_subset_insert [THEN subsetD])

lemma get_put_hls:
  "get_hls i s = Inr h0 \<Longrightarrow> get_hls i (put_hls i h s) = Inr h"
  by (auto simp: get_hls_def put_hls_def split: if_splits)

lemma get_put_hls_other:
  "get_hls i s = Inr h0 \<Longrightarrow> 0 \<le> j \<Longrightarrow> i \<noteq> j \<Longrightarrow> get_hls j (put_hls i h s) = get_hls j s"
  by (auto simp: get_hls_def put_hls_def split: if_splits)

lemma hls_grow_Some:
  assumes "hls_inv h" "hls_data h = Some b" "0 \<le> n" "junk_ok k" "hls_grow k n h l = Some h1"
  shows "\<exists>b1. hls_data h1 = Some (b @ b1) \<and> hls_inv h1 \<and> hls_csize h1 = hls_csize h
       \<and> hls_flag h1 = hls_flag h \<and> hls_csize h + n \<le> hls_msize h1
       \<and> (hls_csize h + n \<le> hls_msize h \<longrightarrow> h1 = h)
       \<and> (hls_msize h < hls_csize h + n \<longrightarrow> hls_gen h1 = hls_gen h + 1)"
proof (cases "hls_csize h + n > hls_msize h")
  case True
  let ?d = "hls_csize h + n - hls_msize h"
  let ?i = "(?d + SEG_INC_SIZE) div SEG_INC_SIZE"
  have "?d \<le> ?i * SEG_INC_SIZE" "0 \<le> ?i * SEG_INC_SIZE"
    using True by (simp_all add: SEG_INC_SIZE_def)
  with True assms show ?thesis
    by (auto simp: hls_grow_def hls_inv_def junk_ok_def Let_def split: if_splits)
next
  case False
  with assms show ?thesis by (auto simp: hls_grow_def)
qed

lemma hls_write_spec:
  assumes "cells_inv s" "junk_ok k" "get_hls (hls_idx c) s = Inr h" "hls_data h \<noteq> None"
  shows "(hls_grow k (int (length ds)) h (log s) = None \<and> hls_write k c ds s = Inr (-2, c, s)) \<or>
     (\<exists>h'. hls_write k c ds s = Inr (0, c\<lparr>hls_wpos := hls_wpos c + int (length ds)\<rparr>, put_hls (hls_idx c) h' s)
        \<and> hls_inv h' \<and> hls_data h' \<noteq> None \<and> hls_content h' = hls_content h @ ds
        \<and> hls_flag h' = hls_flag h \<and> hls_csize h' = hls_csize h + int (length ds)
        \<and> (hls_msize h < hls_csize h + int (length ds) \<longrightarrow> hls_gen h' = hls_gen h + 1))"
proof (cases "hls_grow k (int (length ds)) h (log s)")
  case None
  then have "hls_write k c ds s = Inr (-2, c, s)" using assms(3,4) by (simp add: hls_write_def)
  with None show ?thesis by blast
next
  case (Some h1)
  from assms obtain b where b: "hls_data h = Some b" by auto
  have inv: "hls_inv h" using assms get_hls_inv by blast
  obtain b1 where h1: "hls_data h1 = Some (b @ b1)" "hls_inv h1" "hls_csize h1 = hls_csize h"
    "hls_flag h1 = hls_flag h" "hls_csize h + int (length ds) \<le> hls_msize h1"
    "hls_msize h < hls_csize h + int (length ds) \<longrightarrow> hls_gen h1 = hls_gen h + 1"
    using hls_grow_Some [OF inv b _ assms(2) Some] by auto
  let ?n = "nat (hls_csize h)"
  have l: "length (b @ b1) = nat (hls_msize h1)" "0 \<le> hls_csize h" "hls_csize h \<le> int (length b)"
    using h1 inv b by (auto simp: hls_inv_def)
  define B where "B = take ?n (b @ b1) @ ds @ drop (?n + length ds) (b @ b1)"
  let ?h = "h1\<lparr>hls_data := Some B, hls_csize := hls_csize h1 + int (length ds)\<rparr>"
  have w0: "mem_wr (b @ b1) (int ?n) ds = Inr B"
    unfolding B_def using h1(5) l by (intro mem_wr_nat) simp
  then have w: "mem_wr (the (hls_data h1)) (hls_csize h1) ds = Inr B"
    using h1 l by simp
  have n: "?n \<le> length b" using l by linarith
  have "int (length B) = hls_msize h1"
    using mem_wr_length [OF w0] l h1(1,2) by (simp add: hls_inv_def)
  then have "hls_inv ?h"
    using h1(3,5) l(2) by (simp add: hls_inv_def)
  moreover have "hls_content ?h = hls_content h @ ds"
    using b l n h1(3) by (simp add: hls_content_def nat_add_distrib B_def)
  ultimately have "\<exists>h'. hls_write k c ds s = Inr (0, c\<lparr>hls_wpos := hls_wpos c + int (length ds)\<rparr>, put_hls (hls_idx c) h' s)
        \<and> hls_inv h' \<and> hls_data h' \<noteq> None \<and> hls_content h' = hls_content h @ ds
        \<and> hls_flag h' = hls_flag h \<and> hls_csize h' = hls_csize h + int (length ds)
        \<and> (hls_msize h < hls_csize h + int (length ds) \<longrightarrow> hls_gen h' = hls_gen h + 1)"
    using assms(3,4) Some w h1(3,4,6) by (intro exI [of _ ?h]) (simp add: hls_write_def)
  then show ?thesis by blast
qed

section \<open>A reader that follows the writer\<close>

text \<open>
  The interface the senders rely on: something that only grows at its end, from which a
  reader takes everything behind its own position.
\<close>

datatype 'b log_op = LWrite "'b list" | LRead

fun log_run ::
  "('s \<Rightarrow> 'b list \<Rightarrow> 's result) \<Rightarrow> ('s \<Rightarrow> nat \<Rightarrow> 'b list result) \<Rightarrow> 'b log_op list \<Rightarrow> 's \<Rightarrow> nat
   \<Rightarrow> ('s \<times> nat \<times> 'b list) result" where
  "log_run app rd [] s r = Inr (s, r, [])"
| "log_run app rd (LWrite ds # ops) s r = then_do (app s ds) (\<lambda>s'. log_run app rd ops s' r)"
| "log_run app rd (LRead # ops) s r =
     then_do (rd s r) (\<lambda>bs.
     then_do (log_run app rd ops s (r + length bs)) (\<lambda>(s', r', out). Inr (s', r', bs @ out)))"

fun log_written :: "'b log_op list \<Rightarrow> 'b list" where
  "log_written [] = []"
| "log_written (LWrite ds # ops) = ds @ log_written ops"
| "log_written (LRead # ops) = log_written ops"

locale append_log =
  fixes ok :: "'s \<Rightarrow> bool"
    and cont :: "'s \<Rightarrow> 'b list"
    and app :: "'s \<Rightarrow> 'b list \<Rightarrow> 's result"
    and rd :: "'s \<Rightarrow> nat \<Rightarrow> 'b list result"
  assumes app_ok: "ok s \<Longrightarrow> \<exists>s'. app s ds = Inr s' \<and> ok s' \<and> cont s' = cont s @ ds"
    and rd_ok: "ok s \<Longrightarrow> r \<le> length (cont s) \<Longrightarrow> rd s r = Inr (drop r (cont s))"
begin

lemma run_follows:
  assumes "ok s" "r \<le> length (cont s)"
  shows "\<exists>s' r' out. log_run app rd ops s r = Inr (s', r', out) \<and> ok s'
       \<and> cont s' = cont s @ log_written ops \<and> r' = r + length out
       \<and> r' \<le> length (cont s') \<and> out = take (length out) (drop r (cont s'))"
  using assms
proof (induction ops arbitrary: s r)
  case Nil
  then show ?case by simp
next
  case (Cons op ops)
  show ?case
  proof (cases op)
    case (LWrite ds)
    from app_ok [OF Cons.prems(1)] obtain s1 where
      s1: "app s ds = Inr s1" "ok s1" "cont s1 = cont s @ ds" by blast
    with Cons.IH [of s1 r] Cons.prems LWrite show ?thesis by auto
  next
    case LRead
    let ?bs = "drop r (cont s)"
    have "r + length ?bs \<le> length (cont s)" using Cons.prems by simp
    with Cons.IH [of s "r + length ?bs"] Cons.prems obtain s' r' out where
      r: "log_run app rd ops s (r + length ?bs) = Inr (s', r', out)" "ok s'"
        "cont s' = cont s @ log_written ops" "r' = r + length ?bs + length out"
        "r' \<le> length (cont s')" "out = take (length out) (drop (r + length ?bs) (cont s'))"
      by blast
    have "?bs @ out = take (length (?bs @ out)) (drop r (cont s'))"
      using r(3,6) Cons.prems by simp
    moreover have "log_run app rd (op # ops) s r = Inr (s', r', ?bs @ out)"
      using LRead r(1) rd_ok [OF Cons.prems] by simp
    ultimately show ?thesis using r LRead by auto
  qed
qed

lemma run_then_read:
  assumes "ok s" "r \<le> length (cont s)"
  shows "\<exists>s' out. log_run app rd (ops @ [LRead]) s r = Inr (s', r + length out, out)
       \<and> out = drop r (cont s @ log_written ops)"
proof -
  have app_run: "log_run app rd (xs @ [LRead]) s r =
     then_do (log_run app rd xs s r) (\<lambda>(s1, r1, out1).
       then_do (rd s1 r1) (\<lambda>bs. Inr (s1, r1 + length bs, out1 @ bs)))" for xs s r
  proof (induction xs arbitrary: s r)
    case (Cons op xs)
    show ?case
    proof (cases op)
      case (LWrite ds)
      with Cons show ?thesis by (cases "app s ds") simp_all
    next
      case LRead
      show ?thesis
      proof (cases "rd s r")
        case (Inr bs)
        show ?thesis
        proof (cases "log_run app rd xs s (r + length bs)")
          case (Inr x)
          with LRead Cons \<open>rd s r = Inr bs\<close> show ?thesis
            by (cases x; cases "rd (fst x) (fst (snd x))") auto
        qed (use LRead Cons \<open>rd s r = Inr bs\<close> in simp)
      qed (use LRead in simp)
    qed
  next
    case Nil
    show ?case by (cases "rd s r") simp_all
  qed
  from run_follows [OF assms] obtain s' r' out where
    r: "log_run app rd ops s r = Inr (s', r', out)" "ok s'" "cont s' = cont s @ log_written ops"
      "r' = r + length out" "r' \<le> length (cont s')" "out = take (length out) (drop r (cont s'))"
    by blast
  have "out @ drop r' (cont s') = drop r (cont s')"
    using r(4,6) by (metis append_take_drop_id drop_drop add.commute)
  moreover have "rd s' r' = Inr (drop r' (cont s'))" using rd_ok r by blast
  ultimately show ?thesis using r app_run by (auto simp: add.assoc)
qed

end

text \<open>The cells provide it: \<open>hls_write\<close> appends, \<open>hls_read\<close> and the access through its pointer read.\<close>

definition cell_append ::
  "kernel \<Rightarrow> HTTPContext \<times> server \<Rightarrow> char list \<Rightarrow> (HTTPContext \<times> server) result" where
  "cell_append k st ds =
     then_do (hls_write k (fst st) ds (snd st)) (\<lambda>(ret, c, s). Inr (c, s))"

definition cell_fetch :: "HTTPContext \<Rightarrow> HTTPContext \<times> server \<Rightarrow> nat \<Rightarrow> char list result" where
  "cell_fetch cr st r =
     then_do (hls_read (cr\<lparr>hls_rpos := int r\<rparr>) (snd st)) (\<lambda>(ret, c).
     then_do (ptr_diff (buffer_end c) (buffer_ptr c)) (\<lambda>n.
       rd_ptr (snd st) c (buffer_ptr c) n))"

definition hls_zero :: HLS where
  "hls_zero = \<lparr>hls_data = None, hls_msize = 0, hls_csize = 0, hls_flag = 0, hls_gen = 0\<rparr>"

definition cell_of :: "HTTPContext \<times> server \<Rightarrow> HLS" where
  "cell_of st = (case get_hls (hls_idx (fst st)) (snd st) of Inr h \<Rightarrow> h | Inl _ \<Rightarrow> hls_zero)"

definition cell_ok :: "kernel \<Rightarrow> HTTPContext \<Rightarrow> HTTPContext \<times> server \<Rightarrow> bool" where
  "cell_ok k cr st \<longleftrightarrow>
     junk_ok k \<and> (\<forall>l n. k_malloc k l n) \<and> cells_inv (snd st) \<and> hls_idx cr = hls_idx (fst st)
     \<and> 0 \<le> buffer_off cr \<and> buffer_off cr \<le> int (length (buffer cr))
     \<and> (\<exists>h. get_hls (hls_idx (fst st)) (snd st) = Inr h \<and> hls_data h \<noteq> None)"

lemma hls_content_length: "hls_inv h \<Longrightarrow> int (length (hls_content h)) = hls_csize h"
  by (auto simp: hls_inv_def hls_content_def split: option.splits)

lemma cell_append_ok:
  assumes "cell_ok k cr st"
  shows "\<exists>st'. cell_append k st ds = Inr st' \<and> cell_ok k cr st'
       \<and> hls_content (cell_of st') = hls_content (cell_of st) @ ds"
proof -
  obtain c s where st: "st = (c, s)" by (cases st)
  with assms obtain h where h: "get_hls (hls_idx c) s = Inr h" "hls_data h \<noteq> None"
    and a: "cells_inv s" "junk_ok k" "hls_grow k (int (length ds)) h (log s) \<noteq> None"
    by (auto simp: cell_ok_def hls_grow_def Let_def)
  from hls_write_spec [OF a(1,2) h, of ds] a(3) obtain h' where
    w: "hls_write k c ds s = Inr (0, c\<lparr>hls_wpos := hls_wpos c + int (length ds)\<rparr>, put_hls (hls_idx c) h' s)"
       "hls_inv h'" "hls_data h' \<noteq> None" "hls_content h' = hls_content h @ ds"
    by blast
  let ?st = "(c\<lparr>hls_wpos := hls_wpos c + int (length ds)\<rparr>, put_hls (hls_idx c) h' s)"
  have g: "get_hls (hls_idx c) (put_hls (hls_idx c) h' s) = Inr h'"
    by (rule get_put_hls [OF h(1)])
  have "cell_append k st ds = Inr ?st" using st w(1) by (simp add: cell_append_def)
  moreover have "cell_ok k cr ?st"
    using assms st w g put_hls_inv [OF a(1) w(2)] by (auto simp: cell_ok_def)
  moreover have "hls_content (cell_of ?st) = hls_content (cell_of st) @ ds"
    using st h(1) w(4) g by (simp add: cell_of_def)
  ultimately show ?thesis by blast
qed

lemma cell_fetch_ok:
  assumes "cell_ok k cr st" "r \<le> length (hls_content (cell_of st))"
  shows "cell_fetch cr st r = Inr (drop r (hls_content (cell_of st)))"
proof -
  obtain c s where st: "st = (c, s)" by (cases st)
  with assms obtain h b where h: "get_hls (hls_idx c) s = Inr h" "hls_data h = Some b"
    and a: "cells_inv s" "hls_idx cr = hls_idx c" "0 \<le> buffer_off cr"
      "buffer_off cr \<le> int (length (buffer cr))"
    by (auto simp: cell_ok_def)
  have inv: "hls_inv h" using a h get_hls_inv by blast
  have co: "cell_of st = h" using st h by (simp add: cell_of_def)
  have len: "int (length (hls_content h)) = hls_csize h" by (rule hls_content_length [OF inv])
  have i: "0 \<le> hls_idx c" using h(1) by (simp add: get_hls_def split: if_splits)
  show ?thesis
  proof (cases "hls_csize h - int r \<le> 0")
    case True
    then have "drop r (hls_content h) = []" using len by simp
    with True st h a co show ?thesis
      by (simp add: cell_fetch_def hls_read_def rd_ptr_def region_mem_def mem_rd_def)
  next
    case False
    let ?n = "nat (hls_csize h - int r)"
    have le: "r + ?n \<le> length b" using inv h(2) False by (auto simp: hls_inv_def)
    have "mem_rd b (int r) (int ?n) = Inr (take ?n (drop r b))"
      by (rule mem_rd_nat [OF le])
    moreover have "int ?n = hls_csize h - int r" using False by simp
    moreover have "take ?n (drop r b) = drop r (hls_content h)"
      using False h(2) by (simp add: hls_content_def drop_take nat_diff_distrib)
    ultimately show ?thesis
      using False st h a co i
      by (simp add: cell_fetch_def hls_read_def rd_ptr_def region_mem_def)
  qed
qed

interpretation cell: append_log "cell_ok k cr" "\<lambda>st. hls_content (cell_of st)" "cell_append k" "cell_fetch cr"
  for k cr
  by unfold_locales (rule cell_append_ok cell_fetch_ok; assumption)+

section \<open>Requests for a cell\<close>

lemma strrchr_length: "strrchr n c = Some e \<Longrightarrow> length e \<le> length n \<and> e \<noteq> []"
  by (induction n c rule: strrchr.induct) (auto split: option.splits if_splits)

lemma strrchr_is_suffix: "strrchr n c = Some e \<Longrightarrow> \<exists>p. n = p @ e"
proof (induction n c rule: strrchr.induct)
  case (2 x s c)
  show ?case
  proof (cases "strrchr s c")
    case None
    with 2 show ?thesis by (auto split: if_splits)
  next
    case (Some e')
    with 2 show ?thesis by (auto intro: exI [of _ "x # p" for p])
  qed
qed simp

lemma seg_digit_cases:
  assumes "strrchr name c = Some ext"
  shows "seg_digit name ext = (if name = ext then Inl OutOfBounds else Inr (ord (name ! (length name - length ext - 1)) - 48))"
proof -
  from strrchr_is_suffix [OF assms] obtain p where "name = p @ ext" by blast
  with strrchr_length [OF assms] show ?thesis
    by (cases p) (auto simp: seg_digit_def rd1_def)
qed

lemma hls_open_writer_spec:
  assumes "cells_inv s" "junk_ok k" "get_hls idx s = Inr h"
  shows "hls_open_writer k c idx h s = (c', s') \<Longrightarrow>
     cells_inv s' \<and> hls_idx c' = hls_idx c \<and> state c' = HTTPSTATE_RECEIVE_DATA \<and> http_error c' = 0
     \<and> hls_wpos c' = 0
     \<and> (\<exists>h'. get_hls idx s' = Inr h' \<and> hls_content h' = [] \<and> hls_flag h' = 1
          \<and> (hls_data h \<noteq> None \<or> k_malloc k (log s) SEG_INC_SIZE \<longrightarrow> hls_data h' \<noteq> None))"
proof -
  assume o: "hls_open_writer k c idx h s = (c', s')"
  have inv: "hls_inv h" using assms get_hls_inv by blast
  define h1 where "h1 = (case hls_data h of
                  None \<Rightarrow> h\<lparr>hls_data := (if k_malloc k (log s) SEG_INC_SIZE
                                          then Some (k_junk k (nat SEG_INC_SIZE)) else None),
                             hls_msize := SEG_INC_SIZE\<rparr>
                | Some _ \<Rightarrow> h)"
  let ?h = "h1\<lparr>hls_flag := 1, hls_csize := 0\<rparr>"
  have i: "hls_inv ?h"
    using inv assms(2) by (auto simp: h1_def hls_inv_def junk_ok_def SEG_INC_SIZE_def split: option.splits)
  have "hls_content ?h = []" by (simp add: hls_content_def split: option.split)
  moreover have "hls_data h \<noteq> None \<or> k_malloc k (log s) SEG_INC_SIZE \<longrightarrow> hls_data ?h \<noteq> None"
    by (auto simp: h1_def split: option.splits)
  moreover have "get_hls idx s' = Inr ?h"
    using o get_put_hls [OF assms(3)] by (auto simp: hls_open_writer_def h1_def Let_def)
  moreover have "cells_inv s'"
    using o put_hls_inv [OF assms(1) i] by (auto simp: hls_open_writer_def h1_def Let_def)
  moreover have "c' = c\<lparr>hls_wpos := 0, http_error := 0, state := HTTPSTATE_RECEIVE_DATA\<rparr>"
    using o by (auto simp: hls_open_writer_def Let_def)
  ultimately show ?thesis by auto
qed

lemma hls_close_inv: "cells_inv s \<Longrightarrow> cells_inv (hls_close s)"
  by (auto simp: cells_inv_def hls_close_def hls_inv_def split: option.splits)

lemma cells_inv_name [simp]: "cells_inv (s\<lparr>s_hls_name := n\<rparr>) = cells_inv s"
  by (simp add: cells_inv_def)

definition hls_index_of :: "string \<Rightarrow> int \<Rightarrow> bool" where
  "hls_index_of name i \<longleftrightarrow>
     (\<exists>p. name = p @ ''.m3u8'' \<and> i = 10) \<or>
     (\<exists>p d. name = p @ d # ''.ts'' \<and> i = ord d - 48 \<and> 0 \<le> i \<and> i < 10)"

lemma last_before_ext: "(p @ [x] @ e) ! (length (p @ [x] @ e) - length e - 1) = x"
  by (simp add: nth_append)

lemma hls_parse_request_Inr:
  assumes "cells_inv s" "junk_ok k"
    and r: "hls_parse_request k c name f s = Inr (ret, c', s')"
  shows "(ret = -1 \<and> c' = c \<and> s' = s) \<or>
     (hls_index_of name (hls_idx c') \<and> cells_inv s' \<and> http_error c' = 0
      \<and> (if post c \<noteq> 0 then ret = 0 \<and> state c' = HTTPSTATE_RECEIVE_DATA
           \<and> (\<exists>h'. get_hls (hls_idx c') s' = Inr h' \<and> hls_content h' = [] \<and> hls_flag h' = 1
                \<and> (k_malloc k (log s) SEG_INC_SIZE \<longrightarrow> hls_data h' \<noteq> None))
         else (ret = 0 \<or> ret = 1) \<and> state c' = HTTPSTATE_SEND_HEADER \<and> hls_rpos c' = 0))"
proof (cases "strrchr name CHR ''.''")
  case None
  with r show ?thesis by (simp add: hls_parse_request_def)
next
  case (Some ext)
  note e = this
  from strrchr_is_suffix [OF Some] obtain p where p: "name = p @ ext" by blast
  let ?idx = "if ext = ''.m3u8'' then Inr (int SEGS)
             else if ext = ''.ts'' then
               then_do (seg_digit name ext) (\<lambda>i. Inr (if 0 \<le> i \<and> i < int SEGS then i else -1))
             else Inr (-1)"
  show ?thesis
  proof (cases "length name - length ext > 31")
    case True
    with r e show ?thesis by (simp add: hls_parse_request_def)
  next
    case False
    show ?thesis
    proof (cases ?idx)
      case (Inl a)
      with r e False show ?thesis by (simp add: hls_parse_request_def Let_def)
    next
      case (Inr idx)
      show ?thesis
      proof (cases "idx = -1")
        case True
        with r e False Inr show ?thesis by (simp add: hls_parse_request_def Let_def)
      next
        case ne: False
        have io: "hls_index_of name idx"
        proof (cases "ext = ''.m3u8''")
          case True
          with Inr p show ?thesis by (auto simp: hls_index_of_def)
        next
          case no: False
          with Inr ne have ts: "ext = ''.ts''" by (auto split: if_splits)
          with Inr no ne seg_digit_cases [OF e] have
            n: "name \<noteq> ext" "idx = ord (name ! (length name - length ext - 1)) - 48" "0 \<le> idx" "idx < 10"
            by (auto split: if_splits)
          with p obtain q x where q: "p = q @ [x]" by (cases p rule: rev_cases) auto
          with n(2) p have "idx = ord x - 48" using last_before_ext [of q x ext] by simp
          with n q p ts show ?thesis by (auto simp: hls_index_of_def)
        qed
        then have rg: "0 \<le> idx" "idx \<le> int SEGS" by (auto simp: hls_index_of_def)
        from get_hls_ok [OF assms(1) rg] obtain h where h: "get_hls idx s = Inr h" by blast
        show ?thesis
        proof (cases "post c \<noteq> 0")
          case True
          obtain c2 s2 where w: "hls_open_writer k (c\<lparr>hls_idx := idx\<rparr>) idx h s = (c2, s2)"
            by fastforce
          have "ret = 0" "c' = c2" "s' = s2"
            using r e False Inr ne h True w by (simp_all add: hls_parse_request_def Let_def)
          with hls_open_writer_spec [OF assms(1,2) h w] io True show ?thesis by auto
        next
          case rd: False
          let ?sw = "f \<and> idx = int SEGS \<and> strncmp (s_hls_name s) name (length name - length ext) \<noteq> 0"
          have "c' = c\<lparr>hls_idx := idx, hls_rpos := 0, http_error := 0, state := HTTPSTATE_SEND_HEADER\<rparr>"
            "ret = (if ?sw then 1 else 0)"
            "s' = (if ?sw then (hls_close s)\<lparr>s_hls_name := take (length name - length ext) name\<rparr> else s)"
            using r e False Inr ne h rd by (simp_all add: hls_parse_request_def Let_def)
          then show ?thesis using io rd assms(1) hls_close_inv [OF assms(1)] by simp
        qed
      qed
    qed
  qed
qed

lemma hls_parse_request_Inl:
  assumes "cells_inv s"
  shows "hls_parse_request k c name f s = Inl e \<longleftrightarrow> e = OutOfBounds \<and> name = ''.ts''"
proof (cases "strrchr name CHR ''.''")
  case None
  then have "name \<noteq> ''.ts''" by auto
  with None show ?thesis by (simp add: hls_parse_request_def)
next
  case (Some ext)
  from strrchr_length [OF Some] have le: "length ext \<le> length name" by simp
  let ?idx = "if ext = ''.m3u8'' then Inr (int SEGS)
             else if ext = ''.ts'' then
               then_do (seg_digit name ext) (\<lambda>i. Inr (if 0 \<le> i \<and> i < int SEGS then i else -1))
             else Inr (-1)"
  have idx_rg: "?idx = Inr i \<Longrightarrow> i = -1 \<or> 0 \<le> i \<and> i \<le> int SEGS" for i
    by (auto split: if_splits)
  show ?thesis
  proof (cases "length name - length ext > 31")
    case True
    then have "name \<noteq> ''.ts''" by auto
    with Some True show ?thesis by (simp add: hls_parse_request_def)
  next
    case False
    show ?thesis
    proof (cases ?idx)
      case (Inl a)
      then have "ext = ''.ts''" "name = ext" "a = OutOfBounds"
        using seg_digit_cases [OF Some] by (auto split: if_splits)
      then show ?thesis
        using Some False Inl by (auto simp: hls_parse_request_def Let_def)
    next
      case (Inr idx)
      have "\<not> (name = ''.ts'')"
      proof
        assume n: "name = ''.ts''"
        then have "ext = ''.ts''" using Some by simp
        with n Inr seg_digit_cases [OF Some] show False by simp
      qed
      moreover have "\<exists>r. hls_parse_request k c name f s = Inr r"
      proof (cases "idx = -1")
        case True
        with Some False Inr show ?thesis by (simp add: hls_parse_request_def Let_def)
      next
        case ne: False
        with idx_rg [OF Inr] get_hls_ok [OF assms, of idx] obtain h where h: "get_hls idx s = Inr h"
          by blast
        show ?thesis
        proof (cases "post c \<noteq> 0")
          case True
          obtain c2 s2 where "hls_open_writer k (c\<lparr>hls_idx := idx\<rparr>) idx h s = (c2, s2)"
            by fastforce
          with Some False Inr ne h True show ?thesis by (simp add: hls_parse_request_def Let_def)
        next
          case False
          with Some \<open>\<not> 31 < length name - length ext\<close> Inr ne h show ?thesis
            by (simp add: hls_parse_request_def Let_def)
        qed
      qed
      ultimately show ?thesis by auto
    qed
  qed
qed

text \<open>\<open>hls_parse_request\<close> never selects memory outside the eleven cells.  From a sound table of
cells it either refuses with -1 and changes nothing, or the name is a play list (cell 10) or
ends in a digit and \<open>.ts\<close> (the cell of that digit), the table stays sound, a writer gets an
empty cell in state 1 and goes to \<open>RECEIVE_DATA\<close>, a reader starts at position 0 and goes to
\<open>SEND_HEADER\<close>.  The one name on which it reads outside its argument is \<open>.ts\<close> itself.\<close>

theorem hls_parse_request_selects_cell:
  assumes "cells_inv s" "junk_ok k"
  shows "case hls_parse_request k c name f s of
      Inl e \<Rightarrow> e = OutOfBounds \<and> name = ''.ts''
    | Inr (ret, c', s') \<Rightarrow>
        name \<noteq> ''.ts'' \<and>
        ((ret = -1 \<and> c' = c \<and> s' = s) \<or>
         (hls_index_of name (hls_idx c') \<and> cells_inv s' \<and> http_error c' = 0
          \<and> (if post c \<noteq> 0 then ret = 0 \<and> state c' = HTTPSTATE_RECEIVE_DATA
               \<and> (\<exists>h'. get_hls (hls_idx c') s' = Inr h' \<and> hls_content h' = [] \<and> hls_flag h' = 1
                    \<and> (k_malloc k (log s) SEG_INC_SIZE \<longrightarrow> hls_data h' \<noteq> None))
             else (ret = 0 \<or> ret = 1) \<and> state c' = HTTPSTATE_SEND_HEADER \<and> hls_rpos c' = 0)))"
proof (cases "hls_parse_request k c name f s")
  case (Inl e)
  then have "e = OutOfBounds \<and> name = ''.ts''" using hls_parse_request_Inl [OF assms(1)] by blast
  with Inl show ?thesis by simp
next
  case (Inr x)
  obtain ret c' s' where x: "x = (ret, c', s')" by (cases x)
  have "name \<noteq> ''.ts''" using Inr hls_parse_request_Inl [OF assms(1), of k c name f OutOfBounds] by auto
  with hls_parse_request_Inr [OF assms Inr [unfolded x]] Inr x show ?thesis by simp
qed

lemma demo_inv: "cells_inv server_start" "junk_ok kernel_empty_disk"
  by (simp_all add: cells_inv_def server_start_def hls_inv_def junk_ok_def kernel_empty_disk_def)

theorem hls_parse_request_witness:
  "\<exists>c' s'. hls_parse_request kernel_empty_disk (ctx_demo []) ''out3.ts'' True server_start = Inr (0, c', s')
     \<and> hls_index_of ''out3.ts'' (hls_idx c') \<and> cells_inv s'"
proof -
  have "\<exists>c' s'. hls_parse_request kernel_empty_disk (ctx_demo []) ''out3.ts'' True server_start = Inr (0, c', s')"
    by (simp add: hls_parse_request_def seg_digit_def rd1_def get_hls_def server_start_def
        ctx_demo_def ctx_zero_def ord_def)
  with hls_parse_request_selects_cell [OF demo_inv, where c = "ctx_demo []" and name = "''out3.ts''" and f = True]
  show ?thesis by auto
qed



text \<open>What the reader holds between two sends is a pointer into the cell.  If the writer's next
data does not fit the cell's memory, \<open>av_realloc\<close> may move it, and every later access of the
reader through its pointer is a use of freed memory.\<close>

theorem hls_reader_pointer_dangles:
  assumes "cells_inv s" "junk_ok k" "\<forall>l n. k_malloc k l n"
    and "hls_read cr s = Inr (0, cr')" "hls_idx cw = hls_idx cr"
    and "get_hls (hls_idx cr) s = Inr h" "hls_msize h < hls_csize h + int (length ds)"
  shows "\<exists>cw' s'. hls_write k cw ds s = Inr (0, cw', s')
       \<and> rd_ptr s' cr' (buffer_ptr cr') n = Inl UseAfterFree"
proof -
  have d: "hls_data h \<noteq> None" and p: "buffer_ptr cr' = (RHls (nat (hls_idx cr)) (hls_gen h), hls_rpos cr)"
    using assms(4,6) by (auto simp: hls_read_def Let_def split: if_splits)
  have i: "0 \<le> hls_idx cr" using assms(6) by (simp add: get_hls_def split: if_splits)
  have g: "hls_grow k (int (length ds)) h (log s) \<noteq> None"
    using assms(3) by (simp add: hls_grow_def Let_def)
  from hls_write_spec [OF assms(1,2) _ d, of cw ds] assms(5,6,7) g obtain h' where
    w: "hls_write k cw ds s = Inr (0, cw\<lparr>hls_wpos := hls_wpos cw + int (length ds)\<rparr>, put_hls (hls_idx cw) h' s)"
       "hls_gen h' = hls_gen h + 1" "hls_data h' \<noteq> None"
    by auto
  have "get_hls (hls_idx cr) (put_hls (hls_idx cr) h' s) = Inr h'"
    by (rule get_put_hls [OF assms(6)])
  then have "rd_ptr (put_hls (hls_idx cw) h' s) cr' (buffer_ptr cr') n = Inl UseAfterFree"
    using p i w(2,3) assms(5) by (auto simp: rd_ptr_def region_mem_def)
  with w(1) show ?thesis by blast
qed

definition cell_demo :: server where
  "cell_demo = put_hls 3
     \<lparr>hls_data = Some (replicate 4096 CHR ''x''), hls_msize = 4096, hls_csize = 4096, hls_flag = 1, hls_gen = 0\<rparr>
     server_start"

theorem hls_reader_dangles_witness:
  "\<exists>cr' cw' s'. hls_read ((ctx_demo [])\<lparr>hls_idx := 3\<rparr>) cell_demo = Inr (0, cr')
     \<and> hls_write kernel_empty_disk ((ctx_demo [])\<lparr>hls_idx := 3\<rparr>) ''y'' cell_demo = Inr (0, cw', s')
     \<and> rd_ptr s' cr' (buffer_ptr cr') 4096 = Inl UseAfterFree"
proof -
  have g: "get_hls 3 cell_demo = Inr \<lparr>hls_data = Some (replicate 4096 CHR ''x''), hls_msize = 4096,
      hls_csize = 4096, hls_flag = 1, hls_gen = 0\<rparr>"
    by (simp add: cell_demo_def get_hls_def put_hls_def server_start_def)
  have inv: "cells_inv cell_demo"
    unfolding cell_demo_def by (rule put_hls_inv [OF demo_inv(1)]) (simp add: hls_inv_def)
  obtain cr' where r: "hls_read ((ctx_demo [])\<lparr>hls_idx := 3\<rparr>) cell_demo = Inr (0, cr')"
    using g by (simp add: hls_read_def ctx_demo_def ctx_zero_def)
  from hls_reader_pointer_dangles [OF inv demo_inv(2) _ r, where cw = "(ctx_demo [])\<lparr>hls_idx := 3\<rparr>"
      and ds = "''y''" and n = 4096] g
  show ?thesis using r by (simp add: kernel_empty_disk_def)
qed

end
