(* ===== verification/QueueSpec.thy ===== *)
theory QueueSpec
  imports Prelude
begin

text \<open>
  The contract of a bounded queue that hands out what was put into it, in order: programs of puts and
  takes, what a plain list answers to them, and the locale \<open>packet_queue\<close> of an implementation that
  answers the same as long as no more elements are outstanding than it has room for.
\<close>

section \<open>The interface of a packet queue\<close>

datatype 'p q_op = QPush 'p | QPop

fun q_run ::
  "('s \<Rightarrow> 'p \<Rightarrow> 's result) \<Rightarrow> ('s \<Rightarrow> ('p option \<times> 's) result) \<Rightarrow> 'p q_op list \<Rightarrow> 's
   \<Rightarrow> ('p list \<times> 's) result" where
  "q_run push pop [] st = Inr ([], st)"
| "q_run push pop (QPush p # ops) st = then_do (push st p) (q_run push pop ops)"
| "q_run push pop (QPop # ops) st =
     then_do (pop st) (\<lambda>(po, st').
     then_do (q_run push pop ops st') (\<lambda>(out, st''). Inr (case_option [] (\<lambda>p. [p]) po @ out, st'')))"

text \<open>The same operations on a list, and the largest number of elements in it on the way.\<close>

fun q_spec :: "'p q_op list \<Rightarrow> 'p list \<Rightarrow> 'p list \<times> 'p list" where
  "q_spec [] q = ([], q)"
| "q_spec (QPush p # ops) q = q_spec ops (q @ [p])"
| "q_spec (QPop # ops) q = (case q_spec ops (tl q) of (out, q') \<Rightarrow> (take 1 q @ out, q'))"

fun q_peak :: "'p q_op list \<Rightarrow> nat \<Rightarrow> nat" where
  "q_peak [] n = n"
| "q_peak (QPush p # ops) n = max n (q_peak ops (n + 1))"
| "q_peak (QPop # ops) n = max n (q_peak ops (n - 1))"

fun q_pushed :: "'p q_op list \<Rightarrow> 'p list" where
  "q_pushed [] = []"
| "q_pushed (QPush p # ops) = p # q_pushed ops"
| "q_pushed (QPop # ops) = q_pushed ops"

lemma q_spec_conserves: "q_spec ops q = (out, q') \<Longrightarrow> out @ q' = q @ q_pushed ops"
proof (induction ops q arbitrary: out q' rule: q_spec.induct)
  case (3 ops q)
  then show ?case by (cases q) (auto split: prod.splits)
qed auto

lemma q_peak_ge: "n \<le> q_peak ops n"
  by (induction ops n rule: q_peak.induct) auto

locale packet_queue =
  fixes inv :: "'s \<Rightarrow> bool"
    and pend :: "'s \<Rightarrow> 'p list"
    and good :: "'p \<Rightarrow> bool"
    and cap :: nat
    and push :: "'s \<Rightarrow> 'p \<Rightarrow> 's result"
    and pop :: "'s \<Rightarrow> ('p option \<times> 's) result"
  assumes push_ok: "inv st \<Longrightarrow> good p \<Longrightarrow> length (pend st) < cap \<Longrightarrow>
      \<exists>st'. push st p = Inr st' \<and> inv st' \<and> pend st' = pend st @ [p]"
    and pop_ok: "inv st \<Longrightarrow>
      \<exists>st'. pop st = Inr (case pend st of [] \<Rightarrow> None | p # _ \<Rightarrow> Some p, st') \<and> inv st'
          \<and> pend st' = tl (pend st)"
begin

lemma run_is_queue:
  assumes "inv st" "q_peak ops (length (pend st)) \<le> cap" "\<forall>p \<in> set (q_pushed ops). good p"
  shows "\<exists>st'. q_run push pop ops st = Inr (fst (q_spec ops (pend st)), st') \<and> inv st'
       \<and> pend st' = snd (q_spec ops (pend st))"
  using assms
proof (induction ops arbitrary: st)
  case (Cons op ops)
  show ?case
  proof (cases op)
    case (QPush p)
    have "length (pend st) < q_peak ops (length (pend st) + 1)"
      using q_peak_ge [of "length (pend st) + 1" ops] by linarith
    with Cons.prems QPush have "length (pend st) < cap" by simp
    with push_ok [OF Cons.prems(1), of p] Cons.prems QPush obtain s1 where
      s1: "push st p = Inr s1" "inv s1" "pend s1 = pend st @ [p]" by auto
    with Cons.IH [of s1] Cons.prems QPush show ?thesis by simp
  next
    case QPop
    from pop_ok [OF Cons.prems(1)] obtain s1 where
      s1: "pop st = Inr (case pend st of [] \<Rightarrow> None | p # _ \<Rightarrow> Some p, s1)" "inv s1"
        "pend s1 = tl (pend st)" by blast
    with Cons.IH [of s1] Cons.prems QPop show ?thesis
      by (cases "pend st") (auto split: prod.splits)
  qed
qed simp

end

end
