(* ===== verification/SffRing.thy ===== *)
theory SffRing
  imports HttpTypes QueueSpec
begin

text \<open>
  The packet ring of a feed in \<open>src/ffserver.c\<close>: the writer's connection holds 128 slots for data
  packets and one for the stream header; every reader of the feed has its own read index.
\<close>

section \<open>The operations\<close>

text \<open>\<open>av_mallocz\<close> of a packet and the assignments that follow it: a fresh identity.\<close>

definition new_sff :: "SFF \<Rightarrow> server \<Rightarrow> nat \<times> server" where
  "new_sff p s = (next_id s, s\<lparr>sffs := (sffs s)(next_id s := Some p), next_id := next_id s + 1\<rparr>)"

definition get_sff :: "nat \<Rightarrow> server \<Rightarrow> SFF result" where
  "get_sff k s = (case sffs s k of None \<Rightarrow> Inl UseAfterFree | Some p \<Rightarrow> Inr p)"

definition put_sff :: "nat \<Rightarrow> SFF \<Rightarrow> server \<Rightarrow> server" where
  "put_sff k p s = s\<lparr>sffs := (sffs s)(k := Some p)\<rparr>"

text \<open>\<open>sff_free(SFF **s)\<close>: nothing for a null slot, else the packet and its data go; freeing twice is a fault.\<close>

definition sff_free :: "nat option \<Rightarrow> server \<Rightarrow> (nat option \<times> server) result" where
  "sff_free slot s =
     (case slot of
        None \<Rightarrow> Inr (None, s)
      | Some k \<Rightarrow> then_do (get_sff k s) (\<lambda>p. Inr (None, s\<lparr>sffs := (sffs s)(k := None)\<rparr>)))"

text \<open>The loop of \<open>sff_reset\<close> over the slots of a writer.\<close>

fun sff_free_all :: "nat option list \<Rightarrow> server \<Rightarrow> (nat option list \<times> server) result" where
  "sff_free_all [] s = Inr ([], s)"
| "sff_free_all (sl # sls) s =
     then_do (sff_free sl s) (\<lambda>(sl', s1).
     then_do (sff_free_all sls s1) (\<lambda>(sls', s2). Inr (sl' # sls', s2)))"

text \<open>\<open>sff_reset(c)\<close>: a reader gives back its reference, a writer frees its packets.\<close>

definition sff_reset :: "HTTPContext \<Rightarrow> server \<Rightarrow> (HTTPContext \<times> server) result" where
  "sff_reset c s =
     (if post c = 0 then
        (case feed_ctx c of
           None \<Rightarrow> Inr (c, s)
         | Some fi \<Rightarrow> then_do (get_conn fi s) (\<lambda>f.
             Inr (c, put_conn fi (f\<lparr>sff_ref_cnt := sff_ref_cnt f - 1\<rparr>) s)))
      else then_do (sff_free_all (sff_pkts c) s) (\<lambda>(sls, s'). Inr (c\<lparr>sff_pkts := sls\<rparr>, s')))"

definition slot_at :: "HTTPContext \<Rightarrow> int \<Rightarrow> nat option result" where
  "slot_at c i = (if 0 \<le> i \<and> i < int (length (sff_pkts c)) then Inr (sff_pkts c ! nat i) else Inl OutOfBounds)"

definition sff_write :: "HTTPContext \<Rightarrow> nat \<Rightarrow> server \<Rightarrow> (HTTPContext \<times> server) result" where
  "sff_write c k s =
     then_do (get_sff k s) (\<lambda>p.
     then_do
       (if sff_type p = 1 then
          then_do (slot_at c (int NPKT)) (\<lambda>sl.
          then_do (sff_free sl s) (\<lambda>(_, s1).
            Inr (c\<lparr>sff_pkts := (sff_pkts c)[NPKT := Some k]\<rparr>, s1)))
        else if sff_type p = 2 then
          then_do (slot_at c (sff_w c)) (\<lambda>sl.
          then_do (sff_free sl s) (\<lambda>(_, s1).
            Inr (c\<lparr>sff_pkts := (sff_pkts c)[nat (sff_w c) := Some k],
                   sff_w := (sff_w c + 1) mod int NPKT\<rparr>, s1)))
        else Inr (c, s)) (\<lambda>(c1, s1).
     then_do (get_sff k s1) (\<lambda>p1. Inr (c1, put_sff k (p1\<lparr>sff_wflag := 2\<rparr>) s1))))"

text \<open>\<open>sff_read(c, type)\<close>; \<open>f\<close> is the connection that \<open>c->feed_ctx\<close> points to.\<close>

definition sff_read_from ::
  "HTTPContext \<Rightarrow> HTTPContext \<Rightarrow> int \<Rightarrow> server \<Rightarrow> (nat option \<times> HTTPContext) result" where
  "sff_read_from f c type s =
     (let idx = (if type = 1 then int NPKT else sff_r c) in
      then_do (slot_at f idx) (\<lambda>sl.
        case sl of
          None \<Rightarrow> Inr (None, c)
        | Some k \<Rightarrow> then_do (get_sff k s) (\<lambda>p.
            if sff_wflag p \<noteq> 2 then Inr (None, c)
            else if type = 1 then Inr (Some k, c)
            else if \<bar>sff_r c - sff_w f\<bar> \<le> 0 then Inr (None, c)
            else Inr (Some k, c\<lparr>sff_r := (sff_r c + 1) mod int NPKT\<rparr>))))"

definition sff_read :: "HTTPContext \<Rightarrow> int \<Rightarrow> server \<Rightarrow> (nat option \<times> HTTPContext) result" where
  "sff_read c type s =
     (case feed_ctx c of
        None \<Rightarrow> Inr (None, c)
      | Some fi \<Rightarrow> then_do (get_conn fi s) (\<lambda>f. sff_read_from f c type s))"

definition sff_parse :: "nat option \<Rightarrow> server \<Rightarrow> (int \<times> packet_t) result" where
  "sff_parse ko s =
     (let pkt0 = \<lparr>pkt_data = (RBuf, 0), pkt_size = 0, stream_index = 0\<rparr> in
      case ko of
        None \<Rightarrow> Inr (-1, pkt0)
      | Some k \<Rightarrow> then_do (get_sff k s) (\<lambda>p.
          if sff_type p \<noteq> 2 then Inr (-1, pkt0)
          else if sff_size p < 4 then Inr (-2, pkt0)
          else then_do (rb32_chars (sff_data p)) (\<lambda>i.
            Inr (0, \<lparr>pkt_data = (RSff k, 4), pkt_size = sff_size p - 4, stream_index = i\<rparr>))))"

section \<open>The ring as a queue\<close>

text \<open>What is between a reader's index and the writer's.\<close>

definition ring_gap :: "HTTPContext \<Rightarrow> HTTPContext \<Rightarrow> nat" where
  "ring_gap f c = nat ((sff_w f - sff_r c) mod 128)"

definition ring_slot :: "HTTPContext \<Rightarrow> HTTPContext \<Rightarrow> nat \<Rightarrow> nat" where
  "ring_slot f c j = nat ((sff_r c + int j) mod 128)"

definition ring_ids :: "HTTPContext \<Rightarrow> HTTPContext \<Rightarrow> nat list" where
  "ring_ids f c = map (\<lambda>j. the (sff_pkts f ! ring_slot f c j)) [0..<ring_gap f c]"

definition ring_inv :: "HTTPContext \<Rightarrow> HTTPContext \<Rightarrow> server \<Rightarrow> bool" where
  "ring_inv f c s \<longleftrightarrow>
     length (sff_pkts f) = NPKT + 1 \<and> 0 \<le> sff_w f \<and> sff_w f < 128 \<and> 0 \<le> sff_r c \<and> sff_r c < 128
     \<and> (\<forall>i k. i < NPKT + 1 \<longrightarrow> sff_pkts f ! i = Some k \<longrightarrow>
          k < next_id s \<and> (\<exists>p. sffs s k = Some p \<and> sff_wflag p = 2))
     \<and> (\<forall>i j k. i < NPKT + 1 \<longrightarrow> j < NPKT + 1 \<longrightarrow> sff_pkts f ! i = Some k \<longrightarrow>
          sff_pkts f ! j = Some k \<longrightarrow> i = j)
     \<and> (\<forall>j < ring_gap f c. sff_pkts f ! ring_slot f c j \<noteq> None)"

lemma mod_128_neq:
  fixes r :: int
  assumes "j < n" "n < 128"
  shows "(r + int j) mod 128 \<noteq> (r + int n) mod 128"
proof
  assume "(r + int j) mod 128 = (r + int n) mod 128"
  then have "128 dvd (r + int n) - (r + int j)" by (metis mod_eq_dvd_iff)
  then have "128 dvd int n - int j" by simp
  moreover have "0 < int n - int j" "int n - int j < 128" using assms by simp_all
  ultimately show False by (meson zdvd_not_zless)
qed

lemma ring_slot_lt: "ring_slot f c j < 128"
  by (simp add: ring_slot_def nat_less_iff)

lemma ring_slot_end:
  assumes "0 \<le> sff_w f" "sff_w f < 128"
  shows "ring_slot f c (ring_gap f c) = nat (sff_w f)"
proof -
  have "(sff_r c + int (ring_gap f c)) mod 128 = (sff_r c + (sff_w f - sff_r c)) mod 128"
    by (simp add: ring_gap_def mod_add_right_eq)
  also have "\<dots> = sff_w f" using assms by simp
  finally show ?thesis by (simp add: ring_slot_def)
qed

lemma ring_slot_neq:
  assumes "j < n" "n < 128"
  shows "ring_slot f c j \<noteq> ring_slot f c n"
proof
  assume "ring_slot f c j = ring_slot f c n"
  then have "(sff_r c + int j) mod 128 = (sff_r c + int n) mod 128"
    by (simp add: ring_slot_def nat_eq_iff2 eq_nat_nat_iff)
  with mod_128_neq [OF assms] show False by blast
qed

lemma ring_gap_lt: "ring_gap f c < 128"
  by (simp add: ring_gap_def nat_less_iff)

lemma ring_gap_push:
  assumes "ring_gap f c < 127"
  shows "ring_gap (f\<lparr>sff_pkts := ps, sff_w := (sff_w f + 1) mod 128\<rparr>) c = ring_gap f c + 1"
proof -
  let ?d = "(sff_w f - sff_r c) mod 128"
  have "((sff_w f + 1) mod 128 - sff_r c) mod 128 = (?d + 1) mod 128"
    by (metis add_diff_eq add.commute diff_add_eq mod_add_left_eq mod_diff_left_eq)
  also have "\<dots> = ?d + 1" using assms by (intro mod_pos_pos_trivial) (auto simp: ring_gap_def)
  finally show ?thesis by (simp add: ring_gap_def nat_add_distrib)
qed

lemma ring_gap_pop:
  assumes "0 < ring_gap f c"
  shows "ring_gap f (c\<lparr>sff_r := (sff_r c + 1) mod 128\<rparr>) = ring_gap f c - 1"
proof -
  let ?d = "(sff_w f - sff_r c) mod 128"
  have d: "0 < ?d" "?d < 128" using assms by (simp_all add: ring_gap_def)
  have "(sff_w f - (sff_r c + 1) mod 128) mod 128 = (?d - 1) mod 128"
    by (simp add: mod_diff_right_eq mod_diff_left_eq algebra_simps)
  also have "\<dots> = ?d - 1" using d by (intro mod_pos_pos_trivial) simp_all
  finally show ?thesis using d by (simp add: ring_gap_def nat_diff_distrib)
qed

lemma ring_slot_pop:
  "ring_slot f (c\<lparr>sff_r := (sff_r c + 1) mod 128\<rparr>) j = ring_slot f c (j + 1)"
proof -
  have "((sff_r c + 1) mod 128 + int j) mod 128 = (sff_r c + 1 + int j) mod 128"
    by (rule mod_add_left_eq)
  then show ?thesis by (simp add: ring_slot_def add.assoc)
qed

lemma ring_ids_pop:
  assumes "0 < ring_gap f c"
  shows "ring_ids f (c\<lparr>sff_r := (sff_r c + 1) mod 128\<rparr>) = tl (ring_ids f c)"
proof -
  obtain n where n: "ring_gap f c = Suc n" using assms by (cases "ring_gap f c") auto
  have "[0..<Suc n] = 0 # map Suc [0..<n]"
    by (metis map_Suc_upt upt_conv_Cons zero_less_Suc)
  then show ?thesis
    using n by (simp add: ring_ids_def ring_gap_pop [OF assms] ring_slot_pop comp_def)
qed

lemma ring_gap_0: "ring_inv f c s \<Longrightarrow> ring_gap f c = 0 \<longleftrightarrow> sff_r c = sff_w f"
proof -
  assume "ring_inv f c s"
  then have b: "0 \<le> sff_w f" "sff_w f < 128" "0 \<le> sff_r c" "sff_r c < 128"
    by (simp_all add: ring_inv_def)
  have "ring_gap f c = 0 \<longleftrightarrow> (sff_w f - sff_r c) mod 128 = 0"
    using pos_mod_sign [of 128 "sff_w f - sff_r c"] by (auto simp: ring_gap_def)
  also have "\<dots> \<longleftrightarrow> sff_w f mod 128 = sff_r c mod 128" by (simp add: mod_eq_dvd_iff dvd_eq_mod_eq_0)
  finally show ?thesis using b by auto
qed

lemma ring_read:
  assumes "ring_inv f c s"
  shows "sff_read_from f c 2 s =
     (if ring_gap f c = 0 then Inr (None, c)
      else Inr (Some (hd (ring_ids f c)), c\<lparr>sff_r := (sff_r c + 1) mod 128\<rparr>))"
proof -
  have i: "length (sff_pkts f) = 129" "0 \<le> sff_r c" "sff_r c < 128"
    using assms by (simp_all add: ring_inv_def)
  then have sl: "slot_at f (sff_r c) = Inr (sff_pkts f ! nat (sff_r c))"
    by (simp add: slot_at_def)
  show ?thesis
  proof (cases "ring_gap f c = 0")
    case True
    then have eq: "sff_r c = sff_w f" using ring_gap_0 assms by blast
    show ?thesis
    proof (cases "sff_pkts f ! nat (sff_r c)")
      case None
      with True sl show ?thesis by (simp add: sff_read_from_def Let_def)
    next
      case (Some k)
      moreover have "nat (sff_r c) < NPKT + 1" using i by simp
      ultimately obtain p where "sffs s k = Some p" "sff_wflag p = 2"
        using assms unfolding ring_inv_def by blast
      with True Some sl eq show ?thesis by (simp add: sff_read_from_def Let_def get_sff_def)
    qed
  next
    case False
    then have ne: "sff_r c \<noteq> sff_w f" using ring_gap_0 [OF assms] by simp
    have s0: "ring_slot f c 0 = nat (sff_r c)" using i by (simp add: ring_slot_def)
    have "sff_pkts f ! ring_slot f c 0 \<noteq> None" using False assms unfolding ring_inv_def by blast
    then obtain k where k: "sff_pkts f ! nat (sff_r c) = Some k" using s0 by auto
    moreover have "nat (sff_r c) < NPKT + 1" using i by simp
    ultimately obtain p where "sffs s k = Some p" "sff_wflag p = 2"
      using assms unfolding ring_inv_def by blast
    moreover have "hd (ring_ids f c) = k"
      using False k s0 by (simp add: ring_ids_def hd_map)
    ultimately show ?thesis
      using False k sl ne by (simp add: sff_read_from_def Let_def get_sff_def)
  qed
qed

lemma ring_inv_pop:
  assumes "ring_inv f c s" "0 < ring_gap f c"
  shows "ring_inv f (c\<lparr>sff_r := (sff_r c + 1) mod 128\<rparr>) s"
proof -
  have "\<forall>j < ring_gap f (c\<lparr>sff_r := (sff_r c + 1) mod 128\<rparr>).
      sff_pkts f ! ring_slot f (c\<lparr>sff_r := (sff_r c + 1) mod 128\<rparr>) j \<noteq> None"
    using assms unfolding ring_gap_pop [OF assms(2)] ring_slot_pop ring_inv_def
    by (metis less_diff_conv)
  then show ?thesis using assms(1) unfolding ring_inv_def by simp
qed

text \<open>
  A completed data packet goes into the ring: allocation as \<open>http_receive_data\<close> does it, then
  \<open>sff_write\<close>.
\<close>

definition ring_push :: "HTTPContext \<Rightarrow> SFF \<Rightarrow> server \<Rightarrow> (HTTPContext \<times> server) result" where
  "ring_push f p s = (let (k, s1) = new_sff p s in sff_write f k s1)"

lemma ring_push_effect:
  assumes inv: "ring_inv f c s" and ty: "sff_type p = 2"
  shows "\<exists>s'. ring_push f p s = Inr (f\<lparr>sff_pkts := (sff_pkts f)[nat (sff_w f) := Some (next_id s)],
                               sff_w := (sff_w f + 1) mod 128\<rparr>, s')
       \<and> next_id s' = next_id s + 1 \<and> sffs s' (next_id s) = Some (p\<lparr>sff_wflag := 2\<rparr>)
       \<and> (\<forall>j. j < next_id s \<longrightarrow> sff_pkts f ! nat (sff_w f) \<noteq> Some j \<longrightarrow> sffs s' j = sffs s j)
       \<and> (\<forall>j. sff_pkts f ! nat (sff_w f) = Some j \<longrightarrow> sffs s' j = None)"
proof -
  let ?w = "nat (sff_w f)" and ?k = "next_id s"
  have i: "length (sff_pkts f) = 129" "0 \<le> sff_w f" "sff_w f < 128"
    using inv by (simp_all add: ring_inv_def)
  then have sl: "slot_at f (sff_w f) = Inr (sff_pkts f ! ?w)" by (simp add: slot_at_def)
  show ?thesis
  proof (cases "sff_pkts f ! ?w")
    case None
    with sl ty show ?thesis
      by (simp add: ring_push_def new_sff_def sff_write_def get_sff_def sff_free_def put_sff_def)
  next
    case (Some k0)
    moreover have "?w < NPKT + 1" using i by simp
    ultimately obtain q where q: "k0 < ?k" "sffs s k0 = Some q"
      using inv unfolding ring_inv_def by blast
    with Some sl ty show ?thesis
      by (simp add: ring_push_def new_sff_def sff_write_def get_sff_def sff_free_def put_sff_def)
  qed
qed

lemma ring_slots_below:
  assumes "j < ring_gap f c" "0 \<le> sff_w f" "sff_w f < 128"
  shows "ring_slot f c j \<noteq> nat (sff_w f)"
  using ring_slot_neq [OF assms(1) ring_gap_lt] ring_slot_end [OF assms(2,3)] by metis

lemma ring_slot_push [simp]: "ring_slot (f\<lparr>sff_pkts := ps, sff_w := w\<rparr>) c j = ring_slot f c j"
  by (simp add: ring_slot_def)

lemma ring_push_ok:
  assumes inv: "ring_inv f c s" and ty: "sff_type p = 2" and room: "ring_gap f c < 127"
  shows "\<exists>f' s'. ring_push f p s = Inr (f', s') \<and> ring_inv f' c s'
       \<and> ring_ids f' c = ring_ids f c @ [next_id s]
       \<and> sffs s' (next_id s) = Some (p\<lparr>sff_wflag := 2\<rparr>)
       \<and> (\<forall>k \<in> set (ring_ids f c). sffs s' k = sffs s k)"
proof -
  let ?w = "nat (sff_w f)" and ?k = "next_id s" and ?n = "ring_gap f c"
  let ?f = "f\<lparr>sff_pkts := (sff_pkts f)[?w := Some ?k], sff_w := (sff_w f + 1) mod 128\<rparr>"
  have i: "length (sff_pkts f) = 129" "0 \<le> sff_w f" "sff_w f < 128" "0 \<le> sff_r c" "sff_r c < 128"
    using inv by (simp_all add: ring_inv_def)
  have live: "\<And>j k. j < 129 \<Longrightarrow> sff_pkts f ! j = Some k \<Longrightarrow>
      k < ?k \<and> (\<exists>p. sffs s k = Some p \<and> sff_wflag p = 2)"
    and inj: "\<And>i j k. i < 129 \<Longrightarrow> j < 129 \<Longrightarrow> sff_pkts f ! i = Some k \<Longrightarrow> sff_pkts f ! j = Some k \<Longrightarrow> i = j"
    and filled: "\<And>j. j < ?n \<Longrightarrow> sff_pkts f ! ring_slot f c j \<noteq> None"
    using inv unfolding ring_inv_def by simp_all
  from ring_push_effect [OF inv ty] obtain s' where
    e: "ring_push f p s = Inr (?f, s')" "next_id s' = ?k + 1" "sffs s' ?k = Some (p\<lparr>sff_wflag := 2\<rparr>)"
      "\<And>j. j < ?k \<Longrightarrow> sff_pkts f ! ?w \<noteq> Some j \<Longrightarrow> sffs s' j = sffs s j" by blast
  have gap: "ring_gap ?f c = ?n + 1" by (rule ring_gap_push [OF room])
  have wl: "?w < 129" using i by simp
  have nth: "sff_pkts ?f ! j = (if j = ?w then Some ?k else sff_pkts f ! j)" if "j < 129" for j
    using that i by (simp add: nth_list_update)
  have slot_w: "ring_slot f c ?n = ?w" by (rule ring_slot_end [OF i(2,3)])
  have other: "ring_slot f c j < 129" "ring_slot f c j \<noteq> ?w" if "j < ?n" for j
    using ring_slots_below [OF that i(2,3)] ring_slot_lt [of f c j] by simp_all
  have live': "k < ?k + 1 \<and> (\<exists>p. sffs s' k = Some p \<and> sff_wflag p = 2)"
    if "j < 129" "sff_pkts ?f ! j = Some k" for j k
  proof (cases "j = ?w")
    case True
    with that nth e(3) show ?thesis by simp
  next
    case False
    with that nth have k: "sff_pkts f ! j = Some k" by simp
    then have "sff_pkts f ! ?w \<noteq> Some k" using inj [OF that(1) wl] False by blast
    with live [OF that(1) k] e(4) show ?thesis by fastforce
  qed
  have inj': "a = b" if "a < 129" "b < 129" "sff_pkts ?f ! a = Some k" "sff_pkts ?f ! b = Some k" for a b k
    using that nth inj live by (metis less_irrefl option.inject)
  have filled': "sff_pkts ?f ! ring_slot ?f c j \<noteq> None" if "j < ?n + 1" for j
  proof (cases "j = ?n")
    case True
    then show ?thesis using nth [OF wl] slot_w by simp
  next
    case False
    with that have "j < ?n" by simp
    with other filled nth show ?thesis by simp
  qed
  have inv': "ring_inv ?f c s'"
    unfolding ring_inv_def gap e(2)
    using i live' inj' filled' by simp
  have keep: "the (sff_pkts ?f ! ring_slot ?f c j) = the (sff_pkts f ! ring_slot f c j)" if "j < ?n" for j
    using other [OF that] nth by simp
  have "ring_ids ?f c = map (\<lambda>j. the (sff_pkts ?f ! ring_slot ?f c j)) ([0..<?n] @ [?n])"
    unfolding ring_ids_def gap by simp
  also have "\<dots> = ring_ids f c @ [?k]"
    using keep nth [OF wl] slot_w unfolding ring_ids_def by simp
  finally have ids: "ring_ids ?f c = ring_ids f c @ [?k]" .
  have "\<forall>k \<in> set (ring_ids f c). sffs s' k = sffs s k"
  proof
    fix k
    assume "k \<in> set (ring_ids f c)"
    then obtain j where j: "j < ?n" "k = the (sff_pkts f ! ring_slot f c j)"
      by (auto simp: ring_ids_def)
    then have k: "sff_pkts f ! ring_slot f c j = Some k" using filled by fastforce
    then have "sff_pkts f ! ?w \<noteq> Some k" using inj [OF other(1) wl] other(2) j(1) by blast
    with live [OF other(1) k] j(1) e(4) show "sffs s' k = sffs s k" by blast
  qed
  with e inv' ids show ?thesis by blast
qed

section \<open>The ring provides it\<close>

type_synonym ring_state = "HTTPContext \<times> HTTPContext \<times> server"

fun ring_ok :: "ring_state \<Rightarrow> bool" where
  "ring_ok (f, c, s) = ring_inv f c s"

fun ring_pend :: "ring_state \<Rightarrow> SFF list" where
  "ring_pend (f, c, s) = map (\<lambda>k. the (sffs s k)) (ring_ids f c)"

text \<open>A data packet that is complete; before \<open>sff_write\<close> its flag is still 0.\<close>

definition data_packet :: "SFF \<Rightarrow> bool" where
  "data_packet p \<longleftrightarrow> sff_type p = 2 \<and> sff_wflag p = 2"

fun ring_put :: "ring_state \<Rightarrow> SFF \<Rightarrow> ring_state result" where
  "ring_put (f, c, s) p =
     then_do (ring_push f (p\<lparr>sff_wflag := 0\<rparr>) s) (\<lambda>(f', s'). Inr (f', c, s'))"

fun ring_take :: "ring_state \<Rightarrow> (SFF option \<times> ring_state) result" where
  "ring_take (f, c, s) =
     then_do (sff_read_from f c 2 s) (\<lambda>(ko, c').
       case ko of
         None \<Rightarrow> Inr (None, f, c', s)
       | Some k \<Rightarrow> then_do (get_sff k s) (\<lambda>p. Inr (Some p, f, c', s)))"

lemma ring_put_ok:
  assumes "ring_ok st" "data_packet p" "length (ring_pend st) < 127"
  shows "\<exists>st'. ring_put st p = Inr st' \<and> ring_ok st' \<and> ring_pend st' = ring_pend st @ [p]"
proof -
  obtain f c s where st: "st = (f, c, s)" by (cases st)
  have "ring_inv f c s" "sff_type (p\<lparr>sff_wflag := 0\<rparr>) = 2" "ring_gap f c < 127"
    using assms st by (simp_all add: data_packet_def ring_ids_def)
  from ring_push_ok [OF this] obtain f' s' where
    r: "ring_push f (p\<lparr>sff_wflag := 0\<rparr>) s = Inr (f', s')" "ring_inv f' c s'"
      "ring_ids f' c = ring_ids f c @ [next_id s]"
      "sffs s' (next_id s) = Some (p\<lparr>sff_wflag := 0, sff_wflag := 2\<rparr>)"
      "\<forall>k \<in> set (ring_ids f c). sffs s' k = sffs s k" by auto
  have "p\<lparr>sff_wflag := 2\<rparr> = p" using assms(2) by (simp add: data_packet_def)
  then have "ring_pend (f', c, s') = ring_pend st @ [p]" using r st by simp
  with r st show ?thesis by simp
qed

lemma ring_ids_live:
  assumes "ring_inv f c s" "k \<in> set (ring_ids f c)"
  shows "\<exists>p. sffs s k = Some p"
proof -
  from assms(2) obtain j where j: "j < ring_gap f c" "k = the (sff_pkts f ! ring_slot f c j)"
    by (auto simp: ring_ids_def)
  with assms(1) have "sff_pkts f ! ring_slot f c j = Some k" unfolding ring_inv_def by fastforce
  moreover have "ring_slot f c j < NPKT + 1" using ring_slot_lt [of f c j] by simp
  ultimately show ?thesis using assms(1) unfolding ring_inv_def by blast
qed

lemma ring_take_ok:
  assumes "ring_ok st"
  shows "\<exists>st'. ring_take st = Inr (case ring_pend st of [] \<Rightarrow> None | p # _ \<Rightarrow> Some p, st')
       \<and> ring_ok st' \<and> ring_pend st' = tl (ring_pend st)"
proof -
  obtain f c s where st: "st = (f, c, s)" by (cases st)
  with assms have inv: "ring_inv f c s" by simp
  show ?thesis
  proof (cases "ring_gap f c = 0")
    case True
    then have "ring_ids f c = []" by (simp add: ring_ids_def)
    with st inv True show ?thesis by (simp add: ring_read)
  next
    case False
    let ?c = "c\<lparr>sff_r := (sff_r c + 1) mod 128\<rparr>"
    have "ring_ids f c \<noteq> []" using False by (simp add: ring_ids_def)
    then obtain k ks where k: "ring_ids f c = k # ks" by (cases "ring_ids f c") auto
    then obtain p where "sffs s k = Some p" using ring_ids_live [OF inv, of k] by auto
    with st inv False k ring_inv_pop [OF inv] ring_ids_pop [of f c] show ?thesis
      by (simp add: ring_read get_sff_def)
  qed
qed

interpretation ring: packet_queue ring_ok ring_pend data_packet 127 ring_put ring_take
  by unfold_locales (rule ring_put_ok ring_take_ok; assumption)+

text \<open>C9. The packet ring is a queue for its reader.  Starting from any sound ring with a reader that has
caught up, for every interleaving of complete data packets by the writer (\<open>sff_write\<close>) and
reads (\<open>sff_read\<close>) in which at most 127 packets are outstanding at any time, no step touches
a freed packet, and the reader gets exactly what a list-based queue would give it: every
packet, in order, or nothing when it has caught up.\<close>

theorem sff_ring_is_queue:
  assumes "ring_inv f c s" "sff_r c = sff_w f"
    and "q_peak ops 0 \<le> 127" "\<forall>p \<in> set (q_pushed ops). data_packet p"
  shows "\<exists>st'. q_run ring_put ring_take ops (f, c, s) = Inr (fst (q_spec ops []), st')
       \<and> ring_pend st' = snd (q_spec ops [])"
proof -
  have "ring_pend (f, c, s) = []"
    using ring_gap_0 [OF assms(1)] assms(2) by (simp add: ring_ids_def)
  with ring.run_is_queue [of "(f, c, s)" ops] assms show ?thesis by auto
qed

definition packet_demo :: "string \<Rightarrow> SFF" where
  "packet_demo ds =
     \<lparr>sff_type = 2, sff_size = int (length ds), sff_data = ds, sff_wpos = int (length ds), sff_wflag = 2\<rparr>"

lemma ring_demo_inv: "ring_inv (ctx_demo []) (ctx_demo []) server_start"
  by (auto simp: ring_inv_def ctx_demo_def ctx_zero_def server_start_def ring_gap_def nth_replicate
      simp del: replicate_Suc split: if_splits)

theorem sff_ring_witness:
  "\<exists>st'. q_run ring_put ring_take
       [QPush (packet_demo ''0000ab''), QPush (packet_demo ''0000c''), QPop, QPop, QPop]
       (ctx_demo [], ctx_demo [], server_start)
     = Inr ([packet_demo ''0000ab'', packet_demo ''0000c''], st')"
proof -
  let ?ops = "[QPush (packet_demo ''0000ab''), QPush (packet_demo ''0000c''), QPop, QPop, QPop]"
  have "\<exists>st'. q_run ring_put ring_take ?ops (ctx_demo [], ctx_demo [], server_start)
        = Inr (fst (q_spec ?ops []), st') \<and> ring_pend st' = snd (q_spec ?ops [])"
    by (rule sff_ring_is_queue [OF ring_demo_inv])
       (simp_all add: ctx_demo_def ctx_zero_def data_packet_def packet_demo_def)
  then show ?thesis by auto
qed

lemma ring_full_slot:
  assumes "ring_inv f c s" "ring_gap f c = 127"
  shows "ring_gap (f\<lparr>sff_pkts := ps, sff_w := (sff_w f + 1) mod 128\<rparr>) c = 0"
proof -
  let ?d = "(sff_w f - sff_r c) mod 128"
  have d: "?d = 127" using assms(2) by (simp add: ring_gap_def)
  have "((sff_w f + 1) mod 128 - sff_r c) mod 128 = (?d + 1) mod 128"
    by (metis add_diff_eq add.commute diff_add_eq mod_add_left_eq mod_diff_left_eq)
  with d show ?thesis by (simp add: ring_gap_def)
qed

text \<open>The writer does not look at its readers.  When 127 packets are outstanding for a reader, the
next packet makes the ring look empty to it: \<open>sff_read\<close> then reports that there is nothing
to read, and all 128 packets are skipped.\<close>

theorem sff_write_laps_reader:
  assumes "ring_inv f c s" "ring_gap f c = 127" "sff_type p = 2"
  shows "\<exists>f' s'. ring_push f p s = Inr (f', s') \<and> sff_read_from f' c 2 s' = Inr (None, c)"
proof -
  let ?f = "f\<lparr>sff_pkts := (sff_pkts f)[nat (sff_w f) := Some (next_id s)], sff_w := (sff_w f + 1) mod 128\<rparr>"
  have i: "length (sff_pkts f) = 129" "0 \<le> sff_w f" "sff_w f < 128" "0 \<le> sff_r c" "sff_r c < 128"
    using assms(1) by (simp_all add: ring_inv_def)
  from ring_push_effect [OF assms(1,3)] obtain s' where
    e: "ring_push f p s = Inr (?f, s')" "sffs s' (next_id s) = Some (p\<lparr>sff_wflag := 2\<rparr>)"
      "\<And>j. j < next_id s \<Longrightarrow> sff_pkts f ! nat (sff_w f) \<noteq> Some j \<Longrightarrow> sffs s' j = sffs s j" by blast
  have "ring_gap ?f c = 0" by (rule ring_full_slot [OF assms(1,2)])
  then have "(sff_w ?f - sff_r c) mod 128 = 0"
    using pos_mod_sign [of 128 "sff_w ?f - sff_r c"] by (simp add: ring_gap_def)
  then have "sff_w ?f mod 128 = sff_r c mod 128" by (simp only: mod_eq_dvd_iff dvd_eq_mod_eq_0)
  with i have eq: "sff_w ?f = sff_r c" by simp
  have ne: "nat (sff_r c) \<noteq> nat (sff_w f)"
  proof
    assume "nat (sff_r c) = nat (sff_w f)"
    with i have "sff_r c = sff_w f" by simp
    with assms(2) show False by (simp add: ring_gap_def)
  qed
  let ?r = "nat (sff_r c)"
  have sl: "slot_at ?f (sff_r c) = Inr (sff_pkts f ! ?r)" using i ne by (simp add: slot_at_def)
  have "sff_read_from ?f c 2 s' = Inr (None, c)"
  proof (cases "sff_pkts f ! ?r")
    case None
    with sl show ?thesis by (simp add: sff_read_from_def Let_def)
  next
    case (Some k)
    have r: "?r < NPKT + 1" using i by simp
    with Some obtain q where q: "k < next_id s" "sffs s k = Some q"
      using assms(1) unfolding ring_inv_def by blast
    have "nat (sff_w f) < NPKT + 1" using i by simp
    then have "sff_pkts f ! nat (sff_w f) \<noteq> Some k"
      using assms(1) Some r ne unfolding ring_inv_def by blast
    with e(3) q have "sffs s' k = Some q" by simp
    with Some sl eq show ?thesis by (simp add: sff_read_from_def Let_def get_sff_def)
  qed
  with e(1) show ?thesis by blast
qed

text \<open>A packet whose slot comes round again is freed even while a reader is still sending from it: the
reader's pointer into the packet then dangles, whatever part of it is left to send.\<close>

theorem sff_write_frees_packet_in_use:
  assumes "ring_inv f c s" "sff_type p = 2" "sff_pkts f ! nat (sff_w f) = Some k"
  shows "\<exists>f' s'. ring_push f p s = Inr (f', s') \<and> rd_ptr s' c (RSff k, off) n = Inl UseAfterFree"
  using ring_push_effect [OF assms(1,2)] assms(3)
  by (auto simp: rd_ptr_def region_mem_def)

section \<open>A full ring\<close>

definition ring_full_feed :: HTTPContext where
  "ring_full_feed = (ctx_demo [])\<lparr>sff_pkts := map Some [0..<128] @ [None], sff_w := 127\<rparr>"

definition ring_full_server :: server where
  "ring_full_server =
     server_start\<lparr>sffs := (\<lambda>k. if k < 128 then Some (packet_demo ''0000x'') else None), next_id := 128\<rparr>"

lemma ring_full_pkts: "sff_pkts ring_full_feed = map Some [0..<128] @ [None]"
  by (simp only: ring_full_feed_def HTTPContext.simps HTTPContext.update_convs HTTPContext.select_convs) simp

lemma ring_full_nth: "i < 129 \<Longrightarrow> sff_pkts ring_full_feed ! i = (if i < 128 then Some i else None)"
proof -
  assume i: "i < 129"
  have l: "length (map Some [0..<128::nat]) = 128" by simp
  show ?thesis
  proof (cases "i < 128")
    case True
    have "(map Some [0..<128] @ [None]) ! i = map Some [0..<128] ! i"
      by (rule nth_append_left) (simp add: True)
    also have "\<dots> = Some i" using True by (simp only: nth_map length_upt nth_upt add_0 diff_zero)
    finally show ?thesis using True by (simp only: ring_full_pkts if_True)
  next
    case False
    with i have "i = 128" by simp
    moreover have "(map Some [0..<128::nat] @ [None]) ! 128 = None"
      by (metis l nth_append_length)
    ultimately show ?thesis by (simp only: ring_full_pkts) simp
  qed
qed

lemma ring_full_inv: "ring_inv ring_full_feed (ctx_demo []) ring_full_server"
  "ring_gap ring_full_feed (ctx_demo []) = 127"
proof -
  have w: "sff_w ring_full_feed = 127" "sff_r (ctx_demo []) = 0" "length (sff_pkts ring_full_feed) = 129"
    by (simp_all add: ring_full_feed_def ctx_demo_def ctx_zero_def)
  show "ring_gap ring_full_feed (ctx_demo []) = 127" by (simp add: ring_gap_def w)
  have sl: "ring_slot ring_full_feed (ctx_demo []) j < 128" for j by (rule ring_slot_lt)
  have f: "sff_pkts ring_full_feed ! ring_slot ring_full_feed (ctx_demo []) j
      = Some (ring_slot ring_full_feed (ctx_demo []) j)" for j
    by (subst ring_full_nth) (use sl [of j] in simp_all)
  show "ring_inv ring_full_feed (ctx_demo []) ring_full_server"
    unfolding ring_inv_def w using sl f
    by (auto simp: ring_full_nth ring_full_server_def packet_demo_def less_Suc_eq split: if_splits)
qed

theorem sff_write_laps_witness:
  "\<exists>f' s'. ring_push ring_full_feed (packet_demo ''0000y'') ring_full_server = Inr (f', s')
     \<and> sff_read_from f' (ctx_demo []) 2 s' = Inr (None, ctx_demo [])"
  by (rule sff_write_laps_reader [OF ring_full_inv]) (simp add: packet_demo_def)

theorem sff_write_frees_witness:
  "\<exists>f' s'. ring_push ring_full_feed (packet_demo ''0000y'') ring_full_server = Inr (f', s')
     \<and> rd_ptr s' (ctx_demo []) (RSff 127, 4) 1 = Inl UseAfterFree"
proof (rule sff_write_frees_packet_in_use [OF ring_full_inv(1)])
  show "sff_type (packet_demo ''0000y'') = 2" by (simp add: packet_demo_def)
  have "nat (sff_w ring_full_feed) = 127" by (simp add: ring_full_feed_def)
  then show "sff_pkts ring_full_feed ! nat (sff_w ring_full_feed) = Some 127"
    by (simp only: ring_full_nth) simp
qed

end
