(* ===== verification/Receive.thy ===== *)
theory Receive
  imports HlsCells SffRing
begin

text \<open>
  The receiving half of \<open>src/ffserver.c\<close>: chunked transfer decoding, the upload and relay
  paths of \<open>http_receive_data\<close>, the short replies, and the wake-up of readers.
\<close>

section \<open>Short replies\<close>

definition prepare_response :: "HTTPContext \<Rightarrow> int \<Rightarrow> string \<Rightarrow> (int \<times> HTTPContext) result" where
  "prepare_response c code reason =
     then_do (vsnprintf (buffer c) (buffer_off c) (nat (buffer_size c))
               (''HTTP/1.1 '' @ int_str code @ '' '' @ reason @ crlf @ crlf @ crlf)) (\<lambda>(len, b).
       Inr (0, c\<lparr>buffer := b, buffer_ptr := (RBuf, buffer_off c),
                 buffer_end := (RBuf, buffer_off c + int len), state := HTTPSTATE_SEND_HEADER\<rparr>))"

section \<open>Waking the readers\<close>

definition c_strcmp_eq :: "string option \<Rightarrow> string option \<Rightarrow> bool result" where
  "c_strcmp_eq a b =
     (case a of None \<Rightarrow> Inl NullDeref | Some x \<Rightarrow>
      case b of None \<Rightarrow> Inl NullDeref | Some y \<Rightarrow> Inr (x = y))"

text \<open>
  One round of the loop of \<open>wake_others(c, to)\<close> for the connection \<open>j\<close>; \<open>i\<close> is \<open>c\<close>.  The two may be
  the same object, so each step reads what the one before it has stored.
\<close>

definition wake_one :: "nat \<Rightarrow> HTTPState \<Rightarrow> nat \<Rightarrow> server \<Rightarrow> server result" where
  "wake_one i to j s =
     then_do (get_conn j s) (\<lambda>c2.
       if state c2 = HTTPSTATE_WAIT_FEED then
         then_do (get_conn i s) (\<lambda>c.
         then_do (if feed_ctx c2 = None \<and> post c2 = 0 then c_strcmp_eq (url c2) (url c) else Inr False)
           (\<lambda>attach.
         then_do
           (if attach then
              let s1 = put_conn j (c2\<lparr>feed_ctx := Some i\<rparr>) s in
              then_do (get_conn i s1) (\<lambda>c. Inr (put_conn i (c\<lparr>sff_ref_cnt := sff_ref_cnt c + 1\<rparr>) s1))
            else Inr s) (\<lambda>s1.
         then_do (get_conn j s1) (\<lambda>c2.
         then_do (get_conn i s1) (\<lambda>c.
           if feed_ctx c2 = Some i \<or> (0 \<le> hls_idx c \<and> hls_idx c = hls_idx c2)
           then Inr (put_conn j (c2\<lparr>state := to\<rparr>) s1) else Inr s1)))))
       else Inr s)"

fun wake_loop :: "nat \<Rightarrow> HTTPState \<Rightarrow> nat list \<Rightarrow> server \<Rightarrow> server result" where
  "wake_loop i to [] s = Inr s"
| "wake_loop i to (j # js) s = then_do (wake_one i to j s) (wake_loop i to js)"

definition wake_others :: "nat \<Rightarrow> HTTPState \<Rightarrow> server \<Rightarrow> server result" where
  "wake_others i to s = wake_loop i to (first_http_ctx s) s"

section \<open>Chunked transfer decoding\<close>

text \<open>
  The header loop of \<open>recv_chunked\<close>: \<open>n\<close> is \<open>c->buffer_ptr - c->buffer\<close>.  \<open>False\<close> is the early
  return of -1 on a failed or empty read.
\<close>

function chunk_header_loop ::
  "nat \<Rightarrow> HTTPContext \<Rightarrow> 'a world_scheme \<Rightarrow> (bool \<times> nat \<times> HTTPContext \<times> 'a world_scheme) result" where
  "chunk_header_loop n c w =
     (if chunk_size c = 0 \<and> n < 32 then
        then_do (recv_buf (int n) 1 c w) (\<lambda>(len, c1, w1).
          if len \<le> 0 then Inr (False, n, c1, w1)
          else then_do (if 2 \<le> n then mem_rd (buffer c1) (buffer_off c1 + int n - 1) 2 else Inr []) (\<lambda>two.
            if 2 \<le> n \<and> two = crlf then
              Inr (True, n, c1\<lparr>chunk_size := to_int32 (strtoll 16 (drop (nat (buffer_off c1)) (buffer c1)))\<rparr>, w1)
            else chunk_header_loop (n + 1) c1 w1))
      else Inr (True, n, c, w))"
  by pat_completeness auto
termination
  by (relation "measure (\<lambda>(n, c, w). 32 - n)") auto

declare chunk_header_loop.simps [simp del]

definition recv_chunked ::
  "HTTPContext \<Rightarrow> 'a world_scheme \<Rightarrow> (int \<times> HTTPContext \<times> 'a world_scheme) result" where
  "recv_chunked c w =
     then_do (chunk_header_loop 0 c w) (\<lambda>(ok, n, c1, w1).
       let c2 = c1\<lparr>buffer_ptr := (RBuf, buffer_off c1 + int n)\<rparr> in
       if \<not> ok then Inr (-1, c2, w1)
       else if 32 \<le> n then Inr (-1, c2, w1)
       else if chunk_size c2 = 0 then Inr (0, c2, w1)
       else then_do (recv_buf 0 (min (chunk_size c2) (buffer_size c2)) c2 w1) (\<lambda>(len, c3, w3).
         Inr (len, if 0 < len then c3\<lparr>chunk_size := chunk_size c3 - len\<rparr> else c3, w3)))"

text \<open>\<open>c->tr_encoding == 1 ? recv_chunked(c) : recv(c->fd, c->buffer, c->buffer_size, 0)\<close>.\<close>

definition recv_any ::
  "HTTPContext \<Rightarrow> 'a world_scheme \<Rightarrow> (int \<times> HTTPContext \<times> 'a world_scheme) result" where
  "recv_any c w = (if tr_encoding c = 1 then recv_chunked c w else recv_buf 0 (buffer_size c) c w)"

text \<open>What is left to arrive, for the termination of the loops that read until nothing comes.\<close>

definition left_to_come :: "HTTPContext \<Rightarrow> nat" where
  "left_to_come c = rx_size (rx (fd c))"

lemma conn_recv_rx:
  "conn_recv n c w = (r, c', w') \<Longrightarrow>
   sock_recv (nat (n mod 2 ^ 64)) (rx (fd c)) = (r, rx (fd c')) \<and> c' = c\<lparr>fd := fd c'\<rparr>
   \<and> (\<forall>bs. r = Got bs \<longrightarrow> w' = w)"
  by (auto simp: conn_recv_def split: prod.splits io_result.splits)

lemma sock_recv_le: "sock_recv n es = (r, es') \<Longrightarrow> rx_size es' \<le> rx_size es"
  by (induction n es rule: sock_recv.induct) (auto split: if_splits)

lemma recv_buf_left:
  assumes "recv_buf off n c w = Inr (len, c', w')"
  shows "left_to_come c' \<le> left_to_come c" "0 < len \<Longrightarrow> left_to_come c' < left_to_come c"
proof -
  obtain r c1 w1 where r: "conn_recv n c w = (r, c1, w1)" by (cases "conn_recv n c w") auto
  have s: "sock_recv (nat (n mod 2 ^ 64)) (rx (fd c)) = (r, rx (fd c1))"
    using conn_recv_rx [OF r] by simp
  have f: "rx (fd c') = rx (fd c1)" "len = io_len r"
    using assms r by (auto simp: recv_buf_def split: io_result.splits)
  show "left_to_come c' \<le> left_to_come c"
    using sock_recv_le [OF s] f by (simp add: left_to_come_def)
  show "0 < len \<Longrightarrow> left_to_come c' < left_to_come c"
    using sock_recv_size [of "nat (n mod 2 ^ 64)" "rx (fd c)"] s f
    by (cases r) (auto simp: left_to_come_def neq_Nil_conv)
qed

lemma chunk_header_left:
  "chunk_header_loop n c w = Inr (ok, n', c', w') \<Longrightarrow> left_to_come c' \<le> left_to_come c"
proof (induction n c w rule: chunk_header_loop.induct)
  case (1 n c w)
  show ?case
  proof (cases "chunk_size c = 0 \<and> n < 32")
    case False
    with 1 show ?thesis by (subst (asm) (2) chunk_header_loop.simps) auto
  next
    case True
    with "1.prems" obtain len c1 w1 where r: "recv_buf (int n) 1 c w = Inr (len, c1, w1)"
      by (subst (asm) chunk_header_loop.simps) auto
    have le: "left_to_come c1 \<le> left_to_come c" by (rule recv_buf_left(1) [OF r])
    show ?thesis
    proof (cases "len \<le> 0")
      case True
      with "1.prems" r \<open>chunk_size c = 0 \<and> n < 32\<close> le show ?thesis
        by (subst (asm) chunk_header_loop.simps) auto
    next
      case False
      with "1.prems" r \<open>chunk_size c = 0 \<and> n < 32\<close> obtain two where
        two: "(if 2 \<le> n then mem_rd (buffer c1) (buffer_off c1 + int n - 1) 2 else Inr []) = Inr two"
        by (subst (asm) chunk_header_loop.simps) (auto simp del: One_nat_def)
      show ?thesis
      proof (cases "2 \<le> n \<and> two = crlf")
        case True
        with "1.prems" r \<open>chunk_size c = 0 \<and> n < 32\<close> False two have
          "c' = c1\<lparr>chunk_size := to_int32 (strtoll 16 (drop (nat (buffer_off c1)) (buffer c1)))\<rparr>"
          by (subst (asm) chunk_header_loop.simps) auto
        with le show ?thesis by (simp add: left_to_come_def)
      next
        case no: False
        with "1.prems" r \<open>chunk_size c = 0 \<and> n < 32\<close> False two have
          "chunk_header_loop (n + 1) c1 w1 = Inr (ok, n', c', w')"
          by (subst (asm) chunk_header_loop.simps) (auto split: if_splits)
        with "1.IH" [OF \<open>chunk_size c = 0 \<and> n < 32\<close> r refl refl False two no] le show ?thesis by auto
      qed
    qed
  qed
qed

lemma recv_any_left:
  assumes "recv_any c w = Inr (len, c', w')" "0 < len"
  shows "left_to_come c' < left_to_come c"
proof (cases "tr_encoding c = 1")
  case False
  with assms recv_buf_left(2) show ?thesis by (auto simp: recv_any_def)
next
  case True
  with assms obtain n c1 w1 c2 where
    h: "chunk_header_loop 0 c w = Inr (True, n, c1, w1)"
    and r: "recv_buf 0 (min (chunk_size c1) (buffer_size c1)) (c1\<lparr>buffer_ptr := (RBuf, buffer_off c1 + int n)\<rparr>) w1
        = Inr (len, c2, w')" "c' = c2\<lparr>chunk_size := chunk_size c2 - len\<rparr>"
    by (auto simp: recv_any_def recv_chunked_def Let_def split: if_splits)
  from recv_buf_left(2) [OF r(1) assms(2)] chunk_header_left [OF h] r(2)
  show ?thesis by (simp add: left_to_come_def)
qed

section \<open>The upload path\<close>

text \<open>
  \<open>for (;;)\<close>: receive, append to the local file, until nothing comes.  The result is the last
  length.
\<close>

function drain_loop ::
  "kernel \<Rightarrow> HTTPContext \<Rightarrow> 'a world_scheme \<Rightarrow> (int \<times> HTTPContext \<times> 'a world_scheme) result" where
  "drain_loop k c w =
     then_do (recv_any c w) (\<lambda>(len, c1, w1).
       if 0 < len then
         then_do (mem_rd (buffer c1) (buffer_off c1) len) (\<lambda>ds.
           let (n, w2) = sys_write k (local_fd c1) ds w1 in
           drain_loop k (c1\<lparr>data_count := data_count c1 + n\<rparr>) w2)
       else Inr (len, c1, w1))"
  by pat_completeness auto
termination
  by (relation "measure (\<lambda>(k, c, w). left_to_come c)")
     (auto dest!: recv_any_left simp: left_to_come_def)

declare drain_loop.simps [simp del]

section \<open>Packets from the socket\<close>

text \<open>
  \<open>recv\<close> into the local array \<open>buf[8]\<close>: what arrives overwrites its beginning, the rest stays.
\<close>

definition recv_loc ::
  "int \<Rightarrow> char list \<Rightarrow> HTTPContext \<Rightarrow> 'a world_scheme \<Rightarrow> int \<times> char list \<times> HTTPContext \<times> 'a world_scheme" where
  "recv_loc n b c w =
     (let (r, c', w') = conn_recv n c w in
      case r of
        Failed e \<Rightarrow> (-1, b, c', w')
      | Got bs \<Rightarrow> (int (length bs), bs @ drop (length bs) b, c', w'))"

lemma recv_loc_left:
  assumes "recv_loc n b c w = (len, b', c', w')"
  shows "left_to_come c' \<le> left_to_come c" "0 < len \<Longrightarrow> left_to_come c' < left_to_come c"
proof -
  obtain r c1 w1 where r: "conn_recv n c w = (r, c1, w1)" by (cases "conn_recv n c w") auto
  have s: "sock_recv (nat (n mod 2 ^ 64)) (rx (fd c)) = (r, rx (fd c1))"
    using conn_recv_rx [OF r] by simp
  have f: "c' = c1" "len = io_len r"
    using assms r by (auto simp: recv_loc_def split: io_result.splits)
  show "left_to_come c' \<le> left_to_come c"
    using sock_recv_le [OF s] f by (simp add: left_to_come_def)
  show "0 < len \<Longrightarrow> left_to_come c' < left_to_come c"
    using sock_recv_size [of "nat (n mod 2 ^ 64)" "rx (fd c)"] s f
    by (cases r) (auto simp: left_to_come_def neq_Nil_conv)
qed

text \<open>
  The search for the next packet header: \<open>S F F\<close>, a digit, a length that is neither 0 nor above
  a million.  Only the first \<open>recv\<close> of a round is checked.  The result is the last checked length
  with the type and the size, if a header was found.
\<close>

definition buf0 :: "char list \<Rightarrow> char" where
  "buf0 b = hd b"

definition sync_tail ::
  "char list \<Rightarrow> HTTPContext \<Rightarrow> 'a world_scheme
   \<Rightarrow> ((int \<times> 32 word) option \<times> char list \<times> HTTPContext \<times> 'a world_scheme)" where
  "sync_tail b c w =
     (let (_, b2, c2, w2) = recv_loc 1 b c w in
      if buf0 b2 \<noteq> CHR ''F'' then (None, b2, c2, w2)
      else let (_, b3, c3, w3) = recv_loc 1 b2 c2 w2 in
      if buf0 b3 \<noteq> CHR ''F'' then (None, b3, c3, w3)
      else let (_, b4, c4, w4) = recv_loc 1 b3 c3 w3 in
      if \<not> (48 \<le> ord (buf0 b4) \<and> ord (buf0 b4) \<le> 57) then (None, b4, c4, w4)
      else let type = ord (buf0 b4) - 48;
               (_, b5, c5, w5) = recv_loc 4 b4 c4 w4;
               sz = (case rb32_chars b5 of Inr v \<Rightarrow> v | Inl _ \<Rightarrow> 0) in
      if sz = 0 \<or> 1000000 < uint sz then (None, b5, c5, w5)
      else (Some (type, sz), b5, c5, w5))"

lemma sync_tail_left:
  "sync_tail b c w = (x, b', c', w') \<Longrightarrow> left_to_come c' \<le> left_to_come c"
proof -
  assume s: "sync_tail b c w = (x, b', c', w')"
  obtain n2 b2 c2 w2 where r2: "recv_loc 1 b c w = (n2, b2, c2, w2)" by (metis surj_pair)
  obtain n3 b3 c3 w3 where r3: "recv_loc 1 b2 c2 w2 = (n3, b3, c3, w3)" by (metis surj_pair)
  obtain n4 b4 c4 w4 where r4: "recv_loc 1 b3 c3 w3 = (n4, b4, c4, w4)" by (metis surj_pair)
  obtain n5 b5 c5 w5 where r5: "recv_loc 4 b4 c4 w4 = (n5, b5, c5, w5)" by (metis surj_pair)
  from s have "c' \<in> {c2, c3, c4, c5}"
    by (auto simp: sync_tail_def r2 r3 r4 r5 Let_def split: if_splits)
  with recv_loc_left(1) [OF r2] recv_loc_left(1) [OF r3] recv_loc_left(1) [OF r4]
    recv_loc_left(1) [OF r5] show ?thesis by auto
qed

function sync_loop ::
  "char list \<Rightarrow> HTTPContext \<Rightarrow> 'a world_scheme
   \<Rightarrow> int \<times> (int \<times> 32 word) option \<times> HTTPContext \<times> 'a world_scheme" where
  "sync_loop b c w =
     (let (len, b1, c1, w1) = recv_loc 1 b c w in
      if \<not> 0 < len then (len, None, c1, w1)
      else if buf0 b1 \<noteq> CHR ''S'' then sync_loop b1 c1 w1
      else let (found, b2, c2, w2) = sync_tail b1 c1 w1 in
      case found of
        None \<Rightarrow> sync_loop b2 c2 w2
      | Some h \<Rightarrow> (len, Some h, c2, w2))"
  by pat_completeness auto
termination
proof (relation "measure (\<lambda>(b, c, w). left_to_come c)", goal_cases)
  case (2 b c w x len y b1 z c1 w1)
  then show ?case using recv_loc_left(2) [of 1 b c w len b1 c1 w1] by auto
next
  case (3 b c w x len y b1 z c1 w1 u found v b2 t c2 w2)
  then show ?case
    using recv_loc_left(2) [of 1 b c w len b1 c1 w1] sync_tail_left [of b1 c1 w1 found b2 c2 w2]
    by auto
qed simp

declare sync_loop.simps [simp del]

section \<open>The four ways of receiving\<close>

text \<open>
  The body of \<open>http_receive_data\<close> up to the label \<open>check\<close>.  The result is \<open>len\<close>, the local variable
  \<open>sff\<close>, and the state; \<open>None\<close> is the early return of -1.
\<close>

type_synonym received = "(int \<times> nat option \<times> HTTPContext \<times> server) option"

definition receive_segment :: "kernel \<Rightarrow> HTTPContext \<Rightarrow> server \<Rightarrow> received result" where
  "receive_segment k c s =
     then_do (recv_any c s) (\<lambda>(len, c1, s1).
       if 0 < len then
         then_do (mem_rd (buffer c1) (buffer_off c1) len) (\<lambda>ds.
         then_do (hls_write k c1 ds s1) (\<lambda>(_, c2, s2). Inr (Some (len, sff c, c2, s2))))
       else Inr (Some (len, sff c, c1, s1)))"

definition receive_upload :: "kernel \<Rightarrow> HTTPContext \<Rightarrow> server \<Rightarrow> received result" where
  "receive_upload k c s =
     then_do (drain_loop k c s) (\<lambda>(len, c1, s1). Inr (Some (len, sff c, c1, s1)))"

definition receive_rest :: "HTTPContext \<Rightarrow> nat \<Rightarrow> SFF \<Rightarrow> server \<Rightarrow> received result" where
  "receive_rest c k p s =
     (let len0 = sff_size p - sff_wpos p;
          (r, c1, s1) = conn_recv len0 c s;
          len = io_len r in
      then_do (case r of Failed e \<Rightarrow> Inr p
               | Got bs \<Rightarrow> then_do (mem_wr (sff_data p) (sff_wpos p) bs) (\<lambda>d.
                   Inr (p\<lparr>sff_data := d, sff_wpos := sff_wpos p + len\<rparr>))) (\<lambda>p'.
        let s2 = put_sff k p' s1 in
        if len = len0 then
          then_do (sff_write c1 k s2) (\<lambda>(c2, s3). Inr (Some (len, Some k, c2\<lparr>sff := None\<rparr>, s3)))
        else Inr (Some (len, Some k, c1, s2))))"

definition receive_new :: "kernel \<Rightarrow> HTTPContext \<Rightarrow> server \<Rightarrow> received result" where
  "receive_new k c s =
     (let (len, found, c1, s1) = sync_loop (replicate 8 NUL) c s in
      case found of
        None \<Rightarrow> Inr (Some (len, None, c1, s1))
      | Some (type, sz) \<Rightarrow>
          if \<not> (k_malloc k (log s1) 32 \<and> k_malloc k (log s1) (uint sz)) then Inl NullDeref
          else
            let (r, c2, s2) = conn_recv (uint sz) c1 s1;
                n = io_len r;
                bs = (case r of Got bs \<Rightarrow> bs | Failed _ \<Rightarrow> []) in
            then_do (mem_wr (k_junk k (unat sz)) 0 bs) (\<lambda>d.
              let (j, s3) = new_sff \<lparr>sff_type = type, sff_size = uint sz, sff_data = d,
                                     sff_wpos = int (length bs), sff_wflag = 0\<rparr> s2;
                  c3 = c2\<lparr>sff := Some j\<rparr> in
              if int (length bs) = uint sz then
                then_do (sff_write c3 j s3) (\<lambda>(c4, s4). Inr (Some (n, Some j, c4\<lparr>sff := None\<rparr>, s4)))
              else Inr (Some (n, Some j, c3, s3))))"

definition receive_packet :: "kernel \<Rightarrow> HTTPContext \<Rightarrow> server \<Rightarrow> received result" where
  "receive_packet k c s =
     (case sff c of
        None \<Rightarrow> receive_new k c s
      | Some j \<Rightarrow> then_do (get_sff j s) (\<lambda>p.
          if sff_size p \<noteq> 0 \<and> sff_wpos p < sff_size p then receive_rest c j p s else Inr None))"

section \<open>What follows from it\<close>

definition conn_ended :: "int \<Rightarrow> HTTPContext \<Rightarrow> server \<Rightarrow> bool" where
  "conn_ended len c s \<longleftrightarrow>
     len = 0 \<or> (len < 0 \<and> hard_error s) \<or> (0 < content_length c \<and> content_length c \<le> data_count c)"

text \<open>The state that waiting readers are sent to when something new can be read.\<close>

definition wake_state :: "HTTPContext \<Rightarrow> nat option \<Rightarrow> server \<Rightarrow> HTTPState option result" where
  "wake_state c ko s =
     (if 0 \<le> hls_idx c then
        then_do (get_hls (hls_idx c) s) (\<lambda>h.
          Inr (if 0 < hls_csize h then Some HTTPSTATE_SEND_DATA else None))
      else case ko of
        None \<Rightarrow> Inr None
      | Some j \<Rightarrow> then_do (get_sff j s) (\<lambda>p.
          Inr (if sff_size p \<noteq> 0 \<and> sff_wpos p = sff_size p then
                 (if sff_type p = 1 then Some HTTPSTATE_SEND_DATA_HEADER
                  else if sff_type p = 2 then Some HTTPSTATE_SEND_DATA else None)
               else None)))"

definition receive_wake :: "nat \<Rightarrow> HTTPContext \<Rightarrow> nat option \<Rightarrow> server \<Rightarrow> (int \<times> server) result" where
  "receive_wake i c ko s =
     then_do (wake_state c ko s) (\<lambda>trans.
       case trans of
         None \<Rightarrow> Inr (0, s)
       | Some st \<Rightarrow> then_do (wake_others i st s) (\<lambda>s'. Inr (0, s')))"

text \<open>
  The end of an upload: the file is closed and the answer prepared.  For the relays the readers
  are sent to their last state; without a reader, or for a segment, the connection ends.
\<close>

definition receive_end :: "nat \<Rightarrow> HTTPContext \<Rightarrow> nat option \<Rightarrow> server \<Rightarrow> (int \<times> server) result" where
  "receive_end i c ko s =
     (if hls_idx c < 0 \<and> 0 \<le> local_fd c then
        let c1 = c\<lparr>local_fd := -1, http_error := 200\<rparr> in
        then_do (prepare_response c1 200 ''OK'') (\<lambda>(ret, c2).
          Inr (ret, put_conn i c2 (sys_note (SysClose (local_fd c)) s)))
      else
        then_do (if 0 \<le> hls_idx c then
                   then_do (get_hls (hls_idx c) s) (\<lambda>h. Inr (put_hls (hls_idx c) (h\<lparr>hls_flag := 2\<rparr>) s))
                 else Inr s) (\<lambda>s1.
        then_do (wake_others i HTTPSTATE_SEND_DATA_TRAILER (put_conn i c s1)) (\<lambda>s2.
        then_do (get_conn i s2) (\<lambda>c2.
          if 0 \<le> hls_idx c2 \<or> sff_ref_cnt c2 \<le> 0 then Inr (-1, s2)
          else receive_wake i c2 ko s2))))"

definition http_receive_data :: "kernel \<Rightarrow> nat \<Rightarrow> server \<Rightarrow> (int \<times> server) result" where
  "http_receive_data k i s =
     then_do (get_conn i s) (\<lambda>c.
     then_do
       (if 0 \<le> hls_idx c then receive_segment k c s
        else if 0 \<le> local_fd c then receive_upload k c s
        else receive_packet k c s) (\<lambda>r.
     case r of
       None \<Rightarrow> Inr (-1, s)
     | Some (len, ko, c1, s1) \<Rightarrow>
         if conn_ended len c1 s1 then receive_end i c1 ko s1
         else receive_wake i c1 ko (put_conn i c1 s1)))"

end
