(* ===== verification/ReceiveProofs.thy ===== *)
theory ReceiveProofs
  imports Receive
begin

text \<open>
  What the receiving half delivers: an upload, plain or chunked, reaches the file byte for
  byte; packets of the relay format reach the ring; the wake-up touches nobody else; and the
  places where the code loses its way.
\<close>

section \<open>Sockets that deliver\<close>

text \<open>The bytes come in segments of any size, without errors in between.\<close>

definition smooth :: "'b rx_event list \<Rightarrow> bool" where
  "smooth es \<longleftrightarrow> (\<forall>e \<in> set es. \<exists>bs. e = RxData bs)"

lemma sock_recv_smooth:
  "smooth es \<Longrightarrow> rx_bytes es \<noteq> [] \<Longrightarrow> 0 < n \<Longrightarrow>
   \<exists>got es'. sock_recv n es = (Got got, es') \<and> got \<noteq> [] \<and> length got \<le> n \<and> smooth es'
      \<and> rx_bytes es = got @ rx_bytes es'"
proof (induction n es rule: sock_recv.induct)
  case (4 n bs es)
  show ?case
  proof (cases "bs = []")
    case True
    with 4 show ?thesis by (simp add: smooth_def)
  next
    case False
    with 4 show ?thesis by (auto simp: smooth_def)
  qed
qed (auto simp: smooth_def)

text \<open>The connection as far as receiving into its buffer is concerned.\<close>

definition rx_ready :: "HTTPContext \<Rightarrow> string \<Rightarrow> bool" where
  "rx_ready c bs \<longleftrightarrow>
     smooth (rx (fd c)) \<and> rx_bytes (rx (fd c)) = bs \<and> buffer_off c = 0
     \<and> 32 \<le> buffer_size c \<and> buffer_size c \<le> int (length (buffer c)) \<and> buffer_size c < 2 ^ 31"

lemma recv_buf_smooth:
  assumes "rx_ready c bs" "bs \<noteq> []" "0 < n" "0 \<le> off" "off + n \<le> int (length (buffer c))" "n < 2 ^ 31"
  shows "\<exists>got rest fd'. bs = got @ rest \<and> got \<noteq> [] \<and> int (length got) \<le> n
     \<and> recv_buf off n c w
        = Inr (int (length got),
               c\<lparr>fd := fd', buffer := take (nat off) (buffer c) @ got @ drop (nat off + length got) (buffer c)\<rparr>, w)
     \<and> smooth (rx fd') \<and> rx_bytes (rx fd') = rest"
proof -
  have n: "n mod 2 ^ 64 = n" using assms(3,6) by (intro mod_pos_pos_trivial) simp_all
  from sock_recv_smooth [of "rx (fd c)" "nat n"] assms(1,2,3) obtain got es' where
    g: "sock_recv (nat n) (rx (fd c)) = (Got got, es')" "got \<noteq> []" "length got \<le> nat n" "smooth es'"
      "bs = got @ rx_bytes es'"
    by (auto simp: rx_ready_def)
  have "mem_wr (buffer c) off got
      = Inr (take (nat off) (buffer c) @ got @ drop (nat off + length got) (buffer c))"
    using g(3) assms(3,4,5) by (simp add: mem_wr_def)
  with g assms n show ?thesis
    by (intro exI [of _ got] exI [of _ "rx_bytes es'"] exI [of _ "(fd c)\<lparr>rx := es'\<rparr>"])
       (auto simp: recv_buf_def conn_recv_def rx_ready_def)
qed

lemma recv_buf_one:
  assumes "rx_ready c (b # bs)" "n < 32"
  shows "\<exists>fd'. recv_buf (int n) 1 c w
        = Inr (1, c\<lparr>fd := fd', buffer := take n (buffer c) @ b # drop (n + 1) (buffer c)\<rparr>, w)
     \<and> smooth (rx fd') \<and> rx_bytes (rx fd') = bs"
proof -
  from recv_buf_smooth [OF assms(1), of 1 "int n" w] assms obtain got rest fd' where
    g: "b # bs = got @ rest" "got \<noteq> []" "length got \<le> 1"
      "recv_buf (int n) 1 c w
        = Inr (int (length got),
               c\<lparr>fd := fd', buffer := take n (buffer c) @ got @ drop (n + length got) (buffer c)\<rparr>, w)"
      "smooth (rx fd')" "rx_bytes (rx fd') = rest"
    by (auto simp: rx_ready_def)
  then have "got = [b]" "rest = bs" by (cases got; auto)+
  with g show ?thesis by auto
qed

section \<open>A chunk header\<close>

text \<open>
  A text that the header loop reads to its end: it closes with the first line end that starts
  behind its first character.
\<close>

definition header_text :: "string \<Rightarrow> bool" where
  "header_text h \<longleftrightarrow>
     3 \<le> length h \<and> length h \<le> 32 \<and> drop (length h - 2) h = crlf
     \<and> (\<forall>m. 2 \<le> m \<longrightarrow> m < length h - 1 \<longrightarrow> take 2 (drop (m - 1) h) \<noteq> crlf)"

lemma chunk_header_reads:
  assumes "header_text h" "n < length h" "chunk_size c = 0" "rx_ready c (drop n h @ rest)"
    and "take n (buffer c) = take n h"
  shows "\<exists>fd' b'. chunk_header_loop n c w
      = Inr (True, length h - 1, c\<lparr>fd := fd', buffer := b', chunk_size := to_int32 (strtoll 16 b')\<rparr>, w)
     \<and> smooth (rx fd') \<and> rx_bytes (rx fd') = rest \<and> length b' = length (buffer c)
     \<and> take (length h) b' = h"
  using assms(2-5)
proof (induction "length h - n" arbitrary: n c)
  case 0
  then show ?case by simp
next
  case (Suc x)
  have h: "3 \<le> length h" "length h \<le> 32" "drop (length h - 2) h = crlf"
    "\<And>m. 2 \<le> m \<Longrightarrow> m < length h - 1 \<Longrightarrow> take 2 (drop (m - 1) h) \<noteq> crlf"
    using assms(1) by (auto simp: header_text_def)
  have n: "n < 32" using Suc.prems(1) h(2) by simp
  have dn: "drop n h = h ! n # drop (n + 1) h" using Suc.prems(1) by (simp add: Cons_nth_drop_Suc)
  have bl: "32 \<le> length (buffer c)" "buffer_off c = 0" using Suc.prems(3) by (auto simp: rx_ready_def)
  from recv_buf_one [of c "h ! n" "drop (n + 1) h @ rest" n w] Suc.prems(3) n dn obtain fd' where
    r: "recv_buf (int n) 1 c w
        = Inr (1, c\<lparr>fd := fd', buffer := take n (buffer c) @ h ! n # drop (n + 1) (buffer c)\<rparr>, w)"
      "smooth (rx fd')" "rx_bytes (rx fd') = drop (n + 1) h @ rest" by auto
  define b where "b = take n (buffer c) @ h ! n # drop (n + 1) (buffer c)"
  let ?c = "c\<lparr>fd := fd', buffer := b\<rparr>"
  have r1: "recv_buf (int n) 1 c w = Inr (1, ?c, w)" using r(1) by (simp only: b_def)
  have lb: "length b = length (buffer c)" using n bl by (simp add: b_def)
  have tb: "take (n + 1) b = take (n + 1) h"
    using Suc.prems(1,4) n bl by (simp add: b_def take_Suc_conv_app_nth)
  have two: "mem_rd b (buffer_off ?c + int n - 1) 2 = Inr (take 2 (drop (n - 1) h))" if "2 \<le> n"
  proof -
    have "take ((n + 1) - (n - 1)) (drop (n - 1) b) = take ((n + 1) - (n - 1)) (drop (n - 1) h)"
      by (metis drop_take tb)
    then have "take 2 (drop (n - 1) b) = take 2 (drop (n - 1) h)" using that by simp
    moreover have "mem_rd b (int (n - 1)) (int 2) = Inr (take 2 (drop (n - 1) b))"
      using that n bl lb by (intro mem_rd_nat) simp
    moreover have "buffer_off ?c + int n - 1 = int (n - 1)" using that bl by simp
    ultimately show ?thesis by simp
  qed
  show ?case
  proof (cases "n = length h - 1")
    case True
    then have n2: "2 \<le> n" "n - 1 = length h - 2" using h(1) by simp_all
    with two h(3) have "mem_rd b (buffer_off ?c + int n - 1) 2 = Inr crlf"
      by (simp add: crlf_def)
    then have "chunk_header_loop n c w
        = Inr (True, n, ?c\<lparr>chunk_size := to_int32 (strtoll 16 b)\<rparr>, w)"
      using Suc.prems(2) n n2 r1 bl
      by (subst chunk_header_loop.simps) simp
    moreover have "take (length h) b = h"
    proof -
      have "n + 1 = length h" using True h(1) by simp
      with tb show ?thesis by simp
    qed
    ultimately show ?thesis using r lb True h(1)
      by (intro exI [of _ fd'] exI [of _ b]) simp
  next
    case False
    then have nn: "n + 1 < length h" using Suc.prems(1) by simp
    then have no: "\<not> (2 \<le> n \<and> take 2 (drop (n - 1) h) = crlf)" using h(4) [of n] by auto
    have step: "chunk_header_loop n c w = chunk_header_loop (n + 1) ?c w"
      using Suc.prems(2) n r1 two no
      by (subst chunk_header_loop.simps) auto
    have "rx_ready ?c (drop (n + 1) h @ rest)"
      using r Suc.prems(3) lb by (simp add: rx_ready_def)
    from Suc.hyps(1) [of "n + 1" ?c] Suc.hyps(2) nn Suc.prems(2) this tb step lb
    show ?thesis by auto
  qed
qed

lemma nat_str_no_cr: "c \<in> set (nat_str 16 n) \<Longrightarrow> c \<noteq> CHR 0x0D"
proof
  assume "c \<in> set (nat_str 16 n)" "c = CHR 0x0D"
  then have "digit_val 16 (CHR 0x0D) \<noteq> None" using nat_str_digits [of 16 n] by auto
  then show False by (simp add: digit_val_def ord_def Let_def)
qed

lemma crlf_at: "take 2 (drop i h) = crlf \<Longrightarrow> h ! i = CHR 0x0D"
  by (cases "drop i h") (auto simp: crlf_def numeral_2_eq_2 dest: nth_via_drop)

lemma header_text_chunk:
  assumes "pre = [] \<or> pre = crlf" "n < 2 ^ 31"
  shows "header_text (pre @ nat_str 16 n @ crlf)"
proof -
  let ?h = "pre @ nat_str 16 n @ crlf" and ?d = "nat_str 16 n"
  have "n < 16 ^ 8" using assms(2) by simp
  then have d: "length ?d \<le> 8" by (intro nat_str_length) simp_all
  have d0: "0 < length ?d" by simp
  have p: "length pre \<le> 2" "pre = [] \<or> length pre = 2" using assms(1) by (auto simp: crlf_def)
  have c2: "length crlf = 2" by (simp add: crlf_def)
  have nocr: "?h ! j \<noteq> CHR 0x0D" if "1 \<le> j" "j < length ?h - 2" for j
  proof (cases "j < length pre")
    case True
    then have "pre \<noteq> []" by auto
    with p(2) assms(1) True that(1) have "pre = crlf" "j = 1" by auto
    then show ?thesis by (simp add: crlf_def)
  next
    case False
    then have "?h ! j = ?d ! (j - length pre)" "j - length pre < length ?d"
      using that c2 by (auto simp: nth_append)
    then show ?thesis using nat_str_no_cr [of "?h ! j" n] by (metis nth_mem)
  qed
  have "take 2 (drop (m - 1) ?h) \<noteq> crlf" if m: "2 \<le> m" "m < length ?h - 1" for m
  proof
    assume "take 2 (drop (m - 1) ?h) = crlf"
    then have "?h ! (m - 1) = CHR 0x0D" by (rule crlf_at)
    moreover have "1 \<le> m - 1" "m - 1 < length ?h - 2" using m by simp_all
    ultimately show False using nocr by blast
  qed
  moreover have "drop (length ?h - 2) ?h = crlf" using c2 by simp
  moreover have "3 \<le> length ?h" using d0 c2 by (simp only: length_append)
  moreover have "length ?h \<le> 32" using d p(1) c2 by simp
  ultimately show ?thesis unfolding header_text_def by blast
qed

lemma to_int32_small: "int n < 2 ^ 31 \<Longrightarrow> to_int32 (int n) = int n"
  unfolding to_int32_def by (rule sint_word_of_int_32) simp_all

text \<open>The number in the header.\<close>

lemma chunk_header_value:
  assumes "pre = [] \<or> pre = crlf" "n < 2 ^ 31" "take (length h) b = h" "h = pre @ nat_str 16 n @ crlf"
  shows "to_int32 (strtoll 16 b) = int n"
proof -
  have "b = h @ drop (length h) b" using assms(3) by (metis append_take_drop_id)
  then have b: "b = pre @ nat_str 16 n @ CHR 0x0D # CHR 0x0A # drop (length h) b"
    using assms(4) by (simp add: crlf_def)
  have ws: "\<forall>c \<in> set pre. av_isspace (ord c)"
    using assms(1) by (auto simp: crlf_def av_isspace_def ord_def)
  have n: "int n < 2 ^ 31" using assms(2) by simp
  have "strtoll 16 b = int n"
    by (subst b, rule strtoll_hex [OF ws])
       (use n in \<open>simp_all add: digit_val_def ord_def Let_def\<close>)
  with to_int32_small [OF n] show ?thesis by simp
qed

section \<open>An upload in chunks\<close>

text \<open>What a client sends: chunks, and an empty one at the end.\<close>

definition chunk_enc :: "string \<Rightarrow> string" where
  "chunk_enc ds = nat_str 16 (length ds) @ crlf @ ds @ crlf"

definition chunk_stream :: "string list \<Rightarrow> string" where
  "chunk_stream dss = concat (map chunk_enc dss) @ ''0'' @ crlf @ crlf"

definition good_chunks :: "string list \<Rightarrow> bool" where
  "good_chunks dss \<longleftrightarrow> (\<forall>ds \<in> set dss. ds \<noteq> [] \<and> length ds < 2 ^ 31)"

text \<open>
  Where the decoder can be between two calls: inside a chunk, with \<open>ds\<close> still to come, or
  behind one (with its line end still unread) or before the first.
\<close>

definition chunk_pos :: "string \<Rightarrow> string \<Rightarrow> string list \<Rightarrow> HTTPContext \<Rightarrow> bool" where
  "chunk_pos pre ds dss c \<longleftrightarrow>
     good_chunks dss \<and> tr_encoding c = 1 \<and>
     (if ds = [] then chunk_size c = 0 \<and> (pre = [] \<or> pre = crlf) \<and> rx_ready c (pre @ chunk_stream dss)
      else chunk_size c = int (length ds) \<and> pre = crlf \<and> rx_ready c (ds @ pre @ chunk_stream dss))"

lemma nat_str_0: "nat_str 16 0 = ''0''"
proof -
  have "digit_char 0 = CHR ''0''" by code_simp
  then show ?thesis by (subst nat_str.simps) simp
qed

lemma chunk_stream_Nil: "chunk_stream [] = (nat_str 16 0 @ crlf) @ crlf"
  by (simp add: chunk_stream_def nat_str_0)

lemma chunk_stream_Cons:
  "chunk_stream (ds # dss) = (nat_str 16 (length ds) @ crlf) @ ds @ crlf @ chunk_stream dss"
  by (simp add: chunk_stream_def chunk_enc_def)

lemma chunk_header_at:
  assumes "pre = [] \<or> pre = crlf" "n < 2 ^ 31" "chunk_size c = 0"
    and "rx_ready c (pre @ (nat_str 16 n @ crlf) @ rest)"
  shows "\<exists>m fd' b'. chunk_header_loop 0 c w = Inr (True, m, c\<lparr>fd := fd', buffer := b', chunk_size := int n\<rparr>, w)
     \<and> m < 32 \<and> smooth (rx fd') \<and> rx_bytes (rx fd') = rest \<and> length b' = length (buffer c)"
proof -
  let ?h = "pre @ nat_str 16 n @ crlf"
  have h: "header_text ?h" by (rule header_text_chunk [OF assms(1,2)])
  then have l: "0 < length ?h" "length ?h - 1 < 32" by (auto simp: header_text_def)
  from chunk_header_reads [OF h l(1) assms(3), of rest w] assms(4) obtain fd' b' where
    r: "chunk_header_loop 0 c w
      = Inr (True, length ?h - 1, c\<lparr>fd := fd', buffer := b', chunk_size := to_int32 (strtoll 16 b')\<rparr>, w)"
      "smooth (rx fd')" "rx_bytes (rx fd') = rest" "length b' = length (buffer c)" "take (length ?h) b' = ?h"
    by auto
  have "to_int32 (strtoll 16 b') = int n"
    by (rule chunk_header_value [OF assms(1,2) r(5) refl])
  with r l(2) show ?thesis by auto
qed

definition same_file :: "HTTPContext \<Rightarrow> HTTPContext \<Rightarrow> bool" where
  "same_file c c' \<longleftrightarrow>
     local_fd c' = local_fd c \<and> data_count c' = data_count c \<and> hls_idx c' = hls_idx c
     \<and> buffer_off c' = buffer_off c \<and> buffer_size c' = buffer_size c
     \<and> length (buffer c') = length (buffer c) \<and> content_length c' = content_length c
     \<and> state c' = state c"

text \<open>Reading payload: at most what is left of the chunk.\<close>

lemma chunk_payload:
  assumes "ds \<noteq> []" "chunk_size c = int (length ds)" "tr_encoding c = 1" "good_chunks dss"
    and "rx_ready c (ds @ crlf @ chunk_stream dss)" "length ds < 2 ^ 31"
  shows "\<exists>got ds' c1. ds = got @ ds' \<and> got \<noteq> []
     \<and> recv_buf 0 (min (chunk_size c) (buffer_size c)) c w = Inr (int (length got), c1, w)
     \<and> take (length got) (buffer c1) = got \<and> chunk_size c1 = chunk_size c \<and> same_file c c1
     \<and> chunk_pos crlf ds' dss (c1\<lparr>chunk_size := chunk_size c1 - int (length got)\<rparr>)"
proof -
  let ?n = "min (chunk_size c) (buffer_size c)"
  have n: "0 < ?n" "?n \<le> int (length (buffer c))" "?n < 2 ^ 31" "?n \<le> int (length ds)"
    using assms(1,2,5) by (auto simp: rx_ready_def)
  from recv_buf_smooth [OF assms(5) _ n(1), of 0 w] assms(1) n obtain got rest fd' where
    g: "ds @ crlf @ chunk_stream dss = got @ rest" "got \<noteq> []" "int (length got) \<le> ?n"
      "recv_buf 0 ?n c w = Inr (int (length got), c\<lparr>fd := fd', buffer := got @ drop (length got) (buffer c)\<rparr>, w)"
      "smooth (rx fd')" "rx_bytes (rx fd') = rest"
    by auto
  let ?c = "c\<lparr>fd := fd', buffer := got @ drop (length got) (buffer c)\<rparr>"
  have le: "length got \<le> length ds" using order_trans [OF g(3) n(4)] by simp
  define ds' where "ds' = drop (length got) ds"
  have ds: "ds = got @ ds'" "rest = ds' @ crlf @ chunk_stream dss"
  proof -
    have "take (length got) (ds @ crlf @ chunk_stream dss) = got"
      "drop (length got) (ds @ crlf @ chunk_stream dss) = rest" using g(1) by simp_all
    then have t: "take (length got) ds = got" "rest = drop (length got) ds @ crlf @ chunk_stream dss"
      using le by simp_all
    then show "ds = got @ ds'" unfolding ds'_def by (metis append_take_drop_id)
    show "rest = ds' @ crlf @ chunk_stream dss" using t(2) by (simp add: ds'_def)
  qed
  have "length got \<le> length (buffer c)" using order_trans [OF g(3) n(2)] by simp
  then have len: "length (buffer ?c) = length (buffer c)" by simp
  then have rd: "rx_ready (?c\<lparr>chunk_size := z\<rparr>) rest" for z
    using g(5,6) assms(5) by (simp add: rx_ready_def)
  have "chunk_pos crlf ds' dss (?c\<lparr>chunk_size := chunk_size ?c - int (length got)\<rparr>)"
    using assms(2,3,4) ds rd by (auto simp: chunk_pos_def)
  moreover have "take (length got) (buffer ?c) = got" by simp
  moreover have "same_file c ?c" using len by (simp add: same_file_def)
  ultimately show ?thesis using g(2,4) ds(1)
    by (intro exI [of _ got] exI [of _ ds'] exI [of _ ?c]) simp
qed

lemma recv_chunked_more:
  assumes "chunk_pos pre ds dss c" "ds \<noteq> [] \<or> dss \<noteq> []" "length ds < 2 ^ 31"
  shows "\<exists>got ds' dss' c'. ds @ concat dss = got @ ds' @ concat dss' \<and> got \<noteq> [] \<and> length ds' < 2 ^ 31
     \<and> recv_chunked c w = Inr (int (length got), c', w) \<and> take (length got) (buffer c') = got
     \<and> same_file c c' \<and> chunk_pos crlf ds' dss' c'"
proof (cases "ds = []")
  case False
  with assms(1) have p: "chunk_size c = int (length ds)" "tr_encoding c = 1" "good_chunks dss"
    "rx_ready c (ds @ crlf @ chunk_stream dss)" "chunk_size c \<noteq> 0"
    by (auto simp: chunk_pos_def)
  let ?c = "c\<lparr>buffer_ptr := (RBuf, buffer_off c + 0)\<rparr>"
  have h: "chunk_header_loop 0 c w = Inr (True, 0, c, w)"
    using p(5) by (subst chunk_header_loop.simps) simp
  have p': "chunk_size ?c = int (length ds)" "tr_encoding ?c = 1" "rx_ready ?c (ds @ crlf @ chunk_stream dss)"
    using p by (simp_all add: rx_ready_def)
  from chunk_payload [OF False p'(1,2) p(3) p'(3) assms(3), of w] obtain got ds' c1 where
    g: "ds = got @ ds'" "got \<noteq> []"
      "recv_buf 0 (min (chunk_size ?c) (buffer_size ?c)) ?c w = Inr (int (length got), c1, w)"
      "take (length got) (buffer c1) = got" "same_file ?c c1"
      "chunk_pos crlf ds' dss (c1\<lparr>chunk_size := chunk_size c1 - int (length got)\<rparr>)"
    by blast
  have "recv_chunked c w = Inr (int (length got), c1\<lparr>chunk_size := chunk_size c1 - int (length got)\<rparr>, w)"
    using h g(2,3) p(5) by (simp add: recv_chunked_def Let_def)
  then show ?thesis using g assms(3)
    by (intro exI [of _ got] exI [of _ ds'] exI [of _ dss]
        exI [of _ "c1\<lparr>chunk_size := chunk_size c1 - int (length got)\<rparr>"]) (auto simp: same_file_def)
next
  case True
  with assms(2) obtain d dss1 where dss: "dss = d # dss1" by (cases dss) auto
  with True assms(1) have p: "chunk_size c = 0" "pre = [] \<or> pre = crlf" "tr_encoding c = 1"
    "good_chunks dss1" "d \<noteq> []" "length d < 2 ^ 31"
    "rx_ready c (pre @ (nat_str 16 (length d) @ crlf) @ d @ crlf @ chunk_stream dss1)"
    by (auto simp: chunk_pos_def good_chunks_def chunk_stream_Cons)
  from chunk_header_at [OF p(2,6,1,7), of w] obtain m fd' b' where
    h: "chunk_header_loop 0 c w
        = Inr (True, m, c\<lparr>fd := fd', buffer := b', chunk_size := int (length d)\<rparr>, w)"
      "m < 32" "smooth (rx fd')" "rx_bytes (rx fd') = d @ crlf @ chunk_stream dss1"
      "length b' = length (buffer c)" by blast
  let ?c1 = "c\<lparr>fd := fd', buffer := b', chunk_size := int (length d)\<rparr>"
  let ?c = "?c1\<lparr>buffer_ptr := (RBuf, buffer_off ?c1 + int m)\<rparr>"
  have p': "chunk_size ?c = int (length d)" "tr_encoding ?c = 1" "rx_ready ?c (d @ crlf @ chunk_stream dss1)"
    using p(3,7) h(3,4,5) by (simp_all add: rx_ready_def)
  from chunk_payload [OF p(5) p'(1,2) p(4) p'(3) p(6), of w] obtain got ds' c1 where
    g: "d = got @ ds'" "got \<noteq> []"
      "recv_buf 0 (min (chunk_size ?c) (buffer_size ?c)) ?c w = Inr (int (length got), c1, w)"
      "take (length got) (buffer c1) = got" "same_file ?c c1"
      "chunk_pos crlf ds' dss1 (c1\<lparr>chunk_size := chunk_size c1 - int (length got)\<rparr>)"
    by blast
  have "recv_chunked c w = Inr (int (length got), c1\<lparr>chunk_size := chunk_size c1 - int (length got)\<rparr>, w)"
    using h(1,2) g(2,3) p(5) by (simp add: recv_chunked_def Let_def)
  then show ?thesis using g p(6) True dss h(5)
    by (intro exI [of _ got] exI [of _ ds'] exI [of _ dss1]
        exI [of _ "c1\<lparr>chunk_size := chunk_size c1 - int (length got)\<rparr>"]) (auto simp: same_file_def)
qed

lemma recv_chunked_end:
  assumes "chunk_pos pre [] [] c"
  shows "\<exists>c'. recv_chunked c w = Inr (0, c', w) \<and> same_file c c'"
proof -
  from assms have p: "chunk_size c = 0" "pre = [] \<or> pre = crlf"
    "rx_ready c (pre @ (nat_str 16 0 @ crlf) @ crlf)"
    by (auto simp: chunk_pos_def chunk_stream_Nil)
  from chunk_header_at [OF p(2) _ p(1,3), of w] obtain m fd' b' where
    "chunk_header_loop 0 c w = Inr (True, m, c\<lparr>fd := fd', buffer := b', chunk_size := int 0\<rparr>, w)" "m < 32"
      "length b' = length (buffer c)" by auto
  then show ?thesis by (simp add: recv_chunked_def Let_def same_file_def)
qed

text \<open>What has been written to a file, and a disk that takes everything.\<close>

fun written :: "int \<Rightarrow> sysev list \<Rightarrow> string" where
  "written f [] = []"
| "written f (SysWrite g ds # es) = (if f = g then ds else []) @ written f es"
| "written f (_ # es) = written f es"

lemma written_append [simp]: "written f (xs @ ys) = written f xs @ written f ys"
  by (induction f xs rule: written.induct) simp_all

definition disk_takes_all :: "kernel \<Rightarrow> bool" where
  "disk_takes_all k \<longleftrightarrow> (\<forall>l f ds. k_write k l f ds = Inr (length ds))"

lemma sys_write_all:
  "disk_takes_all k \<Longrightarrow>
   sys_write k f ds w = (int (length ds), w\<lparr>log := log w @ [SysWrite f ds]\<rparr>)"
  by (simp add: disk_takes_all_def sys_write_def)

lemma drain_chunked:
  assumes "disk_takes_all k" "chunk_pos pre ds dss c" "length ds < 2 ^ 31"
  shows "\<exists>c' w'. drain_loop k c w = Inr (0, c', w') \<and> same_file (c\<lparr>data_count := data_count c'\<rparr>) c'
     \<and> written (local_fd c) (log w') = written (local_fd c) (log w) @ ds @ concat dss
     \<and> data_count c' = data_count c + int (length (ds @ concat dss))"
  using assms(2,3)
proof (induction "length (ds @ concat dss)" arbitrary: pre ds dss c w rule: less_induct)
  case less
  show ?case
  proof (cases "ds \<noteq> [] \<or> dss \<noteq> []")
    case False
    then have "chunk_pos pre [] [] c" using less.prems(1) by simp
    from recv_chunked_end [OF this, of w] obtain c' where
      "recv_chunked c w = Inr (0, c', w)" "same_file c c'" by blast
    moreover have "tr_encoding c = 1" using less.prems(1) by (simp add: chunk_pos_def)
    ultimately show ?thesis
      using False by (subst drain_loop.simps) (auto simp: recv_any_def same_file_def)
  next
    case True
    from recv_chunked_more [OF less.prems(1) True less.prems(2), of w] obtain got ds' dss' c1 where
      g: "ds @ concat dss = got @ ds' @ concat dss'" "got \<noteq> []" "length ds' < 2 ^ 31"
        "recv_chunked c w = Inr (int (length got), c1, w)" "take (length got) (buffer c1) = got"
        "same_file c c1" "chunk_pos crlf ds' dss' c1" by blast
    have tr: "tr_encoding c = 1" using less.prems(1) by (simp add: chunk_pos_def)
    let ?c = "c1\<lparr>data_count := data_count c1 + int (length got)\<rparr>"
    let ?w = "w\<lparr>log := log w @ [SysWrite (local_fd c1) got]\<rparr>"
    have "length (ds' @ concat dss') < length (ds @ concat dss)" using g(1,2) by simp
    moreover have pos: "chunk_pos crlf ds' dss' ?c"
      using g(7) by (auto simp: chunk_pos_def rx_ready_def)
    ultimately obtain c' w' where
      i: "drain_loop k ?c ?w = Inr (0, c', w')" "same_file (?c\<lparr>data_count := data_count c'\<rparr>) c'"
        "written (local_fd ?c) (log w') = written (local_fd ?c) (log ?w) @ ds' @ concat dss'"
        "data_count c' = data_count ?c + int (length (ds' @ concat dss'))"
      using less.hyps [of ds' dss' crlf ?c ?w] g(3) by blast
    have off: "buffer_off c1 = 0" "length got \<le> length (buffer c1)"
    proof -
      show "buffer_off c1 = 0" using g(7) by (auto simp: chunk_pos_def rx_ready_def split: if_splits)
      show "length got \<le> length (buffer c1)" using g(5) by (metis length_take min.cobounded1)
    qed
    have "mem_rd (buffer c1) 0 (int (length got)) = Inr got"
      using off(2) g(5) by (simp add: mem_rd_def)
    then have "drain_loop k c w = drain_loop k ?c ?w"
      using g(2,4) tr off(1) by (subst drain_loop.simps) (simp add: recv_any_def sys_write_all [OF assms(1)])
    with i g(1,6) show ?thesis by (auto simp: same_file_def)
  qed
qed

section \<open>The end of an upload\<close>

lemma prepare_response_ok:
  assumes "buffer_off c = 0" "buffer_size c \<le> int (length (buffer c))"
    and "txt = ''HTTP/1.1 '' @ int_str code @ '' '' @ reason @ crlf @ crlf @ crlf"
    and "int (length txt) < buffer_size c"
  shows "\<exists>b. prepare_response c code reason
       = Inr (0, c\<lparr>buffer := b, buffer_ptr := (RBuf, 0), buffer_end := (RBuf, int (length txt)),
                   state := HTTPSTATE_SEND_HEADER\<rparr>)
     \<and> take (length txt) b = txt \<and> length b = length (buffer c)"
proof -
  let ?n = "nat (buffer_size c)"
  have n: "?n \<noteq> 0" "length txt \<le> ?n - 1" "length txt + 1 \<le> length (buffer c)" using assms by auto
  then have "mem_wr (buffer c) 0 (take (?n - 1) txt @ [NUL])
      = Inr ((txt @ [NUL]) @ drop (length (txt @ [NUL])) (buffer c))"
    by (subst mem_wr_0) simp_all
  then show ?thesis
    using assms(1) n unfolding prepare_response_def vsnprintf_def assms(3) [symmetric]
    by (intro exI [of _ "(txt @ [NUL]) @ drop (length (txt @ [NUL])) (buffer c)"]) simp
qed

lemma int_str_200: "int_str 200 = ''200''"
proof -
  have "digit_char 2 = CHR ''2''" "digit_char 0 = CHR ''0''" by code_simp+
  then show ?thesis
    by (simp add: int_str_def) (subst nat_str.simps, simp, subst nat_str.simps, simp,
        subst nat_str.simps, simp)
qed

text \<open>The text between the buffer pointers, which is what will be sent.\<close>

definition reply_ready :: "HTTPContext \<Rightarrow> string \<Rightarrow> bool" where
  "reply_ready c txt \<longleftrightarrow>
     fst (buffer_ptr c) = RBuf \<and> fst (buffer_end c) = RBuf
     \<and> mem_rd (buffer c) (snd (buffer_ptr c)) (snd (buffer_end c) - snd (buffer_ptr c)) = Inr txt"

definition ok_response :: string where
  "ok_response = ''HTTP/1.1 200 OK'' @ crlf @ crlf @ crlf"

lemma receive_end_upload:
  assumes "hls_idx c < 0" "0 \<le> local_fd c" "buffer_off c = 0" "32 \<le> buffer_size c"
    and "buffer_size c \<le> int (length (buffer c))"
  shows "\<exists>c'. receive_end i c ko s = Inr (0, put_conn i c' (sys_note (SysClose (local_fd c)) s))
     \<and> state c' = HTTPSTATE_SEND_HEADER \<and> http_error c' = 200 \<and> local_fd c' = -1
     \<and> reply_ready c' ok_response \<and> data_count c' = data_count c"
proof -
  let ?c = "c\<lparr>local_fd := -1, http_error := 200\<rparr>"
  have t: "ok_response = ''HTTP/1.1 '' @ int_str 200 @ '' '' @ ''OK'' @ crlf @ crlf @ crlf"
    by (simp add: ok_response_def int_str_200)
  have l: "length ok_response = 21" by (simp add: ok_response_def crlf_def)
  from prepare_response_ok [OF _ _ t, of ?c] assms l obtain b where
    b: "prepare_response ?c 200 ''OK''
        = Inr (0, ?c\<lparr>buffer := b, buffer_ptr := (RBuf, 0), buffer_end := (RBuf, 21),
                   state := HTTPSTATE_SEND_HEADER\<rparr>)"
      "take 21 b = ok_response" "length b = length (buffer c)" by auto
  have "mem_rd b 0 21 = Inr ok_response" using b(2,3) assms(4,5) by (simp add: mem_rd_def)
  then show ?thesis
    using assms(1,2) b(1)
    by (intro exI [of _ "?c\<lparr>buffer := b, buffer_ptr := (RBuf, 0), buffer_end := (RBuf, 21),
                   state := HTTPSTATE_SEND_HEADER\<rparr>"])
       (simp add: receive_end_def Let_def reply_ready_def)
qed


definition upload_ctx :: "string list \<Rightarrow> HTTPContext" where
  "upload_ctx segs = (ctx_demo [])
     \<lparr>state := HTTPSTATE_RECEIVE_DATA, post := 2, local_fd := 7,
      fd := \<lparr>rx = map RxData segs, tx = [], sent = []\<rparr>\<rparr>"

lemma upload_ctx_ready: "rx_ready (upload_ctx segs) (concat segs)"
proof -
  have "rx_bytes (map RxData segs) = concat segs" by (induction segs) simp_all
  then show ?thesis
    by (auto simp: rx_ready_def upload_ctx_def ctx_demo_def ctx_zero_def smooth_def IOBUFFER_INIT_SIZE_def)
qed

lemma demo_disk: "disk_takes_all kernel_empty_disk"
  by (simp add: disk_takes_all_def kernel_empty_disk_def)


section \<open>A plain upload\<close>

lemma sock_recv_empty: "smooth es \<Longrightarrow> rx_bytes es = [] \<Longrightarrow> sock_recv n es = (Failed EAGAIN, [])"
  by (induction n es rule: sock_recv.induct) (auto simp: smooth_def)

lemma drain_plain:
  assumes "disk_takes_all k" "tr_encoding c \<noteq> 1" "rx_ready c ds"
  shows "\<exists>c' w'. drain_loop k c w = Inr (-1, c', w') \<and> same_file (c\<lparr>data_count := data_count c'\<rparr>) c'
     \<and> written (local_fd c) (log w') = written (local_fd c) (log w) @ ds \<and> neterrno w' = EAGAIN
     \<and> data_count c' = data_count c + int (length ds)"
  using assms(2,3)
proof (induction "length ds" arbitrary: ds c w rule: less_induct)
  case less
  show ?case
  proof (cases "ds = []")
    case True
    with less.prems(2) have "sock_recv n (rx (fd c)) = (Failed EAGAIN, [])" for n
      by (intro sock_recv_empty) (simp_all add: rx_ready_def)
    with less.prems True show ?thesis
      by (subst drain_loop.simps) (simp add: recv_any_def recv_buf_def conn_recv_def same_file_def)
  next
    case False
    from less.prems(2) have z: "0 < buffer_size c" "buffer_size c \<le> int (length (buffer c))" "buffer_off c = 0"
      "buffer_size c < 2 ^ 31" by (auto simp: rx_ready_def)
    from recv_buf_smooth [OF less.prems(2) False z(1), of 0 w] z obtain got rest fd' where
      g: "ds = got @ rest" "got \<noteq> []" "int (length got) \<le> buffer_size c"
        "recv_buf 0 (buffer_size c) c w
           = Inr (int (length got), c\<lparr>fd := fd', buffer := got @ drop (length got) (buffer c)\<rparr>, w)"
        "smooth (rx fd')" "rx_bytes (rx fd') = rest" by auto
    let ?c1 = "c\<lparr>fd := fd', buffer := got @ drop (length got) (buffer c)\<rparr>"
    let ?c = "?c1\<lparr>data_count := data_count c + int (length got)\<rparr>"
    let ?w = "w\<lparr>log := log w @ [SysWrite (local_fd c) got]\<rparr>"
    have lb: "length got \<le> length (buffer c)" using order_trans [OF g(3) z(2)] by simp
    then have "rx_ready ?c rest" "tr_encoding ?c \<noteq> 1"
      using g(5,6) less.prems by (auto simp: rx_ready_def)
    moreover have "length rest < length ds" using g(1,2) by simp
    ultimately obtain c' w' where
      i: "drain_loop k ?c ?w = Inr (-1, c', w')" "same_file (?c\<lparr>data_count := data_count c'\<rparr>) c'"
        "written (local_fd ?c) (log w') = written (local_fd ?c) (log ?w) @ rest" "neterrno w' = EAGAIN"
        "data_count c' = data_count ?c + int (length rest)"
      using less.hyps [of rest ?c ?w] by blast
    have "mem_rd (buffer ?c1) 0 (int (length got)) = Inr got" by (simp add: mem_rd_def)
    then have "drain_loop k c w = drain_loop k ?c ?w"
      using g(2,4) less.prems(1) z(3)
      by (subst drain_loop.simps) (simp add: recv_any_def sys_write_all [OF assms(1)])
    with i g(1) lb show ?thesis by (auto simp: same_file_def)
  qed
qed

text \<open>A plain upload is stored byte for byte and ends when the announced length is reached.  Whatever
part of the body has arrived, in segments of any size, one call of \<open>http_receive_data\<close> appends
exactly those bytes to the file and counts them; if the count has reached \<open>Content-Length\<close> the
file is closed and the 200 answer is ready to be sent, otherwise the connection keeps its
state and its open file.\<close>

theorem plain_upload_stored:
  assumes "conns s i = Some c" "hls_idx c < 0" "0 \<le> local_fd c" "tr_encoding c \<noteq> 1"
    and "sff c = None" "0 < content_length c" "rx_ready c ds" "disk_takes_all k"
  shows "\<exists>c' s'. http_receive_data k i s = Inr (0, s') \<and> conns s' i = Some c'
     \<and> written (local_fd c) (log s') = written (local_fd c) (log s) @ ds
     \<and> data_count c' = data_count c + int (length ds)
     \<and> (if content_length c \<le> data_count c + int (length ds)
        then state c' = HTTPSTATE_SEND_HEADER \<and> local_fd c' = -1 \<and> last (log s') = SysClose (local_fd c)
             \<and> http_error c' = 200 \<and> reply_ready c' ok_response
        else state c' = state c \<and> local_fd c' = local_fd c)"
proof -
  from drain_plain [OF assms(8,4,7), of s] obtain c1 s1 where
    d: "drain_loop k c s = Inr (-1, c1, s1)" "same_file (c\<lparr>data_count := data_count c1\<rparr>) c1"
      "written (local_fd c) (log s1) = written (local_fd c) (log s) @ ds" "neterrno s1 = EAGAIN"
      "data_count c1 = data_count c + int (length ds)" by auto
  have c1: "hls_idx c1 < 0" "0 \<le> local_fd c1" "buffer_off c1 = 0" "32 \<le> buffer_size c1"
    "buffer_size c1 \<le> int (length (buffer c1))" "local_fd c1 = local_fd c"
    "content_length c1 = content_length c" "state c1 = state c"
    using d(2) assms(2,3,7) by (auto simp: same_file_def rx_ready_def)
  show ?thesis
  proof (cases "content_length c \<le> data_count c + int (length ds)")
    case True
    from receive_end_upload [OF c1(1-5), of i "sff c" s1] obtain c' where
      e: "receive_end i c1 (sff c) s1 = Inr (0, put_conn i c' (sys_note (SysClose (local_fd c1)) s1))"
        "state c' = HTTPSTATE_SEND_HEADER" "http_error c' = 200" "local_fd c' = -1" "reply_ready c' ok_response"
        "data_count c' = data_count c1"
      by blast
    let ?s = "put_conn i c' (sys_note (SysClose (local_fd c1)) s1)"
    have "http_receive_data k i s = Inr (0, ?s)"
      using assms(1,2,3,6) d(1,5) e(1) True c1(7)
      by (simp add: http_receive_data_def get_conn_def receive_upload_def conn_ended_def)
    moreover have "conns ?s i = Some c'" by (simp add: put_conn_def)
    moreover have "written (local_fd c) (log ?s) = written (local_fd c) (log s) @ ds"
      using d(3) by (simp add: put_conn_def sys_note_def)
    moreover have "last (log ?s) = SysClose (local_fd c)"
      using c1(6) by (simp add: put_conn_def sys_note_def)
    ultimately show ?thesis using True e(2-6) d(5) by auto
  next
    case False
    have "wake_state c1 None s1 = Inr None" using c1(1) by (simp add: wake_state_def)
    then have "receive_wake i c1 (sff c) (put_conn i c1 s1) = Inr (0, put_conn i c1 s1)"
      using assms(5) c1(1) by (simp add: receive_wake_def wake_state_def)
    then have "http_receive_data k i s = Inr (0, put_conn i c1 s1)"
      using assms(1,2,3) d(1,4,5) c1(7) False
      by (simp add: http_receive_data_def get_conn_def receive_upload_def conn_ended_def hard_error_def)
    moreover have "conns (put_conn i c1 s1) i = Some c1" by (simp add: put_conn_def)
    moreover have "log (put_conn i c1 s1) = log s1" by (simp add: put_conn_def)
    ultimately show ?thesis using False c1 d(3,5) by auto
  qed
qed

theorem plain_upload_witness:
  "\<exists>c' s'. http_receive_data kernel_empty_disk 0
       (put_conn 0 ((upload_ctx [''ab'', ''c''])\<lparr>content_length := 3\<rparr>) server_start) = Inr (0, s')
     \<and> conns s' 0 = Some c' \<and> written 7 (log s') = ''abc'' \<and> state c' = HTTPSTATE_SEND_HEADER"
proof -
  let ?c = "(upload_ctx [''ab'', ''c''])\<lparr>content_length := 3\<rparr>"
  let ?s = "put_conn 0 ?c server_start"
  have r: "rx_ready ?c ''abc''"
    using upload_ctx_ready [of "[''ab'', ''c'']"] by (simp add: rx_ready_def)
  have c: "conns ?s 0 = Some ?c" by (simp add: put_conn_def)
  have l: "hls_idx ?c < 0" "0 \<le> local_fd ?c" "tr_encoding ?c \<noteq> 1" "sff ?c = None" "0 < content_length ?c"
    "local_fd ?c = 7" "data_count ?c = 0" "content_length ?c = 3"
    by (simp_all add: upload_ctx_def ctx_demo_def ctx_zero_def)
  have "log ?s = []" by (simp add: put_conn_def server_start_def)
  with plain_upload_stored [OF c l(1-5) r demo_disk] l(6-8) show ?thesis by auto
qed

section \<open>Where the decoder goes wrong\<close>

lemma recv_buf_fail:
  assumes "rx (fd c) = RxErr e # es"
  shows "recv_buf off n c w = Inr (-1, c\<lparr>fd := (fd c)\<lparr>rx := es\<rparr>\<rparr>, w\<lparr>neterrno := e\<rparr>)"
  using assms by (simp add: recv_buf_def conn_recv_def)

lemma recv_buf_first:
  assumes "rx (fd c) = RxData (b # bs) # es" "buffer_off c = 0" "n < length (buffer c)"
  shows "recv_buf (int n) 1 c w
    = Inr (1, c\<lparr>fd := (fd c)\<lparr>rx := (if bs = [] then es else RxData bs # es)\<rparr>,
                buffer := take n (buffer c) @ b # drop (n + 1) (buffer c)\<rparr>, w)"
proof -
  have "mem_wr (buffer c) (int n) [b] = Inr (take n (buffer c) @ [b] @ drop (n + length [b]) (buffer c))"
    using assms(3) by (intro mem_wr_nat) simp
  with assms show ?thesis by (auto simp: recv_buf_def conn_recv_def)
qed

text \<open>The sizes of a connection's buffer as \<open>new_connection\<close> sets them, or smaller.\<close>

definition buf_ok :: "HTTPContext \<Rightarrow> bool" where
  "buf_ok c \<longleftrightarrow> buffer_off c = 0 \<and> 32 \<le> buffer_size c \<and> buffer_size c \<le> int (length (buffer c))
     \<and> buffer_size c < 2 ^ 31"

text \<open>
  A chunk header of which the network has delivered only the first digit: the call gives up
  with the partial header in the buffer.
\<close>

lemma recv_chunked_torn:
  assumes "rx (fd c) = RxData [d] # RxErr EAGAIN # es" "chunk_size c = 0" "buf_ok c"
  shows "\<exists>b. recv_chunked c w
       = Inr (-1, c\<lparr>fd := (fd c)\<lparr>rx := es\<rparr>, buffer := b, buffer_ptr := (RBuf, 1)\<rparr>, w\<lparr>neterrno := EAGAIN\<rparr>)
     \<and> length b = length (buffer c)"
proof -
  have z: "buffer_off c = 0" "0 < length (buffer c)" using assms(3) by (auto simp: buf_ok_def)
  define b where "b = d # drop 1 (buffer c)"
  let ?c1 = "c\<lparr>fd := (fd c)\<lparr>rx := RxErr EAGAIN # es\<rparr>, buffer := b\<rparr>"
  have r1: "recv_buf (int 0) 1 c w = Inr (1, ?c1, w)"
    using recv_buf_first [OF assms(1) z] by (simp add: b_def)
  have r2: "recv_buf (int 1) 1 ?c1 w
      = Inr (-1, c\<lparr>fd := (fd c)\<lparr>rx := es\<rparr>, buffer := b\<rparr>, w\<lparr>neterrno := EAGAIN\<rparr>)"
    using recv_buf_fail [of ?c1 EAGAIN es "int 1" 1 w] by simp
  have s2: "chunk_header_loop 1 ?c1 w
      = Inr (False, 1, c\<lparr>fd := (fd c)\<lparr>rx := es\<rparr>, buffer := b\<rparr>, w\<lparr>neterrno := EAGAIN\<rparr>)"
    using r2 assms(2) by (subst chunk_header_loop.simps) simp
  have "chunk_header_loop 0 c w
      = Inr (False, 1, c\<lparr>fd := (fd c)\<lparr>rx := es\<rparr>, buffer := b\<rparr>, w\<lparr>neterrno := EAGAIN\<rparr>)"
    using r1 s2 assms(2) by (subst chunk_header_loop.simps) simp
  then have "recv_chunked c w
      = Inr (-1, c\<lparr>fd := (fd c)\<lparr>rx := es\<rparr>, buffer := b, buffer_ptr := (RBuf, 1)\<rparr>, w\<lparr>neterrno := EAGAIN\<rparr>)"
    using z by (simp add: recv_chunked_def Let_def)
  moreover have "length b = length (buffer c)" using z by (simp add: b_def)
  ultimately show ?thesis by blast
qed

text \<open>C37. A chunk header that arrives in two pieces is forgotten.  If the network has delivered only the
first digit of a header such as \<open>10\<close> when the server reads, \<open>recv_chunked\<close> returns with nothing
to remember it by, and the next call takes the second digit for the whole header.  With a
\<open>0\<close> there, the next call of \<open>http_receive_data\<close> takes it for the end of the upload: the file is
closed without its data and the client is told 200.\<close>

theorem torn_chunk_header_ends_upload:
  assumes "conns s i = Some c" "hls_idx c < 0" "0 \<le> local_fd c" "tr_encoding c = 1" "chunk_size c = 0"
    and "sff c = None" "content_length c = 0" "buf_ok c"
    and "rx (fd c) = RxData [d] # RxErr EAGAIN # map RxData segs" "concat segs = ''0'' @ crlf @ rest"
  shows "\<exists>c' s1 s2. http_receive_data k i s = Inr (0, s1) \<and> http_receive_data k i s1 = Inr (0, s2)
     \<and> conns s2 i = Some c' \<and> state c' = HTTPSTATE_SEND_HEADER \<and> http_error c' = 200
     \<and> reply_ready c' ok_response \<and> log s2 = log s @ [SysClose (local_fd c)]"
proof -
  from recv_chunked_torn [OF assms(9,5,8), of s] obtain b where
    b: "recv_chunked c s = Inr (-1, c\<lparr>fd := (fd c)\<lparr>rx := map RxData segs\<rparr>, buffer := b, buffer_ptr := (RBuf, 1)\<rparr>,
          s\<lparr>neterrno := EAGAIN\<rparr>)" "length b = length (buffer c)" by blast
  let ?c1 = "c\<lparr>fd := (fd c)\<lparr>rx := map RxData segs\<rparr>, buffer := b, buffer_ptr := (RBuf, 1)\<rparr>"
  let ?s1 = "put_conn i ?c1 (s\<lparr>neterrno := EAGAIN\<rparr>)"
  have d1: "drain_loop k c s = Inr (-1, ?c1, s\<lparr>neterrno := EAGAIN\<rparr>)"
    using b(1) assms(4) by (subst drain_loop.simps) (simp add: recv_any_def)
  have h1: "http_receive_data k i s = Inr (0, ?s1)"
    using assms(1-3,6,7) d1
    by (simp add: http_receive_data_def get_conn_def receive_upload_def conn_ended_def hard_error_def
        receive_wake_def wake_state_def)
  have sm: "smooth (map RxData segs)" "rx_bytes (map RxData segs) = concat segs"
    by (auto simp: smooth_def) (induction segs; simp)
  then have r1: "rx_ready ?c1 ([] @ (nat_str 16 0 @ crlf) @ rest)"
    using assms(8,10) b(2) by (simp add: rx_ready_def buf_ok_def nat_str_0)
  from chunk_header_at [of "[]" 0 ?c1 rest ?s1] r1 assms(5) obtain m fd' b' where
    h: "chunk_header_loop 0 ?c1 ?s1 = Inr (True, m, ?c1\<lparr>fd := fd', buffer := b', chunk_size := int 0\<rparr>, ?s1)"
      "m < 32" "length b' = length b" by auto
  let ?c2 = "?c1\<lparr>fd := fd', buffer := b', chunk_size := 0, buffer_ptr := (RBuf, int m)\<rparr>"
  have "recv_chunked ?c1 ?s1 = Inr (0, ?c2, ?s1)"
    using h assms(8) by (simp add: recv_chunked_def Let_def buf_ok_def)
  then have d2: "drain_loop k ?c1 ?s1 = Inr (0, ?c2, ?s1)"
    using assms(4) by (subst drain_loop.simps) (simp add: recv_any_def)
  have c2: "hls_idx ?c2 < 0" "0 \<le> local_fd ?c2" "buffer_off ?c2 = 0" "32 \<le> buffer_size ?c2"
    "buffer_size ?c2 \<le> int (length (buffer ?c2))"
    using assms(2,3,8) h(3) b(2) by (auto simp: buf_ok_def)
  from receive_end_upload [OF c2, of i None ?s1] obtain c' where
    e: "receive_end i ?c2 None ?s1 = Inr (0, put_conn i c' (sys_note (SysClose (local_fd ?c2)) ?s1))"
      "state c' = HTTPSTATE_SEND_HEADER" "http_error c' = 200" "reply_ready c' ok_response" by blast
  have "http_receive_data k i ?s1 = Inr (0, put_conn i c' (sys_note (SysClose (local_fd ?c2)) ?s1))"
    using assms(2,3,6) d2 e(1)
    by (simp add: http_receive_data_def get_conn_def put_conn_def receive_upload_def conn_ended_def)
  with h1 e show ?thesis by (auto simp: put_conn_def sys_note_def)
qed

theorem torn_chunk_header_witness:
  "\<exists>c' s1 s2. http_receive_data kernel_empty_disk 0
       (put_conn 0 ((upload_ctx [])\<lparr>tr_encoding := 1,
          fd := \<lparr>rx = RxData ''1'' # RxErr EAGAIN # map RxData [''0'' @ crlf @ ''sixteen bytes...''],
                 tx = [], sent = []\<rparr>\<rparr>) server_start) = Inr (0, s1)
     \<and> http_receive_data kernel_empty_disk 0 s1 = Inr (0, s2)
     \<and> conns s2 0 = Some c' \<and> http_error c' = 200 \<and> log s2 = [SysClose 7]"
proof -
  let ?c = "(upload_ctx [])\<lparr>tr_encoding := 1,
          fd := \<lparr>rx = RxData ''1'' # RxErr EAGAIN # map RxData [''0'' @ crlf @ ''sixteen bytes...''],
                 tx = [], sent = []\<rparr>\<rparr>"
  let ?s = "put_conn 0 ?c server_start"
  have c: "conns ?s 0 = Some ?c" by (simp add: put_conn_def)
  have l: "hls_idx ?c < 0" "0 \<le> local_fd ?c" "tr_encoding ?c = 1" "chunk_size ?c = 0"
    "sff ?c = None" "content_length ?c = 0" "local_fd ?c = 7"
    by (simp_all add: upload_ctx_def ctx_demo_def ctx_zero_def)
  have b: "buf_ok ?c"
    by (simp add: buf_ok_def upload_ctx_def ctx_demo_def ctx_zero_def IOBUFFER_INIT_SIZE_def)
  have "log ?s = []" by (simp add: put_conn_def server_start_def)
  with torn_chunk_header_ends_upload [OF c l(1-6) b, of "CHR ''1''" "[''0'' @ crlf @ ''sixteen bytes...'']"
      "''sixteen bytes...''" kernel_empty_disk] l(7)
  show ?thesis by auto
qed

section \<open>A negative chunk size\<close>

lemma strtoll_minus_1: "strtoll 16 (CHR ''-'' # CHR ''1'' # CHR 0x0D # r) = -1"
proof -
  have sp: "\<not> av_isspace (ord CHR ''-'')" by (simp add: av_isspace_def ord_def)
  have d: "digit_val 16 CHR ''1'' = Some 1" "digit_val 16 CHR 0x0D = None"
    by (simp_all add: digit_val_def ord_def Let_def)
  have ne: "(CHR ''1'' = CHR ''0'') = False" by simp
  have v: "strto_digits 16 0 (CHR ''1'' # CHR 0x0D # r) = 1" by (simp add: d)
  have z: "(case r of [] \<Rightarrow> x | _ # _ \<Rightarrow> x) = x" for x :: string by (cases r) simp_all
  show ?thesis
    unfolding strtoll_def Let_def using sp
    by (simp add: z d saturate64_def)
qed

lemma chunk_header_negative:
  assumes "rx (fd c) = RxData (''-1'' @ crlf) # es" "chunk_size c = 0" "buf_ok c"
  shows "\<exists>b. chunk_header_loop 0 c w
       = Inr (True, 3, c\<lparr>fd := (fd c)\<lparr>rx := es\<rparr>, buffer := b, chunk_size := -1\<rparr>, w)
     \<and> length b = length (buffer c)"
proof -
  define r where "r = drop 4 (buffer c)"
  have "4 \<le> length (buffer c)" "buffer_off c = 0" using assms(3) by (auto simp: buf_ok_def)
  then obtain x0 x1 x2 x3 where bf: "buffer c = [x0, x1, x2, x3] @ r"
    using length_4E [of "take 4 (buffer c)"] by (metis append_take_drop_id length_take min_absorb2 r_def)
  have off: "buffer_off c = 0" by fact
  let ?cr = "CHR 0x0D" and ?lf = "CHR 0x0A"
  let ?k = "\<lambda>es b. c\<lparr>fd := (fd c)\<lparr>rx := es\<rparr>, buffer := b\<rparr>"
  let ?c1 = "?k (RxData [CHR ''1'', ?cr, ?lf] # es) ([CHR ''-'', x1, x2, x3] @ r)"
  let ?c2 = "?k (RxData [?cr, ?lf] # es) ([CHR ''-'', CHR ''1'', x2, x3] @ r)"
  let ?c3 = "?k (RxData [?lf] # es) ([CHR ''-'', CHR ''1'', ?cr, x3] @ r)"
  let ?c4 = "?k es ([CHR ''-'', CHR ''1'', ?cr, ?lf] @ r)"
  have r0: "recv_buf (int 0) 1 c w = Inr (1, ?c1, w)"
    using recv_buf_first [of c "CHR ''-''" "[CHR ''1'', ?cr, ?lf]" es 0 w] assms(1) bf off by (simp add: crlf_def)
  have r1: "recv_buf (int 1) 1 ?c1 w = Inr (1, ?c2, w)"
    using recv_buf_first [of ?c1 "CHR ''1''" "[?cr, ?lf]" es 1 w] off by (simp add: crlf_def)
  have r2: "recv_buf (int 2) 1 ?c2 w = Inr (1, ?c3, w)"
    using recv_buf_first [of ?c2 ?cr "[?lf]" es 2 w] off by (simp add: numeral_2_eq_2 numeral_3_eq_3)
  have r3: "recv_buf (int 3) 1 ?c3 w = Inr (1, ?c4, w)"
    using recv_buf_first [of ?c3 ?lf "[]" es 3 w] off by (simp add: numeral_3_eq_3)
  have v: "to_int32 (strtoll 16 ([CHR ''-'', CHR ''1'', ?cr, ?lf] @ r)) = -1"
    using strtoll_minus_1 [of "?lf # r"] by (simp add: to_int32_def)
  have l3: "chunk_header_loop 3 ?c3 w = Inr (True, 3, ?c4\<lparr>chunk_size := -1\<rparr>, w)"
  proof -
    have "mem_rd (buffer ?c4) (buffer_off ?c4 + int 3 - 1) 2 = Inr crlf"
      using off by (simp add: mem_rd_def crlf_def)
    with r3 v off assms(2) show ?thesis by (subst chunk_header_loop.simps) simp
  qed
  have l2: "chunk_header_loop 2 ?c2 w = Inr (True, 3, ?c4\<lparr>chunk_size := -1\<rparr>, w)"
  proof -
    have "mem_rd (buffer ?c3) (buffer_off ?c3 + int 2 - 1) 2 = Inr [CHR ''1'', ?cr]"
      using off by (simp add: mem_rd_def)
    with r2 l3 off assms(2) show ?thesis by (subst chunk_header_loop.simps) (simp add: crlf_def)
  qed
  have l1: "chunk_header_loop 1 ?c1 w = Inr (True, 3, ?c4\<lparr>chunk_size := -1\<rparr>, w)"
    using r1 l2 assms(2) by (subst chunk_header_loop.simps) (simp add: numeral_2_eq_2)
  have "chunk_header_loop 0 c w = Inr (True, 3, ?c4\<lparr>chunk_size := -1\<rparr>, w)"
    using r0 l1 assms(2) by (subst chunk_header_loop.simps) simp
  then show ?thesis
    by (intro exI [of _ "[CHR ''-'', CHR ''1'', ?cr, ?lf] @ r"]) (simp add: bf)
qed

text \<open>A chunk size with a minus sign defeats the bound on the read.  After the header line \<open>-1\<close>,
\<open>FFMIN(chunk_size, buffer_size)\<close> is negative, which \<open>recv\<close> takes as a huge unsigned length: what
the client sends next is stored past the end of the 8192-byte buffer.\<close>

theorem negative_chunk_overflows_buffer:
  assumes "rx (fd c) = RxData (''-1'' @ crlf) # RxData ds # es" "chunk_size c = 0" "buf_ok c"
    and "length (buffer c) < length ds" "length ds < 2 ^ 63"
  shows "recv_chunked c w = Inl OutOfBounds"
proof -
  from chunk_header_negative [OF assms(1-3), of w] obtain b where
    h: "chunk_header_loop 0 c w
       = Inr (True, 3, c\<lparr>fd := (fd c)\<lparr>rx := RxData ds # es\<rparr>, buffer := b, chunk_size := -1\<rparr>, w)"
      "length b = length (buffer c)" by blast
  let ?c = "c\<lparr>fd := (fd c)\<lparr>rx := RxData ds # es\<rparr>, buffer := b, chunk_size := -1,
      buffer_ptr := (RBuf, buffer_off c + 3)\<rparr>"
  have n: "nat ((-1) mod 2 ^ 64) = 18446744073709551615" by simp
  have "sock_recv (nat ((-1) mod 2 ^ 64)) (RxData ds # es) = (Got ds, es)"
    unfolding n using assms(4,5) by auto
  moreover have "mem_wr b 0 ds = Inl OutOfBounds" using h(2) assms(4) by (simp add: mem_wr_def)
  moreover have "min (-1) (buffer_size c) = -1" "buffer_off c = 0"
    using assms(3) by (auto simp: buf_ok_def)
  ultimately have "recv_buf 0 (min (chunk_size ?c) (buffer_size ?c)) ?c w = Inl OutOfBounds"
    by (simp add: recv_buf_def conn_recv_def)
  with h(1) show ?thesis by (simp add: recv_chunked_def Let_def)
qed

theorem negative_chunk_witness:
  "recv_chunked ((upload_ctx [])\<lparr>fd := \<lparr>rx = [RxData (''-1'' @ crlf), RxData (replicate 9000 CHR ''A'')],
      tx = [], sent = []\<rparr>\<rparr>) server_start = Inl OutOfBounds"
proof -
  define ds where "ds = replicate 9000 CHR ''A''"
  have l: "length ds = 9000" by (simp only: ds_def length_replicate)
  let ?c = "(upload_ctx [])\<lparr>fd := \<lparr>rx = [RxData (''-1'' @ crlf), RxData ds], tx = [], sent = []\<rparr>\<rparr>"
  have c: "rx (fd ?c) = RxData (''-1'' @ crlf) # RxData ds # []" "chunk_size ?c = 0" "buf_ok ?c"
    "length (buffer ?c) = 8192"
    by (simp_all add: buf_ok_def upload_ctx_def ctx_demo_def ctx_zero_def IOBUFFER_INIT_SIZE_def)
  have "recv_chunked ?c server_start = Inl OutOfBounds"
    by (rule negative_chunk_overflows_buffer [OF c(1-3)]) (simp_all only: c(4) l, simp_all)
  then show ?thesis by (simp only: ds_def)
qed

end
