(* ===== verification/RelayProofs.thy ===== *)
theory RelayProofs
  imports ReceiveProofs
begin

text \<open>
  The relay of packets: the sender's framing (\<open>sff_write_block\<close> of \<open>src/ff_utils.c\<close>), the search
  for it in \<open>http_receive_data\<close>, and whom \<open>wake_others\<close> touches.
\<close>

section \<open>Framing\<close>

text \<open>\<open>sff_write_block(pb, type, data, size)\<close>, as the bytes that go to \<open>pb\<close>.\<close>

definition sff_write_block :: "nat \<Rightarrow> char list \<Rightarrow> char list" where
  "sff_write_block type ds =
     ''SFF'' @ nat_str 10 (type mod 10) @ wb32_chars (word_of_nat (length ds)) @ ds"

text \<open>What is left of a segment after some of it has been read.\<close>

definition seg_rest :: "'b list \<Rightarrow> 'b rx_event list \<Rightarrow> 'b rx_event list" where
  "seg_rest xs es = (if xs = [] then es else RxData xs # es)"

abbreviation set_rx :: "char rx_event list \<Rightarrow> HTTPContext \<Rightarrow> HTTPContext" where
  "set_rx es c \<equiv> c\<lparr>fd := (fd c)\<lparr>rx := es\<rparr>\<rparr>"

lemma set_rx_same: "rx (fd c) = es \<Longrightarrow> set_rx es c = c"
  by (cases c; cases "fd c") simp

lemma recv_loc_one:
  assumes "rx (fd c) = RxData (x # xs) # es"
  shows "recv_loc 1 b c w = (1, x # drop 1 b, set_rx (seg_rest xs es) c, w)"
  using assms by (auto simp: recv_loc_def conn_recv_def seg_rest_def)

lemma recv_loc_four:
  assumes "rx (fd c) = RxData (q @ xs) # es" "length q = 4"
  shows "recv_loc 4 b c w = (4, q @ drop 4 b, set_rx (seg_rest xs es) c, w)"
  using assms by (cases xs) (auto simp: recv_loc_def conn_recv_def seg_rest_def)

lemma recv_loc_fail:
  assumes "rx (fd c) = RxErr e # es"
  shows "recv_loc n b c w = (-1, b, set_rx es c, w\<lparr>neterrno := e\<rparr>)"
  using assms by (simp add: recv_loc_def conn_recv_def)

text \<open>Bytes that are no \<open>S\<close> are dropped.\<close>

lemma sync_loop_skip:
  assumes "CHR ''S'' \<notin> set pre" "rx (fd c) = RxData (pre @ xs) # es" "xs \<noteq> []" "length b = 8"
  shows "\<exists>b'. length b' = 8 \<and> sync_loop b c w = sync_loop b' (set_rx (RxData xs # es) c) w"
  using assms
proof (induction pre arbitrary: b c)
  case Nil
  then have "set_rx (RxData xs # es) c = c" by (simp add: set_rx_same)
  then have "sync_loop b c w = sync_loop b (set_rx (RxData xs # es) c) w" by simp
  with Nil.prems(4) show ?case by blast
next
  case (Cons x pre)
  let ?c = "set_rx (RxData (pre @ xs) # es) c"
  have "recv_loc 1 b c w = (1, x # drop 1 b, ?c, w)"
    using recv_loc_one [of c x "pre @ xs" es b w] Cons.prems by (simp add: seg_rest_def)
  then have s: "sync_loop b c w = sync_loop (x # drop 1 b) ?c w"
    using Cons.prems(1) by (subst sync_loop.simps) (auto simp add: buf0_def)
  from Cons.IH [of ?c "x # drop 1 b"] Cons.prems obtain b' where
    "length b' = 8" "sync_loop (x # drop 1 b) ?c w = sync_loop b' (set_rx (RxData xs # es) ?c) w" by auto
  with s show ?case by auto
qed

lemma sync_loop_drained:
  assumes "CHR ''S'' \<notin> set pre" "rx (fd c) = seg_rest pre []" "length b = 8"
  shows "sync_loop b c w = (-1, None, set_rx [] c, w\<lparr>neterrno := EAGAIN\<rparr>)"
  using assms
proof (induction pre arbitrary: b c)
  case Nil
  then have "recv_loc 1 b c w = (-1, b, set_rx [] c, w\<lparr>neterrno := EAGAIN\<rparr>)"
    by (simp add: recv_loc_def conn_recv_def seg_rest_def)
  then show ?case by (subst sync_loop.simps) simp
next
  case (Cons x pre)
  have r: "recv_loc 1 b c w = (1, x # drop 1 b, set_rx (seg_rest pre []) c, w)"
    using recv_loc_one [of c x pre "[]" b w] Cons.prems by (simp add: seg_rest_def)
  then have s: "sync_loop b c w = sync_loop (x # drop 1 b) (set_rx (seg_rest pre []) c) w"
    using Cons.prems(1) by (subst sync_loop.simps) (auto simp add: buf0_def)
  with Cons.IH [of "set_rx (seg_rest pre []) c" "x # drop 1 b"] Cons.prems show ?case by simp
qed

text \<open>A header that has arrived whole, in front of at least one byte of data.\<close>

lemma sync_loop_header:
  assumes "rx (fd c) = RxData (''SFF'' @ d # wb32_chars n @ xs) # es"
    and "48 \<le> ord d" "ord d \<le> 57" "n \<noteq> 0" "uint n \<le> 1000000" "length b = 8"
  shows "sync_loop b c w = (1, Some (ord d - 48, n), set_rx (seg_rest xs es) c, w)"
proof -
  obtain q0 q1 q2 q3 where q: "wb32_chars n = [q0, q1, q2, q3]"
    using length_4E [OF length_wb32_chars] by blast
  let ?S = "CHR ''S''" and ?F = "CHR ''F''"
  have r1: "recv_loc 1 b c w = (1, ?S # drop 1 b, set_rx (RxData (''FF'' @ d # wb32_chars n @ xs) # es) c, w)"
    using recv_loc_one [of c ?S "''FF'' @ d # wb32_chars n @ xs" es b w] assms(1) by (simp add: seg_rest_def)
  let ?c1 = "set_rx (RxData (''FF'' @ d # wb32_chars n @ xs) # es) c"
  have r2: "recv_loc 1 b1 ?c1 w = (1, ?F # drop 1 b1, set_rx (RxData (''F'' @ d # wb32_chars n @ xs) # es) c, w)" for b1
    using recv_loc_one [of ?c1 ?F "''F'' @ d # wb32_chars n @ xs" es b1 w] by (simp add: seg_rest_def)
  let ?c2 = "set_rx (RxData (''F'' @ d # wb32_chars n @ xs) # es) c"
  have r3: "recv_loc 1 b1 ?c2 w = (1, ?F # drop 1 b1, set_rx (RxData (d # wb32_chars n @ xs) # es) c, w)" for b1
    using recv_loc_one [of ?c2 ?F "d # wb32_chars n @ xs" es b1 w] by (simp add: seg_rest_def)
  let ?c3 = "set_rx (RxData (d # wb32_chars n @ xs) # es) c"
  have r4: "recv_loc 1 b1 ?c3 w = (1, d # drop 1 b1, set_rx (RxData (wb32_chars n @ xs) # es) c, w)" for b1
    using recv_loc_one [of ?c3 d "wb32_chars n @ xs" es b1 w] q by (simp add: seg_rest_def)
  let ?c4 = "set_rx (RxData (wb32_chars n @ xs) # es) c"
  have r5: "recv_loc 4 b1 ?c4 w = (4, wb32_chars n @ drop 4 b1, set_rx (seg_rest xs es) c, w)" for b1
    using recv_loc_four [of ?c4 "wb32_chars n" xs es b1 w] by simp
  have t: "sync_tail (?S # drop 1 b) ?c1 w
      = (Some (ord d - 48, n), wb32_chars n @ drop 4 (d # drop 1 b), set_rx (seg_rest xs es) c, w)"
    unfolding sync_tail_def using assms(2-5) r2 r3 r4 r5 by (simp add: buf0_def Let_def)
  show ?thesis using r1 t by (subst sync_loop.simps) (simp add: buf0_def)
qed

section \<open>A packet from the sender into the ring\<close>

lemma ring_inv_cong:
  assumes "sff_pkts f' = sff_pkts f" "sff_w f' = sff_w f" "sffs s' = sffs s" "next_id s' = next_id s"
  shows "ring_inv f' c s' = ring_inv f c s" "ring_gap f' c = ring_gap f c" "ring_ids f' c = ring_ids f c"
  using assms by (simp_all add: ring_inv_def ring_gap_def ring_slot_def ring_ids_def)

lemma nat_str_digit: "n < 10 \<Longrightarrow> nat_str 10 n = [digit_char n]"
  by (subst nat_str.simps) simp

lemma block_header:
  "sff_write_block 2 ds = ''SFF'' @ digit_char 2 # wb32_chars (word_of_nat (length ds)) @ ds"
  by (simp add: sff_write_block_def nat_str_digit)

lemma ord_digit_2: "ord (digit_char 2) = 50"
  by (simp add: digit_char_def ord_char_of)

lemma conn_recv_whole:
  assumes "rx (fd c) = RxData ds # es" "n = int (length ds)" "ds \<noteq> []" "length ds < 2 ^ 63"
  shows "conn_recv n c w = (Got ds, set_rx es c, w)"
proof -
  have "nat (n mod 2 ^ 64) = length ds"
    using assms(2,4) by (subst mod_pos_pos_trivial) simp_all
  with assms(1,3) show ?thesis by (simp add: conn_recv_def)
qed

lemma relay_packet_in_ring:
  assumes "sff c = None" "hls_idx c < 0" "rx (fd c) = RxData (pre @ sff_write_block 2 ds) # es"
    and "CHR ''S'' \<notin> set pre" "ds \<noteq> []" "length ds \<le> 1000000"
    and "junk_ok k" "\<forall>l n. k_malloc k l n" "ring_inv c r s" "ring_gap c r < 127"
  shows "\<exists>c' s' j p. receive_packet k c s = Inr (Some (int (length ds), Some j, c', s'))
     \<and> sff c' = None \<and> rx (fd c') = es \<and> ring_inv c' r s' \<and> ring_ids c' r = ring_ids c r @ [j]
     \<and> sffs s' j = Some p \<and> sff_type p = 2 \<and> sff_data p = ds \<and> sff_wflag p = 2
     \<and> (\<forall>i \<in> set (ring_ids c r). sffs s' i = sffs s i)
     \<and> wake_state c' (Some j) s' = Inr (Some HTTPSTATE_SEND_DATA)"
proof -
  let ?n = "word_of_nat (length ds) :: 32 word"
  have un: "uint ?n = int (length ds)" "unat ?n = length ds"
    using assms(6) by (simp_all add: unsigned_of_nat take_bit_nat_eq_self)
  then have n0: "?n \<noteq> 0" using assms(5) by auto
  let ?h = "''SFF'' @ digit_char 2 # wb32_chars ?n @ ds"
  have b: "length (replicate 8 NUL) = 8" by simp
  from sync_loop_skip [OF assms(4) _ _ b, of c ?h es s] assms(3) obtain b' where
    sk: "length b' = 8" "sync_loop (replicate 8 NUL) c s = sync_loop b' (set_rx (RxData ?h # es) c) s"
    by (auto simp: block_header)
  have "sync_loop b' (set_rx (RxData ?h # es) c) s
      = (1, Some (ord (digit_char 2) - 48, ?n), set_rx (seg_rest ds es) (set_rx (RxData ?h # es) c), s)"
    by (rule sync_loop_header) (use n0 un(1) assms(6) sk(1) ord_digit_2 in simp_all)
  then have sy: "sync_loop (replicate 8 NUL) c s
      = (1, Some (2, ?n), set_rx (RxData ds # es) c, s)"
    using sk(2) assms(5) by (simp add: seg_rest_def ord_digit_2)
  let ?c2 = "set_rx es c"
  have rc: "conn_recv (uint ?n) (set_rx (RxData ds # es) c) s = (Got ds, ?c2, s)"
    using conn_recv_whole [of "set_rx (RxData ds # es) c" ds es "uint ?n" s] un(1) assms(5,6) by simp
  have mw: "mem_wr (k_junk k (unat ?n)) 0 ds = Inr ds"
    using assms(7) un(2) by (simp add: junk_ok_def mem_wr_def)
  let ?p = "\<lparr>sff_type = 2, sff_size = int (length ds), sff_data = ds, sff_wpos = int (length ds), sff_wflag = 0\<rparr>"
  let ?c3 = "?c2\<lparr>sff := Some (next_id s)\<rparr>"
  have inv: "ring_inv ?c3 r s" "ring_gap ?c3 r = ring_gap c r" "ring_ids ?c3 r = ring_ids c r"
    using ring_inv_cong [of ?c3 c s s r] assms(9) by simp_all
  from ring_push_ok [OF inv(1), of ?p] inv(2,3) assms(10) obtain f' s' where
    p: "ring_push ?c3 ?p s = Inr (f', s')" "ring_inv f' r s'" "ring_ids f' r = ring_ids c r @ [next_id s]"
      "sffs s' (next_id s) = Some (?p\<lparr>sff_wflag := 2\<rparr>)"
      "\<forall>i \<in> set (ring_ids c r). sffs s' i = sffs s i" by auto
  from ring_push_effect [OF inv(1), of ?p] p(1) have
    f': "f' = ?c3\<lparr>sff_pkts := (sff_pkts ?c3)[nat (sff_w ?c3) := Some (next_id s)], sff_w := (sff_w ?c3 + 1) mod 128\<rparr>"
    by auto
  let ?c' = "f'\<lparr>sff := None\<rparr>"
  have "ring_inv ?c' r s'" "ring_ids ?c' r = ring_ids f' r"
    using ring_inv_cong [of ?c' f' s' s' r] p(2) by simp_all
  moreover have "receive_packet k c s = Inr (Some (int (length ds), Some (next_id s), ?c', s'))"
  proof -
    obtain s2 where ns: "new_sff ?p s = (next_id s, s2)" by (simp add: new_sff_def)
    with p(1) have w: "sff_write ?c3 (next_id s) s2 = Inr (f', s')" by (simp add: ring_push_def)
    show ?thesis
      using assms(1,8) sy rc mw un ns w
      by (simp add: receive_packet_def receive_new_def Let_def)
  qed
  moreover have "wake_state ?c' (Some (next_id s)) s' = Inr (Some HTTPSTATE_SEND_DATA)"
    using p(4) assms(2,5) f' by (simp add: wake_state_def get_sff_def)
  ultimately show ?thesis using p(3-5) f'
    by (intro exI [of _ ?c'] exI [of _ s'] exI [of _ "next_id s"]
        exI [of _ "?p\<lparr>sff_wflag := 2\<rparr>"]) simp
qed

text \<open>A data packet that a relay client frames with \<open>sff_write_block\<close> arrives in the ring.  If no packet
is half received, anything without an \<open>S\<close> may stand before it (the rest of the request, or of
a packet that was dropped); then the packet is appended to what the reader \<open>r\<close> has pending, with
exactly its data, marked as complete, every pending packet is untouched, and waiting readers
will be sent to \<open>SEND_DATA\<close>.\<close>

theorem relay_packet_enters_ring:
  assumes "sff c = None" "hls_idx c < 0" "rx (fd c) = RxData (pre @ sff_write_block 2 ds) # es"
    and "CHR ''S'' \<notin> set pre" "ds \<noteq> []" "length ds \<le> 1000000"
    and "junk_ok k" "\<forall>l n. k_malloc k l n" "ring_inv c r s" "ring_gap c r < 127"
  shows "\<exists>c' s' j p. receive_packet k c s = Inr (Some (int (length ds), Some j, c', s'))
     \<and> sff c' = None \<and> rx (fd c') = es \<and> ring_inv c' r s' \<and> ring_ids c' r = ring_ids c r @ [j]
     \<and> sffs s' j = Some p \<and> sff_type p = 2 \<and> sff_data p = ds \<and> sff_wflag p = 2
     \<and> (\<forall>i \<in> set (ring_ids c r). sffs s' i = sffs s i)
     \<and> wake_state c' (Some j) s' = Inr (Some HTTPSTATE_SEND_DATA)"
  using assms by (rule relay_packet_in_ring)

definition relay_ctx :: "char rx_event list \<Rightarrow> HTTPContext" where
  "relay_ctx es = (ctx_demo [])
     \<lparr>state := HTTPSTATE_RECEIVE_DATA, post := 1, url := Some ''stream/a.flv'',
      fd := \<lparr>rx = es, tx = [], sent = []\<rparr>\<rparr>"

theorem relay_packet_witness:
  "\<exists>c' s' j p. receive_packet kernel_empty_disk (relay_ctx [RxData (''x'' @ sff_write_block 2 ''0000ab'')]) server_start
       = Inr (Some (6, Some j, c', s')) \<and> sffs s' j = Some p \<and> sff_data p = ''0000ab''"
proof -
  let ?c = "relay_ctx [RxData (''x'' @ sff_write_block 2 ''0000ab'')]"
  have c: "sff ?c = None" "hls_idx ?c < 0" "rx (fd ?c) = RxData (''x'' @ sff_write_block 2 ''0000ab'') # []"
    by (simp_all add: relay_ctx_def ctx_demo_def ctx_zero_def)
  have r: "ring_inv ?c (ctx_demo []) server_start" "ring_gap ?c (ctx_demo []) = 0"
    using ring_inv_cong [of ?c "ctx_demo []" server_start server_start "ctx_demo []"] ring_demo_inv
    by (simp_all add: relay_ctx_def) (simp add: ring_gap_def ctx_demo_def ctx_zero_def)
  have k: "\<forall>l n. k_malloc kernel_empty_disk l n" by (simp add: kernel_empty_disk_def)
  show ?thesis
    using relay_packet_enters_ring [OF c _ _ _ demo_inv(2) k r(1)] r(2) by auto
qed

text \<open>The search for a packet header checks only the first of its reads.  If the server reads when \<open>SF\<close>
of a header is all that has arrived, the read of the second \<open>F\<close> fails, the byte left from the
read before it is taken instead, the header is misread, and the packet is dropped: after the
rest has arrived nothing has been stored.\<close>

theorem torn_packet_header_drops_packet:
  assumes "sff c = None"
    and "rx (fd c) = RxData ''SF'' # RxErr EAGAIN # RxData (CHR ''F'' # xs) # []"
    and "CHR ''S'' \<notin> set xs"
  shows "\<exists>s'. receive_packet k c s = Inr (Some (-1, None, set_rx [] c, s')) \<and> sffs s' = sffs s"
proof -
  let ?S = "CHR ''S''" and ?F = "CHR ''F''" and ?b = "replicate 8 NUL"
  let ?tl = "RxErr EAGAIN # RxData (?F # xs) # []"
  let ?e = "s\<lparr>neterrno := EAGAIN\<rparr>"
  have r1: "recv_loc 1 ?b c s = (1, ?S # drop 1 ?b, set_rx (RxData ''F'' # ?tl) c, s)"
    using recv_loc_one [of c ?S "''F''" ?tl ?b s] assms(2) by (simp add: seg_rest_def)
  let ?c1 = "set_rx (RxData ''F'' # ?tl) c"
  have r2: "recv_loc 1 b1 ?c1 s = (1, ?F # drop 1 b1, set_rx ?tl c, s)" for b1
    using recv_loc_one [of ?c1 ?F "[]" ?tl b1 s] by (simp add: seg_rest_def)
  let ?c2 = "set_rx ?tl c"
  have r3: "recv_loc 1 b1 ?c2 s = (-1, b1, set_rx [RxData (?F # xs)] c, ?e)" for b1
    using recv_loc_fail [of ?c2 EAGAIN "[RxData (?F # xs)]" 1 b1 s] by simp
  let ?c3 = "set_rx [RxData (?F # xs)] c"
  have r4: "recv_loc 1 b1 ?c3 ?e = (1, ?F # drop 1 b1, set_rx (seg_rest xs []) c, ?e)" for b1
    using recv_loc_one [of ?c3 ?F xs "[]" b1 ?e] by simp
  let ?c4 = "set_rx (seg_rest xs []) c"
  have d: "\<not> (48 \<le> ord ?F \<and> ord ?F \<le> 57)" by (simp add: ord_def)
  have t: "sync_tail (?S # drop 1 ?b) ?c1 s = (None, ?F # drop 1 (?F # drop 1 ?b), ?c4, ?e)"
    unfolding sync_tail_def using r2 r3 r4 d by (simp add: buf0_def)
  have s: "sync_loop ?b c s = sync_loop (?F # drop 1 (?F # drop 1 ?b)) ?c4 ?e"
    using r1 t by (subst sync_loop.simps) (simp add: buf0_def)
  have "sync_loop (?F # drop 1 (?F # drop 1 ?b)) ?c4 ?e = (-1, None, set_rx [] ?c4, ?e\<lparr>neterrno := EAGAIN\<rparr>)"
    by (rule sync_loop_drained [OF assms(3)]) simp_all
  with s assms(1) show ?thesis by (simp add: receive_packet_def receive_new_def)
qed

theorem torn_packet_header_witness:
  "\<exists>c' s'. receive_packet kernel_empty_disk
       (relay_ctx [RxData ''SF'', RxErr EAGAIN, RxData (CHR ''F'' # ''2'' @ wb32_chars 6 @ ''0000ab'')]) server_start
     = Inr (Some (-1, None, c', s')) \<and> sffs s' = sffs server_start"
proof -
  have w: "wb32_chars 6 = [NUL, NUL, NUL, CHR 0x06]" by code_simp
  have "CHR ''S'' \<notin> set (''2'' @ wb32_chars 6 @ ''0000ab'')" by (simp add: w)
  from torn_packet_header_drops_packet [OF _ _ this, of "relay_ctx [RxData ''SF'', RxErr EAGAIN,
      RxData (CHR ''F'' # ''2'' @ wb32_chars 6 @ ''0000ab'')]" kernel_empty_disk server_start]
  show ?thesis by (auto simp: relay_ctx_def ctx_demo_def ctx_zero_def)
qed

section \<open>Who is woken\<close>

text \<open>What \<open>wake_others(c, to)\<close> promises for one other connection.\<close>

definition attaches :: "HTTPContext \<Rightarrow> HTTPContext \<Rightarrow> bool" where
  "attaches c c2 \<longleftrightarrow>
     state c2 = HTTPSTATE_WAIT_FEED \<and> feed_ctx c2 = None \<and> post c2 = 0 \<and> url c2 = url c"

definition woken :: "nat \<Rightarrow> HTTPContext \<Rightarrow> HTTPState \<Rightarrow> HTTPContext \<Rightarrow> HTTPContext" where
  "woken i c to c2 =
     (if state c2 = HTTPSTATE_WAIT_FEED then
        let c3 = (if attaches c c2 then c2\<lparr>feed_ctx := Some i\<rparr> else c2) in
        if feed_ctx c3 = Some i \<or> (0 \<le> hls_idx c \<and> hls_idx c = hls_idx c2) then c3\<lparr>state := to\<rparr> else c3
      else c2)"

text \<open>The writer's count after the connections \<open>js\<close> have been looked at.\<close>

definition attach_count :: "HTTPContext \<Rightarrow> (nat \<Rightarrow> HTTPContext option) \<Rightarrow> nat list \<Rightarrow> int" where
  "attach_count c m js = int (length (filter (\<lambda>j. case m j of Some c2 \<Rightarrow> attaches c c2 | None \<Rightarrow> False) js))"

lemma attach_count_simps [simp]:
  "attach_count c m [] = 0"
  "m j = Some c2 \<Longrightarrow> attach_count c m (j # js) = (if attaches c c2 then 1 else 0) + attach_count c m js"
  by (simp_all add: attach_count_def)

lemma wake_one_self:
  assumes "conns s i = Some c" "state c \<noteq> HTTPSTATE_WAIT_FEED"
  shows "wake_one i to i s = Inr s"
  using assms by (simp add: wake_one_def get_conn_def)

lemma wake_one_other:
  assumes "conns s i = Some c" "conns s j = Some c2" "i \<noteq> j" "url c \<noteq> None" "url c2 \<noteq> None"
  shows "wake_one i to j s = Inr (s\<lparr>conns := (conns s)
     (i := Some (c\<lparr>sff_ref_cnt := sff_ref_cnt c + (if attaches c c2 then 1 else 0)\<rparr>),
      j := Some (woken i c to c2))\<rparr>)"
proof -
  obtain u v where u: "url c = Some u" "url c2 = Some v" using assms(4,5) by auto
  show ?thesis
  proof (cases "state c2 = HTTPSTATE_WAIT_FEED")
    case False
    with assms show ?thesis
      by (simp add: wake_one_def get_conn_def attaches_def woken_def fun_upd_idem)
  next
    case True
    show ?thesis
    proof (cases "attaches c c2")
      case at: True
      then have "feed_ctx c2 = None" "post c2 = 0" "u = v" using u by (simp_all add: attaches_def)
      then show ?thesis using assms(1-3) True at u
        by (simp add: wake_one_def get_conn_def put_conn_def woken_def c_strcmp_eq_def fun_upd_twist Let_def)
    next
      case at: False
      have cmp: "(if feed_ctx c2 = None \<and> post c2 = 0 then c_strcmp_eq (url c2) (url c) else Inr False) = Inr False"
        using at True u by (auto simp: attaches_def c_strcmp_eq_def)
      show ?thesis
      proof (cases "feed_ctx c2 = Some i \<or> (0 \<le> hls_idx c \<and> hls_idx c = hls_idx c2)")
        case w: True
        have id: "(conns s)(i := Some c) = conns s" using assms(1) by (simp add: fun_upd_idem)
        from w cmp assms(1-3) True at show ?thesis
          by (auto simp: wake_one_def get_conn_def put_conn_def woken_def Let_def id)
      next
        case w: False
        have id: "(conns s)(i := Some c, j := Some c2) = conns s"
          using assms(1-3) by (simp add: fun_upd_idem)
        from w cmp assms(1-3) True at show ?thesis
          by (auto simp: wake_one_def get_conn_def put_conn_def woken_def Let_def id)
      qed
    qed
  qed
qed

definition wake_result ::
  "nat \<Rightarrow> HTTPContext \<Rightarrow> HTTPState \<Rightarrow> nat list \<Rightarrow> (nat \<Rightarrow> HTTPContext option) \<Rightarrow> nat \<Rightarrow> HTTPContext option" where
  "wake_result i c to js m j =
     (if j = i then Some (c\<lparr>sff_ref_cnt := sff_ref_cnt c + attach_count c m (filter (\<lambda>j. j \<noteq> i) js)\<rparr>)
      else if j \<in> set js then map_option (woken i c to) (m j) else m j)"

lemma attaches_ref [simp]: "attaches (c\<lparr>sff_ref_cnt := n\<rparr>) = attaches c"
  by (rule ext) (simp add: attaches_def)

lemma woken_ref [simp]: "woken i (c\<lparr>sff_ref_cnt := n\<rparr>) to = woken i c to"
  by (rule ext) (simp add: woken_def)

lemma attach_count_upd [simp]: "j \<notin> set js \<Longrightarrow> attach_count c (m(j := x)) js = attach_count c m js"
  by (auto simp: attach_count_def intro!: arg_cong [where f = length] filter_cong)

lemma attach_count_ref [simp]: "attach_count (c\<lparr>sff_ref_cnt := n\<rparr>) m js = attach_count c m js"
  by (simp add: attach_count_def cong: option.case_cong)

lemma server_conns_idem: "conns s = m \<Longrightarrow> s = s\<lparr>conns := m\<rparr>"
  by simp

lemma wake_loop_result:
  assumes "conns s i = Some c" "state c \<noteq> HTTPSTATE_WAIT_FEED" "url c \<noteq> None" "distinct js"
    and "\<forall>j \<in> set js. \<exists>c2. conns s j = Some c2 \<and> url c2 \<noteq> None"
  shows "wake_loop i to js s = Inr (s\<lparr>conns := wake_result i c to js (conns s)\<rparr>)"
  using assms
proof (induction js arbitrary: s c)
  case Nil
  have "conns s = wake_result i c to [] (conns s)"
    using Nil.prems(1) by (auto simp: wake_result_def)
  then show ?case by (metis server_conns_idem wake_loop.simps(1))
next
  case (Cons j js)
  obtain c2 where c2: "conns s j = Some c2" "url c2 \<noteq> None" using Cons.prems(5) by auto
  have d: "j \<notin> set js" "distinct js" using Cons.prems(4) by auto
  show ?case
  proof (cases "j = i")
    case True
    have "wake_loop i to js s = Inr (s\<lparr>conns := wake_result i c to js (conns s)\<rparr>)"
      using Cons d by auto
    moreover have "wake_result i c to js (conns s) = wake_result i c to (j # js) (conns s)"
      using True by (auto simp: wake_result_def)
    ultimately show ?thesis
      using True wake_one_self [OF Cons.prems(1,2), of to] by simp
  next
    case False
    let ?c = "c\<lparr>sff_ref_cnt := sff_ref_cnt c + (if attaches c c2 then 1 else 0)\<rparr>"
    let ?s = "s\<lparr>conns := (conns s)(i := Some ?c, j := Some (woken i c to c2))\<rparr>"
    have w: "wake_one i to j s = Inr ?s"
      by (rule wake_one_other [OF Cons.prems(1) c2(1) _ Cons.prems(3) c2(2)]) (use False in simp)
    have ci: "conns ?s i = Some ?c" using False by simp
    have live: "\<forall>x \<in> set js. \<exists>c2. conns ?s x = Some c2 \<and> url c2 \<noteq> None"
      using Cons.prems(3,5) d(1) by auto
    have "wake_loop i to js ?s = Inr (?s\<lparr>conns := wake_result i ?c to js (conns ?s)\<rparr>)"
      by (rule Cons.IH [OF ci _ _ d(2) live]) (use Cons.prems(2,3) in simp_all)
    moreover have "wake_result i ?c to js (conns ?s) = wake_result i c to (j # js) (conns s)"
    proof
      fix x
      show "wake_result i ?c to js (conns ?s) x = wake_result i c to (j # js) (conns s) x"
        using False c2 d(1) by (auto simp: wake_result_def)
    qed
    ultimately show ?thesis using w by simp
  qed
qed

text \<open>C11. \<open>wake_others(c, to)\<close> touches only readers that wait.  For a writer \<open>c\<close> and a list of live
connections that have a target, it returns without a fault; a connection that is not in
\<open>WAIT_FEED\<close> is left as it is; a waiting one is sent to the state \<open>to\<close> exactly if it reads from
\<open>c\<close>, follows the same segment, or waits for the very name \<open>c\<close> feeds without a source yet (it
is then attached to \<open>c\<close>), and only its state and source change; \<open>c\<close>'s count grows by the number
of readers attached; nothing else of the server changes.\<close>

theorem wake_others_only_wakes_readers:
  assumes "conns s i = Some c" "state c \<noteq> HTTPSTATE_WAIT_FEED" "url c \<noteq> None"
    and "distinct (first_http_ctx s)"
    and "\<forall>j \<in> set (first_http_ctx s). \<exists>c2. conns s j = Some c2 \<and> url c2 \<noteq> None"
  shows "\<exists>m. wake_others i to s = Inr (s\<lparr>conns := m\<rparr>)
     \<and> m i = Some (c\<lparr>sff_ref_cnt := sff_ref_cnt c
           + attach_count c (conns s) (filter (\<lambda>j. j \<noteq> i) (first_http_ctx s))\<rparr>)
     \<and> (\<forall>j. j \<noteq> i \<longrightarrow> m j =
           (if j \<in> set (first_http_ctx s) then map_option (woken i c to) (conns s j) else conns s j))"
  using wake_loop_result [OF assms(1-5), of to]
  by (auto simp: wake_others_def wake_result_def)

definition waiting_ctx :: HTTPContext where
  "waiting_ctx = (ctx_demo [])\<lparr>state := HTTPSTATE_WAIT_FEED, url := Some ''stream/a.flv''\<rparr>"

theorem wake_others_witness:
  "\<exists>m. wake_others 0 HTTPSTATE_SEND_DATA
        (server_start\<lparr>first_http_ctx := [1, 0], conns := [0 \<mapsto> relay_ctx [], 1 \<mapsto> waiting_ctx]\<rparr>)
      = Inr (server_start\<lparr>first_http_ctx := [1, 0], conns := m\<rparr>)
     \<and> m 1 = Some (waiting_ctx\<lparr>feed_ctx := Some 0, state := HTTPSTATE_SEND_DATA\<rparr>)"
proof -
  let ?s = "server_start\<lparr>first_http_ctx := [1, 0], conns := [0 \<mapsto> relay_ctx [], 1 \<mapsto> waiting_ctx]\<rparr>"
  have c: "conns ?s 0 = Some (relay_ctx [])" "state (relay_ctx []) \<noteq> HTTPSTATE_WAIT_FEED"
    "url (relay_ctx []) \<noteq> None" "distinct (first_http_ctx ?s)"
    "\<forall>j \<in> set (first_http_ctx ?s). \<exists>c2. conns ?s j = Some c2 \<and> url c2 \<noteq> None"
    by (simp_all add: relay_ctx_def ctx_demo_def ctx_zero_def waiting_ctx_def)
  have w: "woken 0 (relay_ctx []) HTTPSTATE_SEND_DATA waiting_ctx
      = waiting_ctx\<lparr>feed_ctx := Some 0, state := HTTPSTATE_SEND_DATA\<rparr>"
    by (simp add: woken_def attaches_def relay_ctx_def ctx_demo_def ctx_zero_def waiting_ctx_def)
  from wake_others_only_wakes_readers [OF c, of HTTPSTATE_SEND_DATA] w show ?thesis by auto
qed

end
