(* ===== verification/Send.thy ===== *)
theory Send
  imports ReceiveProofs
begin

text \<open>
  The sending half of \<open>src/ffserver.c\<close>: where the next bytes of an answer come from (a local
  file, a segment cell, the packet ring of a feed), the chunk framing, and the loop of
  \<open>http_send_data\<close>.
\<close>

section \<open>Preparing data\<close>

definition local_prepare_data ::
  "kernel \<Rightarrow> HTTPContext \<Rightarrow> server \<Rightarrow> (int \<times> HTTPContext \<times> server) result" where
  "local_prepare_data k c s =
     (if keep_alive c \<noteq> 0 \<and>
         ((total_count c \<noteq> 0 \<and> total_count c \<le> data_count c) \<or> local_fd c < 0) then
        Inr (1, c\<lparr>timeout := cur_time s + HTTP_REQUEST_TIMEOUT, state := HTTPSTATE_WAIT_REQUEST\<rparr>, s)
      else if local_fd c < 0 then Inr (-1, c, s)
      else
        let (r, s1) = sys_read k (local_fd c) (buffer_size c) s;
            rlen = io_len r;
            bs = (case r of Got bs \<Rightarrow> bs | Failed _ \<Rightarrow> []) in
        then_do (mem_wr (buffer c) (buffer_off c) bs) (\<lambda>b.
          let c1 = c\<lparr>buffer := b\<rparr>;
              ok = (\<lambda>c. c\<lparr>buffer_ptr := (RBuf, buffer_off c), buffer_end := (RBuf, buffer_off c + rlen)\<rparr>) in
          if rlen = -11 then Inr (2, c1, s1)
          else if rlen \<le> 0 then
            let c2 = c1\<lparr>local_fd := -2\<rparr>; s2 = sys_note (SysClose (local_fd c)) s1 in
            if rlen < 0 then Inr (-1, c2, s2) else Inr (0, ok c2, s2)
          else Inr (0, ok c1, s1)))"

definition sff_prepare_data :: "HTTPContext \<Rightarrow> server \<Rightarrow> (int \<times> HTTPContext) result" where
  "sff_prepare_data c s =
     (if state c = HTTPSTATE_SEND_DATA_HEADER then
        then_do (sff_read c 1 s) (\<lambda>(ko, c1).
          case ko of
            None \<Rightarrow> Inr (1, c1\<lparr>state := HTTPSTATE_WAIT_FEED\<rparr>)
          | Some k \<Rightarrow> then_do (get_sff k s) (\<lambda>p.
              Inr (0, c1\<lparr>buffer_ptr := (RSff k, 0), buffer_end := (RSff k, sff_size p),
                         state := HTTPSTATE_SEND_DATA, last_packet_sent := 0\<rparr>)))
      else if state c = HTTPSTATE_SEND_DATA then
        then_do (sff_read c 2 s) (\<lambda>(ko, c1).
          case ko of
            None \<Rightarrow> Inr (1, c1\<lparr>state := HTTPSTATE_WAIT_FEED\<rparr>)
          | Some k \<Rightarrow> then_do (sff_parse (Some k) s) (\<lambda>(ret, pkt).
              if ret \<noteq> 0 then Inr (-11, c1)
              else
                let c2 = c1\<lparr>buffer_ptr := pkt_data pkt, buffer_end := ptr_add (pkt_data pkt) (pkt_size pkt)\<rparr> in
                Inr (0, if stream_index pkt = -1 then c2\<lparr>state := HTTPSTATE_SEND_DATA_TRAILER\<rparr> else c2)))
      else Inr (-2, c\<lparr>last_packet_sent := 1\<rparr>))"

section \<open>Chunk framing\<close>

text \<open>
  The header is printed at \<open>c->buffer\<close> and moved to just before the data, wherever the data
  is; the line end goes just behind it.
\<close>

definition add_chunk_frame :: "HTTPContext \<Rightarrow> server \<Rightarrow> (HTTPContext \<times> server) result" where
  "add_chunk_frame c s =
     then_do (ptr_diff (buffer_end c) (buffer_ptr c)) (\<lambda>n.
     then_do (vsnprintf (buffer c) (buffer_off c) (nat CHUNK_HEAD_LEN) (nat_str 16 (nat n) @ crlf)) (\<lambda>(len, b).
       let c1 = c\<lparr>buffer := b\<rparr> in
       then_do (mem_rd b (buffer_off c) (int len)) (\<lambda>hd.
       then_do (wr_ptr (ptr_add (buffer_ptr c1) (- int len)) hd c1 s) (\<lambda>(c2, s2).
       then_do (wr_ptr (buffer_end c2) crlf c2 s2) (\<lambda>(c3, s3).
         Inr (c3\<lparr>buffer_ptr := ptr_add (buffer_ptr c3) (- int len),
                 buffer_end := ptr_add (buffer_end c3) 2\<rparr>, s3))))))"

section \<open>The loop\<close>

text \<open>
  One refill: the shift of \<open>c->buffer\<close> that keeps room for the frame, the source, the frame.
\<close>

definition send_prepare ::
  "kernel \<Rightarrow> HTTPContext \<Rightarrow> server \<Rightarrow> (int \<times> HTTPContext \<times> server) result" where
  "send_prepare k c s =
     (let c0 = c\<lparr>buffer_off := buffer_off c + CHUNK_HEAD_LEN, buffer_size := buffer_size c - (CHUNK_HEAD_LEN + 2)\<rparr> in
      then_do
        (if 0 \<le> hls_idx c0 then then_do (hls_read c0 s) (\<lambda>(ret, c1). Inr (ret, c1, s))
         else if local_fd c0 = -1 then then_do (sff_prepare_data c0 s) (\<lambda>(ret, c1). Inr (ret, c1, s))
         else local_prepare_data k c0 s) (\<lambda>(ret, c1, s1).
      let c2 = c1\<lparr>buffer_off := buffer_off c1 - CHUNK_HEAD_LEN, buffer_size := buffer_size c1 + (CHUNK_HEAD_LEN + 2)\<rparr> in
      if tr_encoding c2 = 1 \<and> ret = 0 then
        then_do (add_chunk_frame c2 s1) (\<lambda>(c3, s3). Inr (ret, c3, s3))
      else Inr (ret, c2, s1)))"

definition send_bytes :: "HTTPContext \<Rightarrow> server \<Rightarrow> (int \<times> HTTPContext \<times> server) result" where
  "send_bytes c s =
     then_do (ptr_diff (buffer_end c) (buffer_ptr c)) (\<lambda>n.
     then_do (rd_ptr s c (buffer_ptr c) n) (\<lambda>ds.
       let (len, c1, s1) = conn_send ds c s in
       if len < 0 then Inr (if hard_error s1 then -1 else 0, c1, s1)
       else Inr (0, c1\<lparr>buffer_ptr := ptr_add (buffer_ptr c1) len, data_count := data_count c1 + len\<rparr>, s1)))"

text \<open>A connection that is going to wait for its next request starts with an empty buffer.\<close>

definition buffer_restart :: "HTTPContext \<Rightarrow> HTTPContext result" where
  "buffer_restart c =
     then_do (mem_wr (buffer c) (buffer_off c) (replicate (nat (buffer_size c)) NUL)) (\<lambda>b.
       Inr (c\<lparr>buffer := b, buffer_ptr := (RBuf, buffer_off c),
              buffer_end := (RBuf, buffer_off c + buffer_size c - 1)\<rparr>))"

partial_function (option) http_send_data ::
  "kernel \<Rightarrow> HTTPContext \<Rightarrow> server \<Rightarrow> (int \<times> HTTPContext \<times> server) result option" where
  "http_send_data k c s =
     (case ptr_diff (buffer_end c) (buffer_ptr c) of
        Inl e \<Rightarrow> Some (Inl e)
      | Inr left \<Rightarrow>
          if left \<le> 0 then
            (case send_prepare k c s of
               Inl e \<Rightarrow> Some (Inl e)
             | Inr (ret, c1, s1) \<Rightarrow>
                 if ret < 0 then Some (Inr (-1, c1, s1))
                 else if 0 < ret then
                   Some (if state c1 = HTTPSTATE_WAIT_REQUEST
                         then then_do (buffer_restart c1) (\<lambda>c2. Inr (0, c2, s1))
                         else Inr (0, c1, s1))
                 else http_send_data k c1 s1)
          else Some (send_bytes c s))"

section \<open>A file in chunks\<close>

text \<open>A kernel whose reads from a descriptor return the pieces \<open>rs\<close> one after the other, then the end.\<close>

fun reads_done :: "int \<Rightarrow> sysev list \<Rightarrow> nat" where
  "reads_done f [] = 0"
| "reads_done f (SysRead g n # es) = (if f = g then 1 else 0) + reads_done f es"
| "reads_done f (_ # es) = reads_done f es"

lemma reads_done_append [simp]: "reads_done f (xs @ ys) = reads_done f xs + reads_done f ys"
  by (induction f xs rule: reads_done.induct) simp_all

definition file_serves :: "kernel \<Rightarrow> int \<Rightarrow> string list \<Rightarrow> bool" where
  "file_serves k f rs \<longleftrightarrow>
     (\<forall>l n. k_read k l f n = Got (if reads_done f l < length rs then rs ! reads_done f l else []))
     \<and> (\<forall>r \<in> set rs. r \<noteq> [] \<and> length r \<le> 8182)"

text \<open>A connection that has sent its header and goes on with the chunks of a local file.\<close>

definition chunk_sender :: "HTTPContext \<Rightarrow> bool" where
  "chunk_sender c \<longleftrightarrow>
     tr_encoding c = 1 \<and> hls_idx c < 0 \<and> total_count c = 0
     \<and> buffer_off c = 0 \<and> buffer_size c = 8192 \<and> length (buffer c) = 8192
     \<and> fst (buffer_ptr c) = RBuf \<and> buffer_ptr c = buffer_end c \<and> tx (fd c) = []"

lemma nat_str_length_chunk: "n \<le> 8182 \<Longrightarrow> length (nat_str 16 n) \<le> 4"
  using nat_str_length [of 16 n 4] by simp

text \<open>The frame around data that stands at offset 8 of the buffer.\<close>

lemma add_chunk_frame_buf:
  assumes "buffer_off c = 0" "length (buffer c) = 8192" "length ds \<le> 8182"
    and "buffer_ptr c = (RBuf, 8)" "buffer_end c = (RBuf, 8 + int (length ds))"
    and "take (length ds) (drop 8 (buffer c)) = ds"
  shows "\<exists>b n. add_chunk_frame c s
       = Inr (c\<lparr>buffer := b, buffer_ptr := (RBuf, 8 - int n), buffer_end := (RBuf, 10 + int (length ds))\<rparr>, s)
     \<and> n = length (nat_str 16 (length ds) @ crlf) \<and> n \<le> 6 \<and> length b = 8192
     \<and> mem_rd b (8 - int n) (2 + int (length ds) + int n) = Inr (chunk_enc ds)"
proof -
  let ?h = "nat_str 16 (length ds) @ crlf"
  define n where "n = length ?h"
  have n: "n \<le> 6" "0 < n" "length ?h = n"
    using nat_str_length_chunk [OF assms(3)] by (simp_all add: n_def crlf_def)
  define x y where "x = take 8 (buffer c)" and "y = drop (8 + length ds) (buffer c)"
  have d8: "drop 8 (buffer c) = ds @ y"
    using assms(6) unfolding y_def by (metis append_take_drop_id drop_drop add.commute)
  have b: "buffer c = x @ ds @ y" "length x = 8" "2 \<le> length y"
    using assms(2,3) d8 by (simp_all add: x_def y_def) (metis append_take_drop_id d8)
  have w0: "mem_wr (buffer c) 0 (take (8 - 1) ?h @ [NUL]) = Inr (?h @ [NUL] @ drop (n + 1) x @ ds @ y)"
    using n b by (subst mem_wr_0) (simp_all add: b(1))
  then have v: "vsnprintf (buffer c) (buffer_off c) (nat CHUNK_HEAD_LEN) ?h
      = Inr (n, ?h @ [NUL] @ drop (n + 1) x @ ds @ y)"
    using assms(1) n(3) by (simp add: vsnprintf_def CHUNK_HEAD_LEN_def)
  let ?b1 = "?h @ [NUL] @ drop (n + 1) x @ ds @ y"
  have hd: "mem_rd ?b1 0 (int n) = Inr ?h" using n(3) by (simp add: mem_rd_def)
  let ?p = "take (8 - n) (?h @ [NUL] @ drop (n + 1) x)"
  have p8: "length (?h @ [NUL] @ drop (n + 1) x) = 8" using n b(2) by simp
  then have lp: "length ?p = 8 - n" by simp
  have w1: "mem_wr ?b1 (8 - int n) ?h = Inr (?p @ ?h @ ds @ y)"
  proof -
    have "mem_wr ?b1 (int (8 - n)) ?h = Inr (take (8 - n) ?b1 @ ?h @ drop (8 - n + length ?h) ?b1)"
      using n p8 by (intro mem_wr_nat) simp
    moreover have "take (8 - n) ?b1 = ?p"
    proof -
      have "take (8 - n) ((?h @ [NUL] @ drop (n + 1) x) @ ds @ y)
          = ?p @ take (8 - n - length (?h @ [NUL] @ drop (n + 1) x)) (ds @ y)"
        by (rule take_append)
      also have "8 - n - length (?h @ [NUL] @ drop (n + 1) x) = 0" using p8 by (simp only:)
      finally show ?thesis by simp
    qed
    moreover have "drop (8 - n + length ?h) ?b1 = ds @ y"
    proof -
      have "8 - n + length ?h = length (?h @ [NUL] @ drop (n + 1) x)" using p8 n by simp
      then show ?thesis by (metis append.assoc append_eq_conv_conj)
    qed
    moreover have "int (8 - n) = 8 - int n" using n by simp
    ultimately show ?thesis by simp
  qed
  let ?b2 = "?p @ ?h @ ds @ y" and ?b3 = "?p @ ?h @ ds @ crlf @ drop 2 y"
  have w2: "mem_wr ?b2 (8 + int (length ds)) crlf = Inr ?b3"
  proof -
    have l: "length (?p @ ?h @ ds) = 8 + length ds"
      using n by (simp only: length_append [of ?p] length_append [of ?h] lp n(3))
    have "mem_wr ((?p @ ?h @ ds) @ y) (8 + int (length ds)) crlf
        = Inr ((?p @ ?h @ ds) @ crlf @ drop (length crlf) y)"
    proof (rule mem_wr_at)
      show "8 + int (length ds) = int (length (?p @ ?h @ ds))" unfolding l by simp
      show "length crlf \<le> length y" using b(3) by (simp add: crlf_def)
    qed
    moreover have "length crlf = 2" by (simp add: crlf_def)
    ultimately show ?thesis by (simp only: append_assoc)
  qed
  have lb: "length ?b3 = 8192"
    by (rule trans [OF mem_wr_length [OF w2] trans [OF mem_wr_length [OF w1] trans [OF mem_wr_length [OF w0] assms(2)]]])
  have rd: "mem_rd ?b3 (8 - int n) (2 + int (length ds) + int n) = Inr (chunk_enc ds)"
  proof -
    have ce: "chunk_enc ds = ?h @ ds @ crlf" "length (chunk_enc ds) = n + length ds + 2"
      using n by (simp_all add: chunk_enc_def crlf_def)
    have "mem_rd (?p @ chunk_enc ds @ drop 2 y) (8 - int n) (2 + int (length ds) + int n) = Inr (chunk_enc ds)"
    proof (rule mem_rd_at)
      show "8 - int n = int (length ?p)" unfolding lp using n(1) by simp
      show "2 + int (length ds) + int n = int (length (chunk_enc ds))" unfolding ce(2) by simp
    qed
    then show ?thesis unfolding ce(1) by (simp only: append_assoc)
  qed
  have "add_chunk_frame c s
      = Inr (c\<lparr>buffer := ?b3, buffer_ptr := (RBuf, 8 - int n), buffer_end := (RBuf, 10 + int (length ds))\<rparr>, s)"
    using v hd w1 w2 assms(1,4,5)
    by (simp add: add_chunk_frame_def wr_ptr_def region_mem_def put_region_def Let_def)
  with n lb rd show ?thesis unfolding n_def [symmetric]
    by (intro exI [of _ ?b3] exI [of _ n]) simp
qed

lemma chunk_stream_enc: "chunk_stream rs = concat (map chunk_enc (rs @ [[]]))"
  by (simp add: chunk_stream_def chunk_enc_def nat_str_0)

lemma reads_done_sys [simp]: "reads_done f (xs @ [SysRead f n]) = Suc (reads_done f xs)"
  by simp

text \<open>One call sends one chunk; after the last piece of the file it sends the empty chunk.\<close>

lemma send_one_chunk:
  assumes "chunk_sender c" "0 \<le> local_fd c" "file_serves k (local_fd c) rs"
    and "ds = (if reads_done (local_fd c) (log s) < length rs then rs ! reads_done (local_fd c) (log s) else [])"
  shows "\<exists>c' s'. http_send_data k c s = Some (Inr (0, c', s')) \<and> sent (fd c') = sent (fd c) @ chunk_enc ds
     \<and> chunk_sender c' \<and> local_fd c' = (if ds = [] then -2 else local_fd c) \<and> keep_alive c' = keep_alive c
     \<and> log s' = log s @ (if ds = [] then [SysRead (local_fd c) 8182, SysClose (local_fd c)]
                         else [SysRead (local_fd c) 8182])"
proof -
  have cs: "tr_encoding c = 1" "hls_idx c < 0" "total_count c = 0" "buffer_off c = 0" "buffer_size c = 8192"
    "length (buffer c) = 8192" "fst (buffer_ptr c) = RBuf" "buffer_ptr c = buffer_end c" "tx (fd c) = []"
    using assms(1) unfolding chunk_sender_def by blast+
  have ld: "length ds \<le> 8182"
    using assms(3,4) by (auto simp: file_serves_def)
  have kr: "k_read k (log s) (local_fd c) n = Got ds" for n
    using assms(3,4) by (simp add: file_serves_def)
  define b where "b = take 8 (buffer c) @ ds @ drop (8 + length ds) (buffer c)"
  have mw: "mem_wr (buffer c) 8 ds = Inr b"
    using mem_wr_nat [of 8 ds "buffer c"] cs(6) ld by (simp add: b_def)
  have lb: "length b = 8192" using mem_wr_length [OF mw] cs(6) by simp
  have tb: "take (length ds) (drop 8 b) = ds" using cs(6) by (simp add: b_def)
  let ?fd = "if ds = [] then -2 else local_fd c"
  let ?c1 = "c\<lparr>buffer := b, local_fd := ?fd, buffer_ptr := (RBuf, 8), buffer_end := (RBuf, 8 + int (length ds))\<rparr>"
  let ?s1 = "s\<lparr>log := log s @ (if ds = [] then [SysRead (local_fd c) 8182, SysClose (local_fd c)]
                         else [SysRead (local_fd c) 8182])\<rparr>"
  let ?c0 = "c\<lparr>buffer_off := 8, buffer_size := 8182\<rparr>"
  have lp: "local_prepare_data k ?c0 s
      = Inr (0, ?c1\<lparr>buffer_off := 8, buffer_size := 8182\<rparr>, ?s1)"
    using assms(2) kr mw cs(3)
    by (cases "ds = []") (simp_all add: local_prepare_data_def sys_read_def sys_note_def Let_def)
  have c1: "buffer_off ?c1 = 0" "length (buffer ?c1) = 8192" "buffer_ptr ?c1 = (RBuf, 8)"
    "buffer_end ?c1 = (RBuf, 8 + int (length ds))" "take (length ds) (drop 8 (buffer ?c1)) = ds"
    using cs lb tb by simp_all
  from add_chunk_frame_buf [OF c1(1,2) ld c1(3-5), of ?s1] obtain b2 n where
    f: "add_chunk_frame ?c1 ?s1
       = Inr (?c1\<lparr>buffer := b2, buffer_ptr := (RBuf, 8 - int n), buffer_end := (RBuf, 10 + int (length ds))\<rparr>, ?s1)"
      "n \<le> 6" "length b2 = 8192" "mem_rd b2 (8 - int n) (2 + int (length ds) + int n) = Inr (chunk_enc ds)"
    by blast
  let ?c2 = "?c1\<lparr>buffer := b2, buffer_ptr := (RBuf, 8 - int n), buffer_end := (RBuf, 10 + int (length ds))\<rparr>"
  have c0: "c\<lparr>buffer_off := buffer_off c + CHUNK_HEAD_LEN, buffer_size := buffer_size c - (CHUNK_HEAD_LEN + 2)\<rparr> = ?c0"
    using cs(4,5) by (simp add: CHUNK_HEAD_LEN_def)
  have "local_fd ?c0 \<noteq> -1" using assms(2) by simp
  have restored: "?c1\<lparr>buffer_off := 0, buffer_size := 8192\<rparr> = ?c1" using cs(4,5) by simp
  have sp: "send_prepare k c s = Inr (0, ?c2, ?s1)"
    unfolding send_prepare_def Let_def c0
    using cs(1,2) assms(2) lp f(1) restored by (simp add: CHUNK_HEAD_LEN_def)
  let ?n = "2 + int (length ds) + int n"
  have le: "int (length (chunk_enc ds)) = ?n" using mem_rd_length [OF f(4)] .
  let ?c3 = "?c2\<lparr>fd := (fd c)\<lparr>sent := sent (fd c) @ chunk_enc ds\<rparr>,
      buffer_ptr := (RBuf, 10 + int (length ds)), data_count := data_count c + ?n\<rparr>"
  have "sock_send (chunk_enc ds) (tx (fd ?c2)) = (Got (chunk_enc ds), [])" using cs(9) by simp
  then have sb: "send_bytes ?c2 ?s1 = Inr (0, ?c3, ?s1)"
    using f(4) le cs(9)
    by (simp add: send_bytes_def rd_ptr_def region_mem_def conn_send_def algebra_simps)
  have h2: "http_send_data k ?c2 ?s1 = Some (Inr (0, ?c3, ?s1))"
    using sb by (subst http_send_data.simps) simp
  have "ptr_diff (buffer_end c) (buffer_ptr c) = Inr 0"
    using cs(8) by (simp add: ptr_diff_def)
  then have "http_send_data k c s = Some (Inr (0, ?c3, ?s1))"
    using sp h2 by (subst http_send_data.simps) simp
  moreover have "chunk_sender ?c3" using cs f(3) by (simp add: chunk_sender_def)
  ultimately show ?thesis by (intro exI [of _ ?c3] exI [of _ ?s1]) simp
qed

text \<open>Repeated calls, as long as they return 0.\<close>

fun http_send_calls ::
  "nat \<Rightarrow> kernel \<Rightarrow> HTTPContext \<Rightarrow> server \<Rightarrow> (HTTPContext \<times> server) option" where
  "http_send_calls 0 k c s = Some (c, s)"
| "http_send_calls (Suc n) k c s =
     (case http_send_data k c s of
        Some (Inr (ret, c1, s1)) \<Rightarrow> if ret = 0 then http_send_calls n k c1 s1 else None
      | _ \<Rightarrow> None)"

lemma send_chunks:
  assumes "chunk_sender c" "0 \<le> local_fd c" "file_serves k (local_fd c) rs"
    and "reads_done (local_fd c) (log s) \<le> length rs" "m = length rs - reads_done (local_fd c) (log s)"
  shows "\<exists>c' s'. http_send_calls (m + 1) k c s = Some (c', s')
     \<and> sent (fd c') = sent (fd c) @ chunk_stream (drop (reads_done (local_fd c) (log s)) rs)
     \<and> chunk_sender c' \<and> local_fd c' = -2 \<and> keep_alive c' = keep_alive c
     \<and> last (log s') = SysClose (local_fd c)"
  using assms(1,2,3,4,5)
proof (induction m arbitrary: c s)
  case 0
  let ?j = "reads_done (local_fd c) (log s)"
  have j: "?j = length rs" using "0.prems"(4,5) by simp
  from send_one_chunk [OF "0.prems"(1-3), of "[]" s] j obtain c' s' where
    h: "http_send_data k c s = Some (Inr (0, c', s'))" "sent (fd c') = sent (fd c) @ chunk_enc []"
      "chunk_sender c'" "local_fd c' = -2" "keep_alive c' = keep_alive c"
      "log s' = log s @ [SysRead (local_fd c) 8182, SysClose (local_fd c)]" by auto
  with j show ?case by (simp add: chunk_stream_enc)
next
  case (Suc m)
  let ?j = "reads_done (local_fd c) (log s)"
  have j: "?j < length rs" using Suc.prems(4,5) by simp
  then have ne: "rs ! ?j \<noteq> []" using Suc.prems(3) by (simp add: file_serves_def)
  from send_one_chunk [OF Suc.prems(1-3), of "rs ! ?j" s] j ne obtain c1 s1 where
    h: "http_send_data k c s = Some (Inr (0, c1, s1))" "sent (fd c1) = sent (fd c) @ chunk_enc (rs ! ?j)"
      "chunk_sender c1" "local_fd c1 = local_fd c" "keep_alive c1 = keep_alive c"
      "log s1 = log s @ [SysRead (local_fd c) 8182]" by auto
  have j1: "reads_done (local_fd c1) (log s1) = Suc ?j" using h(4,6) by simp
  obtain c' s' where
    r: "http_send_calls (m + 1) k c1 s1 = Some (c', s')"
      "sent (fd c') = sent (fd c1) @ chunk_stream (drop (Suc ?j) rs)"
      "chunk_sender c'" "local_fd c' = -2" "keep_alive c' = keep_alive c1"
      "last (log s') = SysClose (local_fd c1)"
  proof -
    have "0 \<le> local_fd c1" "file_serves k (local_fd c1) rs" "reads_done (local_fd c1) (log s1) \<le> length rs"
      "m = length rs - reads_done (local_fd c1) (log s1)"
      using h(4) j1 Suc.prems(2,3,5) j by simp_all
    from Suc.IH [OF h(3) this] show ?thesis unfolding j1 by (blast intro: that)
  qed
  have "drop ?j rs = rs ! ?j # drop (Suc ?j) rs" using j by (simp add: Cons_nth_drop_Suc)
  with h r show ?case by (simp add: chunk_stream_enc)
qed


definition kernel_one_file :: "string list \<Rightarrow> kernel" where
  "kernel_one_file rs = kernel_empty_disk
     \<lparr>k_read := (\<lambda>l f n. Got (if reads_done f l < length rs then rs ! reads_done f l else []))\<rparr>"

definition download_ctx :: HTTPContext where
  "download_ctx = (ctx_demo [])\<lparr>state := HTTPSTATE_SEND_DATA_HEADER, tr_encoding := 1, local_fd := 5,
     buffer_end := (RBuf, 0)\<rparr>"


section \<open>The frame outside the connection's own buffer\<close>

text \<open>The chunk frame is written into whatever the data pointer points to.  If a client asks for a
segment with a request that carries \<open>Transfer-Encoding: chunked\<close> (which sets the same flag as a
chunked answer), the frame's header goes in front of the first byte of the segment's memory:
\<open>http_send_data\<close> writes outside the cell.\<close>

theorem chunked_segment_writes_outside:
  assumes "tr_encoding c = 1" "buffer_ptr c = buffer_end c" "hls_rpos c = 0" "buf_ok c"
    and "get_hls (hls_idx c) s = Inr h" "hls_data h \<noteq> None" "hls_inv h" "0 < hls_csize h" "hls_csize h < 2 ^ 31"
  shows "http_send_data k c s = Some (Inl OutOfBounds)"
proof -
  let ?c0 = "c\<lparr>buffer_off := buffer_off c + CHUNK_HEAD_LEN, buffer_size := buffer_size c - (CHUNK_HEAD_LEN + 2)\<rparr>"
  let ?p = "(RHls (nat (hls_idx c)) (hls_gen h), 0 :: int)"
  let ?c1 = "?c0\<lparr>buffer_ptr := ?p, buffer_end := ptr_add ?p (hls_csize h), hls_rpos := hls_csize h\<rparr>"
  have i: "0 \<le> hls_idx c" using assms(5) by (simp add: get_hls_def split: if_splits)
  obtain d where d: "hls_data h = Some d" using assms(6) by auto
  have hr: "hls_read ?c0 s = Inr (0, ?c1)"
    using assms(3,5,8) d by (simp add: hls_read_def Let_def)
  let ?c2 = "?c1\<lparr>buffer_off := buffer_off ?c1 - CHUNK_HEAD_LEN, buffer_size := buffer_size ?c1 + (CHUNK_HEAD_LEN + 2)\<rparr>"
  let ?n = "nat (hls_csize h)" and ?t = "nat_str 16 (nat (hls_csize h)) @ crlf"
  have z: "buffer_off c = 0" "32 \<le> length (buffer c)" using assms(4) by (auto simp: buf_ok_def)
  have "?n < 16 ^ 8" using assms(8,9) by simp
  then have tl: "0 < length ?t" "length ?t \<le> 10"
    using nat_str_length [of 16 ?n 8] by (simp_all add: crlf_def)
  have "\<exists>b. mem_wr (buffer c) 0 (take 7 ?t @ [NUL]) = Inr b"
    using z(2) by (subst mem_wr_0) auto
  then obtain b where b: "mem_wr (buffer c) 0 (take 7 ?t @ [NUL]) = Inr b" by blast
  have lb: "length b = length (buffer c)" by (rule mem_wr_length [OF b])
  have v: "vsnprintf (buffer ?c2) (buffer_off ?c2) (nat CHUNK_HEAD_LEN) ?t = Inr (length ?t, b)"
    using b z(1) by (simp add: vsnprintf_def CHUNK_HEAD_LEN_def)
  have rd: "mem_rd b 0 (int (length ?t)) = Inr (take (length ?t) b)"
    using tl(2) lb z(2) by (simp add: mem_rd_def)
  have lt: "length (take (length ?t) b) = length ?t" using tl(2) lb z(2) by simp
  have reg: "region_mem s x (RHls (nat (hls_idx c)) (hls_gen h)) = Inr d" for x
    using assms(5) d i by (simp add: region_mem_def)
  have "mem_wr d (- int (length ?t)) (take (length ?t) b) = Inl OutOfBounds"
  proof -
    have "\<not> 0 \<le> - int (length ?t)" using tl(1) by linarith
    then show ?thesis unfolding mem_wr_def by (simp only: simp_thms if_False)
  qed
  then have "add_chunk_frame ?c2 s = Inl OutOfBounds"
    using v rd reg z(1) by (simp add: add_chunk_frame_def wr_ptr_def Let_def)
  then have "send_prepare k c s = Inl OutOfBounds"
    unfolding send_prepare_def Let_def using i hr assms(1) by simp
  moreover have "ptr_diff (buffer_end c) (buffer_ptr c) = Inr 0"
    using assms(2) by (simp add: ptr_diff_def)
  ultimately show ?thesis by (subst http_send_data.simps) simp
qed

theorem chunked_segment_witness:
  "http_send_data kernel_empty_disk ((ctx_demo [])\<lparr>state := HTTPSTATE_SEND_DATA_HEADER, tr_encoding := 1,
      hls_idx := 3, buffer_end := (RBuf, 0)\<rparr>) cell_demo = Some (Inl OutOfBounds)"
proof -
  have g: "get_hls 3 cell_demo = Inr \<lparr>hls_data = Some (replicate 4096 CHR ''x''), hls_msize = 4096,
      hls_csize = 4096, hls_flag = 1, hls_gen = 0\<rparr>"
    by (simp add: cell_demo_def get_hls_def put_hls_def server_start_def)
  show ?thesis
    by (rule chunked_segment_writes_outside [where h = "\<lparr>hls_data = Some (replicate 4096 CHR ''x''),
        hls_msize = 4096, hls_csize = 4096, hls_flag = 1, hls_gen = 0\<rparr>"])
      (simp_all add: g ctx_demo_def ctx_zero_def buf_ok_def IOBUFFER_INIT_SIZE_def hls_inv_def)
qed

end
