(* ===== verification/Files.thy ===== *)
theory Files
  imports Send
begin

text \<open>
  Local files: the token test, directories for uploads, the directory listing and deletion of
  \<open>src/plugin_dir.c\<close>, and the answers \<open>prepare_local_file\<close> of \<open>src/ffserver.c\<close> makes.
\<close>

section \<open>The token\<close>

text \<open>\<open>strncmp(c->xToken, sUploadToken, sizeof(c->xToken) - 1)\<close>.\<close>

definition checkToken :: "HTTPContext \<Rightarrow> server \<Rightarrow> int" where
  "checkToken c s = strncmp (xToken c) (sUploadToken s) 63"

section \<open>Creating directories\<close>

definition sys_mkdir :: "kernel \<Rightarrow> string \<Rightarrow> 'a world_scheme \<Rightarrow> int \<times> 'a world_scheme" where
  "sys_mkdir k path w = (if k_mkdir k (log w) path then 0 else -1, sys_note (SysMkdir path) w)"

text \<open>
  The loop of \<open>mkdirRecursive\<close>: \<open>pre\<close> is the part of the copy before \<open>ptr\<close>, \<open>p\<close> the rest.  A slash that
  is not the first character cuts the copy there; a slash directly behind it is skipped.
\<close>

function mkdir_loop :: "kernel \<Rightarrow> string \<Rightarrow> string \<Rightarrow> 'a world_scheme \<Rightarrow> int \<times> 'a world_scheme" where
  "mkdir_loop k pre p w =
     (case p of
        [] \<Rightarrow> (0, w)
      | c # r \<Rightarrow>
          if pre \<noteq> [] \<and> c = CHR ''/'' then
            let (ret, w1) = (if k_stat k (log w) pre = None then sys_mkdir k pre w else (0, w)) in
            if ret \<noteq> 0 then (-2, w1)
            else (case r of
                    d # r' \<Rightarrow> if d = CHR ''/'' then mkdir_loop k (pre @ [c, d]) r' w1
                              else mkdir_loop k (pre @ [c]) r w1
                  | [] \<Rightarrow> mkdir_loop k (pre @ [c]) r w1)
          else mkdir_loop k (pre @ [c]) r w)"
  by pat_completeness auto
termination by (relation "measure (\<lambda>(k, pre, p, w). length p)") auto

declare mkdir_loop.simps [simp del]

definition mkdirRecursive :: "kernel \<Rightarrow> string \<Rightarrow> 'a world_scheme \<Rightarrow> int \<times> 'a world_scheme" where
  "mkdirRecursive k path w =
     (if k_malloc k (log w) (int (length path) + 1) then mkdir_loop k [] path w else (-1, w))"

definition preparePathOK :: "kernel \<Rightarrow> string option \<Rightarrow> 'a world_scheme \<Rightarrow> bool \<times> 'a world_scheme" where
  "preparePathOK k path w =
     (case path of
        None \<Rightarrow> (False, w)
      | Some p \<Rightarrow>
          if k_stat k (log w) p \<noteq> None then (True, w)
          else let (ret, w1) = mkdirRecursive k p w in (k_stat k (log w1) p \<noteq> None, w1))"

section \<open>The directory page\<close>

text \<open>
  \<open>dir2html(path, uri, buf, len)\<close> is run twice: without a buffer it gives the length of the page,
  with one it writes it.  Each \<open>snprintf\<close> gets what is left of the buffer, so the page is written
  only up to its last character but one, and a terminator takes the last place.
\<close>

definition dir_head :: "string \<Rightarrow> string" where
  "dir_head uri =
     ''<html><head><title>Index of '' @ uri @ ''</title>'' @
     ''<style>th {text-align: left;}</style></head>'' @
     ''<body><h1>Index of '' @ uri @ ''</h1><pre><table cellpadding='' @ [CHR 0x22] @ ''0'' @ [CHR 0x22] @ ''>'' @ [CHR 0x0A] @
     ''<tr><th>Name</th><th>Modified</th><th>Size</th></tr>'' @
     ''<tr><td colspan='' @ [CHR 0x22] @ ''3'' @ [CHR 0x22] @ ''><hr></td></tr>'' @ [CHR 0x0A]"

definition dir_size_text :: "kernel \<Rightarrow> stat \<Rightarrow> string" where
  "dir_size_text k st =
     (if st_isdir st then ''&lt;DIR&gt;''
      else if st_size st < 1024 then int_str (st_size st)
      else if st_size st < 1024 * 1024 then int_str (st_size st div 1024 + 1) @ ''k''
      else k_fsize k (st_size st) @ ''M'')"

definition dir_row :: "kernel \<Rightarrow> string \<Rightarrow> string \<Rightarrow> stat \<Rightarrow> string" where
  "dir_row k uri name st =
     ''<tr><td><a href='' @ [CHR 0x22] @ uri @ name @ [CHR 0x22] @ ''>'' @ name @ (if st_isdir st then ''/'' else []) @
     ''</a></td>'' @ ''<td>&nbsp;'' @ k_ftime k (st_mtime st) @ ''</td><td>&nbsp;&nbsp;'' @ dir_size_text k st @
     ''</td></tr>'' @ [CHR 0x0A]"

definition dir_tail :: string where
  "dir_tail = ''</table></body></html>'' @ [CHR 0x0A]"

text \<open>
  A name that \<open>stat\<close> refuses leaves \<open>st\<close> as it was for the name before; \<open>st\<close> is the value on entry.
\<close>

fun dir_rows ::
  "kernel \<Rightarrow> sysev list \<Rightarrow> string \<Rightarrow> string \<Rightarrow> stat \<Rightarrow> string list \<Rightarrow> string list" where
  "dir_rows k l path uri st [] = []"
| "dir_rows k l path uri st (n # ns) =
     (if n = ''.'' then dir_rows k l path uri st ns
      else
        let file = take 4095 (path @ ''/'' @ n);
            st' = (case k_stat k l file of Some x \<Rightarrow> x | None \<Rightarrow> st) in
        dir_row k uri n st' # dir_rows k l path uri st' ns)"

text \<open>Successive \<open>snprintf\<close> calls with the space that is left; without a buffer they only count.\<close>

fun html_print :: "char list option \<Rightarrow> int \<Rightarrow> nat \<Rightarrow> string list \<Rightarrow> (nat \<times> char list option) result" where
  "html_print b len ret [] = Inr (ret, b)"
| "html_print None len ret (t # ts) = html_print None len (ret + length t) ts"
| "html_print (Some d) len ret (t # ts) =
     then_do (vsnprintf d (int ret) (if len = 0 then 0 else nat ((len - int ret) mod 2 ^ 64)) t) (\<lambda>(n, d').
       html_print (Some d') len (ret + n) ts)"

definition dir2html ::
  "kernel \<Rightarrow> sysev list \<Rightarrow> string \<Rightarrow> string
   \<Rightarrow> char list option \<Rightarrow> int \<Rightarrow> (nat \<times> char list option) result" where
  "dir2html k l path uri b len =
     (case k_readdir k l path of
        None \<Rightarrow> Inr (0, b)
      | Some ns \<Rightarrow>
          html_print b len 0 (dir_head uri # dir_rows k l path uri (k_stack_stat k) ns @ [dir_tail]))"

definition dir_answer_head :: "int \<Rightarrow> string" where
  "dir_answer_head len =
     ''HTTP/1.1 200 OK'' @ crlf @ ''Connection: close'' @ crlf @
     ''Content-Type: text/html; charset=utf-8'' @ crlf @
     ''Content-Length: '' @ int_str len @ crlf @ crlf"

text \<open>\<open>dir_list_local(c)\<close>: 1 when the target is a directory (or the index page without a file).\<close>

definition dir_list_local ::
  "kernel \<Rightarrow> HTTPContext \<Rightarrow> server \<Rightarrow> (int \<times> HTTPContext) result" where
  "dir_list_local k c s =
     (case url c of
        None \<Rightarrow> Inl NullDeref
      | Some u \<Rightarrow>
        let st = k_stat k (log s) u;
            place = (case st of
                        None \<Rightarrow> if u = ''index.html'' then Some (''.'', ''/'') else None
                      | Some x \<Rightarrow> if st_isdir x then Some (u, take 4095 (''/'' @ u @ ''/'')) else None) in
        case place of
          None \<Rightarrow> Inr (0, c)
        | Some (path, uri) \<Rightarrow>
            then_do (dir2html k (log s) path uri None 0) (\<lambda>(len, _).
              let head = dir_answer_head (int len); hlen = length head in
              if \<not> k_malloc k (log s) (int (hlen + len)) then
                Inr (0, c\<lparr>buffer_ptr := (RBuf, buffer_off c), buffer_end := (RBuf, buffer_off c)\<rparr>)
              else
                then_do (mem_wr (k_junk k (hlen + len)) 0 head) (\<lambda>b.
                then_do (dir2html k (log s) path uri (Some (drop hlen b)) (int len)) (\<lambda>(_, page).
                  Inr (1, c\<lparr>pb_buffer := Some (take hlen b @ (case page of Some p \<Rightarrow> p | None \<Rightarrow> [])),
                            buffer_ptr := (RPb, 0),
                            buffer_end := (RPb, int hlen + (if only_header c \<noteq> 0 then 0 else int len)),
                            http_error := 200, local_fd := -1\<rparr>)))))"

definition dir_delete_file :: "kernel \<Rightarrow> HTTPContext \<Rightarrow> server \<Rightarrow> (int \<times> server) result" where
  "dir_delete_file k c s =
     (case url c of
        None \<Rightarrow> Inl NullDeref
      | Some u \<Rightarrow>
          (case k_stat k (log s) u of
             None \<Rightarrow> Inr (404, s)
           | Some _ \<Rightarrow> Inr (if k_remove k (log s) u then 200 else 400, sys_note (SysRemove u) s)))"

text \<open>
  \<open>dir_is_modifed\<close>: \<open>c->inm\<close> is an array, so the test \<open>if(c->inm)\<close> always holds and the two other
  branches are dead.  The result is the flag with the two header texts.
\<close>

definition etag_of :: "stat \<Rightarrow> string" where
  "etag_of st = take 63 ([CHR 0x22] @ nat_str 16 (nat (st_mtime st mod 2 ^ 64)) @ ''.'' @
                         nat_str 16 (nat (st_size st mod 2 ^ 64)) @ [CHR 0x22])"

definition dir_is_modifed :: "kernel \<Rightarrow> HTTPContext \<Rightarrow> stat \<Rightarrow> bool \<times> string \<times> string" where
  "dir_is_modifed k c st =
     (let lm = k_strftime k (st_mtime st); etag = etag_of st in
      (if inm c = ''*'' then False
       else if strncmp (inm c) ''W/'' 2 = 0 then drop 2 (inm c) \<noteq> etag
       else inm c \<noteq> etag,
       lm, etag))"

section \<open>Answering from a local file\<close>

text \<open>\<open>sprintf(p, ...)\<close>: the text and its terminator, wherever the block ends.\<close>

definition c_sprintf :: "char list \<Rightarrow> int \<Rightarrow> string \<Rightarrow> (nat \<times> char list) result" where
  "c_sprintf d p txt = then_do (mem_wr d p (txt @ [NUL])) (\<lambda>d'. Inr (length txt, d'))"

definition alive_word :: "HTTPContext \<Rightarrow> string" where
  "alive_word c = (if keep_alive c \<noteq> 0 then ''keep-alive'' else ''close'')"

definition lm_etag_lines :: "string \<Rightarrow> string \<Rightarrow> string" where
  "lm_etag_lines lm etag =
     take 255 (''Cache-Control:max-age=0, must-revalidate'' @ crlf @ ''Last-Modified: '' @ lm @ crlf @
               ''Etag: '' @ etag @ crlf)"

definition not_modified_text :: "HTTPContext \<Rightarrow> string \<Rightarrow> string" where
  "not_modified_text c dt =
     ''HTTP/1.1 304 Not Modified'' @ crlf @ dt @ ''Connection: '' @ alive_word c @ crlf @ crlf"

definition chunked_text :: "HTTPContext \<Rightarrow> string \<Rightarrow> string" where
  "chunked_text c dt =
     ''HTTP/1.1 200 OK'' @ crlf @
     (if tr_encoding c = 1 then ''Transfer-Encoding: chunked'' @ crlf else []) @
     ''Content-type: '' @ get_mine_type (url c) @ crlf @ dt @
     ''Connection: '' @ alive_word c @ crlf @ crlf"

definition whole_text :: "HTTPContext \<Rightarrow> string \<Rightarrow> bool \<Rightarrow> int \<Rightarrow> int \<Rightarrow> int \<Rightarrow> string" where
  "whole_text c dt part a b n =
     ''HTTP/1.1 '' @ (if part then ''206 Partial Content'' else ''200 OK'') @ crlf @
     ''Content-type: '' @ get_mine_type (url c) @ crlf @
     ''Accept-Ranges: bytes'' @ crlf @
     ''Content-Range: bytes '' @ int_str a @ ''-'' @ int_str (if part then b else n - 1) @ ''/'' @ int_str n @ crlf @
     ''Content-Length: '' @ int_str (if part then b - a + 1 else n) @ crlf @ dt @
     ''Connection: '' @ alive_word c @ crlf @ crlf"

text \<open>
  \<open>Range: bytes=start-end\<close> against a file of \<open>n\<close> bytes: the first and the last position and
  whether the answer is partial.
\<close>

definition parse_range :: "string \<Rightarrow> int \<Rightarrow> int \<times> int \<times> bool" where
  "parse_range r n =
     (if strncmp r ''bytes='' 6 = 0 then
        let p = drop 6 r;
            q = dropWhile (\<lambda>ch. ch \<noteq> CHR ''-'') p;
            e = (if 1 < length q then strtoll 10 (tl q) else 0) in
        (strtoll 10 p, if e \<le> 0 \<or> n \<le> e then n - 1 else e, True)
      else (0, 0, False))"

text \<open>The three answers; each ends at \<open>tail\<close> (1) or, when an allocation or the read fails, at \<open>end\<close> (0).\<close>

definition answer_tail :: "nat \<Rightarrow> int \<Rightarrow> HTTPContext \<Rightarrow> HTTPContext" where
  "answer_tail len0 len c =
     c\<lparr>buffer_ptr := (RPb, 0),
       buffer_end := (RPb, (if only_header c \<noteq> 0 then 0 else len) + int len0)\<rparr>"

definition answer_not_modified ::
  "kernel \<Rightarrow> HTTPContext \<Rightarrow> string \<Rightarrow> int \<Rightarrow> server \<Rightarrow> (int \<times> HTTPContext \<times> server) result" where
  "answer_not_modified k c dt fl s =
     (let s1 = sys_note (SysClose fl) s; c1 = c\<lparr>http_error := 304, local_fd := -1\<rparr> in
      if \<not> k_malloc k (log s1) 512 then Inr (0, c1\<lparr>pb_buffer := None\<rparr>, s1)
      else
        then_do (c_sprintf (k_junk k 512) 0 (not_modified_text c1 dt)) (\<lambda>(len0, b).
          Inr (1, answer_tail len0 0 (c1\<lparr>pb_buffer := Some b\<rparr>), s1)))"

definition answer_chunked ::
  "kernel \<Rightarrow> HTTPContext \<Rightarrow> string \<Rightarrow> int \<Rightarrow> server \<Rightarrow> (int \<times> HTTPContext \<times> server) result" where
  "answer_chunked k c dt fl s =
     (let c1 = c\<lparr>tr_encoding := if 1 \<le> http_version c then 1 else 0, local_fd := fl, http_error := 0\<rparr> in
      if \<not> k_malloc k (log s) 512 then Inr (0, c1\<lparr>pb_buffer := None\<rparr>, s)
      else
        let c2 = (if tr_encoding c1 = 0 then c1\<lparr>keep_alive := 0\<rparr> else c1) in
        then_do (c_sprintf (k_junk k 512) 0 (chunked_text c2 dt)) (\<lambda>(len0, b).
          Inr (1, answer_tail len0 0 (c2\<lparr>pb_buffer := Some b\<rparr>), s)))"

definition answer_whole ::
  "kernel \<Rightarrow> HTTPContext \<Rightarrow> RequestData \<Rightarrow> stat \<Rightarrow> string \<Rightarrow> int \<Rightarrow> server
   \<Rightarrow> (int \<times> HTTPContext \<times> server) result" where
  "answer_whole k c rd st dt fl s =
     (let (a, b, part) = parse_range (range rd) (st_size st);
          wanted = (if part then b - a + 1 else st_size st);
          size = min (wanted + 1024) FILE_BUF_SIZE in
      if \<not> k_malloc k (log s) (size mod 2 ^ 64) then
        Inr (0, c\<lparr>pb_buffer := None, buffer_ptr := (RBuf, buffer_off c), buffer_end := (RBuf, buffer_off c)\<rparr>,
             sys_note (SysClose fl) s)
      else
        then_do (c_sprintf (k_junk k (nat (size mod 2 ^ 64))) 0
                  (whole_text c (if part then [] else dt) part a b (st_size st))) (\<lambda>(len0, b0).
          let tried = min (size - int len0) wanted;
              (r, s1) = sys_read k fl (tried mod 2 ^ 64) (sys_note (SysSeek fl a) s) in
          case r of
            Failed _ \<Rightarrow> Inr (0, c\<lparr>pb_buffer := None\<rparr>, s1)
          | Got bs \<Rightarrow>
              then_do (mem_wr b0 (int len0) bs) (\<lambda>b1.
                let c1 = c\<lparr>pb_buffer := Some b1\<rparr> in
                if int (length bs) = wanted then
                  Inr (1, answer_tail len0 (int (length bs)) (c1\<lparr>http_error := 200, local_fd := -1\<rparr>),
                       sys_note (SysClose fl) s1)
                else
                  Inr (1, answer_tail len0 (int (length bs))
                            (c1\<lparr>local_fd := fl, http_error := 0, total_count := int len0 + wanted\<rparr>), s1))))"

text \<open>
  The whole function.  \<open>st.st_size > SIZE_MAX\<close> compares as \<open>unsigned long\<close> and never holds.
  The path buffer \<open>tmp\<close> is sixteen bytes longer than the target, so it holds \<open>./\<close> and the target.
\<close>

definition prepare_local_file ::
  "kernel \<Rightarrow> HTTPContext \<Rightarrow> RequestData \<Rightarrow> server \<Rightarrow> (int \<times> HTTPContext \<times> server) result" where
  "prepare_local_file k c rd s =
     (case url c of
        None \<Rightarrow> Inr (0, c, s)
      | Some u \<Rightarrow>
          if \<not> k_malloc k (log s) (int (length u) + 16) then Inr (0, c, s)
          else
            let (fl, s1) = sys_open k (''./'' @ u) False s in
            if fl < 0 then Inr (0, c, s1)
            else (case k_fstat k (log s1) fl of
                    None \<Rightarrow> Inr (0, c, s1)
                  | Some st \<Rightarrow>
                      let (modified, lm, etag) = dir_is_modifed k c st; dt = lm_etag_lines lm etag in
                      if \<not> modified then answer_not_modified k c dt fl s1
                      else if MIN_SIZE_OF_LOCAL_FILE_FOR_CHUNKED \<le> st_size st \<and> keep_alive c \<noteq> 0
                      then answer_chunked k c dt fl s1
                      else answer_whole k c rd st dt fl s1))"

section \<open>Facts about ranges and answer heads\<close>

lemma strtoll_dec:
  assumes "r = [] \<or> digit_val 10 (hd r) = None" "int n < 2 ^ 63"
  shows "strtoll 10 (nat_str 10 n @ r) = int n"
proof -
  let ?d = "nat_str 10 n"
  obtain c cs where d: "?d = c # cs" by (cases ?d) auto
  have dig: "\<forall>c \<in> set ?d. digit_val 10 c \<noteq> None" using nat_str_digits [of 10 n] by simp
  then have c: "\<not> av_isspace (ord c)" "c \<noteq> CHR ''-''" "c \<noteq> CHR ''+''"
    using d digit_val_props [of 10 c] by auto
  have s1: "dropWhile (\<lambda>c. av_isspace (ord c)) (?d @ r) = c # cs @ r" using c d by simp
  have v: "strto_digits 10 0 (c # cs @ r) = int n"
  proof -
    have "strto_digits 10 0 (?d @ r) = strto_digits 10 (strto_digits 10 0 ?d) r"
      by (rule strto_digits_append [OF dig])
    also have "\<dots> = strto_digits 10 0 ?d" using assms(1) by (cases r) auto
    also have "\<dots> = int n" using strto_digits_nat_str [of 10 n] by simp
    finally show ?thesis using d by simp
  qed
  have s3: "(case c # cs @ r of z # x # e # q \<Rightarrow>
                  if (10::int) = 16 \<and> z = CHR ''0'' \<and> (x = CHR ''x'' \<or> x = CHR ''X'')
                     \<and> digit_val 16 e \<noteq> None then e # q else c # cs @ r
                | _ \<Rightarrow> c # cs @ r) = c # cs @ r"
    by (auto split: list.splits)
  have "strtoll 10 (?d @ r) = saturate64 (int n)"
    unfolding strtoll_def s1 Let_def using c(2,3)
    by (simp only: list.case if_False simp_thms s3 [unfolded list.case] v)
  with assms(2) show ?thesis by (simp add: saturate64_def)
qed

lemma int_str_length:
  assumes "\<bar>n\<bar> < 10 ^ 19"
  shows "length (int_str n) \<le> 20"
proof -
  have "nat n < 10 ^ 19" "nat (- n) < 10 ^ 19" using assms by (simp_all add: nat_less_iff)
  then show ?thesis
    using nat_str_length [of 10 "nat n" 19] nat_str_length [of 10 "nat (- n)" 19]
    by (simp add: int_str_def)
qed

lemma get_mine_type_length: "length (get_mine_type x) \<le> 40"
proof -
  have "length (mime_find n t) \<le> 40" if "\<forall>(p, q) \<in> set t. length q \<le> 40" for n t
    using that by (induction t) auto
  moreover have "\<forall>(p, q) \<in> set mime_table. length q \<le> 40" by (simp add: mime_table_def)
  ultimately show ?thesis by (cases x) (auto simp: get_mine_type_def)
qed

lemma whole_text_length:
  assumes "\<bar>a\<bar> < 2 ^ 62" "\<bar>b\<bar> < 2 ^ 62" "\<bar>n\<bar> < 2 ^ 62"
  shows "length (whole_text c [] part a b n) < 400" "100 < length (whole_text c [] part a b n)"
proof -
  have l: "length (int_str a) \<le> 20" "length (int_str b) \<le> 20" "length (int_str n) \<le> 20"
       "length (int_str (n - 1)) \<le> 20" "length (int_str (b - a + 1)) \<le> 20"
    by (intro int_str_length; use assms in simp)+
  have m: "length (get_mine_type (url c)) \<le> 40" by (rule get_mine_type_length)
  have w: "length (alive_word c) \<le> 10" "5 \<le> length (alive_word c)" by (auto simp: alive_word_def)
  show "length (whole_text c [] part a b n) < 400" "100 < length (whole_text c [] part a b n)"
    using l m w by (cases part; simp add: whole_text_def crlf_def)+
qed

lemma strncmp_prefix: "strncmp (s @ x) s (length s) = 0"
  by (induction s) auto

lemma strncmp_bytes: "strncmp (''bytes='' @ x) ''bytes='' 6 = 0"
proof -
  have "length ''bytes='' = 6" by simp
  then show ?thesis using strncmp_prefix [of "''bytes=''" x] by (simp only:)
qed

lemma parse_range_both:
  assumes "int a < 2 ^ 63" "int b < 2 ^ 63"
  shows "parse_range (''bytes='' @ nat_str 10 a @ CHR ''-'' # nat_str 10 b) n
       = (int a, if b = 0 \<or> n \<le> int b then n - 1 else int b, True)"
proof -
  let ?p = "nat_str 10 a @ CHR ''-'' # nat_str 10 b"
  have cmp: "strncmp (''bytes='' @ ?p) ''bytes='' 6 = 0" by (rule strncmp_bytes)
  have dr: "drop 6 (''bytes='' @ ?p) = ?p" by simp
  have ch: "ch \<noteq> CHR ''-''" if "ch \<in> set (nat_str 10 a)" for ch
    using nat_str_digits [of 10 a] digit_val_props(2) [of 10 ch] that by auto
  then have dw: "dropWhile (\<lambda>ch. ch \<noteq> CHR ''-'') ?p = CHR ''-'' # nat_str 10 b"
    by (subst dropWhile_append2) auto
  have minus: "digit_val 10 CHR ''-'' = None" by (simp add: digit_val_def ord_def)
  have va: "strtoll 10 ?p = int a" by (rule strtoll_dec) (use assms in \<open>simp_all add: minus\<close>)
  have vb: "strtoll 10 (nat_str 10 b) = int b" using strtoll_dec [of "[]" b] assms by simp
  have l: "1 < length (CHR ''-'' # nat_str 10 b)" using nat_str_not_Nil [of 10 b] by (cases "nat_str 10 b") auto
  show ?thesis
    unfolding parse_range_def cmp dr dw Let_def va using l by (simp add: vb)
qed

lemma parse_range_from:
  assumes "int a < 2 ^ 63"
  shows "parse_range (''bytes='' @ nat_str 10 a @ ''-'') n = (int a, n - 1, True)"
proof -
  let ?p = "nat_str 10 a @ ''-''"
  have cmp: "strncmp (''bytes='' @ ?p) ''bytes='' 6 = 0" by (rule strncmp_bytes)
  have dr: "drop 6 (''bytes='' @ ?p) = ?p" by simp
  have ch: "ch \<noteq> CHR ''-''" if "ch \<in> set (nat_str 10 a)" for ch
    using nat_str_digits [of 10 a] digit_val_props(2) [of 10 ch] that by auto
  then have dw: "dropWhile (\<lambda>ch. ch \<noteq> CHR ''-'') ?p = ''-''" by (subst dropWhile_append2) auto
  have minus: "digit_val 10 CHR ''-'' = None" by (simp add: digit_val_def ord_def)
  have va: "strtoll 10 ?p = int a" by (rule strtoll_dec) (use assms in \<open>simp_all add: minus\<close>)
  show ?thesis
    unfolding parse_range_def cmp dr dw Let_def va by simp
qed

text \<open>
  A file \<open>F\<close> on the disk: the target opens as descriptor \<open>f\<close>, \<open>fstat\<close> gives its length, and a read
  after a seek gives the bytes from there.
\<close>

definition disk_file :: "kernel \<Rightarrow> string \<Rightarrow> nat \<Rightarrow> stat \<Rightarrow> string \<Rightarrow> bool" where
  "disk_file k u f st F \<longleftrightarrow>
     (\<forall>l. k_open k l (''./'' @ u) = Inr f) \<and> (\<forall>l. k_fstat k l (int f) = Some st) \<and>
     st_size st = int (length F) \<and>
     (\<forall>l p n. k_read k (l @ [SysSeek (int f) (int p)]) (int f) (int n) = Got (take n (drop p F)))"

lemma take_drop_mem_wr:
  assumes "mem_wr b (int n) ds = Inr b'" "m = n + length ds"
  shows "take m b' = take n b @ ds"
  using assms by (auto simp: mem_wr_Inr)

text \<open>The answer to a range that lies in the file.\<close>

lemma answer_whole_range:
  assumes rd: "parse_range (range rd) (int (length F)) = (int a, int b, True)"
    and ab: "a \<le> b" "b < length F" "b - a < 2000000" "length F < 2 ^ 61"
    and disk: "disk_file k u f st F" "junk_ok k" "\<forall>l n. k_malloc k l n"
  shows "\<exists>b1. answer_whole k c rd st dt (int f) s =
           Inr (1, answer_tail (length (whole_text c [] True (int a) (int b) (int (length F)))) (int (b - a + 1))
                     (c\<lparr>pb_buffer := Some b1, http_error := 200, local_fd := -1\<rparr>),
                s\<lparr>log := log s @ [SysSeek (int f) (int a), SysRead (int f) (int (b - a + 1)), SysClose (int f)]\<rparr>)
       \<and> take (length (whole_text c [] True (int a) (int b) (int (length F))) + (b - a + 1)) b1
         = whole_text c [] True (int a) (int b) (int (length F)) @ take (b - a + 1) (drop a F)"
proof -
  define w where "w = b - a + 1"
  define h where "h = whole_text c [] True (int a) (int b) (int (length F))"
  have st: "st_size st = int (length F)" using disk(1) by (simp add: disk_file_def)
  have hl: "length h < 400" unfolding h_def using ab by (intro whole_text_length) simp_all
  have wz: "int b - int a + 1 = int w" using ab by (simp add: w_def)
  have sz: "min (int w + 1024) FILE_BUF_SIZE = int (w + 1024)"
    using ab(3) by (simp add: w_def FILE_BUF_SIZE_def)
  have m1: "int (w + 1024) mod 2 ^ 64 = int (w + 1024)" using ab(3) by (simp add: w_def)
  obtain b0 where b0: "c_sprintf (k_junk k (w + 1024)) 0 h = Inr (length h, b0)"
      and b0l: "length b0 = w + 1024" "take (length h) b0 = h"
    using hl disk(2) by (auto simp: c_sprintf_def junk_ok_def mem_wr_def)
  have tried: "min (int (w + 1024) - int (length h)) (int w) = int w" using hl by simp
  have m2: "int w mod 2 ^ 64 = int w" using ab(3) by (simp add: w_def)
  define bs where "bs = take w (drop a F)"
  have bsl: "length bs = w" using ab by (simp add: bs_def w_def)
  have rdk: "sys_read k (int f) (int w) (sys_note (SysSeek (int f) (int a)) s)
      = (Got bs, s\<lparr>log := log s @ [SysSeek (int f) (int a), SysRead (int f) (int w)]\<rparr>)"
    using disk(1) by (simp add: sys_read_def sys_note_def disk_file_def bs_def)
  obtain b1 where b1: "mem_wr b0 (int (length h)) bs = Inr b1"
    using hl b0l bsl by (auto simp: mem_wr_def)
  have "take (length h + w) b1 = h @ bs"
    using take_drop_mem_wr [OF b1, of "length h + w"] bsl b0l by simp
  moreover have "answer_whole k c rd st dt (int f) s =
           Inr (1, answer_tail (length h) (int w) (c\<lparr>pb_buffer := Some b1, http_error := 200, local_fd := -1\<rparr>),
                s\<lparr>log := log s @ [SysSeek (int f) (int a), SysRead (int f) (int w), SysClose (int f)]\<rparr>)"
    unfolding answer_whole_def st rd Let_def split_conv if_True wz sz m1 nat_int
    by (simp only: disk(3) h_def [symmetric] not_True_eq_False if_False if_True b0 then_do_simps split_conv
          tried m2 rdk io_result.case b1 bsl Let_def) (simp add: sys_note_def)
  ultimately show ?thesis unfolding w_def h_def bs_def by blast
qed

text \<open>The bytes the connection will send next.\<close>

definition answer_bytes :: "HTTPContext \<Rightarrow> server \<Rightarrow> char list result" where
  "answer_bytes c s = then_do (ptr_diff (buffer_end c) (buffer_ptr c)) (rd_ptr s c (buffer_ptr c))"


text \<open>A concrete disk for runs: one file \<open>a.txt\<close> of twelve bytes.\<close>

definition demo_file :: string where "demo_file = ''Hello World!''"

definition kernel_one_file :: kernel where
  "kernel_one_file = kernel_empty_disk
     \<lparr>k_open := (\<lambda>_ p. if p = ''./a.txt'' then Inr 3 else Inl EOTHER),
      k_stat := (\<lambda>_ p. if p = ''a.txt'' then Some \<lparr>st_size = 12, st_mtime = 0, st_isdir = False\<rparr> else None),
      k_fstat := (\<lambda>_ f. if f = 3 then Some \<lparr>st_size = 12, st_mtime = 0, st_isdir = False\<rparr> else None),
      k_read := (\<lambda>l f n. case rev l of SysSeek g p # _ \<Rightarrow> Got (take (nat n) (drop (nat p) demo_file))
                           | _ \<Rightarrow> Got (take (nat n) demo_file))\<rparr>"

definition rd_range :: "string \<Rightarrow> RequestData" where
  "rd_range r = \<lparr>domain = [], cookie = [], content = [], range = r, expect = []\<rparr>"

lemma disk_demo:
  "disk_file kernel_one_file ''a.txt'' 3 \<lparr>st_size = 12, st_mtime = 0, st_isdir = False\<rparr> demo_file"
  by (simp add: disk_file_def kernel_one_file_def demo_file_def)

lemma kernel_one_file_ok: "junk_ok kernel_one_file" "\<forall>l n. k_malloc kernel_one_file l n"
  by (simp_all add: junk_ok_def kernel_one_file_def kernel_empty_disk_def)


text \<open>A range that starts a little behind the end of the file overruns the answer buffer: for
  \<open>Range: bytes=a-\<close> with \<open>a\<close> in the hundred bytes up to 1024 behind the end, the buffer gets
  \<open>size - a + 1024\<close> bytes, fewer than the head that is printed into it without a bound.\<close>

theorem range_behind_end_overflows:
  assumes disk: "disk_file k u f st F" "junk_ok k" "\<forall>l n. k_malloc k l n"
    and c: "url c = Some u" "keep_alive c = 0 \<or> length F < 8192" "fst (dir_is_modifed k c st)"
    and rng: "range rd = ''bytes='' @ nat_str 10 a @ ''-''"
    and a: "length F + 924 \<le> a" "a \<le> length F + 1024" "length F < 2 ^ 61"
  shows "prepare_local_file k c rd s = Inl OutOfBounds"
proof -
  obtain lm et where m: "dir_is_modifed k c st = (True, lm, et)"
    using c(3) by (cases "dir_is_modifed k c st") auto
  let ?dt = "lm_etag_lines lm et" and ?h = "whole_text c [] True (int a) (int (length F) - 1) (int (length F))"
  define s1 where "s1 = s\<lparr>log := log s @ [SysOpen (''./'' @ u) False (int f)]\<rparr>"
  have op: "sys_open k (''./'' @ u) False s = (int f, s1)"
    using disk(1) by (simp add: sys_open_def disk_file_def s1_def)
  have fs: "k_fstat k (log s1) (int f) = Some st" and sz: "st_size st = int (length F)"
    using disk(1) by (simp_all add: disk_file_def)
  have nc: "\<not> (MIN_SIZE_OF_LOCAL_FILE_FOR_CHUNKED \<le> int (length F) \<and> keep_alive c \<noteq> 0)"
    using c(2) by (auto simp: MIN_SIZE_OF_LOCAL_FILE_FOR_CHUNKED_def)
  have whole: "prepare_local_file k c rd s = answer_whole k c rd st ?dt (int f) s1"
    unfolding prepare_local_file_def c(1) option.case op Let_def split_conv fs m sz
    by (simp only: disk(3) not_True_eq_False if_False nc) simp
  have "int a < 2 ^ 63" using a by simp
  then have pr: "parse_range (range rd) (int (length F)) = (int a, int (length F) - 1, True)"
    using parse_range_from [of a "int (length F)"] rng by simp
  define w where "w = length F + 1024 - a"
  have w: "int (length F) - 1 - int a + 1 + 1024 = int w" "w \<le> 100" using a by (simp_all add: w_def)
  have hl: "100 < length ?h" using a by (intro whole_text_length) simp_all
  have size: "min (int (length F) - 1 - int a + 1 + 1024) FILE_BUF_SIZE = int w"
    using w by (simp add: FILE_BUF_SIZE_def)
  have m2: "int w mod 2 ^ 64 = int w" using w by simp
  have "length (k_junk k w) = w" using disk(2) by (simp add: junk_ok_def)
  then have "c_sprintf (k_junk k w) 0 ?h = Inl OutOfBounds"
    using hl w(2) by (simp add: c_sprintf_def mem_wr_def)
  then show ?thesis
    unfolding whole answer_whole_def sz pr Let_def split_conv if_True size m2 nat_int
    by (simp add: disk(3))
qed

theorem range_behind_end_witness:
  "prepare_local_file kernel_one_file ((ctx_demo [])\<lparr>url := Some ''a.txt''\<rparr>) (rd_range ''bytes=1000-'') server_start
     = Inl OutOfBounds"
proof -
  let ?c = "(ctx_demo [])\<lparr>url := Some ''a.txt''\<rparr>"
  have n: "nat_str 10 1000 = ''1000''"
    by code_simp
  have m: "fst (dir_is_modifed kernel_one_file ?c \<lparr>st_size = 12, st_mtime = 0, st_isdir = False\<rparr>)"
    by (simp add: dir_is_modifed_def ctx_demo_def ctx_zero_def etag_of_def Let_def)
  have r: "range (rd_range ''bytes=1000-'') = ''bytes='' @ nat_str 10 1000 @ ''-''"
    by (simp add: rd_range_def n)
  have s: "url ?c = Some ''a.txt''" "keep_alive ?c = 0 \<or> length demo_file < 8192"
    by (simp_all add: ctx_demo_def ctx_zero_def)
  have l: "length demo_file + 924 \<le> 1000" "1000 \<le> length demo_file + 1024" "length demo_file < 2 ^ 61"
    by (simp_all add: demo_file_def)
  show ?thesis
    by (rule range_behind_end_overflows [OF disk_demo kernel_one_file_ok s m r l])
qed

text \<open>The first byte alone cannot be asked for: an end of 0 reads as no end.\<close>

lemma first_byte_range_is_whole_file:
  "parse_range ''bytes=0-0'' n = (0, n - 1, True)"
proof -
  have "nat_str 10 0 = ''0''" by code_simp
  then show ?thesis using parse_range_both [of 0 0 n] by simp
qed

section \<open>The directory page\<close>

text \<open>The counting pass, and the writing pass into a buffer of exactly that length.\<close>

lemma html_print_count:
  "html_print None len ret ts = Inr (ret + length (concat ts), None)"
  by (induction ts arbitrary: ret) simp_all

lemma html_print_fill:
  assumes "length d = len" "ret + length (concat ts) = len" "int len < 2 ^ 31" "ts \<noteq> []" "\<forall>t \<in> set ts. t \<noteq> []"
  shows "html_print (Some d) (int len) ret ts
       = Inr (len, Some (take ret d @ butlast (concat ts) @ [NUL]))"
  using assms
proof (induction ts arbitrary: d ret)
  case Nil
  then show ?case by simp
next
  case (Cons t ts)
  have t: "t \<noteq> []" "0 < len" using Cons.prems by (auto simp: neq_Nil_conv)
  have sz: "nat ((int len - int ret) mod 2 ^ 64) = len - ret"
    using Cons.prems by (simp add: nat_mod_distrib flip: of_nat_diff)
  show ?case
  proof (cases "ts = []")
    case True
    have "take (length t - 1) t = butlast t" by (simp add: butlast_conv_take)
    moreover have lt: "len - ret = length t" "0 < length t" "ret < len" "Suc (length t - 1) = length t"
      using True Cons.prems t by (cases t; auto)+
    ultimately have "vsnprintf d (int ret) (len - ret) t = Inr (length t, take ret d @ butlast t @ [NUL])"
      using True Cons.prems t lt by (simp add: vsnprintf_def mem_wr_def)
    then show ?thesis using True Cons.prems t sz by simp
  next
    case False
    then obtain t2 ts2 where ts: "ts = t2 # ts2" "t2 \<noteq> []" using Cons.prems by (cases ts) auto
    then have room: "Suc (length t) \<le> len - ret" using Cons.prems by (cases t2) auto
    define d1 where "d1 = take ret d @ t @ NUL # drop (ret + length t + 1) d"
    have v: "vsnprintf d (int ret) (len - ret) t = Inr (length t, d1)"
      using room Cons.prems by (auto simp: vsnprintf_def mem_wr_def d1_def)
    have d1: "length d1 = len" "take (ret + length t) d1 = take ret d @ t"
      using room Cons.prems(1) by (simp_all add: d1_def)
    have "html_print (Some d) (int len) ret (t # ts) = html_print (Some d1) (int len) (ret + length t) ts"
      using t sz v by simp
    also have "\<dots> = Inr (len, Some (take (ret + length t) d1 @ butlast (concat ts) @ [NUL]))"
      using Cons.prems False d1 by (intro Cons.IH) simp_all
    also have "take (ret + length t) d1 @ butlast (concat ts) @ [NUL] = take ret d @ butlast (t @ concat ts) @ [NUL]"
      using d1 ts by (simp add: butlast_append)
    finally show ?thesis by simp
  qed
qed

definition dir_pieces :: "kernel \<Rightarrow> sysev list \<Rightarrow> string \<Rightarrow> string \<Rightarrow> string list \<Rightarrow> string list" where
  "dir_pieces k l path uri ns = dir_head uri # dir_rows k l path uri (k_stack_stat k) ns @ [dir_tail]"

lemma dir_pieces_not_Nil: "\<forall>t \<in> set (dir_pieces k l path uri ns). t \<noteq> []"
proof -
  have "\<forall>t \<in> set (dir_rows k l path uri st ns). t \<noteq> []" for st
    by (induction ns arbitrary: st) (simp_all add: Let_def dir_row_def)
  then show ?thesis by (simp add: dir_pieces_def dir_head_def dir_tail_def)
qed

text \<open>The page of a directory: the announced \<open>Content-Length\<close> is the length of the page over all
  its entries, and exactly that many bytes follow the head, none for \<open>HEAD\<close>; but the last
  byte of the page is replaced by the terminator, because the second pass has no room for it.\<close>

theorem dir_page_sent:
  assumes u: "url c = Some u" "k_stat k (log s) u = Some st" "st_isdir st" "k_readdir k (log s) u = Some ns"
    and k: "junk_ok k" "\<forall>l n. k_malloc k l n"
    and page: "page = concat (dir_pieces k (log s) u (take 4095 (''/'' @ u @ ''/'')) ns)" "int (length page) < 2 ^ 31"
  shows "\<exists>c'. dir_list_local k c s = Inr (1, c') \<and> http_error c' = 200
    \<and> answer_bytes c' s = Inr (dir_answer_head (int (length page)) @
          (if only_header c = 0 then butlast page @ [NUL] else []))"
proof -
  let ?uri = "take 4095 (''/'' @ u @ ''/'')" and ?h = "dir_answer_head (int (length page))"
  let ?ts = "dir_pieces k (log s) u ?uri ns"
  have cnt: "dir2html k (log s) u ?uri None 0 = Inr (length page, None)"
    unfolding dir2html_def using u(4) html_print_count [of 0 0 ?ts] page(1) by (simp add: dir_pieces_def)
  define j where "j = k_junk k (length ?h + length page)"
  have j: "length j = length ?h + length page" using k(1) by (simp add: j_def junk_ok_def)
  then have wr: "mem_wr j 0 ?h = Inr (?h @ drop (length ?h) j)" by simp
  have "html_print (Some (drop (length ?h) j)) (int (length page)) 0 ?ts
      = Inr (length page, Some (take 0 (drop (length ?h) j) @ butlast (concat ?ts) @ [NUL]))"
    by (rule html_print_fill) (use j page dir_pieces_not_Nil in \<open>auto simp: dir_pieces_def\<close>)
  then have fill: "dir2html k (log s) u ?uri (Some (drop (length ?h) j)) (int (length page))
      = Inr (length page, Some (butlast page @ [NUL]))"
    unfolding dir2html_def using u(4) page(1) by (simp add: dir_pieces_def)
  have pl: "page \<noteq> []" unfolding page(1) dir_pieces_def by (simp add: dir_head_def)
  have "dir_list_local k c s =
      Inr (1, c\<lparr>pb_buffer := Some (?h @ butlast page @ [NUL]), buffer_ptr := (RPb, 0),
                buffer_end := (RPb, int (length ?h) + (if only_header c \<noteq> 0 then 0 else int (length page))),
                http_error := 200, local_fd := -1\<rparr>)"
    unfolding dir_list_local_def u option.case Let_def
    by (simp only: u(3) if_True option.case split_conv cnt then_do_simps k(2) not_True_eq_False if_False
        j_def [symmetric] wr append_eq_conv_conj [THEN iffD1, OF refl] drop_append diff_self_eq_0 drop_0
        drop_all order_refl append_Nil fill) simp
  then show ?thesis using pl
    by (auto simp: answer_bytes_def rd_ptr_def region_mem_def mem_rd_def Let_def nat_add_distrib neq_Nil_conv)
qed

definition kernel_one_dir :: kernel where
  "kernel_one_dir = kernel_one_file
     \<lparr>k_stat := (\<lambda>_ p. if p = ''pub'' then Some \<lparr>st_size = 0, st_mtime = 0, st_isdir = True\<rparr>
                       else if p = ''pub/a.txt'' then Some \<lparr>st_size = 12, st_mtime = 0, st_isdir = False\<rparr> else None),
      k_readdir := (\<lambda>_ p. if p = ''pub'' then Some [''.'', ''a.txt''] else None)\<rparr>"

definition demo_page :: string where
  "demo_page = concat (dir_pieces kernel_one_dir [] ''pub'' ''/pub/'' [''.'', ''a.txt''])"

theorem dir_page_witness:
  "\<exists>c'. dir_list_local kernel_one_dir ((ctx_demo [])\<lparr>url := Some ''pub''\<rparr>) server_start = Inr (1, c')
    \<and> answer_bytes c' server_start = Inr (dir_answer_head (int (length demo_page)) @ butlast demo_page @ [NUL])"
proof -
  let ?c = "(ctx_demo [])\<lparr>url := Some ''pub''\<rparr>"
  have l: "log server_start = []" by (simp add: server_start_def)
  have u: "url ?c = Some ''pub''"
    "k_stat kernel_one_dir (log server_start) ''pub'' = Some \<lparr>st_size = 0, st_mtime = 0, st_isdir = True\<rparr>"
    "st_isdir \<lparr>st_size = 0, st_mtime = 0, st_isdir = True\<rparr>"
    "k_readdir kernel_one_dir (log server_start) ''pub'' = Some [''.'', ''a.txt'']"
    by (simp_all add: kernel_one_dir_def)
  have k: "junk_ok kernel_one_dir" "\<forall>l n. k_malloc kernel_one_dir l n"
    by (simp_all add: junk_ok_def kernel_one_dir_def kernel_one_file_def kernel_empty_disk_def)
  have uri: "take 4095 (''/'' @ ''pub'' @ ''/'') = ''/pub/''" by simp
  have rows: "dir_rows kernel_one_dir [] ''pub'' ''/pub/'' st [''.'', ''a.txt'']
      = [dir_row kernel_one_dir ''/pub/'' ''a.txt'' \<lparr>st_size = 12, st_mtime = 0, st_isdir = False\<rparr>]" for st
    by (simp add: kernel_one_dir_def Let_def)
  have "length (int_str 12) \<le> 20" by (rule int_str_length) simp
  then have len: "int (length demo_page) < 2 ^ 31"
    by (simp add: demo_page_def dir_pieces_def rows dir_head_def dir_tail_def dir_row_def dir_size_text_def
        kernel_one_dir_def kernel_one_file_def kernel_empty_disk_def)
  have pg: "demo_page = concat (dir_pieces kernel_one_dir (log server_start) ''pub'' (take 4095 (''/'' @ ''pub'' @ ''/''))
      [''.'', ''a.txt''])"
    unfolding demo_page_def l uri ..
  have "only_header ?c = 0" by (simp add: ctx_demo_def ctx_zero_def)
  then show ?thesis using dir_page_sent [OF u k pg len] by (simp only: simp_thms if_True) blast
qed

end
