(* ===== verification/Request.thy ===== *)
theory Request
  imports Files
begin

text \<open>
  The request: \<open>handle_line\<close>, \<open>read_request_content\<close>, \<open>find_feed\<close> and \<open>http_parse_request\<close> of
  \<open>src/ffserver.c\<close>, and what an accepted request may have done.
\<close>

section \<open>One header line\<close>

text \<open>
  The target of the request line, as the block \<open>uri\<close>: the word, decoded and converted in place, then
  without a leading and a trailing slash.  \<open>None\<close> is \<open>return -1\<close>.
\<close>

definition strip_slashes :: "string \<Rightarrow> string" where
  "strip_slashes u =
     (case u of
        [] \<Rightarrow> []
      | x # v \<Rightarrow> if x = CHR ''/'' then (if v \<noteq> [] \<and> last v = CHR ''/'' then butlast v else v) else u)"

definition parse_uri :: "kernel \<Rightarrow> sysev list \<Rightarrow> string \<Rightarrow> (string \<times> string) option result" where
  "parse_uri k l p =
     (let len0 = get_word_null p + 16 in
      if len0 > 8192 \<or> \<not> k_malloc k l len0 then Inr None
      else
        let (w, p1) = get_word len0 p in
        then_do (mem_wr (k_junk k (nat len0)) 0 (w @ [NUL])) (\<lambda>b0.
        then_do (url_decode b0) (\<lambda>(_, b1).
        then_do (url_local (k_iconv k) (k_junk k) b1 len0) (\<lambda>(_, b2).
        then_do (cstr b2) (\<lambda>u.
          let v = strip_slashes u in
          Inr (Some (if v = [] then ''index.html'' else v, p1)))))))"

definition request_line ::
  "kernel \<Rightarrow> sysev list \<Rightarrow> string \<Rightarrow> string \<Rightarrow> HTTPContext \<Rightarrow> (int \<times> HTTPContext) result" where
  "request_line k l tmp p c =
     (let c1 = (if tmp = ''GET'' then c\<lparr>post := 0\<rparr>
                else if tmp = ''POST'' then c\<lparr>post := 1\<rparr>
                else if tmp = ''PUT'' then c\<lparr>post := 2\<rparr>
                else if tmp = ''DELETE'' then c\<lparr>post := 3\<rparr>
                else c\<lparr>post := 0, only_header := 1\<rparr>) in
      then_do (parse_uri k l p) (\<lambda>r.
        case r of
          None \<Rightarrow> Inr (-1, c1)
        | Some (u, p1) \<Rightarrow>
            let c2 = c1\<lparr>url := Some u\<rparr>; (v, _) = get_word 32 p1 in
            if v = ''HTTP/1.0'' then
              Inr (0, c2\<lparr>http_version := 0, url := Some (takeWhile (\<lambda>ch. ch \<noteq> CHR ''?'') u)\<rparr>)
            else if v = ''HTTP/1.1'' then
              Inr (0, c2\<lparr>http_version := 1, url := Some (takeWhile (\<lambda>ch. ch \<noteq> CHR ''?'') u)\<rparr>)
            else Inr (-1, c2)))"

text \<open>
  The date of \<open>If-Modified-Since\<close>, printed word by word into the 32 bytes of \<open>c->ims\<close> without a bound;
  with no word at all the code reads the byte before the array.
\<close>

function ims_loop :: "string \<Rightarrow> string \<Rightarrow> string result" where
  "ims_loop acc p =
     (let (w, p1) = get_word 64 p in
      if w = [] then (if acc = [] then Inl OutOfBounds else Inr (if last acc = CHR '' '' then butlast acc else acc))
      else if 32 < length acc + length w + 2 then Inl OutOfBounds
      else ims_loop (acc @ w @ '' '') p1)"
  by pat_completeness auto

lemma skip_spaces_le: "length (skip_spaces p) \<le> length p"
  by (induction p) auto

termination ims_loop
proof (relation "measure (\<lambda>(acc, p). length p)")
  fix acc p :: string and x w p1
  assume x: "x = get_word 64 p" "(w, p1) = x" "w \<noteq> []"
  then have w: "w = take 63 (word_of p)" "p1 = dropWhile (\<lambda>c. \<not> av_isspace (ord c)) (skip_spaces p)"
    by (simp_all add: get_word_eq)
  with x(3) have "word_of p \<noteq> []" by auto
  moreover have "length (word_of p) + length p1 = length (skip_spaces p)"
    unfolding w by (metis length_append takeWhile_dropWhile_id)
  ultimately have "length p1 < length (skip_spaces p)" by (cases "word_of p") auto
  with skip_spaces_le [of p] show "((acc @ w @ '' '', p1), acc, p) \<in> measure (\<lambda>(acc, p). length p)" by simp
qed simp

declare ims_loop.simps [simp del]

definition handle_line ::
  "kernel \<Rightarrow> sysev list \<Rightarrow> HTTPContext \<Rightarrow> string \<Rightarrow> RequestData \<Rightarrow> (int \<times> HTTPContext \<times> RequestData) result"
where
  "handle_line k l c line rd =
     (let (tmp, p) = get_word 32 line; is = (\<lambda>h. av_strcasecmp tmp h = 0) in
      if tmp = ''GET'' \<or> tmp = ''POST'' \<or> tmp = ''PUT'' \<or> tmp = ''DELETE'' \<or> tmp = ''HEAD'' then
        then_do (request_line k l tmp p c) (\<lambda>(ret, c1). Inr (ret, c1, rd))
      else if tmp = ''Host:'' then Inr (0, c, rd\<lparr>domain := fst (get_word 64 p)\<rparr>)
      else if tmp = ''Cookie:'' then Inr (0, c, rd\<lparr>cookie := fst (get_word 512 p)\<rparr>)
      else if tmp = ''Connection:'' then
        Inr (0, if av_strcasecmp (fst (get_word 64 p)) ''keep-alive'' = 0 then c\<lparr>keep_alive := 1\<rparr> else c, rd)
      else if is ''Content-Length:'' then
        Inr (0, c\<lparr>content_length := strtoll 10 (fst (get_word 64 p))\<rparr>, rd)
      else if is ''Range:'' then Inr (0, c, rd\<lparr>range := fst (get_word 32 p)\<rparr>)
      else if is ''Expect:'' then Inr (0, c, rd\<lparr>expect := fst (get_word 32 p)\<rparr>)
      else if is ''If-None-Match:'' then Inr (0, c\<lparr>inm := fst (get_word 32 p)\<rparr>, rd)
      else if is ''If-Modified-Since:'' then
        then_do (ims_loop [] p) (\<lambda>v. Inr (0, c\<lparr>ims := v\<rparr>, rd))
      else if is ''Transfer-Encoding:'' then
        Inr (0, if av_strcasecmp (fst (get_word 64 p)) ''chunked'' = 0 then c\<lparr>tr_encoding := 1\<rparr> else c, rd)
      else if is ''X-TOKEN:'' then Inr (0, c\<lparr>xToken := take 63 (fst (get_word 64 p))\<rparr>, rd)
      else Inr (0, c, rd))"

section \<open>The lines of a request\<close>

text \<open>
  \<open>msg\<close> is the line buffer: \<open>get_line\<close> leaves in it the line and a terminator, or, when there is no
  further line end, what it had copied so far without one.
\<close>

definition line_into :: "char list \<Rightarrow> char list \<Rightarrow> string option \<Rightarrow> char list" where
  "line_into msg p lo =
     (case lo of
        Some q \<Rightarrow> q @ NUL # drop (length q + 1) msg
      | None \<Rightarrow> let q = takeWhile line_char p in q @ drop (length q) msg)"

partial_function (option) parse_lines ::
  "kernel \<Rightarrow> sysev list \<Rightarrow> char list \<Rightarrow> HTTPContext \<Rightarrow> RequestData \<Rightarrow> char list
   \<Rightarrow> (int \<times> HTTPContext \<times> RequestData \<times> char list) result option" where
  "parse_lines k l p c rd msg =
     (case get_line 1024 p of
        None \<Rightarrow> None
      | Some (Inl e) \<Rightarrow> Some (Inl e)
      | Some (Inr (n, lo, p1)) \<Rightarrow>
          let msg1 = line_into msg p lo in
          if n \<le> 0 then Some (Inr (0, c, rd, msg1))
          else (case handle_line k l c (case lo of Some q \<Rightarrow> q | None \<Rightarrow> []) rd of
                  Inl e \<Rightarrow> Some (Inl e)
                | Inr (ret, c1, rq1) \<Rightarrow>
                    if ret < 0 then Some (Inr (ret, c1, rq1, msg1))
                    else parse_lines k l p1 c1 rq1 msg1))"

section \<open>The branches of a request\<close>

definition read_request_content ::
  "HTTPContext \<Rightarrow> char list \<Rightarrow> int \<Rightarrow> 'a world_scheme \<Rightarrow> (int \<times> char list \<times> HTTPContext \<times> 'a world_scheme) result"
where
  "read_request_content c buf bufsize w =
     (let rsize = to_int32 (min (bufsize - 2) (content_length c));
          (r, c1, w1) = conn_recv rsize c w in
      case r of
        Failed _ \<Rightarrow> Inr (0, buf, c1, w1)
      | Got bs \<Rightarrow> then_do (mem_wr buf 0 bs) (\<lambda>b. Inr (int (length bs), b, c1, w1)))"

fun find_feed_loop :: "nat list \<Rightarrow> string \<Rightarrow> server \<Rightarrow> nat option result" where
  "find_feed_loop [] name s = Inr None"
| "find_feed_loop (j # js) name s =
     then_do (get_conn j s) (\<lambda>ctx.
     then_do (if post ctx \<noteq> 0 then c_strcmp_eq (url ctx) (Some name) else Inr False) (\<lambda>found.
       if found then Inr (Some j) else find_feed_loop js name s))"

definition find_feed :: "string \<Rightarrow> server \<Rightarrow> nat option result" where
  "find_feed name s = find_feed_loop (first_http_ctx s) name s"

definition request_delete :: "kernel \<Rightarrow> HTTPContext \<Rightarrow> string \<Rightarrow> server \<Rightarrow> (int \<times> HTTPContext \<times> server) result" where
  "request_delete k c u s =
     then_do (if strncmp u ''upload/'' 7 \<noteq> 0 \<or> checkToken c s \<noteq> 0 then Inr (403, s)
              else dir_delete_file k c s) (\<lambda>(code, s1).
     then_do (prepare_response (c\<lparr>http_error := code\<rparr>) code []) (\<lambda>(ret, c1). Inr (ret, c1, s1)))"

definition request_upload ::
  "kernel \<Rightarrow> HTTPContext \<Rightarrow> string \<Rightarrow> RequestData \<Rightarrow> server \<Rightarrow> (int \<times> HTTPContext \<times> server) result" where
  "request_upload k c u rd s =
     (let (e0, r0) = (if av_strcasecmp (expect rd) ''100-continue'' = 0 then (100, ''continue'') else (0, []));
          (e, r, f, s1) =
            (if content_length c > DIR_UPLOAD_MAX_SIZE then (417, ''upload too large file'', local_fd c, s)
             else if checkToken c s \<noteq> 0 then (417, ''bad token'', local_fd c, s)
             else
               let (n, s2) = sys_open k (take 1023 (''./upload/'' @ drop 7 u)) True s in
               if n < 0 then (417, take 1023 (''bad file path error '' @ int_str (k_neterr k (neterrno s2))), n, s2)
               else (e0, r0, n, s2));
          c1 = c\<lparr>http_error := e, local_fd := f\<rparr> in
      if e \<noteq> 0 then then_do (prepare_response c1 e r) (\<lambda>(_, c2). Inr (0, c2, s1))
      else Inr (0, c1\<lparr>state := HTTPSTATE_RECEIVE_DATA\<rparr>, s1))"

definition sign_cmd :: "string \<Rightarrow> string" where
  "sign_cmd path = take 510 (''../sign_apk.sh '' @ path)"

definition request_sign ::
  "kernel \<Rightarrow> HTTPContext \<Rightarrow> RequestData \<Rightarrow> server \<Rightarrow> (int \<times> HTTPContext \<times> server) result" where
  "request_sign k c rd s =
     then_do (read_request_content c (content rd) 512 s) (\<lambda>(n, buf, c1, s1).
       let c2 = c1\<lparr>content_length := n\<rparr>;
           answer = (\<lambda>code reason s. then_do (prepare_response (c2\<lparr>http_error := code\<rparr>) code reason)
                                       (\<lambda>(ret, c3). Inr (ret, c3, s))) in
       if n \<le> 0 then answer 403 ''no content'' s1
       else if checkToken c2 s1 \<noteq> 0 then answer 403 ''bad token'' s1
       else
         then_do (mem_wr buf n [NUL]) (\<lambda>buf1.
         then_do (cstr buf1) (\<lambda>path.
           case k_stat k (log s1) path of
             None \<Rightarrow> answer 404 [] s1
           | Some _ \<Rightarrow> answer 200 [] (sys_note (SysSystem (sign_cmd path)) s1))))"

text \<open>How the rest of the function leaves: a plain return, or one of its two labels.\<close>

datatype parse_out =
    Return int HTTPContext server
  | SendHeader HTTPContext server
  | SendError "char list" HTTPContext server

definition is_segment :: "string \<Rightarrow> bool" where
  "is_segment u \<longleftrightarrow> strncmp u ''stream/'' 7 \<noteq> 0 \<and> (av_match_ext (Some u) ''m3u8'' \<or> av_match_ext (Some u) ''ts'')"

definition request_hls ::
  "kernel \<Rightarrow> HTTPContext \<Rightarrow> string \<Rightarrow> bool \<Rightarrow> char list \<Rightarrow> server \<Rightarrow> parse_out result" where
  "request_hls k c u is_first msg s =
     then_do (hls_parse_request k (c\<lparr>keep_alive := 0\<rparr>) u is_first s) (\<lambda>(ret, c1, s1).
       let chid = to_int32 (strtoll 10 u);
           go = Inr (if state c1 = HTTPSTATE_SEND_HEADER then SendHeader c1 s1 else Return 0 c1 s1) in
       if ret < 0 then Inr (SendError msg c1 s1)
       else if ret = 1 \<and> \<not> (0 \<le> chid \<and> chid \<le> 10000) then
         then_do (c_sprintf msg 0 (''bad request: '' @ u @ ''-->'' @ int_str chid)) (\<lambda>(_, msg1).
           Inr (SendError msg1 c1 s1))
       else go)"

definition request_feed ::
  "kernel \<Rightarrow> nat \<Rightarrow> HTTPContext \<Rightarrow> string \<Rightarrow> RequestData \<Rightarrow> char list \<Rightarrow> server \<Rightarrow> parse_out result" where
  "request_feed k i c u rd msg s =
     (if post c \<noteq> 0 then
        then_do (find_feed u (put_conn i c s)) (\<lambda>ctx.
          case ctx of
            Some j \<Rightarrow>
              if j \<noteq> i then
                then_do (c_sprintf msg 0 (''file '' @ u @ '' has been feeded'')) (\<lambda>(_, msg1). Inr (SendError msg1 c s))
              else Inr (Return 0 (c\<lparr>http_error := 0, state := HTTPSTATE_RECEIVE_DATA\<rparr>) s)
          | None \<Rightarrow> Inr (Return 0 (c\<lparr>http_error := 0, state := HTTPSTATE_RECEIVE_DATA\<rparr>) s))
      else
        then_do (prepare_local_file k c rd s) (\<lambda>(ret, c1, s1).
          if ret > 0 then Inr (Return 0 (c1\<lparr>state := HTTPSTATE_SEND_HEADER\<rparr>) s1)
          else if strncmp u ''stream/'' 7 \<noteq> 0 then
            then_do (c_sprintf msg 0 ''404 Not Found'') (\<lambda>(_, msg1). Inr (SendError msg1 c1 s1))
          else
            then_do (find_feed u (put_conn i c1 s1)) (\<lambda>ctx.
              case ctx of
                None \<Rightarrow>
                  then_do (c_sprintf msg 0 (''wait to get '' @ u)) (\<lambda>_.
                    Inr (SendHeader (c1\<lparr>keep_alive := 0, feed_ctx := None\<rparr>) s1))
              | Some j \<Rightarrow>
                  then_do (get_conn j s1) (\<lambda>w.
                    Inr (SendHeader (c1\<lparr>feed_ctx := Some j\<rparr>)
                           (put_conn j (w\<lparr>sff_ref_cnt := sff_ref_cnt w + 1\<rparr>) s1))))))"

section \<open>The two labels\<close>

definition first_tag :: string where "first_tag = ''First-Request=0''"

fun cat_lines :: "char list \<Rightarrow> nat \<Rightarrow> string list \<Rightarrow> char list result" where
  "cat_lines b n [] = Inr b"
| "cat_lines b n (t # ts) = then_do (av_strlcatf b n t) (\<lambda>(_, b1). cat_lines b1 n ts)"

definition header_lines :: "HTTPContext \<Rightarrow> RequestData \<Rightarrow> string list" where
  "header_lines c rd =
     [''HTTP/1.1 200 OK'' @ crlf, ''Pragma: no-cache'' @ crlf,
      ''Content-Type: '' @ get_mine_type (url c) @ crlf,
      ''Connection: '' @ alive_word c @ crlf,
      ''Set-Cookie: '' @ first_tag @ ''; Path=/; Domain='' @ domain rd @ crlf, crlf]"

definition send_header :: "HTTPContext \<Rightarrow> RequestData \<Rightarrow> HTTPContext result" where
  "send_header c rd =
     then_do (mem_wr (buffer c) (buffer_off c) [NUL]) (\<lambda>b0.
     then_do (cat_lines (drop (nat (buffer_off c)) b0) (nat (buffer_size c)) (header_lines c rd)) (\<lambda>b1.
     then_do (cstr b1) (\<lambda>txt.
       Inr (c\<lparr>buffer := take (nat (buffer_off c)) b0 @ b1, http_error := 0, buffer_ptr := (RBuf, buffer_off c),
              buffer_end := (RBuf, buffer_off c + int (length txt)), state := HTTPSTATE_SEND_HEADER\<rparr>))))"

definition error_page :: "string \<Rightarrow> string" where
  "error_page m =
     ''HTTP/1.1 404 Not Found'' @ crlf @ ''Content-type: text/html'' @ crlf @ crlf @
     ''<html>'' @ [CHR 0x0A] @ ''<head><title>404 Not Found</title></head>'' @ [CHR 0x0A] @
     ''<body>'' @ m @ ''</body>'' @ [CHR 0x0A] @ ''</html>'' @ [CHR 0x0A]"

definition send_error :: "char list \<Rightarrow> HTTPContext \<Rightarrow> HTTPContext result" where
  "send_error msg c =
     then_do (cstr msg) (\<lambda>m.
     then_do (vsnprintf (buffer c) (buffer_off c) (nat (buffer_size c)) (error_page (htmlstrip m))) (\<lambda>(len, b).
       Inr (c\<lparr>keep_alive := 0, http_error := 404, buffer := b, buffer_ptr := (RBuf, buffer_off c),
              buffer_end := (RBuf, buffer_off c + int (min len (nat (buffer_size c) - 1))),
              state := HTTPSTATE_SEND_HEADER\<rparr>)))"

section \<open>The whole function\<close>

definition request_rest ::
  "kernel \<Rightarrow> nat \<Rightarrow> HTTPContext \<Rightarrow> string \<Rightarrow> RequestData \<Rightarrow> bool \<Rightarrow> char list \<Rightarrow> server \<Rightarrow> parse_out result" where
  "request_rest k i c u rd is_first msg s =
     then_do
       (if post c \<noteq> 0 \<and> content_length c \<noteq> 0 \<and> strncmp u ''stream/'' 7 \<noteq> 0 \<and> \<not> av_match_ext (Some u) ''m3u8''
           \<and> \<not> av_match_ext (Some u) ''ts'' \<and> \<not> av_match_ext (Some u) ''flv'' then
          then_do (read_request_content (c\<lparr>post := 0\<rparr>) (content rd) 512 s) (\<lambda>(n, buf, c1, s1).
            Inr (c1\<lparr>content_length := n\<rparr>, rd\<lparr>content := buf\<rparr>, s1))
        else Inr (c, rd, s)) (\<lambda>(c1, rq1, s1).
       if is_segment u then request_hls k c1 u is_first msg s1
       else request_feed k i c1 u rq1 msg s1)"

definition finish_request :: "nat \<Rightarrow> RequestData \<Rightarrow> parse_out \<Rightarrow> (int \<times> server) result" where
  "finish_request i rd out =
     (case out of
        Return ret c s \<Rightarrow> Inr (ret, put_conn i c s)
      | SendHeader c s \<Rightarrow> then_do (send_header c rd) (\<lambda>c1. Inr (0, put_conn i c1 s))
      | SendError msg c s \<Rightarrow> then_do (send_error msg c) (\<lambda>c1. Inr (0, put_conn i c1 s)))"

definition dispatch_request ::
  "kernel \<Rightarrow> nat \<Rightarrow> HTTPContext \<Rightarrow> string \<Rightarrow> RequestData \<Rightarrow> char list \<Rightarrow> server \<Rightarrow> (int \<times> server) result" where
  "dispatch_request k i c u rd msg s =
     (let is_first = (av_stristr (cookie rd) first_tag = None);
          leave = (\<lambda>(ret, c1, s1). Inr (ret, put_conn i c1 s1)) in
      then_do (if post c = 0 then dir_list_local k c s else Inr (0, c)) (\<lambda>(ret, c0).
        if post c = 0 \<and> 0 < ret then Inr (0, put_conn i (c0\<lparr>state := HTTPSTATE_SEND_HEADER\<rparr>) s)
        else if post c0 = 3 then then_do (request_delete k c0 u s) leave
        else if post c0 = 2 \<and> strncmp u ''upload/'' 7 = 0 then then_do (request_upload k c0 u rd s) leave
        else if post c0 = 1 \<and> strncmp u ''sign_apk'' 8 = 0 then then_do (request_sign k c0 rd s) leave
        else then_do (request_rest k i c0 u rd is_first msg s) (finish_request i rd)))"

definition rd_zero :: RequestData where
  "rd_zero = \<lparr>domain = [], cookie = [], content = replicate 512 NUL, range = [], expect = []\<rparr>"

definition http_parse_request :: "kernel \<Rightarrow> nat \<Rightarrow> server \<Rightarrow> (int \<times> server) result option" where
  "http_parse_request k i s =
     (case get_conn i s of
        Inl e \<Rightarrow> Some (Inl e)
      | Inr c \<Rightarrow>
          (case parse_lines k (log s) (drop (nat (buffer_off c)) (buffer c)) c rd_zero (k_junk k 1024) of
             None \<Rightarrow> None
           | Some (Inl e) \<Rightarrow> Some (Inl e)
           | Some (Inr (ret, c1, rd, msg)) \<Rightarrow>
               Some (if ret < 0 then Inr (ret, put_conn i c1 s)
                     else (case url c1 of
                             None \<Rightarrow> Inr (-1, put_conn i c1 s)
                           | Some u \<Rightarrow> dispatch_request k i c1 u rd msg s))))"

section \<open>Reading a request line by line\<close>

text \<open>The request as a list of lines, and the fold of \<open>handle_line\<close> over them.\<close>

definition request_text :: "string list \<Rightarrow> string" where
  "request_text ls = concat (map (\<lambda>q. q @ crlf) ls) @ crlf"

fun fold_lines ::
  "kernel \<Rightarrow> sysev list \<Rightarrow> string list \<Rightarrow> HTTPContext \<Rightarrow> RequestData \<Rightarrow> char list
   \<Rightarrow> (int \<times> HTTPContext \<times> RequestData \<times> char list) result" where
  "fold_lines k l [] c rq m = Inr (0, c, rq, NUL # drop 1 m)"
| "fold_lines k l (q # qs) c rq m =
     then_do (handle_line k l c q rq) (\<lambda>(ret, c1, rq1).
       let m1 = q @ NUL # drop (length q + 1) m in
       if ret < 0 then Inr (ret, c1, rq1, m1) else fold_lines k l qs c1 rq1 m1)"

definition good_line :: "string \<Rightarrow> bool" where
  "good_line q \<longleftrightarrow> q \<noteq> [] \<and> (\<forall>ch \<in> set q. line_char ch) \<and> length q < 1024"

declare parse_lines.simps [simp del]

lemma parse_lines_stop:
  "parse_lines k l (crlf @ rest) c rq msg = Some (Inr (0, c, rq, NUL # drop 1 msg))"
  using get_line_crlf [of "[]" 1024 rest]
  by (subst parse_lines.simps) (simp add: line_into_def)

lemma parse_lines_step:
  assumes "good_line q"
  shows "parse_lines k l (q @ crlf @ rest) c rq msg =
    (case handle_line k l c q rq of
       Inl e \<Rightarrow> Some (Inl e)
     | Inr (ret, c1, rq1) \<Rightarrow>
         if ret < 0 then Some (Inr (ret, c1, rq1, q @ NUL # drop (length q + 1) msg))
         else parse_lines k l rest c1 rq1 (q @ NUL # drop (length q + 1) msg))"
proof -
  have g: "get_line 1024 (q @ crlf @ rest) = Some (Inr (int (length q), Some q, rest))"
    by (rule get_line_crlf) (use assms in \<open>auto simp: good_line_def\<close>)
  have "\<not> int (length q) \<le> 0" using assms by (simp add: good_line_def)
  moreover have "line_into msg (q @ crlf @ rest) (Some q) = q @ NUL # drop (length q + 1) msg"
    by (simp add: line_into_def)
  ultimately show ?thesis
    unfolding parse_lines.simps [of k l "q @ crlf @ rest"] g
    by (cases "handle_line k l c q rq") (auto simp: Let_def)
qed

text \<open>Reading a request whose lines are not empty, end in carriage return and line feed and fit the line
  buffer: the loop returns, calls \<open>handle_line\<close> once per line in order until one refuses, and
  neither it nor its result depends on the bytes of the connection's buffer behind the empty line
  (\<open>rest\<close>), which are not initialised.\<close>

theorem parse_lines_is_fold:
  assumes "\<forall>q \<in> set ls. good_line q"
  shows "parse_lines k l (request_text ls @ rest) c rq msg = Some (fold_lines k l ls c rq msg)"
  using assms
proof (induction ls arbitrary: c rq msg)
  case Nil
  then show ?case using parse_lines_stop by (simp add: request_text_def)
next
  case (Cons q qs)
  have t: "request_text (q # qs) @ rest = q @ crlf @ request_text qs @ rest"
    by (simp add: request_text_def)
  have st: "parse_lines k l (q @ crlf @ request_text qs @ rest) c rq msg =
    (case handle_line k l c q rq of
       Inl e \<Rightarrow> Some (Inl e)
     | Inr (ret, c1, rq1) \<Rightarrow>
         if ret < 0 then Some (Inr (ret, c1, rq1, q @ NUL # drop (length q + 1) msg))
         else parse_lines k l (request_text qs @ rest) c1 rq1 (q @ NUL # drop (length q + 1) msg))"
    by (rule parse_lines_step) (use Cons.prems in simp)
  show ?case
    unfolding t st using Cons.IH Cons.prems
    by (cases "handle_line k l c q rq") (auto simp: Let_def)
qed

definition demo_lines :: "string list" where
  "demo_lines = [''GET /x HTTP/1.1'', ''Connection: keep-alive'', ''Range: bytes=1-2'']"

theorem parse_lines_is_fold_witness:
  "\<exists>c rq m. parse_lines kernel_empty_disk [] (request_text demo_lines @ ''garbage'') (ctx_demo []) rd_zero []
     = Some (Inr (0, c, rq, m)) \<and> url c = Some ''x'' \<and> keep_alive c = 1 \<and> http_version c = 1 \<and> range rq = ''bytes=1-2''"
proof -
  have g: "\<forall>q \<in> set demo_lines. good_line q"
    by (simp add: demo_lines_def good_line_def line_char_def)
  have "case fold_lines kernel_empty_disk [] demo_lines (ctx_demo []) rd_zero [] of
      Inl _ \<Rightarrow> False
    | Inr (ret, c, rq, m) \<Rightarrow> ret = 0 \<and> url c = Some ''x'' \<and> keep_alive c = 1 \<and> http_version c = 1 \<and> range rq = ''bytes=1-2''"
    by code_simp
  then show ?thesis
    using parse_lines_is_fold [OF g, of kernel_empty_disk "[]" "''garbage''" "ctx_demo []" rd_zero "[]"]
    by (auto split: sum.splits)
qed

section \<open>What a request may do to the disk\<close>

text \<open>Calls that change nothing outside the process: opening for reading, reading, seeking, closing.\<close>

fun harmless :: "sysev \<Rightarrow> bool" where
  "harmless (SysOpen p wr n) = (\<not> wr)"
| "harmless (SysRead f n) = True"
| "harmless (SysSeek f n) = True"
| "harmless (SysClose f) = True"
| "harmless _ = False"

definition quiet :: "server \<Rightarrow> server \<Rightarrow> bool" where
  "quiet s s' \<longleftrightarrow> sUploadToken s' = sUploadToken s \<and> (\<exists>es. log s' = log s @ es \<and> (\<forall>e \<in> set es. harmless e))"

named_theorems quiet_rules

lemma quiet_refl [quiet_rules, simp]: "quiet s s"
  by (auto simp: quiet_def)

lemma quiet_trans: "quiet s s1 \<Longrightarrow> quiet s1 s2 \<Longrightarrow> quiet s s2"
  by (auto simp: quiet_def)

lemma quiet_note [quiet_rules]: "harmless e \<Longrightarrow> quiet s s1 \<Longrightarrow> quiet s (sys_note e s1)"
  by (auto simp: quiet_def sys_note_def)

lemma quiet_put_conn [quiet_rules]: "quiet s s1 \<Longrightarrow> quiet s (put_conn j c s1)"
  by (simp add: quiet_def put_conn_def)

lemma quiet_put_hls [quiet_rules]: "quiet s s1 \<Longrightarrow> quiet s (put_hls j h s1)"
  by (simp add: quiet_def put_hls_def)

lemma quiet_hls_close [quiet_rules]: "quiet s s1 \<Longrightarrow> quiet s ((hls_close s1)\<lparr>s_hls_name := n\<rparr>)"
  by (simp add: quiet_def hls_close_def)

lemma quiet_open: "sys_open k p False s = (n, s1) \<Longrightarrow> quiet s s1"
  by (auto simp: sys_open_def quiet_def split: sum.splits)

lemma quiet_read: "sys_read k f n s = (r, s1) \<Longrightarrow> quiet s s1"
  by (auto simp: sys_read_def quiet_def Let_def split: io_result.splits)

lemma quiet_recv: "conn_recv n c s = (r, c1, s1) \<Longrightarrow> quiet s s1 \<and> xToken c1 = xToken c \<and> state c1 = state c"
  by (auto simp: conn_recv_def quiet_def Let_def split: prod.splits io_result.splits)

text \<open>A step that leaves token and disk alone.\<close>

abbreviation calm :: "HTTPContext \<Rightarrow> server \<Rightarrow> HTTPContext \<Rightarrow> server \<Rightarrow> bool" where
  "calm c s c' s' \<equiv> xToken c' = xToken c \<and> quiet s s'"

lemma answer_tail_xToken [simp]: "xToken (answer_tail n m c) = xToken c"
  by (simp add: answer_tail_def)

lemma calm_not_modified: "answer_not_modified k c dt f s = Inr (r, c', s') \<Longrightarrow> calm c s c' s'"
  by (auto simp: answer_not_modified_def Let_def quiet_note split: if_splits prod.splits)

lemma calm_chunked: "answer_chunked k c dt f s = Inr (r, c', s') \<Longrightarrow> calm c s c' s'"
  by (auto simp: answer_chunked_def Let_def quiet_note split: if_splits prod.splits)

lemma quiet_seek: "quiet (sys_note (SysSeek f n) s) s' \<Longrightarrow> quiet s s'"
  using quiet_trans [OF quiet_note [OF _ quiet_refl, of "SysSeek f n"]] by simp

lemma calm_whole:
  assumes "answer_whole k c rd st dt f s = Inr (r, c', s')"
  shows "calm c s c' s'"
proof -
  obtain a b part where pr: "parse_range (range rd) (st_size st) = (a, b, part)" by (metis prod_cases3)
  have q: "quiet s s1" if "sys_read k f n (sys_note (SysSeek f a) s) = (x, s1)" for n x s1
    using quiet_seek [OF quiet_read [OF that]] .
  show ?thesis
    using assms unfolding answer_whole_def pr
    by (auto simp: Let_def quiet_note dest!: q split: if_splits prod.splits io_result.splits)
qed

lemma calm_local:
  assumes "prepare_local_file k c rd s = Inr (r, c', s')"
  shows "calm c s c' s'"
proof (cases "url c")
  case None
  then show ?thesis using assms by (simp add: prepare_local_file_def)
next
  case (Some u)
  obtain n s1 where op: "sys_open k (''./'' @ u) False s = (n, s1)" by force
  obtain m lm et where m: "\<And>st. dir_is_modifed k c st = (m st, lm st, et st)"
    using that [of "\<lambda>st. fst (dir_is_modifed k c st)" "\<lambda>st. fst (snd (dir_is_modifed k c st))"
        "\<lambda>st. snd (snd (dir_is_modifed k c st))"] by simp
  have q: "quiet s s1" by (rule quiet_open [OF op])
  have t: "calm c s c' s'" if "calm c s1 c' s'" using that quiet_trans [OF q] by simp
  show ?thesis
    using assms q unfolding prepare_local_file_def Some op m option.case Let_def split_conv
    by (auto split: if_splits option.splits intro!: t dest: calm_not_modified calm_chunked calm_whole)
qed

text \<open>The three ways out of \<open>hls_parse_request\<close>.\<close>

lemma hls_parse_request_cases:
  assumes "hls_parse_request k c u f s = Inr (r, c', s')"
  obtains (refused) "r = -1" "c' = c" "s' = s"
  | (writer) idx h where "r = 0" "(c', s') = hls_open_writer k (c\<lparr>hls_idx := idx\<rparr>) idx h s"
  | (reader) idx n where "r = 0 \<or> r = 1"
      "c' = c\<lparr>hls_idx := idx, hls_rpos := 0, http_error := 0, state := HTTPSTATE_SEND_HEADER\<rparr>"
      "s' = s \<or> s' = (hls_close s)\<lparr>s_hls_name := n\<rparr>"
proof (cases "strrchr u CHR ''.''")
  case None
  then show ?thesis using assms refused by (simp add: hls_parse_request_def)
next
  case (Some ext)
  let ?n = "length u - length ext"
  note eq0 = assms [unfolded hls_parse_request_def Some option.case Let_def]
  show ?thesis
  proof (cases "?n > 31")
    case True
    then show ?thesis using assms refused Some by (simp add: hls_parse_request_def)
  next
    case False
    obtain idx where idx: "(if ext = ''.m3u8'' then Inr (int SEGS)
             else if ext = ''.ts'' then
               then_do (seg_digit u ext) (\<lambda>i. Inr (if 0 \<le> i \<and> i < int SEGS then i else -1))
             else Inr (-1)) = (Inr idx :: int result)"
      using eq0 False by (simp only: if_False then_do_eq_Inr) blast
    show ?thesis
    proof (cases "idx = -1")
      case True
      then show ?thesis using eq0 [unfolded idx then_do_simps] refused False by simp
    next
      case idx1: False
      obtain h where h: "get_hls idx s = Inr h"
        using eq0 [unfolded idx then_do_simps] False idx1 by (simp only: if_False then_do_eq_Inr) blast
      note eq = eq0 [unfolded idx then_do_simps h]
      show ?thesis
      proof (cases "post c \<noteq> 0")
        case True
        then have "(c', s') = hls_open_writer k (c\<lparr>hls_idx := idx\<rparr>) idx h s \<and> r = 0"
          using eq False idx1 by (auto split: prod.splits)
        then show ?thesis using writer by blast
      next
        case False
        then show ?thesis
          using eq \<open>\<not> ?n > 31\<close> idx1 reader [of idx "take ?n u"] by (auto split: if_splits)
      qed
    qed
  qed
qed

lemma calm_hls: "hls_parse_request k c u f s = Inr (r, c', s') \<Longrightarrow> calm c s c' s'"
  by (erule hls_parse_request_cases) (auto simp: hls_open_writer_def Let_def intro!: quiet_rules)

lemma calm_content:
  assumes "read_request_content c b n s = Inr (r, b', c', s')"
  shows "calm c s c' s' \<and> state c' = state c"
proof -
  obtain x c1 s1 where rv: "conn_recv (to_int32 (min (n - 2) (content_length c))) c s = (x, c1, s1)"
    by (metis prod_cases3)
  have "c' = c1 \<and> s' = s1"
    using assms unfolding read_request_content_def Let_def rv by (auto split: io_result.splits)
  with quiet_recv [OF rv] show ?thesis by simp
qed

lemma calm_dir_list:
  assumes "dir_list_local k c s = Inr (r, c')"
  shows "xToken c' = xToken c \<and> post c' = post c"
proof (cases "url c")
  case None
  then show ?thesis using assms by (simp add: dir_list_local_def)
next
  case (Some u)
  show ?thesis
  proof (cases "case k_stat k (log s) u of
                  None \<Rightarrow> if u = ''index.html'' then Some (''.'', ''/'') else None
                | Some x \<Rightarrow> if st_isdir x then Some (u, take 4095 (''/'' @ u @ ''/'')) else None")
    case None
    then show ?thesis using assms unfolding dir_list_local_def Some Let_def option.case by simp
  next
    case (Some p)
    obtain path uri where p: "p = (path, uri)" by force
    from assms show ?thesis
      unfolding dir_list_local_def \<open>url c = Some u\<close> Let_def option.case Some p split_conv
      by (cases "dir2html k (log s) path uri None 0")
        (auto simp: then_do_def split: if_split_asm sum.split_asm)
  qed
qed

lemma calm_response: "prepare_response c code r = Inr (n, c') \<Longrightarrow> xToken c' = xToken c \<and> state c' = HTTPSTATE_SEND_HEADER \<and> n = 0"
  by (auto simp: prepare_response_def)

lemma quiet_put_conn_iff [simp]: "quiet s (put_conn j c s1) = quiet s s1"
  by (simp add: quiet_def put_conn_def)

lemma conns_put_conn [simp]: "conns (put_conn i c s) i = Some c"
  by (simp add: put_conn_def)

lemma checkToken_calm: "calm c s c' s' \<Longrightarrow> checkToken c' s' = checkToken c s"
  by (simp add: checkToken_def quiet_def)

lemma refused_delete:
  "request_delete k c u s = Inr (n, c', s') \<Longrightarrow> checkToken c s \<noteq> 0 \<Longrightarrow> calm c s c' s'"
  by (auto simp: request_delete_def split: if_splits dest!: calm_response)

lemma refused_upload:
  assumes "request_upload k c u rq s = Inr (n, c', s')" "checkToken c s \<noteq> 0"
  shows "calm c s c' s'"
  using assms unfolding request_upload_def
  by (cases "content_length c > DIR_UPLOAD_MAX_SIZE"; cases "av_strcasecmp (expect rq) ''100-continue'' = 0")
     (auto simp: Let_def dest!: calm_response)

lemma refused_sign:
  assumes "request_sign k c rq s = Inr (n, c', s')" "checkToken c s \<noteq> 0"
  shows "calm c s c' s'"
proof -
  obtain m b c1 s1 where rc: "read_request_content c (content rq) 512 s = Inr (m, b, c1, s1)"
    using assms(1) unfolding request_sign_def by (auto simp: Let_def)
  have q: "calm c s c1 s1" using calm_content [OF rc] by simp
  then have "checkToken (c1\<lparr>content_length := m\<rparr>) s1 \<noteq> 0"
    using assms(2) by (simp add: checkToken_def quiet_def)
  then show ?thesis
    using assms(1) q unfolding request_sign_def rc
    by (auto simp: Let_def split: if_splits dest!: calm_response)
qed

text \<open>The context and the server a request ends in, before its labels.\<close>

fun out_calm :: "HTTPContext \<Rightarrow> server \<Rightarrow> parse_out \<Rightarrow> bool" where
  "out_calm c s (Return n c' s') = calm c s c' s'"
| "out_calm c s (SendHeader c' s') = calm c s c' s'"
| "out_calm c s (SendError m c' s') = calm c s c' s'"

lemma calm_request_hls: "request_hls k c u f m s = Inr out \<Longrightarrow> out_calm c s out"
  by (auto simp: request_hls_def Let_def split: if_splits dest!: calm_hls)

lemma calm_request_feed:
  assumes "request_feed k i c u rq m s = Inr out"
  shows "out_calm c s out"
proof (cases "post c \<noteq> 0")
  case True
  then show ?thesis using assms unfolding request_feed_def
    by (auto split: option.splits if_splits)
next
  case False
  then obtain n c1 s1 where l: "prepare_local_file k c rq s = Inr (n, c1, s1)"
    using assms unfolding request_feed_def by auto
  have "calm c s c1 s1" by (rule calm_local [OF l])
  then show ?thesis
    using assms False unfolding request_feed_def l
    by (auto split: option.splits if_splits intro: quiet_put_conn)
qed

lemma calm_request_rest:
  assumes "request_rest k i c u rq f m s = Inr out"
  shows "out_calm c s out"
proof -
  define cond where "cond \<longleftrightarrow> post c \<noteq> 0 \<and> content_length c \<noteq> 0 \<and> strncmp u ''stream/'' 7 \<noteq> 0
    \<and> \<not> av_match_ext (Some u) ''m3u8'' \<and> \<not> av_match_ext (Some u) ''ts'' \<and> \<not> av_match_ext (Some u) ''flv''"
  have step: "out_calm c s out"
    if "(if is_segment u then request_hls k c1 u f m s1 else request_feed k i c1 u rq1 m s1) = Inr out"
      "calm c s c1 s1" for c1 s1 rq1
  proof -
    have "out_calm c1 s1 out" using that(1) by (auto split: if_splits dest: calm_request_hls calm_request_feed)
    with that(2) show ?thesis by (cases out) (auto intro: quiet_trans)
  qed
  show ?thesis
  proof (cases cond)
    case False
    then show ?thesis
      using assms step [of c s rq] unfolding request_rest_def cond_def [symmetric] by simp
  next
    case True
    then obtain n b c1 s1 where rc: "read_request_content (c\<lparr>post := 0\<rparr>) (content rq) 512 s = Inr (n, b, c1, s1)"
      using assms unfolding request_rest_def cond_def [symmetric] by auto
    show ?thesis
      using assms step [of "c1\<lparr>content_length := n\<rparr>" s1 "rq\<lparr>content := b\<rparr>"] True calm_content [OF rc]
      unfolding request_rest_def cond_def [symmetric] by (simp add: rc)
  qed
qed

lemma calm_finish:
  assumes "finish_request i rq out = Inr (n, s')" "out_calm c s out"
  shows "quiet s s' \<and> (\<exists>c'. conns s' i = Some c' \<and> xToken c' = xToken c)"
  using assms
  by (cases out) (auto simp: finish_request_def send_header_def send_error_def put_conn_def quiet_def)

lemma refused_dispatch:
  assumes "dispatch_request k i c u rq m s = Inr (n, s')" "checkToken c s \<noteq> 0"
  shows "quiet s s' \<and> (\<exists>c'. conns s' i = Some c' \<and> xToken c' = xToken c)"
proof -
  obtain r c0 where d: "(if post c = 0 then dir_list_local k c s else Inr (0, c)) = Inr (r, c0)"
    using assms(1) unfolding dispatch_request_def by (auto simp: Let_def)
  then have c0: "xToken c0 = xToken c" by (auto split: if_splits dest: calm_dir_list)
  then have t: "checkToken c0 s \<noteq> 0" using assms(2) by (simp add: checkToken_def)
  show ?thesis
    using assms(1) unfolding dispatch_request_def Let_def d then_do_simps split_conv
    by (auto split: if_splits
        dest!: refused_delete [OF _ t] refused_upload [OF _ t] refused_sign [OF _ t] calm_request_rest
        dest: calm_finish simp: c0)
qed


definition demo_put :: "string list" where
  "demo_put = [''PUT /upload/a HTTP/1.1'', ''X-TOKEN: wrong'', ''Content-Length: 3'']"

definition demo_request :: "string list \<Rightarrow> HTTPContext" where
  "demo_request ls = (ctx_demo [])\<lparr>buffer := request_text ls @ replicate 300 CHR 0x55, buffer_size := 300\<rparr>"

definition demo_server :: "string list \<Rightarrow> server" where
  "demo_server ls = server_start\<lparr>sUploadToken := ''secret'', conns := [0 \<mapsto> demo_request ls], first_http_ctx := [0]\<rparr>"

lemma demo_parse:
  assumes "\<forall>q \<in> set ls. good_line q"
  shows "parse_lines k l (drop (nat (buffer_off (demo_request ls))) (buffer (demo_request ls))) c rq m
       = Some (fold_lines k l ls c rq m)"
proof -
  have "drop (nat (buffer_off (demo_request ls))) (buffer (demo_request ls)) = request_text ls @ replicate 300 CHR 0x55"
    by (simp add: demo_request_def ctx_demo_def ctx_zero_def)
  then show ?thesis using parse_lines_is_fold [OF assms] by simp
qed

lemma demo_conn: "conns (demo_server ls) 0 = Some (demo_request ls)"
  by (simp add: demo_server_def)


section \<open>Where a request leaves the connection\<close>

definition answered :: "HTTPContext \<Rightarrow> bool" where
  "answered c \<longleftrightarrow> state c = HTTPSTATE_SEND_HEADER \<or> state c = HTTPSTATE_RECEIVE_DATA"

fun out_answered :: "parse_out \<Rightarrow> bool" where
  "out_answered (Return n c s) = (n = 0 \<and> answered c)"
| "out_answered _ = True"

lemma hls_answered:
  "hls_parse_request k c u f s = Inr (r, c', s') \<Longrightarrow> \<not> r < 0 \<Longrightarrow> answered c'"
  by (erule hls_parse_request_cases) (auto simp: hls_open_writer_def Let_def answered_def)

lemma request_rest_answered:
  assumes "request_rest k i c u rq f m s = Inr out"
  shows "out_answered out"
proof -
  have 1: "out_answered out" if "request_hls k c u f m s = Inr out" for c s
    using that by (auto simp: request_hls_def Let_def split: if_splits dest!: hls_answered) 
  have 2: "out_answered out" if "request_feed k i c u rq m s = Inr out" for c rq s
    using that by (auto simp: request_feed_def answered_def split: if_splits option.splits)
  show ?thesis using assms 1 2 unfolding request_rest_def then_do_eq_Inr by (auto split: if_splits)
qed

lemma dispatch_answered:
  assumes "dispatch_request k i c u rq m s = Inr (n, s')"
  shows "n = 0 \<and> (\<exists>c'. conns s' i = Some c' \<and> answered c')"
proof -
  have fin: "n = 0 \<and> (\<exists>c'. conns s' i = Some c' \<and> answered c')"
    if "finish_request i rq out = Inr (n, s')" "out_answered out" for out
    using that by (cases out) (auto simp: finish_request_def send_header_def send_error_def answered_def)
  have del: "n = 0 \<and> answered c1" if "request_delete k c0 u s = Inr (n, c1, s1)" for c0 c1 s1 n
    using that by (auto simp: request_delete_def answered_def dest!: calm_response)
  have upl: "n = 0 \<and> answered c1" if "request_upload k c0 u rq s = Inr (n, c1, s1)" for c0 c1 s1 n
    using that by (auto simp: request_upload_def Let_def answered_def split: prod.splits if_splits dest!: calm_response)
  have sgn: "n = 0 \<and> answered c1" if "request_sign k c0 rq s = Inr (n, c1, s1)" for c0 c1 s1 n
    using that by (auto simp: request_sign_def Let_def answered_def split: option.splits if_splits dest!: calm_response)
  show ?thesis
    using assms unfolding dispatch_request_def Let_def
    by (auto split: if_splits dest!: del upl sgn dest: fin request_rest_answered simp: answered_def)
qed

text \<open>
  The same for the whole function: it returns 0 with the connection about to send or to receive, or
  a negative value.
\<close>

lemma parse_request_answered:
  assumes "http_parse_request k i s = Some (Inr (ret, s'))"
  shows "ret < 0 \<or> ret = 0 \<and> (\<exists>c'. conns s' i = Some c' \<and> answered c')"
proof -
  obtain c where g: "get_conn i s = Inr c"
    using assms unfolding http_parse_request_def by (cases "get_conn i s") auto
  obtain r c1 rq m where p: "parse_lines k (log s) (drop (nat (buffer_off c)) (buffer c)) c rd_zero (k_junk k 1024)
      = Some (Inr (r, c1, rq, m))"
    using assms unfolding http_parse_request_def g by (auto split: option.split_asm sum.split_asm)
  show ?thesis
    using assms unfolding http_parse_request_def g sum.case p option.case
    by (auto split: if_split_asm option.split_asm dest: dispatch_answered)
qed

section \<open>The error page\<close>

text \<open>C23. The 404 page is safe to show: whatever the message was made of (it may hold the target as the client
  wrote it), the page sent is the fixed page around a text of the same length in which every character
  that is not a letter, a digit, a comma, a point or a space has become a question mark, so no markup
  of the client's gets into it; the answer is complete and the connection will be closed.\<close>

theorem error_page_is_safe:
  assumes "cstr msg = Inr m" "buffer_off c = 0" "length (buffer c) = nat (buffer_size c)" "int (length m) + 200 < buffer_size c"
  shows "\<exists>c' t. send_error msg c = Inr c' \<and> answer_bytes c' s = Inr (error_page t) \<and> length t = length m
     \<and> (\<forall>ch \<in> set t. html_safe ch \<or> ch = CHR ''?'') \<and> http_error c' = 404 \<and> keep_alive c' = 0"
proof -
  let ?t = "htmlstrip m" and ?p = "error_page (htmlstrip m)"
  have lt: "length ?t = length m" by (simp add: htmlstrip_map)
  have lp: "length ?p + 1 \<le> nat (buffer_size c)"
    using assms(4) lt by (simp add: error_page_def crlf_def)
  have tk: "take (nat (buffer_size c) - 1) ?p = ?p" using lp by simp
  define b where "b = ?p @ NUL # drop (length ?p + 1) (buffer c)"
  have "mem_wr (buffer c) 0 (?p @ [NUL]) = Inr b"
    using mem_wr_0 [of "?p @ [NUL]" "buffer c"] lp assms(3) by (simp add: b_def)
  moreover have "nat (buffer_size c) \<noteq> 0" using lp by linarith
  ultimately have b: "vsnprintf (buffer c) 0 (nat (buffer_size c)) ?p = Inr (length ?p, b)"
    unfolding vsnprintf_def tk by simp
  have bt: "take (length ?p) b = ?p" "length ?p < length b" by (simp_all add: b_def)
  have mn: "min (length ?p) (nat (buffer_size c) - 1) = length ?p" using lp by simp
  have "\<forall>ch \<in> set ?t. html_safe ch \<or> ch = CHR ''?''" by (auto simp: htmlstrip_map)
  then show ?thesis
    using assms(1,2) b bt lt
    by (intro exI [of _ "c\<lparr>keep_alive := 0, http_error := 404, buffer := b, buffer_ptr := (RBuf, 0),
              buffer_end := (RBuf, int (length ?p)), state := HTTPSTATE_SEND_HEADER\<rparr>"] exI [of _ ?t])
       (simp add: send_error_def mn [unfolded One_nat_def] answer_bytes_def rd_ptr_def region_mem_def mem_rd_def)
qed

theorem error_page_witness:
  "\<exists>c' t. send_error (''<script>'' @ [NUL]) ((ctx_demo [])\<lparr>buffer := replicate 300 CHR 0x55, buffer_size := 300\<rparr>) = Inr c'
     \<and> answer_bytes c' server_start = Inr (error_page t) \<and> length t = 8
     \<and> (\<forall>ch \<in> set t. html_safe ch \<or> ch = CHR ''?'')"
proof -
  let ?c = "(ctx_demo [])\<lparr>buffer := replicate 300 CHR 0x55, buffer_size := 300\<rparr>"
  have m: "cstr (''<script>'' @ [NUL]) = Inr ''<script>''" by (simp add: cstr_def)
  have "buffer_off ?c = 0" "length (buffer ?c) = nat (buffer_size ?c)" "int (length ''<script>'') + 200 < buffer_size ?c"
    by (simp_all add: ctx_demo_def ctx_zero_def)
  moreover have "length ''<script>'' = 8" by simp
  ultimately show ?thesis using error_page_is_safe [OF m, of ?c server_start] by metis
qed

section \<open>Two faults\<close>

lemma to_int32_id: "- (2 ^ 31) \<le> n \<Longrightarrow> n < 2 ^ 31 \<Longrightarrow> to_int32 n = n"
  unfolding to_int32_def by transfer (simp add: signed_take_bit_int_eq_self)

text \<open>Announcing a negative \<open>Content-Length\<close> with a \<open>sign_apk\<close> request overruns the 512 bytes of the
  request's content: the size given to \<open>recv\<close> is the negative number as a \<open>size_t\<close>, so everything that
  is waiting on the socket is stored.  The token is only looked at afterwards, so anybody can do it.\<close>

theorem sign_request_overflows_content:
  assumes "post c = 1" "strncmp u ''sign_apk'' 8 = 0" "length (content rq) = 512"
    and "- (2 ^ 31) \<le> content_length c" "content_length c < 0"
    and "rx (fd c) = RxData ds # es" "512 < length ds" "length ds < 2 ^ 31"
  shows "dispatch_request k i c u rq m s = Inl OutOfBounds"
proof -
  have r: "to_int32 (min (512 - 2) (content_length c)) = content_length c"
    using to_int32_id [of "content_length c"] assms(4,5) by (simp add: min_def)
  have "nat (content_length c mod 2 ^ 64) \<ge> length ds"
  proof -
    have "content_length c mod 2 ^ 64 = content_length c + 2 ^ 64"
      using assms(4,5) by (subst mod_add_self2 [symmetric], subst mod_pos_pos_trivial) simp_all
    then show ?thesis using assms(4,8) by simp
  qed
  then have "sock_recv (nat (content_length c mod 2 ^ 64)) (rx (fd c)) = (Got ds, es)"
    using assms(6,7) by auto
  then have "read_request_content c (content rq) 512 s = Inl OutOfBounds"
    unfolding read_request_content_def Let_def r conn_recv_def
    using assms(3,7) by (simp add: mem_wr_def)
  then show ?thesis
    using assms(1,2) by (simp add: dispatch_request_def request_sign_def Let_def)
qed

theorem sign_request_overflows_witness:
  "dispatch_request kernel_empty_disk 0 ((ctx_demo (replicate 600 CHR ''x''))\<lparr>post := 1, content_length := -1\<rparr>)
     ''sign_apk'' rd_zero [] server_start = Inl OutOfBounds"
proof -
  define ds where "ds = replicate 600 CHR ''x''"
  have l: "length ds = 600" by (simp only: ds_def length_replicate)
  have s: "strncmp ''sign_apk'' ''sign_apk'' 8 = 0" by code_simp
  show ?thesis unfolding ds_def [symmetric]
    by (rule sign_request_overflows_content [OF _ s, where ds = ds and es = "[]"])
       (simp_all add: ctx_demo_def ctx_zero_def sock_with_def rd_zero_def l)
qed

text \<open>A second feed of the same name is accepted: the test for a feed that is already there takes the
  first posting connection of that name in the list, and a new connection is put at its head, so it
  finds itself.  From then on there are two writers of one name, of which readers see the newer.\<close>

theorem second_feed_is_accepted:
  assumes "first_http_ctx s = i # js" "j \<in> set js" "i \<noteq> j"
    and "conns s j = Some w" "post w \<noteq> 0" "url w = Some u"
    and "post c \<noteq> 0" "url c = Some u"
  shows "request_feed k i c u rq m s = Inr (Return 0 (c\<lparr>http_error := 0, state := HTTPSTATE_RECEIVE_DATA\<rparr>) s)"
  using assms by (simp add: request_feed_def find_feed_def put_conn_def get_conn_def c_strcmp_eq_def)

theorem second_feed_witness:
  "request_feed kernel_empty_disk 1 ((ctx_demo [])\<lparr>post := 1, url := Some ''stream/a.flv''\<rparr>) ''stream/a.flv'' rd_zero []
     (server_start\<lparr>first_http_ctx := [1, 0],
        conns := [0 \<mapsto> (ctx_demo [])\<lparr>post := 1, url := Some ''stream/a.flv'', state := HTTPSTATE_RECEIVE_DATA\<rparr>]\<rparr>)
   = Inr (Return 0 ((ctx_demo [])\<lparr>post := 1, url := Some ''stream/a.flv'', http_error := 0, state := HTTPSTATE_RECEIVE_DATA\<rparr>)
       (server_start\<lparr>first_http_ctx := [1, 0],
        conns := [0 \<mapsto> (ctx_demo [])\<lparr>post := 1, url := Some ''stream/a.flv'', state := HTTPSTATE_RECEIVE_DATA\<rparr>]\<rparr>))"
  by (subst second_feed_is_accepted [where js = "[0]" and j = 0
        and w = "(ctx_demo [])\<lparr>post := 1, url := Some ''stream/a.flv'', state := HTTPSTATE_RECEIVE_DATA\<rparr>"]) simp_all

end
