(* ===== verification/Connection.thy ===== *)
theory Connection
  imports Request
begin

text \<open>
  Connections of \<open>src/ffserver.c\<close>: accepting and refusing, closing, the state machine of
  \<open>handle_connection\<close>, one round of the event loop of \<open>http_server\<close>, and the start-up.
\<close>

section \<open>Start-up\<close>

record config =
  http_port :: int
  https_port :: int
  https_cert :: "string option"
  upload_token :: string

datatype startup = Exit int | Started config

definition config_zero :: config where
  "config_zero = \<lparr>http_port = 0, https_port = 0, https_cert = None, upload_token = []\<rparr>"

text \<open>\<open>htons(atoi(..))\<close> keeps the low sixteen bits; \<open>ssl_ok\<close> is the answer of \<open>ssl_init\<close>.\<close>

definition port_of :: "string \<Rightarrow> int" where
  "port_of v = to_int32 (strtoll 10 v) mod 65536"

fun parse_args :: "(string \<Rightarrow> bool) \<Rightarrow> string list \<Rightarrow> config \<Rightarrow> startup" where
  "parse_args ssl_ok (a # v # r) cfg =
     (case a of
        [] \<Rightarrow> Exit 1
      | d # name \<Rightarrow>
          if d \<noteq> CHR ''-'' then Exit 1
          else if name = ''http_port'' then parse_args ssl_ok r (cfg\<lparr>http_port := port_of v\<rparr>)
          else if name = ''https_port'' then parse_args ssl_ok r (cfg\<lparr>https_port := port_of v\<rparr>)
          else if name = ''https_cert'' then
            (if ssl_ok v then parse_args ssl_ok r (cfg\<lparr>https_cert := Some v\<rparr>) else Exit 1)
          else if name = ''upload_token'' then parse_args ssl_ok r (cfg\<lparr>upload_token := take 63 v\<rparr>)
          else Exit 1)"
| "parse_args ssl_ok [a] cfg = Exit 1"
| "parse_args ssl_ok [] cfg = Started cfg"

text \<open>\<open>args\<close> are the arguments behind the program's name; an empty first one is read past its end.\<close>

definition parse_config :: "(string \<Rightarrow> bool) \<Rightarrow> string list \<Rightarrow> startup result" where
  "parse_config ssl_ok args =
     (case args of
        [] \<Rightarrow> Inr (Exit 0)
      | a # _ \<Rightarrow> if a = [] then Inl OutOfBounds
                 else if tl a = ''h'' then Inr (Exit 0) else Inr (parse_args ssl_ok args config_zero))"

definition nb_max_http_connections :: int where "nb_max_http_connections = 1000"

definition server_of_config :: "config \<Rightarrow> server" where
  "server_of_config cfg = server_start\<lparr>nb_max_connections := 1000, sUploadToken := upload_token cfg\<rparr>"

text \<open>The last address of the host, or zero: \<open>name\<close> is what \<open>gethostname\<close> gives, \<open>addrs\<close> the resolver.\<close>

definition get_host_ip :: "string option \<Rightarrow> (string \<Rightarrow> 32 word list option) \<Rightarrow> 32 word" where
  "get_host_ip name addrs =
     (case name of
        None \<Rightarrow> 0
      | Some n \<Rightarrow> (case addrs n of None \<Rightarrow> 0 | Some xs \<Rightarrow> fold (\<lambda>addr _. addr) xs 0))"

text \<open>A listening socket, from the results of \<open>socket\<close>, \<open>bind\<close> and \<open>listen\<close>; the flag says it was closed again.\<close>

definition socket_open_listen :: "int \<Rightarrow> bool \<Rightarrow> bool \<Rightarrow> int \<times> bool" where
  "socket_open_listen sk bind_ok listen_ok =
     (if sk < 0 then (-1, False) else if \<not> bind_ok then (-1, True) else if \<not> listen_ok then (-1, True) else (sk, False))"

text \<open>\<open>ctime1\<close>: the time of day of a clock in milliseconds, each part as a 32-bit number.\<close>

definition zero_pad :: "nat \<Rightarrow> string \<Rightarrow> string" where
  "zero_pad n t = replicate (n - length t) CHR ''0'' @ t"

definition u32_str :: "int \<Rightarrow> string" where
  "u32_str n = nat_str 10 (nat (n mod 2 ^ 32))"

definition ctime1 :: "int \<Rightarrow> nat \<Rightarrow> string" where
  "ctime1 t buf_size =
     (let ss = t mod 1000; t1 = t div 1000; sec = t1 mod 60; t2 = t1 div 60; m = t2 mod 60; h = t2 div 60 in
      take (buf_size - 1)
        (''['' @ zero_pad 2 (u32_str h) @ '':'' @ zero_pad 2 (u32_str m) @ '':'' @ zero_pad 2 (u32_str sec) @
         ''.'' @ zero_pad 3 (u32_str ss) @ '']''))"

section \<open>Accepting and refusing\<close>

definition too_busy_text :: "server \<Rightarrow> string" where
  "too_busy_text s = take 399
     (''HTTP/1.1 503 Server too busy'' @ crlf @ ''Content-type: text/html'' @ crlf @ crlf @
      ''<html><head><title>Too busy</title></head><body>'' @ crlf @
      ''<p>The server is too busy to serve your request at this time.</p>'' @ crlf @
      ''<p>The number of current connections is '' @ u32_str (nb_connections s) @
      '', and this exceeds the limit of '' @ u32_str (nb_max_connections s) @ ''.</p>'' @ crlf @
      ''</body></html>'' @ crlf)"

definition http_send_too_busy_reply :: "HTTPContext \<Rightarrow> server \<Rightarrow> HTTPContext \<times> server" where
  "http_send_too_busy_reply c s = (let (_, c1, s1) = conn_send (too_busy_text s) c s in (c1, s1))"

text \<open>The size of the structure in the modelled build (64-bit, with the directory and TLS members).\<close>

definition sizeof_HTTPContext :: int where "sizeof_HTTPContext = 1376"

text \<open>
  \<open>new_connection\<close>: \<open>acc\<close> is the socket \<open>accept\<close> gives, \<open>ssl_ok\<close> the result of \<open>ssl_open\<close> when the
  flag asks for it.  The second result is the socket that is closed again on the way through
  \<open>fail\<close>, with what was sent on it.
\<close>

definition new_connection ::
  "kernel \<Rightarrow> sock option \<Rightarrow> int \<Rightarrow> bool \<Rightarrow> server \<Rightarrow> server \<times> sock option" where
  "new_connection k acc flag ssl_ok s =
     (case acc of
        None \<Rightarrow> (s, None)
      | Some sk \<Rightarrow>
          if flag = 1 \<and> \<not> ssl_ok then (s, Some sk)
          else if \<not> k_malloc k (log s) sizeof_HTTPContext then (s, Some sk)
          else if \<not> k_malloc k (log s) IOBUFFER_INIT_SIZE then (s, Some sk)
          else
            let c = ctx_zero sk (k_junk k (nat IOBUFFER_INIT_SIZE)) in
            if nb_connections s \<ge> nb_max_connections s then
              let (c1, s1) = http_send_too_busy_reply c s in (s1, Some (fd c1))
            else
              let i = next_id s;
                  c1 = c\<lparr>buffer_ptr := (RBuf, 0), buffer_end := (RBuf, buffer_size c - 1),
                         timeout := cur_time s + HTTP_REQUEST_TIMEOUT, state := HTTPSTATE_WAIT_REQUEST,
                         hls_idx := -1, local_fd := -1\<rparr> in
              ((put_conn i c1 s)\<lparr>first_http_ctx := i # first_http_ctx s,
                                  nb_connections := nb_connections s + 1, next_id := i + 1\<rparr>, None))"

section \<open>Closing\<close>

fun unlink :: "nat \<Rightarrow> nat list \<Rightarrow> server \<Rightarrow> nat list result" where
  "unlink i [] s = Inr []"
| "unlink i (j # js) s =
     (if j = i then unlink i js s
      else then_do (get_conn j s) (\<lambda>_. then_do (unlink i js s) (\<lambda>r. Inr (j # r))))"

text \<open>Freeing the structure is what makes its identity dangle.\<close>

definition close_connection :: "nat \<Rightarrow> server \<Rightarrow> server result" where
  "close_connection i s =
     then_do (get_conn i s) (\<lambda>c.
     then_do (unlink i (first_http_ctx s) s) (\<lambda>chain.
       let s1 = s\<lparr>first_http_ctx := chain\<rparr>;
           s2 = (if 0 \<le> local_fd c then sys_note (SysClose (local_fd c)) s1 else s1) in
     then_do (sff_reset (c\<lparr>url := None, pb_buffer := None\<rparr>) s2) (\<lambda>(c1, s3).
       Inr (s3\<lparr>conns := (conns s3)(i := None), nb_connections := nb_connections s3 - 1\<rparr>))))"

text \<open>\<open>sff_close\<close> walks the list with the successor taken before each closing.\<close>

fun sff_close_loop :: "nat list \<Rightarrow> server \<Rightarrow> server result" where
  "sff_close_loop [] s = Inr s"
| "sff_close_loop (j # js) s =
     then_do (get_conn j s) (\<lambda>c.
     then_do (if post c \<noteq> 0 \<and> av_match_ext (url c) ''flv'' then close_connection j s else Inr s)
       (sff_close_loop js))"

definition sff_close :: "server \<Rightarrow> server result" where
  "sff_close s = sff_close_loop (first_http_ctx s) s"

section \<open>The state machine of a connection\<close>

text \<open>
  Reading the request byte by byte at \<open>c->buffer_ptr\<close>.  \<open>RdFail\<close> is \<open>return -1\<close>, \<open>RdWait\<close> leaves the
  loop without a request.
\<close>

datatype read_out = RdFail | RdWait | RdRequest

definition ends_request :: "HTTPContext \<Rightarrow> server \<Rightarrow> bool result" where
  "ends_request c s =
     (let p = buffer_ptr c in
      then_do (ptr_diff p (RBuf, buffer_off c)) (\<lambda>n.
      then_do (if 2 \<le> n then then_do (rd_ptr s c (ptr_add p (-2)) 2) (\<lambda>b. Inr (b = [CHR 0x0A, CHR 0x0A]))
               else Inr False) (\<lambda>two.
        if two then Inr True
        else if 4 \<le> n then then_do (rd_ptr s c (ptr_add p (-4)) 4) (\<lambda>b. Inr (b = crlf @ crlf))
        else Inr False)))"

function read_loop :: "HTTPContext \<Rightarrow> server \<Rightarrow> (read_out \<times> HTTPContext \<times> server) result" where
  "read_loop c s =
     (case conn_recv 1 c s of
        (Failed e, c1, s1) \<Rightarrow> Inr (if hard_error s1 then RdFail else RdWait, c1, s1)
      | (Got [], c1, s1) \<Rightarrow> Inr (if keep_alive c1 = 0 then RdFail else RdWait, c1, s1)
      | (Got (b # bs), c1, s1) \<Rightarrow>
          then_do (wr_ptr (buffer_ptr c1) (b # bs) c1 s1) (\<lambda>(c2, s2).
            let c3 = c2\<lparr>buffer_ptr := ptr_add (buffer_ptr c2) (int (length (b # bs)))\<rparr> in
            then_do (ends_request c3 s2) (\<lambda>found.
              if found then Inr (RdRequest, c3, s2)
              else then_do (ptr_diff (buffer_ptr c3) (buffer_end c3)) (\<lambda>over.
                if 0 \<le> over then Inr (RdFail, c3, s2) else read_loop c3 s2))))"
  by pat_completeness auto

lemma wr_ptr_fd: "wr_ptr p ds c s = Inr (c', s') \<Longrightarrow> fd c' = fd c"
proof -
  assume "wr_ptr p ds c s = Inr (c', s')"
  then obtain b where "put_region (fst p) b c s = (c', s')" unfolding wr_ptr_def then_do_eq_Inr by blast
  then show ?thesis by (cases "fst p") (auto simp: put_region_def)
qed

lemma conn_recv_size:
  assumes "conn_recv n c w = (Got (b # bs), c1, w1)"
  shows "rx_size (rx (fd c1)) < rx_size (rx (fd c))"
proof -
  obtain r es where r: "sock_recv (nat (n mod 2 ^ 64)) (rx (fd c)) = (r, es)" by force
  then have "r = Got (b # bs)" "rx (fd c1) = es" using assms unfolding conn_recv_def Let_def r by auto
  with r show ?thesis using sock_recv_size by metis
qed

termination read_loop
proof (relation "measure (\<lambda>(c, s). rx_size (rx (fd c)))", goal_cases)
  case (2 c s x y x1 b bs c1 s1 z c2 s2 c3 found over)
  have "rx_size (rx (fd c1)) < rx_size (rx (fd c))"
    by (rule conn_recv_size [of 1 c s b bs c1 s1]) (use 2 in simp)
  moreover have "fd c2 = fd c1" by (rule wr_ptr_fd) (use 2 in auto)
  ultimately show ?case using 2 by simp
qed simp

declare read_loop.simps [simp del]

definition revents_of :: "HTTPContext \<Rightarrow> revents result" where
  "revents_of c = (case poll_entry c of None \<Rightarrow> Inl NullDeref | Some r \<Rightarrow> Inr r)"

text \<open>A connection that goes back to waiting for a request.\<close>

definition wait_again :: "HTTPContext \<Rightarrow> server \<Rightarrow> HTTPContext result" where
  "wait_again c s =
     then_do (mem_wr (buffer c) (buffer_off c) (replicate (nat (buffer_size c)) NUL)) (\<lambda>b.
       Inr (c\<lparr>buffer := b, buffer_ptr := (RBuf, buffer_off c), buffer_end := (RBuf, buffer_off c + buffer_size c - 1),
              timeout := cur_time s + HTTP_REQUEST_TIMEOUT, state := HTTPSTATE_WAIT_REQUEST, hls_idx := -1\<rparr>))"

definition header_sent :: "HTTPContext \<Rightarrow> server \<Rightarrow> (int \<times> HTTPContext) result" where
  "header_sent c s =
     (let c0 = c\<lparr>pb_buffer := None\<rparr>; start = (RBuf, buffer_off c) in
      if http_error c0 = 100 then
        Inr (0, c0\<lparr>state := HTTPSTATE_RECEIVE_DATA, buffer_ptr := start, buffer_end := start\<rparr>)
      else if keep_alive c0 \<noteq> 0 \<and> total_count c0 \<noteq> 0 \<and> total_count c0 \<le> data_count c0 then
        then_do (wait_again c0 s) (\<lambda>c1. Inr (0, c1))
      else if http_error c0 \<noteq> 0 then Inr (-1, c0)
      else Inr (0, c0\<lparr>state := HTTPSTATE_SEND_DATA_HEADER, buffer_ptr := start, buffer_end := start\<rparr>))"

definition handle_send_header :: "HTTPContext \<Rightarrow> server \<Rightarrow> (int \<times> HTTPContext \<times> server) result" where
  "handle_send_header c s =
     then_do (ptr_diff (buffer_end c) (buffer_ptr c)) (\<lambda>n.
     then_do (rd_ptr s c (buffer_ptr c) n) (\<lambda>ds.
       let (len, c1, s1) = conn_send ds c s in
       if len < 0 then
         (if hard_error s1 then Inr (-1, c1\<lparr>pb_buffer := None\<rparr>, s1) else Inr (0, c1, s1))
       else
         let c2 = c1\<lparr>buffer_ptr := ptr_add (buffer_ptr c1) len, data_count := data_count c1 + len\<rparr> in
         then_do (ptr_diff (buffer_ptr c2) (buffer_end c2)) (\<lambda>over.
           if 0 \<le> over then then_do (header_sent c2 s1) (\<lambda>(r, c3). Inr (r, c3, s1))
           else Inr (0, c2, s1))))"

definition handle_wait_request :: "kernel \<Rightarrow> nat \<Rightarrow> HTTPContext \<Rightarrow> revents \<Rightarrow> server \<Rightarrow> (int \<times> server) result option" where
  "handle_wait_request k i c r s =
     (if pollerr r then Some (Inr (-1, s))
      else if \<not> pollin r then Some (Inr (0, s))
      else (case read_loop c s of
              Inl e \<Rightarrow> Some (Inl e)
            | Inr (RdFail, c1, s1) \<Rightarrow> Some (Inr (-1, put_conn i c1 s1))
            | Inr (RdWait, c1, s1) \<Rightarrow> Some (Inr (0, put_conn i c1 s1))
            | Inr (RdRequest, c1, s1) \<Rightarrow>
                map_option (\<lambda>x. then_do x (\<lambda>(ret, s2). Inr (if ret < 0 then -1 else 0, s2)))
                  (http_parse_request k i (put_conn i c1 s1))))"

definition handle_send_data :: "kernel \<Rightarrow> nat \<Rightarrow> HTTPContext \<Rightarrow> server \<Rightarrow> (int \<times> server) result option" where
  "handle_send_data k i c s =
     map_option (\<lambda>x. then_do x (\<lambda>(ret, c1, s1).
        Inr (if ret < 0 \<or> state c1 = HTTPSTATE_SEND_DATA_TRAILER then -1 else 0, put_conn i c1 s1)))
       (http_send_data k c s)"

definition handle_receive_data :: "kernel \<Rightarrow> nat \<Rightarrow> HTTPContext \<Rightarrow> revents \<Rightarrow> server \<Rightarrow> (int \<times> server) result" where
  "handle_receive_data k i c r s =
     (if pollerr r then
        then_do (if 0 \<le> hls_idx c then
                   then_do (get_hls (hls_idx c) s) (\<lambda>h. Inr (put_hls (hls_idx c) (h\<lparr>hls_flag := 2\<rparr>) s))
                 else Inr s) (\<lambda>s1.
        then_do (wake_others i HTTPSTATE_SEND_DATA_TRAILER s1) (\<lambda>s2. Inr (-1, s2)))
      else if \<not> pollin r then Inr (0, s)
      else then_do (http_receive_data k i s) (\<lambda>(ret, s1). Inr (if ret < 0 then -1 else 0, s1)))"

definition handle_connection :: "kernel \<Rightarrow> nat \<Rightarrow> server \<Rightarrow> (int \<times> server) result option" where
  "handle_connection k i s =
     (case get_conn i s of
        Inl e \<Rightarrow> Some (Inl e)
      | Inr c \<Rightarrow>
          if state c = HTTPSTATE_WAIT_REQUEST \<and> timeout c - cur_time s < 0 then Some (Inr (-1, s))
          else if state c = HTTPSTATE_CLOSE then Some (Inr (-1, s))
          else (case revents_of c of
            Inl e \<Rightarrow> Some (Inl e)
          | Inr r \<Rightarrow>
              (case state c of
                 HTTPSTATE_WAIT_REQUEST \<Rightarrow> handle_wait_request k i c r s
               | HTTPSTATE_SEND_HEADER \<Rightarrow>
                   Some (if pollerr r then Inr (-1, s)
                         else if \<not> pollout r then Inr (0, s)
                         else then_do (handle_send_header c s) (\<lambda>(ret, c1, s1). Inr (ret, put_conn i c1 s1)))
               | HTTPSTATE_RECEIVE_DATA \<Rightarrow> Some (handle_receive_data k i c r s)
               | HTTPSTATE_WAIT_FEED \<Rightarrow> Some (Inr (if pollin r \<or> pollerr r then -1 else 0, s))
               | HTTPSTATE_CLOSE \<Rightarrow> Some (Inr (-1, s))
               | _ \<Rightarrow> (if pollerr r then Some (Inr (-1, s))
                       else if \<not> pollout r then Some (Inr (0, s))
                       else handle_send_data k i c s))))"

section \<open>One round of the event loop\<close>

text \<open>
  What the environment does in a round: the events of each entry of the poll table by its index,
  whether \<open>poll\<close> fails for good, the clock, and per listening socket the accepted connection and the
  result of the TLS handshake.
\<close>

record round_env =
  ev_poll :: "nat \<Rightarrow> revents"
  ev_poll_fails :: bool
  ev_now :: int
  ev_accept :: "bool \<Rightarrow> sock option"
  ev_ssl_ok :: bool

definition no_events :: revents where
  "no_events = \<lparr>pollin = False, pollout = False, pollerr = False\<rparr>"

text \<open>\<open>poll\<close> reports only what was asked for, and errors.\<close>

definition asked :: "HTTPState \<Rightarrow> revents \<Rightarrow> revents" where
  "asked st r =
     (if st \<in> {HTTPSTATE_SEND_HEADER, HTTPSTATE_SEND_DATA_HEADER, HTTPSTATE_SEND_DATA, HTTPSTATE_SEND_DATA_TRAILER}
      then r\<lparr>pollin := False\<rparr> else r\<lparr>pollout := False\<rparr>)"

text \<open>
  Filling the table: \<open>n\<close> entries are used already, it has \<open>nb_max_http_connections + 1\<close>.  Each
  connection points to its entry, which will hold its events.
\<close>

fun poll_setup :: "(nat \<Rightarrow> revents) \<Rightarrow> nat \<Rightarrow> nat list \<Rightarrow> server \<Rightarrow> (nat \<times> server) result" where
  "poll_setup ev n [] s = Inr (n, s)"
| "poll_setup ev n (j # js) s =
     then_do (get_conn j s) (\<lambda>c.
       if state c = HTTPSTATE_CLOSE then poll_setup ev n js (put_conn j (c\<lparr>poll_entry := None\<rparr>) s)
       else if nb_max_http_connections + 1 \<le> int n then Inl OutOfBounds
       else poll_setup ev (n + 1) js (put_conn j (c\<lparr>poll_entry := Some (asked (state c) (ev n))\<rparr>) s))"

fun handle_all :: "kernel \<Rightarrow> nat list \<Rightarrow> server \<Rightarrow> server result option" where
  "handle_all k [] s = Some (Inr s)"
| "handle_all k (j # js) s =
     (case handle_connection k j s of
        None \<Rightarrow> None
      | Some (Inl e) \<Rightarrow> Some (Inl e)
      | Some (Inr (ret, s1)) \<Rightarrow>
          if ret < 0 then
            (case close_connection j s1 of Inl e \<Rightarrow> Some (Inl e) | Inr s2 \<Rightarrow> handle_all k js s2)
          else handle_all k js s1)"

text \<open>\<open>n\<close> is the index of the listening socket's entry in the table.\<close>

definition accept_phase :: "kernel \<Rightarrow> round_env \<Rightarrow> bool \<Rightarrow> nat \<Rightarrow> server \<Rightarrow> server" where
  "accept_phase k ev tls n s =
     (if pollin (ev_poll ev n)
      then fst (new_connection k (ev_accept ev tls) (if tls then 1 else 0) (ev_ssl_ok ev) s) else s)"

text \<open>
  \<open>http\<close> and \<open>https\<close> say which sockets listen.  The list of connections is walked with the successor
  taken before each handler; a handler changes the list only by its own closing, so that is the list
  as it was at the start.  \<open>Inr None\<close> is the end of the server after a failed \<open>poll\<close>.
\<close>

definition server_round ::
  "kernel \<Rightarrow> bool \<Rightarrow> bool \<Rightarrow> round_env \<Rightarrow> server \<Rightarrow> server option result option" where
  "server_round k http https ev s =
     (let n0 = (if http then 1 else 0) + (if https then 1 else 0) in
      case poll_setup (ev_poll ev) n0 (first_http_ctx s) s of
        Inl e \<Rightarrow> Some (Inl e)
      | Inr (_, s1) \<Rightarrow>
          if ev_poll_fails ev then Some (Inr None)
          else (case handle_all k (first_http_ctx s1) (s1\<lparr>cur_time := ev_now ev\<rparr>) of
                  None \<Rightarrow> None
                | Some (Inl e) \<Rightarrow> Some (Inl e)
                | Some (Inr s2) \<Rightarrow>
                    let s3 = (if http then accept_phase k ev False 0 s2 else s2);
                        s4 = (if https then accept_phase k ev True (if http then 1 else 0) s3 else s3) in
                    Some (Inr (Some s4))))"

text \<open>The listening sockets of \<open>http_server\<close>: no port at all, or a socket that cannot be opened, ends it.\<close>

definition http_server_listens :: "config \<Rightarrow> int \<Rightarrow> int \<Rightarrow> (bool \<times> bool) option" where
  "http_server_listens cfg fd_http fd_https =
     (let http = (http_port cfg \<noteq> 0); https = (https_port cfg \<noteq> 0) in
      if http \<and> fd_http < 0 \<or> https \<and> fd_https < 0 then None
      else if \<not> http \<and> \<not> https then None
      else Some (http, https))"

text \<open>All states the server can be in: after start-up, and after each round that comes to its end.\<close>

inductive server_reaches :: "config \<Rightarrow> bool \<Rightarrow> bool \<Rightarrow> server \<Rightarrow> bool" for cfg http https where
  start: "server_reaches cfg http https (server_of_config cfg)"
| round: "server_reaches cfg http https s \<Longrightarrow>
    server_round k http https ev s = Some (Inr (Some s')) \<Longrightarrow> server_reaches cfg http https s'"

end
