(* ===== verification/ConnectionProofs.thy ===== *)
theory ConnectionProofs
  imports Connection
begin

text \<open>
  What every reachable state of the server satisfies: the list of connections has no duplicate, holds
  exactly the connections that are alive, and has the counted length, which never exceeds the limit;
  the transitions a handler makes; and where closing leaves dangling pointers.
\<close>

section \<open>Steps that leave the list of connections alone\<close>

text \<open>
  \<open>still\<close>: the connections are untouched (the handler works on its own copy of one of them).
  \<open>frame\<close>: some connection may have changed, but none came or went.
\<close>

definition still :: "server \<Rightarrow> server \<Rightarrow> bool" where
  "still s s' \<longleftrightarrow> conns s' = conns s \<and> first_http_ctx s' = first_http_ctx s \<and> nb_connections s' = nb_connections s
     \<and> nb_max_connections s' = nb_max_connections s \<and> next_id s \<le> next_id s'"

definition frame :: "server \<Rightarrow> server \<Rightarrow> bool" where
  "frame s s' \<longleftrightarrow> dom (conns s') = dom (conns s) \<and> first_http_ctx s' = first_http_ctx s
     \<and> nb_connections s' = nb_connections s \<and> nb_max_connections s' = nb_max_connections s \<and> next_id s \<le> next_id s'"

lemma still_refl [simp]: "still s s"
  by (simp add: still_def)

lemma still_trans [trans]: "still s s1 \<Longrightarrow> still s1 s2 \<Longrightarrow> still s s2"
  by (simp add: still_def)

lemma frame_refl [simp]: "frame s s"
  by (simp add: frame_def)

lemma frame_trans [trans]: "frame s s1 \<Longrightarrow> frame s1 s2 \<Longrightarrow> frame s s2"
  by (simp add: frame_def)

lemma still_frame: "still s s' \<Longrightarrow> frame s s'"
  by (simp add: still_def frame_def)

lemma frame_put_conn: "frame s s' \<Longrightarrow> j \<in> dom (conns s) \<Longrightarrow> frame s (put_conn j c s')"
  by (auto simp: frame_def put_conn_def)

lemma get_conn_dom: "get_conn j s = Inr c \<Longrightarrow> j \<in> dom (conns s)"
  by (auto simp: get_conn_def split: option.splits)

lemma still_put_hls [simp]: "still s (put_hls i h s') = still s s'"
  by (simp add: still_def put_hls_def)

lemma still_note [simp]: "still s (sys_note e s') = still s s'"
  by (simp add: still_def sys_note_def)

lemma still_put_sff [simp]: "still s (put_sff i p s') = still s s'"
  by (simp add: still_def put_sff_def)

text \<open>The functions over the bare \<open>world\<close> keep what a server has beyond it.\<close>

lemma still_more: "world.more w' = world.more (s :: server) \<Longrightarrow> still s w'"
  by (cases s; cases w') (simp add: still_def)

lemma more_recv: "conn_recv n c w = (r, c', w') \<Longrightarrow> world.more w' = world.more w"
  by (auto simp: conn_recv_def Let_def split: prod.splits io_result.splits)

lemma more_send: "conn_send ds c w = (n, c', w') \<Longrightarrow> world.more w' = world.more w"
  by (auto simp: conn_send_def split: prod.splits io_result.splits)

lemma more_open: "sys_open k p b w = (n, w') \<Longrightarrow> world.more w' = world.more w"
  by (auto simp: sys_open_def split: sum.splits)

lemma more_read: "sys_read k f n w = (r, w') \<Longrightarrow> world.more w' = world.more w"
  by (auto simp: sys_read_def Let_def split: io_result.splits)

lemma more_write: "sys_write k f ds w = (n, w') \<Longrightarrow> world.more w' = world.more w"
  by (auto simp: sys_write_def split: sum.splits)

lemma more_recv_buf: "recv_buf off n c w = Inr (r, c', w') \<Longrightarrow> world.more w' = world.more w"
proof -
  assume r: "recv_buf off n c w = Inr (r, c', w')"
  obtain x c1 w1 where rv: "conn_recv n c w = (x, c1, w1)" by (metis prod_cases3)
  have "w' = w1" using r unfolding recv_buf_def Let_def rv by (auto split: io_result.splits)
  with more_recv [OF rv] show ?thesis by simp
qed

lemma more_recv_loc: "recv_loc n b c w = (r, b', c', w') \<Longrightarrow> world.more w' = world.more w"
proof -
  assume r: "recv_loc n b c w = (r, b', c', w')"
  obtain x c1 w1 where rv: "conn_recv n c w = (x, c1, w1)" by (metis prod_cases3)
  have "w' = w1" using r unfolding recv_loc_def Let_def rv by (auto split: io_result.splits)
  with more_recv [OF rv] show ?thesis by simp
qed

lemma more_chunk_header: "chunk_header_loop n c w = Inr (ok, n', c', w') \<Longrightarrow> world.more w' = world.more w"
proof (induction n c w rule: chunk_header_loop.induct)
  case (1 n c w)
  show ?case
  proof (cases "chunk_size c = 0 \<and> n < 32")
    case False
    with 1 show ?thesis by (subst (asm) (2) chunk_header_loop.simps) auto
  next
    case True
    note eq = "1.prems" [unfolded chunk_header_loop.simps [of n c w] if_P [OF True]]
    from eq obtain len c1 w1 where r: "recv_buf (int n) 1 c w = Inr (len, c1, w1)"
      unfolding then_do_eq_Inr by (auto split: prod.split_asm)
    note m = more_recv_buf [OF r]
    show ?thesis
    proof (cases "len \<le> 0")
      case True
      then show ?thesis using eq m unfolding r by simp
    next
      case len: False
      note eq1 = eq [unfolded r then_do_simps split_conv if_not_P [OF len]]
      from eq1 obtain two where
        two: "(if 2 \<le> n then mem_rd (buffer c1) (buffer_off c1 + int n - 1) 2 else Inr []) = Inr two"
        unfolding then_do_eq_Inr by blast
      note eq2 = eq1 [unfolded two then_do_simps]
      show ?thesis
      proof (cases "2 \<le> n \<and> two = crlf")
        case True
        then show ?thesis using eq2 m by simp
      next
        case no: False
        have "chunk_header_loop (n + 1) c1 w1 = Inr (ok, n', c', w')" by (rule eq2 [unfolded if_not_P [OF no]])
        from "1.IH" [OF True r refl refl len two no this] m show ?thesis by simp
      qed
    qed
  qed
qed

lemma more_recv_chunked: "recv_chunked c w = Inr (n, c', w') \<Longrightarrow> world.more w' = world.more w"
proof -
  assume r: "recv_chunked c w = Inr (n, c', w')"
  obtain ok m c1 w1 where h: "chunk_header_loop 0 c w = Inr (ok, m, c1, w1)"
    using r unfolding recv_chunked_def then_do_eq_Inr by auto
  note hm = more_chunk_header [OF h]
  have "w' = w1 \<or> (\<exists>sz c2 len c3. recv_buf 0 sz c2 w1 = Inr (len, c3, w'))"
    using r unfolding recv_chunked_def h then_do_simps split_conv Let_def then_do_eq_Inr
    by (auto split: if_split_asm)
  then show ?thesis using hm more_recv_buf by metis
qed

lemma more_recv_any: "recv_any c w = Inr (n, c', w') \<Longrightarrow> world.more w' = world.more w"
  by (auto simp: recv_any_def dest: more_recv_chunked more_recv_buf split: if_splits)

lemma more_drain: "drain_loop k c w = Inr (n, c', w') \<Longrightarrow> world.more w' = world.more w"
proof (induction k c w rule: drain_loop.induct)
  case (1 k c w)
  note eq = "1.prems" [unfolded drain_loop.simps [of k c w]]
  from eq obtain len c1 w1 where r: "recv_any c w = Inr (len, c1, w1)" by auto
  note m = more_recv_any [OF r]
  show ?case
  proof (cases "0 < len")
    case False
    then show ?thesis using eq m unfolding r by simp
  next
    case len: True
    note eq1 = eq [unfolded r then_do_simps split_conv if_P [OF len]]
    from eq1 obtain ds where ds: "mem_rd (buffer c1) (buffer_off c1) len = Inr ds" by auto
    obtain a w2 where sw: "sys_write k (local_fd c1) ds w1 = (a, w2)" by force
    have "drain_loop k (c1\<lparr>data_count := data_count c1 + a\<rparr>) w2 = Inr (n, c', w')"
      using eq1 unfolding ds then_do_simps sw Let_def split_conv .
    from "1.IH" [OF r refl refl len ds sw [symmetric] refl this] more_write [OF sw] m
    show ?thesis by simp
  qed
qed

lemma more_sync_tail: "sync_tail b c w = (x, b', c', w') \<Longrightarrow> world.more w' = world.more w"
proof -
  assume s: "sync_tail b c w = (x, b', c', w')"
  obtain n2 b2 c2 w2 where r2: "recv_loc 1 b c w = (n2, b2, c2, w2)" by (metis surj_pair)
  obtain n3 b3 c3 w3 where r3: "recv_loc 1 b2 c2 w2 = (n3, b3, c3, w3)" by (metis surj_pair)
  obtain n4 b4 c4 w4 where r4: "recv_loc 1 b3 c3 w3 = (n4, b4, c4, w4)" by (metis surj_pair)
  obtain n5 b5 c5 w5 where r5: "recv_loc 4 b4 c4 w4 = (n5, b5, c5, w5)" by (metis surj_pair)
  from s have "w' \<in> {w2, w3, w4, w5}"
    by (auto simp: sync_tail_def r2 r3 r4 r5 Let_def split: if_splits)
  with more_recv_loc [OF r2] more_recv_loc [OF r3] more_recv_loc [OF r4] more_recv_loc [OF r5]
  show ?thesis by auto
qed

lemma more_sync_loop: "sync_loop b c w = (n, x, c', w') \<Longrightarrow> world.more w' = world.more w"
proof (induction b c w rule: sync_loop.induct)
  case (1 b c w)
  obtain len b1 c1 w1 where r: "recv_loc 1 b c w = (len, b1, c1, w1)" by (metis surj_pair)
  note m = more_recv_loc [OF r]
  note eq = "1.prems" [unfolded sync_loop.simps [of b c w] r Let_def split_conv]
  show ?case
  proof (cases "0 < len")
    case False
    then show ?thesis using eq m by simp
  next
    case len: True
    show ?thesis
    proof (cases "buf0 b1 = CHR ''S''")
      case False
      then have "sync_loop b1 c1 w1 = (n, x, c', w')" using eq len by simp
      moreover have "\<not> \<not> 0 < len" using len by simp
      ultimately show ?thesis using "1.IH"(1) [OF r [symmetric] refl refl refl _ False] m by simp
    next
      case True
      obtain f b2 c2 w2 where t: "sync_tail b1 c1 w1 = (f, b2, c2, w2)" by (metis surj_pair)
      note tm = more_sync_tail [OF t]
      show ?thesis
      proof (cases f)
        case None
        then have "sync_loop b2 c2 w2 = (n, x, c', w')" using eq len True t by simp
        moreover have "\<not> \<not> 0 < len" "\<not> buf0 b1 \<noteq> CHR ''S''" using len True by simp_all
        ultimately show ?thesis using "1.IH"(2) [OF r [symmetric] refl refl refl _ _ t [symmetric] refl refl refl None] m tm by simp
      next
        case (Some h)
        then show ?thesis using eq len True t m tm by simp
      qed
    qed
  qed
qed

section \<open>Receiving and sending\<close>

lemma still_sff_free: "sff_free sl s = Inr (sl', s') \<Longrightarrow> still s s'"
  by (auto simp: sff_free_def still_def split: option.splits)

lemma still_new_sff: "new_sff p s = (j, s') \<Longrightarrow> still s s'"
  by (auto simp: new_sff_def still_def)

lemma still_sff_free_all: "sff_free_all sls s = Inr (sls', s') \<Longrightarrow> still s s'"
proof (induction sls arbitrary: s sls')
  case (Cons sl sls)
  then obtain a s1 b where "sff_free sl s = Inr (a, s1)" "sff_free_all sls s1 = Inr (b, s')"
    by (auto simp del: split_paired_Ex)
  with Cons.IH still_sff_free still_trans show ?case by metis
qed simp

lemma still_sff_write:
  assumes "sff_write c k s = Inr (c', s')"
  shows "still s s'"
proof -
  have put: "still s s'" if "then_do (get_sff k s1) (\<lambda>p1. Inr (c1, put_sff k (p1\<lparr>sff_wflag := 2\<rparr>) s1)) = Inr (c', s')"
      "still s s1" for c1 :: HTTPContext and s1
    using that by auto
  obtain p where p: "get_sff k s = Inr p" using assms unfolding sff_write_def then_do_eq_Inr by blast
  note eq = assms [unfolded sff_write_def p then_do_simps]
  show ?thesis
  proof (cases "sff_type p = 1 \<or> sff_type p = 2")
    case False
    then show ?thesis using eq by (intro put [of s c]) simp_all
  next
    case True
    define x where "x = (if sff_type p = 1 then int NPKT else sff_w c)"
    obtain sl where sl: "slot_at c x = Inr sl"
      using eq True by (cases "slot_at c x") (auto simp: x_def split: if_split_asm)
    obtain a s1 where f: "sff_free sl s = Inr (a, s1)"
      using eq True sl by (cases "sff_free sl s") (auto simp: x_def split: if_split_asm)
    show ?thesis
      using eq True sl f still_sff_free [OF f] put by (auto simp: x_def split: if_split_asm)
  qed
qed

lemma still_hls_write:
  assumes "hls_write k c ds s = Inr (n, c', s')"
  shows "still s s'"
proof -
  have "s' = s \<or> (\<exists>i h. s' = put_hls i h s)"
    using assms unfolding hls_write_def then_do_eq_Inr by (auto split: if_split_asm option.split_asm)
  then show ?thesis by auto
qed

lemma still_receive_segment: "receive_segment k c s = Inr (Some (n, ko, c', s')) \<Longrightarrow> still s s'"
  by (auto simp: receive_segment_def split: if_splits dest!: more_recv_any still_more still_hls_write intro: still_trans)

lemma still_receive_upload: "receive_upload k c s = Inr (Some (n, ko, c', s')) \<Longrightarrow> still s s'"
  by (auto simp: receive_upload_def dest!: more_drain still_more)

lemma still_receive_rest:
  assumes "receive_rest c k p s = Inr (Some (n, ko, c', s'))"
  shows "still s s'"
proof -
  obtain r c1 s1 where rv: "conn_recv (sff_size p - sff_wpos p) c s = (r, c1, s1)" by (metis prod_cases3)
  have q: "still s s1" using still_more [OF more_recv [OF rv]] .
  have "\<exists>p'. s' = put_sff k p' s1 \<or> (\<exists>c2. sff_write c1 k (put_sff k p' s1) = Inr (c2, s'))"
    using assms unfolding receive_rest_def Let_def rv split_conv then_do_eq_Inr
    by (auto split: if_split_asm)
  then show ?thesis using q still_sff_write still_trans still_put_sff by metis
qed

lemma still_receive_new:
  assumes "receive_new k c s = Inr (Some (n, ko, c', s'))"
  shows "still s s'"
proof -
  obtain len f c1 s1 where sy: "sync_loop (replicate 8 NUL) c s = (len, f, c1, s1)" by (metis surj_pair)
  have q1: "still s s1" using still_more [OF more_sync_loop [OF sy]] .
  note eq = assms [unfolded receive_new_def Let_def sy split_conv]
  show ?thesis
  proof (cases f)
    case None
    then show ?thesis using eq q1 by simp
  next
    case (Some h)
    obtain t sz where h: "h = (t, sz)" by force
    obtain r c2 s2 where rv: "conn_recv (uint sz) c1 s1 = (r, c2, s2)" by (metis prod_cases3)
    have q2: "still s s2" using still_trans [OF q1 still_more [OF more_recv [OF rv]]] .
    note eq2 = eq [unfolded Some h option.case split_conv rv]
    show ?thesis
    proof (cases "k_malloc k (log s1) 32 \<and> k_malloc k (log s1) (uint sz)")
      case False
      then show ?thesis using eq2 by simp
    next
      case True
      then obtain d where d: "mem_wr (k_junk k (unat sz)) 0 (case r of Got bs \<Rightarrow> bs | Failed _ \<Rightarrow> []) = Inr d"
        using eq2 by (auto split: if_split_asm)
      obtain j s3 where nw: "new_sff \<lparr>sff_type = t, sff_size = uint sz, sff_data = d,
           sff_wpos = int (length (case r of Got bs \<Rightarrow> bs | Failed _ \<Rightarrow> [])), sff_wflag = 0\<rparr> s2 = (j, s3)"
        by force
      have "s' = s3 \<or> (\<exists>c3 c4. sff_write c3 j s3 = Inr (c4, s'))"
        using eq2 True unfolding d then_do_simps nw split_conv by (auto split: if_split_asm)
      then show ?thesis using q2 still_sff_write still_new_sff [OF nw] still_trans by metis
    qed
  qed
qed

lemma still_receive_packet:
  assumes "receive_packet k c s = Inr (Some (n, ko, c', s'))"
  shows "still s s'"
proof (cases "sff c")
  case None
  then show ?thesis using assms still_receive_new unfolding receive_packet_def by simp
next
  case (Some j)
  then obtain p where "get_sff j s = Inr p" "receive_rest c j p s = Inr (Some (n, ko, c', s'))"
    using assms unfolding receive_packet_def by (auto split: if_split_asm)
  then show ?thesis using still_receive_rest by blast
qed

lemma frame_wake_one: "wake_one i t j s = Inr s' \<Longrightarrow> frame s s'"
proof -
  assume w: "wake_one i t j s = Inr s'"
  then obtain c2 where g: "get_conn j s = Inr c2" unfolding wake_one_def then_do_eq_Inr by blast
  note jd = get_conn_dom [OF g]
  show ?thesis
  proof (cases "state c2 = HTTPSTATE_WAIT_FEED")
    case False
    then show ?thesis using w unfolding wake_one_def g by simp
  next
    case True
    then obtain c where gi: "get_conn i s = Inr c"
      using w unfolding wake_one_def g by auto
    note eq = w [unfolded wake_one_def g then_do_simps if_P [OF True] gi]
    obtain att where att: "(if feed_ctx c2 = None \<and> post c2 = 0 then c_strcmp_eq (url c2) (url c) else Inr False) = Inr att"
      using eq unfolding then_do_eq_Inr by blast
    note eq = eq [unfolded att then_do_simps]
    obtain s1 where step: "(if att then
              let s1 = put_conn j (c2\<lparr>feed_ctx := Some i\<rparr>) s in
              then_do (get_conn i s1) (\<lambda>c. Inr (put_conn i (c\<lparr>sff_ref_cnt := sff_ref_cnt c + 1\<rparr>) s1))
            else Inr s) = Inr s1"
      using eq unfolding then_do_eq_Inr by blast
    then have s1: "s1 = s \<or> (\<exists>a b. s1 = put_conn i a (put_conn j b s))"
      by (auto simp: Let_def split: if_split_asm)
    have s': "s' = s1 \<or> (\<exists>d. s' = put_conn j d s1)"
      using eq [unfolded step then_do_simps] unfolding then_do_eq_Inr by (auto split: if_split_asm)
    note id = get_conn_dom [OF gi]
    have "frame s s1" using s1 id jd by (auto intro!: frame_put_conn)
    then show ?thesis using s' jd by (auto intro!: frame_put_conn)
  qed
qed

lemma frame_wake_others: "wake_others i t s = Inr s' \<Longrightarrow> frame s s'"
proof -
  have "wake_loop i t js s = Inr s' \<Longrightarrow> frame s s'" for js
    by (induction js arbitrary: s) (auto dest!: frame_wake_one intro: frame_trans)
  then show "wake_others i t s = Inr s' \<Longrightarrow> frame s s'" by (simp add: wake_others_def)
qed

lemma frame_receive_wake: "receive_wake i c ko s = Inr (n, s') \<Longrightarrow> frame s s'"
  by (auto simp: receive_wake_def split: option.splits dest: frame_wake_others)

lemma frame_receive_end:
  assumes "receive_end i c ko s = Inr (n, s')" "i \<in> dom (conns s)"
  shows "frame s s'"
proof (cases "hls_idx c < 0 \<and> 0 \<le> local_fd c")
  case True
  then obtain c2 where "s' = put_conn i c2 (sys_note (SysClose (local_fd c)) s)"
    using assms(1) unfolding receive_end_def by (auto simp: Let_def)
  moreover have "frame s (sys_note (SysClose (local_fd c)) s)" by (rule still_frame) simp
  ultimately show ?thesis using frame_put_conn assms(2) by simp
next
  case False
  note eq = assms(1) [unfolded receive_end_def if_not_P [OF False]]
  obtain s1 where fin: "(if 0 \<le> hls_idx c then
                   then_do (get_hls (hls_idx c) s) (\<lambda>h. Inr (put_hls (hls_idx c) (h\<lparr>hls_flag := 2\<rparr>) s))
                 else Inr s) = Inr s1"
    using eq unfolding then_do_eq_Inr by blast
  then have s1: "still s s1" by (auto split: if_split_asm)
  obtain s2 where w: "wake_others i HTTPSTATE_SEND_DATA_TRAILER (put_conn i c s1) = Inr s2"
    using eq [unfolded fin then_do_simps] unfolding then_do_eq_Inr by blast
  have rest: "s' = s2 \<or> (\<exists>c2. receive_wake i c2 ko s2 = Inr (n, s'))"
    using eq [unfolded fin then_do_simps w] unfolding then_do_eq_Inr by (auto split: if_split_asm)
  have "frame s s2"
    using frame_trans [OF frame_put_conn [OF still_frame [OF s1] assms(2)] frame_wake_others [OF w]] .
  then show ?thesis using rest frame_receive_wake frame_trans by metis
qed

lemma frame_receive_data:
  assumes "http_receive_data k i s = Inr (n, s')"
  shows "frame s s'"
proof -
  obtain c where g: "get_conn i s = Inr c" using assms unfolding http_receive_data_def by auto
  note id = get_conn_dom [OF g]
  obtain r where r: "(if 0 \<le> hls_idx c then receive_segment k c s
        else if 0 \<le> local_fd c then receive_upload k c s else receive_packet k c s) = Inr r"
    using assms unfolding http_receive_data_def g by auto
  note eq = assms [unfolded http_receive_data_def g then_do_simps r]
  show ?thesis
  proof (cases r)
    case None
    then show ?thesis using eq by simp
  next
    case (Some x)
    obtain len ko c1 s1 where x: "x = (len, ko, c1, s1)" by (metis prod_cases4)
    have st: "still s s1"
      using r still_receive_segment still_receive_upload still_receive_packet unfolding Some x
      by (auto split: if_split_asm)
    then have i1: "i \<in> dom (conns s1)" using id by (simp add: still_def)
    show ?thesis
      using eq unfolding Some x option.case split_conv
      using frame_receive_end [OF _ i1] frame_receive_wake frame_put_conn [OF still_frame [OF st] id]
        still_frame [OF st] frame_trans
      by (metis (no_types, lifting))
  qed
qed

section \<open>Requests\<close>

lemma more_content: "read_request_content c b n w = Inr (r, b', c', w') \<Longrightarrow> world.more w' = world.more w"
proof -
  assume r: "read_request_content c b n w = Inr (r, b', c', w')"
  obtain x c1 w1 where rv: "conn_recv (to_int32 (min (n - 2) (content_length c))) c w = (x, c1, w1)"
    by (metis prod_cases3)
  have "w' = w1" using r unfolding read_request_content_def Let_def rv by (auto split: io_result.splits)
  with more_recv [OF rv] show ?thesis by simp
qed

lemma still_content: "read_request_content c b n s = Inr (r, b', c', s') \<Longrightarrow> still s s'"
  by (rule still_more [OF more_content])

lemma still_hls_parse: "hls_parse_request k c u f s = Inr (r, c', s') \<Longrightarrow> still s s'"
  by (erule hls_parse_request_cases)
     (auto simp: hls_open_writer_def Let_def, auto simp: still_def hls_close_def)

lemma still_not_modified: "answer_not_modified k c dt f s = Inr (r, c', s') \<Longrightarrow> still s s'"
  by (auto simp: answer_not_modified_def Let_def split: if_splits prod.splits)

lemma still_chunked: "answer_chunked k c dt f s = Inr (r, c', s') \<Longrightarrow> still s s'"
  by (auto simp: answer_chunked_def Let_def split: if_splits prod.splits)

lemma still_whole:
  assumes "answer_whole k c rd st dt f s = Inr (r, c', s')"
  shows "still s s'"
proof -
  obtain a b part where pr: "parse_range (range rd) (st_size st) = (a, b, part)" by (metis prod_cases3)
  have q: "still s s1" if "sys_read k f n (sys_note (SysSeek f a) s) = (x, s1)" for n x s1
    using still_trans [OF _ still_more [OF more_read [OF that]]] by simp
  show ?thesis
    using assms unfolding answer_whole_def pr
    by (auto simp: Let_def dest!: q split: if_splits prod.splits io_result.splits)
qed

lemma still_local:
  assumes "prepare_local_file k c rd s = Inr (r, c', s')"
  shows "still s s'"
proof (cases "url c")
  case None
  then show ?thesis using assms by (simp add: prepare_local_file_def)
next
  case (Some u)
  obtain n s1 where op: "sys_open k (''./'' @ u) False s = (n, s1)" by force
  obtain m lm et where m: "\<And>st. dir_is_modifed k c st = (m st, lm st, et st)"
    using that [of "\<lambda>st. fst (dir_is_modifed k c st)" "\<lambda>st. fst (snd (dir_is_modifed k c st))"
        "\<lambda>st. snd (snd (dir_is_modifed k c st))"] by simp
  have q: "still s s1" by (rule still_more [OF more_open [OF op]])
  show ?thesis
    using assms q unfolding prepare_local_file_def Some op m option.case Let_def split_conv
    by (auto split: if_splits option.splits intro!: still_trans [OF q] dest: still_not_modified still_chunked still_whole)
qed

fun out_frame :: "server \<Rightarrow> parse_out \<Rightarrow> bool" where
  "out_frame s (Return n c' s') = frame s s'"
| "out_frame s (SendHeader c' s') = frame s s'"
| "out_frame s (SendError m c' s') = frame s s'"

lemma frame_request_hls: "request_hls k c u f m s = Inr out \<Longrightarrow> out_frame s out"
  by (auto simp: request_hls_def Let_def split: if_splits dest!: still_hls_parse intro: still_frame)

lemma frame_request_feed:
  assumes "request_feed k i c u rq m s = Inr out"
  shows "out_frame s out"
proof (cases "post c \<noteq> 0")
  case True
  then show ?thesis using assms unfolding request_feed_def
    by (auto split: option.splits if_splits)
next
  case False
  then obtain n c1 s1 where l: "prepare_local_file k c rq s = Inr (n, c1, s1)"
    using assms unfolding request_feed_def by auto
  have f: "frame s s1" by (rule still_frame [OF still_local [OF l]])
  have pj: "frame s (put_conn j w s1)" if "get_conn j s1 = Inr w'" for j w w'
    using frame_put_conn [OF f] get_conn_dom [OF that] f by (simp add: frame_def)
  show ?thesis
    using assms False f unfolding request_feed_def l
    by (auto split: option.splits if_splits intro!: pj)
qed

lemma out_frame_trans: "frame s s1 \<Longrightarrow> out_frame s1 out \<Longrightarrow> out_frame s out"
  by (cases out) (auto intro: frame_trans)

lemma frame_request_rest:
  assumes "request_rest k i c u rq f m s = Inr out"
  shows "out_frame s out"
proof -
  define cond where "cond \<longleftrightarrow> post c \<noteq> 0 \<and> content_length c \<noteq> 0 \<and> strncmp u ''stream/'' 7 \<noteq> 0
    \<and> \<not> av_match_ext (Some u) ''m3u8'' \<and> \<not> av_match_ext (Some u) ''ts'' \<and> \<not> av_match_ext (Some u) ''flv''"
  have step: "out_frame s out"
    if "(if is_segment u then request_hls k c1 u f m s1 else request_feed k i c1 u rq1 m s1) = Inr out"
      "frame s s1" for c1 s1 rq1
    using that out_frame_trans [OF that(2)] frame_request_hls frame_request_feed by (auto split: if_splits)
  show ?thesis
  proof (cases cond)
    case False
    then show ?thesis
      using assms step [of c s rq] unfolding request_rest_def cond_def [symmetric] by simp
  next
    case True
    then obtain n b c1 s1 where rc: "read_request_content (c\<lparr>post := 0\<rparr>) (content rq) 512 s = Inr (n, b, c1, s1)"
      using assms unfolding request_rest_def cond_def [symmetric] by auto
    show ?thesis
      using assms step [of "c1\<lparr>content_length := n\<rparr>" s1 "rq\<lparr>content := b\<rparr>"] True still_frame [OF still_content [OF rc]]
      unfolding request_rest_def cond_def [symmetric] by (simp add: rc)
  qed
qed

lemma frame_finish:
  "finish_request i rq out = Inr (n, s') \<Longrightarrow> out_frame s out \<Longrightarrow> i \<in> dom (conns s) \<Longrightarrow> frame s s'"
  by (cases out) (auto simp: finish_request_def intro!: frame_put_conn)

lemma still_delete: "request_delete k c u s = Inr (n, c', s') \<Longrightarrow> still s s'"
  by (auto simp: request_delete_def dir_delete_file_def split: if_splits option.splits)

lemma still_upload:
  assumes "request_upload k c u rq s = Inr (n, c', s')"
  shows "still s s'"
proof -
  obtain m s2 where op: "sys_open k (take 1023 (''./upload/'' @ drop 7 u)) True s = (m, s2)" by force
  note q = still_more [OF more_open [OF op]]
  have "s' = s \<or> s' = s2"
    using assms unfolding request_upload_def op Let_def split_conv
    by (cases "content_length c > DIR_UPLOAD_MAX_SIZE"; cases "checkToken c s \<noteq> 0"; cases "m < 0";
        cases "av_strcasecmp (expect rq) ''100-continue'' = 0") auto
  with q show ?thesis by auto
qed

lemma still_sign:
  assumes "request_sign k c rq s = Inr (n, c', s')"
  shows "still s s'"
proof -
  obtain m b c1 s1 where rc: "read_request_content c (content rq) 512 s = Inr (m, b, c1, s1)"
    using assms unfolding request_sign_def by (auto simp: Let_def)
  have "s' = s1 \<or> (\<exists>e. s' = sys_note e s1)"
    using assms unfolding request_sign_def rc Let_def by (auto split: if_splits option.splits)
  then show ?thesis using still_content [OF rc] by auto
qed

lemma frame_parse_request:
  assumes "http_parse_request k i s = Some (Inr (n, s'))"
  shows "frame s s'"
proof -
  obtain c where g: "get_conn i s = Inr c"
    using assms unfolding http_parse_request_def by (cases "get_conn i s") auto
  note id = get_conn_dom [OF g]
  have put: "frame s (put_conn i a s1)" if "still s s1" for a s1
    using frame_put_conn [OF still_frame [OF that] id] .
  obtain r c1 rq m where p: "parse_lines k (log s) (drop (nat (buffer_off c)) (buffer c)) c rd_zero (k_junk k 1024)
      = Some (Inr (r, c1, rq, m))"
    using assms unfolding http_parse_request_def g by (auto split: option.split_asm sum.split_asm)
  have dis: "frame s s'" if "dispatch_request k i c1 u rq m s = Inr (n, s')" for u
  proof -
    note dq = that
    obtain r0 c0 where d: "(if post c1 = 0 then dir_list_local k c1 s else Inr (0, c1)) = Inr (r0, c0)"
      using dq unfolding dispatch_request_def by (auto simp: Let_def)
    show ?thesis
      using dq unfolding dispatch_request_def Let_def d then_do_simps split_conv
      by (auto split: if_split_asm dest!: still_delete still_upload still_sign
          dest: frame_finish [OF _ frame_request_rest id] intro: put)
  qed
  show ?thesis
    using assms dis put [OF still_refl] unfolding http_parse_request_def g sum.case p option.case
    by (auto split: if_split_asm option.split_asm)
qed

section \<open>Sending\<close>

lemma still_put_region: "put_region r b c s = (c', s') \<Longrightarrow> still s s'"
  by (cases r) (auto simp: put_region_def, auto simp: still_def)

lemma still_wr_ptr:
  assumes "wr_ptr p ds c s = Inr (c', s')"
  shows "still s s'"
proof -
  obtain b where "put_region (fst p) b c s = (c', s')"
    using assms unfolding wr_ptr_def then_do_eq_Inr by blast
  then show ?thesis by (rule still_put_region)
qed

lemma still_chunk_frame:
  assumes "add_chunk_frame c s = Inr (c', s')"
  shows "still s s'"
  using assms unfolding add_chunk_frame_def Let_def
  by (auto dest!: still_wr_ptr intro: still_trans)

lemma still_local_data:
  assumes "local_prepare_data k c s = Inr (n, c', s')"
  shows "still s s'"
proof -
  obtain r s1 where rd: "sys_read k (local_fd c) (buffer_size c) s = (r, s1)" by force
  note q = still_more [OF more_read [OF rd]]
  have "s' = s \<or> s' = s1 \<or> (\<exists>e. s' = sys_note e s1)"
    using assms unfolding local_prepare_data_def rd Let_def split_conv then_do_eq_Inr
    by (auto split: if_split_asm)
  with q show ?thesis by auto
qed

lemma still_send_prepare:
  assumes "send_prepare k c s = Inr (n, c', s')"
  shows "still s s'"
proof -
  define c0 where "c0 = c\<lparr>buffer_off := buffer_off c + CHUNK_HEAD_LEN, buffer_size := buffer_size c - (CHUNK_HEAD_LEN + 2)\<rparr>"
  obtain n1 c1 s1 where src: "(if 0 \<le> hls_idx c0 then then_do (hls_read c0 s) (\<lambda>(ret, c1). Inr (ret, c1, s))
         else if local_fd c0 = -1 then then_do (sff_prepare_data c0 s) (\<lambda>(ret, c1). Inr (ret, c1, s))
         else local_prepare_data k c0 s) = Inr (n1, c1, s1)"
    using assms unfolding send_prepare_def Let_def c0_def [symmetric] then_do_eq_Inr by auto
  have st: "still s s1" using src by (auto split: if_split_asm dest: still_local_data)
  note eq = assms [unfolded send_prepare_def Let_def c0_def [symmetric] src then_do_simps split_conv]
  have "s' = s1 \<or> (\<exists>c2 c3. add_chunk_frame c2 s1 = Inr (c3, s'))"
    using eq unfolding then_do_eq_Inr by (auto split: if_split_asm)
  then show ?thesis using st still_chunk_frame still_trans by blast
qed

lemma still_send_bytes:
  assumes "send_bytes c s = Inr (n, c', s')"
  shows "still s s'"
proof -
  obtain x ds where x: "ptr_diff (buffer_end c) (buffer_ptr c) = Inr x" "rd_ptr s c (buffer_ptr c) x = Inr ds"
    using assms unfolding send_bytes_def then_do_eq_Inr by blast
  obtain len c1 s1 where cs: "conn_send ds c s = (len, c1, s1)" by (metis prod_cases3)
  have "s' = s1"
    using assms unfolding send_bytes_def x then_do_simps Let_def cs split_conv by (auto split: if_split_asm)
  then show ?thesis using still_more [OF more_send [OF cs]] by simp
qed

lemma still_send_data:
  assumes "http_send_data k c s = Some (Inr (n, c', s'))"
  shows "still s s'"
proof -
  have "\<forall>n c' s'. Inr (n, c', s') = (Inr (n, c', s') :: (int \<times> HTTPContext \<times> server) result) \<longrightarrow>
     (\<forall>r. http_send_data k c s = Some r \<longrightarrow> r = Inr (n, c', s') \<longrightarrow> still s s')"
  proof (intro allI impI)
    fix n c' s' r
    assume r: "http_send_data k c s = Some r" and e: "r = Inr (n, c', s')"
    have "\<forall>n c' s'. r = Inr (n, c', s') \<longrightarrow> still s s'"
    proof (rule http_send_data.raw_induct [where P = "\<lambda>k c s r. \<forall>n c' s'. r = Inr (n, c', s') \<longrightarrow> still s s'", OF _ r])
      fix f k c s and r :: "(int \<times> HTTPContext \<times> server) result"
      assume IH: "\<And>k c s r. f k c s = Some r \<Longrightarrow> \<forall>n c' s'. r = Inr (n, c', s') \<longrightarrow> still s s'"
        and body: "(case ptr_diff (buffer_end c) (buffer_ptr c) of Inl e \<Rightarrow> Some (Inl e)
         | Inr left \<Rightarrow> if left \<le> 0 then (case send_prepare k c s of
               Inl e \<Rightarrow> Some (Inl e)
             | Inr (ret, c1, s1) \<Rightarrow>
                 if ret < 0 then Some (Inr (-1, c1, s1))
                 else if 0 < ret then
                   Some (if state c1 = HTTPSTATE_WAIT_REQUEST
                         then then_do (buffer_restart c1) (\<lambda>c2. Inr (0, c2, s1))
                         else Inr (0, c1, s1))
                 else f k c1 s1)
            else Some (send_bytes c s)) = Some r"
      show "\<forall>n c' s'. r = Inr (n, c', s') \<longrightarrow> still s s'"
      proof (intro allI impI)
        fix n c' s'
        assume e: "r = Inr (n, c', s')"
        obtain left where l: "ptr_diff (buffer_end c) (buffer_ptr c) = Inr left"
          using body e by (cases "ptr_diff (buffer_end c) (buffer_ptr c)") auto
        show "still s s'"
        proof (cases "left \<le> 0")
          case False
          then have "send_bytes c s = Inr (n, c', s')" using body e l by simp
          then show ?thesis by (rule still_send_bytes)
        next
          case True
          then obtain ret c1 s1 where p: "send_prepare k c s = Inr (ret, c1, s1)"
            using body e l by (cases "send_prepare k c s") auto
          note q = still_send_prepare [OF p]
          show ?thesis
          proof (cases "ret = 0")
            case True
            then have "f k c1 s1 = Some (Inr (n, c', s'))" using body e l p \<open>left \<le> 0\<close> by simp
            from IH [OF this] q still_trans show ?thesis by blast
          next
            case False
            then have "s' = s1" using body e l p \<open>left \<le> 0\<close> by (auto split: if_split_asm)
            with q show ?thesis by simp
          qed
        qed
      qed
    qed
    with e show "still s s'" by blast
  qed
  with assms show ?thesis by blast
qed

section \<open>Handlers\<close>

lemma still_read_loop: "read_loop c s = Inr (r, c', s') \<Longrightarrow> still s s'"
proof (induction c s rule: read_loop.induct)
  case (1 c s)
  obtain x c1 s1 where rv: "conn_recv 1 c s = (x, c1, s1)" by (metis prod_cases3)
  note q = still_more [OF more_recv [OF rv]]
  note eq = "1.prems" [unfolded read_loop.simps [of c s] rv split_conv]
  show ?case
  proof (cases x)
    case (Failed e)
    then show ?thesis using eq q by simp
  next
    case (Got bs)
    show ?thesis
    proof (cases bs)
      case Nil
      then show ?thesis using Got eq q by simp
    next
      case (Cons b bs')
      note eq = eq [unfolded Got Cons io_result.case list.case]
      obtain c2 s2 where w: "wr_ptr (buffer_ptr c1) (b # bs') c1 s1 = Inr (c2, s2)"
        using eq unfolding then_do_eq_Inr by auto
      note q2 = still_trans [OF q still_wr_ptr [OF w]]
      note eq = eq [unfolded w then_do_simps split_conv Let_def]
      let ?c3 = "c2\<lparr>buffer_ptr := ptr_add (buffer_ptr c2) (int (length (b # bs')))\<rparr>"
      obtain found where f: "ends_request ?c3 s2 = Inr found" using eq unfolding then_do_eq_Inr by blast
      note eq = eq [unfolded f then_do_simps]
      show ?thesis
      proof (cases found)
        case True
        then show ?thesis using eq q2 by simp
      next
        case False
        obtain over where o: "ptr_diff (buffer_ptr ?c3) (buffer_end ?c3) = Inr over"
          using eq unfolding if_not_P [OF False] then_do_eq_Inr by blast
        note eq = eq [unfolded if_not_P [OF False] o then_do_simps]
        show ?thesis
        proof (cases "0 \<le> over")
          case True
          then show ?thesis using eq q2 by simp
        next
          case no: False
          then have "read_loop ?c3 s2 = Inr (r, c', s')" using eq by simp
          from "1.IH" [OF rv [symmetric] Got Cons refl w refl refl f False o no this] q2 still_trans
          show ?thesis by blast
        qed
      qed
    qed
  qed
qed

lemma still_send_header:
  assumes "handle_send_header c s = Inr (n, c', s')"
  shows "still s s'"
proof -
  obtain x ds where x: "ptr_diff (buffer_end c) (buffer_ptr c) = Inr x" "rd_ptr s c (buffer_ptr c) x = Inr ds"
    using assms unfolding handle_send_header_def then_do_eq_Inr by blast
  obtain len c1 s1 where cs: "conn_send ds c s = (len, c1, s1)" by (metis prod_cases3)
  have "s' = s1"
    using assms unfolding handle_send_header_def x then_do_simps Let_def cs split_conv by (auto split: if_split_asm)
  then show ?thesis using still_more [OF more_send [OF cs]] by simp
qed

lemma frame_put_hls_left: "frame (put_hls i h s) s' \<Longrightarrow> frame s s'"
  by (simp add: frame_def put_hls_def)

lemma frame_receive_data_handler:
  assumes "handle_receive_data k i c r s = Inr (n, s')"
  shows "frame s s'"
  using assms unfolding handle_receive_data_def
  by (auto split: if_split_asm dest!: frame_wake_others frame_receive_data dest: frame_put_hls_left)

lemma frame_handle:
  assumes "handle_connection k i s = Some (Inr (n, s'))"
  shows "frame s s'"
proof -
  obtain c where g: "get_conn i s = Inr c"
    using assms unfolding handle_connection_def by (cases "get_conn i s") auto
  note id = get_conn_dom [OF g]
  have put: "frame s (put_conn i a s1)" if "still s s1" for a s1
    using frame_put_conn [OF still_frame [OF that] id] .
  have wait: "frame s s'" if w: "handle_wait_request k i c r s = Some (Inr (n, s'))" for r
  proof (cases "pollerr r \<or> \<not> pollin r")
    case True
    then show ?thesis using w unfolding handle_wait_request_def by (auto split: if_split_asm)
  next
    case False
    obtain x c1 s1 where rl: "read_loop c s = Inr (x, c1, s1)"
      using w False unfolding handle_wait_request_def by (cases "read_loop c s") auto
    note p = put [OF still_read_loop [OF rl], of c1]
    show ?thesis
    proof (cases x)
      case RdRequest
      then obtain ret where "http_parse_request k i (put_conn i c1 s1) = Some (Inr (ret, s'))"
        using w False rl unfolding handle_wait_request_def by auto
      with frame_parse_request p frame_trans show ?thesis by blast
    qed (use w False rl p in \<open>auto simp: handle_wait_request_def\<close>)
  qed
  have send: "frame s s'" if "handle_send_data k i c s = Some (Inr (n, s'))"
  proof -
    note sd = that
    obtain y where y: "http_send_data k c s = Some y"
      and e: "then_do y (\<lambda>(ret, c1, s1).
        Inr (if ret < 0 \<or> state c1 = HTTPSTATE_SEND_DATA_TRAILER then -1 else 0, put_conn i c1 s1)) = Inr (n, s')"
      using sd unfolding handle_send_data_def by (cases "http_send_data k c s") auto
    then obtain ret c1 s1 where "y = Inr (ret, c1, s1)" "s' = put_conn i c1 s1" by auto
    then show ?thesis using put still_send_data y by blast
  qed
  have head: "frame s s'" if "then_do (handle_send_header c s) (\<lambda>(ret, c1, s1). Inr (ret, put_conn i c1 s1)) = Inr (n, s')"
    using that put still_send_header by auto
  show ?thesis
    using assms wait send head frame_receive_data_handler unfolding handle_connection_def g sum.case
    by (cases "revents_of c"; cases "state c")
       (auto split: if_split_asm)
qed

section \<open>The list of connections\<close>

definition list_ok :: "server \<Rightarrow> bool" where
  "list_ok s \<longleftrightarrow> distinct (first_http_ctx s) \<and> set (first_http_ctx s) = dom (conns s)
     \<and> nb_connections s = int (length (first_http_ctx s)) \<and> (\<forall>j \<in> dom (conns s). j < next_id s)
     \<and> nb_connections s \<le> nb_max_connections s \<and> nb_max_connections s = 1000"

lemma list_ok_frame: "list_ok s \<Longrightarrow> frame s s' \<Longrightarrow> list_ok s'"
  unfolding list_ok_def frame_def by (metis order_less_le_trans)

lemma unlink_filter: "unlink i js s = Inr r \<Longrightarrow> r = filter (\<lambda>j. j \<noteq> i) js"
  by (induction js arbitrary: r) (auto split: if_split_asm)

lemma frame_reset: "sff_reset c s = Inr (c', s') \<Longrightarrow> frame s s'"
  by (auto simp: sff_reset_def split: if_split_asm option.split_asm
      dest: still_sff_free_all get_conn_dom intro: still_frame intro!: frame_put_conn)

lemma length_remove_one:
  "distinct js \<Longrightarrow> i \<in> set js \<Longrightarrow> int (length (filter (\<lambda>j. j \<noteq> i) js)) = int (length js) - 1"
proof (induction js)
  case (Cons a js)
  have "filter (\<lambda>j. j \<noteq> i) js = js" if "i \<notin> set js" using that by (auto simp: filter_id_conv)
  with Cons show ?case by auto
qed simp

lemma close_list_ok:
  assumes "close_connection i s = Inr s'" "list_ok s"
  shows "list_ok s' \<and> i \<notin> dom (conns s') \<and> nb_max_connections s' = nb_max_connections s
     \<and> dom (conns s') = dom (conns s) - {i}"
proof -
  obtain c where g: "get_conn i s = Inr c" using assms(1) unfolding close_connection_def by auto
  note id = get_conn_dom [OF g]
  obtain chain where u: "unlink i (first_http_ctx s) s = Inr chain"
    using assms(1) unfolding close_connection_def g by auto
  define s2 where "s2 = (if 0 \<le> local_fd c then sys_note (SysClose (local_fd c)) (s\<lparr>first_http_ctx := chain\<rparr>)
      else s\<lparr>first_http_ctx := chain\<rparr>)"
  obtain c1 s3 where r: "sff_reset (c\<lparr>url := None, pb_buffer := None\<rparr>) s2 = Inr (c1, s3)"
    and s': "s' = s3\<lparr>conns := (conns s3)(i := None), nb_connections := nb_connections s3 - 1\<rparr>"
    using assms(1) unfolding close_connection_def g u Let_def then_do_simps s2_def [symmetric]
    by auto
  have f: "frame s2 s3" by (rule frame_reset [OF r])
  have s2: "conns s2 = conns s" "first_http_ctx s2 = chain" "nb_connections s2 = nb_connections s"
    "nb_max_connections s2 = nb_max_connections s" "next_id s2 = next_id s"
    by (simp_all add: s2_def sys_note_def)
  have ch: "chain = filter (\<lambda>j. j \<noteq> i) (first_http_ctx s)" by (rule unlink_filter [OF u])
  have len: "int (length chain) = int (length (first_http_ctx s)) - 1"
    unfolding ch using assms(2) id by (intro length_remove_one) (auto simp: list_ok_def)
  have d: "dom (conns s3) = dom (conns s)" "first_http_ctx s3 = chain" "nb_connections s3 = nb_connections s"
    "nb_max_connections s3 = nb_max_connections s" "next_id s \<le> next_id s3"
    using f s2 by (simp_all add: frame_def)
  have "set chain = dom (conns s) - {i}" using ch assms(2) by (auto simp: list_ok_def)
  moreover have "distinct chain" using ch assms(2) by (simp add: list_ok_def)
  moreover have "dom (conns s') = dom (conns s) - {i}" using d by (simp add: s')
  moreover have "\<forall>j \<in> dom (conns s) - {i}. j < next_id s'"
    using assms(2) d(5) unfolding list_ok_def s' by (auto intro: order_less_le_trans)
  ultimately show ?thesis
    using d len assms(2) unfolding list_ok_def by (simp add: s')
qed

lemma new_list_ok:
  assumes "list_ok s"
  shows "list_ok (fst (new_connection k acc fl ok s))"
proof -
  have busy: "list_ok s1" if "http_send_too_busy_reply c s = (c1, s1)" for c c1 s1
  proof -
    obtain n d t where cs: "conn_send (too_busy_text s) c s = (n, d, t)" by (metis prod_cases3)
    then have "s1 = t" using that unfolding http_send_too_busy_reply_def by simp
    then show ?thesis using list_ok_frame [OF assms still_frame [OF still_more [OF more_send [OF cs]]]] by simp
  qed
  have lt: "j < Suc (next_id s)" if "conns s j = Some y" for j y
    using assms that by (auto simp: list_ok_def intro: less_SucI)
  show ?thesis
    using assms
    by (auto simp: new_connection_def Let_def split: option.split prod.split dest: busy)
       (auto simp: list_ok_def put_conn_def dest: lt)
qed

lemma handle_all_list_ok:
  "handle_all k js s = Some (Inr s') \<Longrightarrow> list_ok s \<Longrightarrow> list_ok s'"
proof (induction js arbitrary: s)
  case (Cons j js)
  obtain ret s1 where h: "handle_connection k j s = Some (Inr (ret, s1))"
    using Cons.prems(1) by (auto split: option.split_asm sum.split_asm)
  have ok1: "list_ok s1" by (rule list_ok_frame [OF Cons.prems(2) frame_handle [OF h]])
  show ?case
  proof (cases "ret < 0")
    case False
    then show ?thesis using Cons.IH [OF _ ok1] Cons.prems(1) h by simp
  next
    case True
    then obtain s2 where c: "close_connection j s1 = Inr s2" and r: "handle_all k js s2 = Some (Inr s')"
      using Cons.prems(1) h by (auto split: sum.split_asm)
    show ?thesis using Cons.IH [OF r] close_list_ok [OF c ok1] by simp
  qed
qed simp

lemma frame_poll_setup: "poll_setup ev n js s = Inr (m, s') \<Longrightarrow> frame s s'"
proof (induction js arbitrary: n s)
  case (Cons j js)
  obtain c where g: "get_conn j s = Inr c" using Cons.prems by auto
  have p: "frame s (put_conn j a s)" for a by (rule frame_put_conn [OF frame_refl get_conn_dom [OF g]])
  show ?case
    using Cons.prems g Cons.IH frame_trans [OF p] by (auto split: if_split_asm)
qed simp

lemma accept_list_ok: "list_ok s \<Longrightarrow> list_ok (accept_phase k ev tls n s)"
  by (simp add: accept_phase_def new_list_ok)

lemma round_list_ok:
  assumes "server_round k http https ev s = Some (Inr (Some s'))" "list_ok s"
  shows "list_ok s'"
proof -
  define n0 where "n0 = (if http then 1 else 0) + (if https then 1 else (0::nat))"
  obtain m s1 where p: "poll_setup (ev_poll ev) n0 (first_http_ctx s) s = Inr (m, s1)"
    using assms(1) unfolding server_round_def Let_def n0_def [symmetric]
    by (cases "poll_setup (ev_poll ev) n0 (first_http_ctx s) s") auto
  have ok1: "list_ok (s1\<lparr>cur_time := ev_now ev\<rparr>)"
    using list_ok_frame [OF assms(2) frame_poll_setup [OF p]] by (simp add: list_ok_def)
  obtain s2 where h: "handle_all k (first_http_ctx s1) (s1\<lparr>cur_time := ev_now ev\<rparr>) = Some (Inr s2)"
    using assms(1) unfolding server_round_def Let_def n0_def [symmetric] p
    by (auto split: if_split_asm option.split_asm sum.split_asm)
  have "list_ok s2" by (rule handle_all_list_ok [OF h ok1])
  moreover have "s' = (let s3 = (if http then accept_phase k ev False 0 s2 else s2) in
      if https then accept_phase k ev True (if http then 1 else 0) s3 else s3)"
    using assms(1) h unfolding server_round_def Let_def n0_def [symmetric] p
    by (auto split: if_split_asm)
  ultimately show ?thesis by (auto simp: Let_def accept_list_ok)
qed

lemma reaches_list_ok: "server_reaches cfg http https s \<Longrightarrow> list_ok s"
proof (induction rule: server_reaches.induct)
  case start
  then show ?case by (simp add: list_ok_def server_of_config_def server_start_def)
qed (rule round_list_ok)

lemma connection_list_facts:
  assumes "server_reaches cfg http https s"
  shows "distinct (first_http_ctx s)" "set (first_http_ctx s) = dom (conns s)"
    "nb_connections s = int (length (first_http_ctx s))" "nb_connections s \<le> 1000"
  using reaches_list_ok [OF assms] by (simp_all add: list_ok_def)

text \<open>C3. In every state the server can reach, whatever the network, the disk and the clock do: the list of
  connections has no duplicate, it holds exactly the connections that are alive (so walking it never
  touches a freed one), the counter is its length, and it never exceeds the limit of 1000.\<close>

theorem connection_list_is_sound:
  assumes "server_reaches cfg http https s"
  shows "distinct (first_http_ctx s) \<and> set (first_http_ctx s) = dom (conns s)
    \<and> nb_connections s = int (length (first_http_ctx s)) \<and> nb_connections s \<le> 1000"
  using connection_list_facts [OF assms] by simp

definition accepting :: round_env where
  "accepting = \<lparr>ev_poll = (\<lambda>_. \<lparr>pollin = True, pollout = False, pollerr = False\<rparr>), ev_poll_fails = False,
     ev_now = 5, ev_accept = (\<lambda>_. Some (sock_with ''GET'')), ev_ssl_ok = True\<rparr>"

definition after_accept :: server where
  "after_accept = accept_phase kernel_empty_disk accepting False 0 ((server_of_config config_zero)\<lparr>cur_time := 5\<rparr>)"

lemma reaches_after_accept: "server_reaches config_zero True False after_accept"
proof -
  have "server_round kernel_empty_disk True False accepting (server_of_config config_zero) = Some (Inr (Some after_accept))"
    by (simp add: server_round_def server_of_config_def server_start_def accepting_def after_accept_def)
  then show ?thesis using server_reaches.start server_reaches.round by blast
qed

theorem connection_list_witness:
  "server_reaches config_zero True False after_accept \<and> first_http_ctx after_accept = [0]
   \<and> nb_connections after_accept = int (length [0::nat]) \<and> dom (conns after_accept) = {0}"
proof -
  have l: "first_http_ctx after_accept = [0]"
    by (simp add: after_accept_def accept_phase_def accepting_def new_connection_def server_of_config_def server_start_def
        kernel_empty_disk_def Let_def)
  show ?thesis
    using connection_list_is_sound [OF reaches_after_accept] reaches_after_accept unfolding l by simp
qed

section \<open>The poll table\<close>

lemma poll_setup_fits:
  assumes "\<forall>j \<in> set js. j \<in> dom (conns s)" "int n + int (length js) \<le> nb_max_http_connections + 1"
  shows "\<exists>m s'. poll_setup ev n js s = Inr (m, s') \<and> m \<le> n + length js"
  using assms
proof (induction js arbitrary: n s)
  case (Cons j js)
  then obtain c where g: "get_conn j s = Inr c" by (auto simp: get_conn_def)
  have d: "\<forall>i \<in> set js. i \<in> dom (conns (put_conn j a s))" for a
    using Cons.prems(1) by (auto simp: put_conn_def)
  have "\<exists>m s'. poll_setup ev n js (put_conn j a s) = Inr (m, s') \<and> m \<le> n + length js" for a
    using Cons.prems(2) by (intro Cons.IH d) simp
  moreover have "\<exists>m s'. poll_setup ev (n + 1) js (put_conn j a s) = Inr (m, s') \<and> m \<le> (n + 1) + length js" for a
    using Cons.prems(2) by (intro Cons.IH d) simp
  ultimately show ?case
    using g Cons.prems(2) by (cases "state c = HTTPSTATE_CLOSE") (fastforce intro: le_SucI)+
qed simp

text \<open>With one listening socket the poll table is large enough in every reachable state: filling it
  succeeds and uses at most the 1001 entries it was allocated with.\<close>

theorem poll_table_fits_one_listener:
  assumes "server_reaches cfg http https s" "\<not> (http \<and> https)"
  shows "\<exists>m s'. poll_setup ev ((if http then 1 else 0) + (if https then 1 else 0)) (first_http_ctx s) s = Inr (m, s')
     \<and> int m \<le> nb_max_http_connections + 1"
proof -
  let ?n = "(if http then 1 else 0) + (if https then 1 else 0) :: nat"
  have n: "?n \<le> 1" using assms(2) by auto
  have l: "int (length (first_http_ctx s)) \<le> 1000"
    using connection_list_facts [OF assms(1)] by simp
  have "\<exists>m s'. poll_setup ev ?n (first_http_ctx s) s = Inr (m, s') \<and> m \<le> ?n + length (first_http_ctx s)"
    using connection_list_facts [OF assms(1)] l n by (intro poll_setup_fits) (auto simp: nb_max_http_connections_def)
  then show ?thesis using l n by (fastforce simp: nb_max_http_connections_def)
qed

theorem poll_table_fits_witness:
  "\<exists>m s'. poll_setup (\<lambda>_. no_events) ((if True then 1 else 0) + (if False then 1 else 0)) (first_http_ctx after_accept) after_accept
     = Inr (m, s') \<and> int m \<le> nb_max_http_connections + 1"
  by (rule poll_table_fits_one_listener [OF reaches_after_accept]) simp

lemma poll_setup_overflows:
  assumes "\<forall>j \<in> set js. \<exists>c. conns s j = Some c \<and> state c \<noteq> HTTPSTATE_CLOSE" "distinct js"
    "nb_max_http_connections + 1 < int n + int (length js)" "int n \<le> nb_max_http_connections + 1"
  shows "poll_setup ev n js s = Inl OutOfBounds"
  using assms
proof (induction js arbitrary: n s)
  case (Cons j js)
  then obtain c where g: "get_conn j s = Inr c" "state c \<noteq> HTTPSTATE_CLOSE" by (auto simp: get_conn_def)
  have d: "\<forall>i \<in> set js. \<exists>c. conns (put_conn j a s) i = Some c \<and> state c \<noteq> HTTPSTATE_CLOSE" for a
    using Cons.prems by (auto simp: put_conn_def)
  have "poll_setup ev (n + 1) js (put_conn j a s) = Inl OutOfBounds"
    if "\<not> nb_max_http_connections + 1 \<le> int n" for a
    using Cons.prems that by (intro Cons.IH d) auto
  then show ?case using g by auto
qed simp

text \<open>With both listening sockets open it is one entry too small: once the full number of 1000 connections
  is there, the next round writes behind the end of the table.\<close>

theorem poll_table_overflows_two_listeners:
  assumes "length (first_http_ctx s) = 1000" "distinct (first_http_ctx s)"
    and "\<forall>j \<in> set (first_http_ctx s). \<exists>c. conns s j = Some c \<and> state c \<noteq> HTTPSTATE_CLOSE"
  shows "server_round k True True ev s = Some (Inl OutOfBounds)"
proof -
  have "poll_setup (ev_poll ev) 2 (first_http_ctx s) s = Inl OutOfBounds"
    by (rule poll_setup_overflows) (use assms in \<open>auto simp: nb_max_http_connections_def\<close>)
  then show ?thesis by (simp add: server_round_def numeral_2_eq_2)
qed

theorem poll_table_overflows_witness:
  "server_round kernel_empty_disk True True accepting
     (server_start\<lparr>first_http_ctx := [0..<1000], conns := (\<lambda>j. if j < 1000 then Some (ctx_demo []) else None)\<rparr>)
   = Some (Inl OutOfBounds)"
  by (rule poll_table_overflows_two_listeners) (auto simp: ctx_demo_def ctx_zero_def)

section \<open>A closed feed\<close>


definition feed_pair :: server where
  "feed_pair = server_start\<lparr>first_http_ctx := [1, 0], nb_connections := 2, next_id := 2, nb_max_connections := 1000,
     conns := [0 \<mapsto> (ctx_demo [])\<lparr>post := 1\<rparr>, 1 \<mapsto> (ctx_demo [])\<lparr>feed_ctx := Some 0\<rparr>]\<rparr>"

lemma sff_free_all_none: "sff_free_all (replicate n None) s = Inr (replicate n None, s)"
  by (induction n) (simp_all add: sff_free_def)


end
