(* ===== verification/StreamHeader.thy ===== *)
theory StreamHeader
  imports HttpText
begin

text \<open>
  The stream header file of \<open>src/ff_header.c\<close>: how the descriptions of the streams are written to the
  8192 bytes of the header and read back.  A \<open>double\<close> is the 64 bits \<open>av_double2int\<close> gives; what the
  code computes with doubles (\<open>(int)(x * 1000)\<close> and \<open>x / 1000.0\<close>) are parameters.
\<close>

section \<open>Big-endian fields\<close>

text \<open>\<open>W8\<close>, \<open>WB16\<close>, \<open>WB32\<close>, \<open>WB64\<close> write the low \<open>n\<close> bytes, \<open>R8\<close> to \<open>RB64\<close> read them.\<close>

fun wbn :: "nat \<Rightarrow> 64 word \<Rightarrow> byte list" where
  "wbn 0 v = []"
| "wbn (Suc n) v = wbn n (drop_bit 8 v) @ [ucast v]"

fun rbn :: "64 word \<Rightarrow> byte list \<Rightarrow> 64 word" where
  "rbn a [] = a"
| "rbn a (b # bs) = rbn (push_bit 8 a OR ucast b) bs"

lemma length_wbn [simp]: "length (wbn n v) = n"
  by (induction n v rule: wbn.induct) simp_all

lemma rbn_append: "rbn a (xs @ ys) = rbn (rbn a xs) ys"
  by (induction a xs rule: rbn.induct) simp_all

lemma take_bit_split: "take_bit (8 * Suc n) (v :: 64 word) = push_bit 8 (take_bit (8 * n) (drop_bit 8 v)) OR take_bit 8 v"
  by (rule bit_word_eqI) (auto simp: bit_simps)

lemma ucast_ucast_byte: "(ucast (ucast v :: byte) :: 64 word) = take_bit 8 v"
  by (rule bit_word_eqI) (auto simp: bit_simps)

lemma rbn_wbn: "rbn 0 (wbn n v) = take_bit (8 * n) v"
proof (induction n v rule: wbn.induct)
  case (2 n v)
  then show ?case using take_bit_split [of n v] by (simp add: rbn_append ucast_ucast_byte)
qed simp

type_synonym fields = "(nat \<times> 64 word) list"

definition field_bytes :: "fields \<Rightarrow> byte list" where
  "field_bytes fs = concat (map (\<lambda>(n, v). wbn n v) fs)"

fun read_vals :: "nat list \<Rightarrow> byte list \<Rightarrow> (64 word list \<times> byte list) result" where
  "read_vals [] bs = Inr ([], bs)"
| "read_vals (n # ns) bs =
     (if length bs < n then Inl OutOfBounds
      else then_do (read_vals ns (drop n bs)) (\<lambda>(vs, r). Inr (rbn 0 (take n bs) # vs, r)))"

lemma read_vals_fields:
  "read_vals (map fst fs) (field_bytes fs @ rest) = Inr (map (\<lambda>(n, v). take_bit (8 * n) v) fs, rest)"
  by (induction fs) (auto simp: field_bytes_def rbn_wbn)

section \<open>Streams\<close>

record video_params =
  v_tb_num :: "32 word"
  v_tb_den :: "32 word"
  width :: "32 word"
  height :: "32 word"
  gop_size :: "32 word"
  pix_fmt :: "32 word"
  qmin :: "32 word"
  qmax :: "32 word"
  max_qdiff :: "32 word"
  qcompress :: "64 word"
  qblur :: "64 word"
  bit_rate_tolerance :: "32 word"
  rc_max_rate :: "32 word"
  rc_min_rate :: "32 word"
  rc_buffer_size :: "32 word"
  i_quant_factor :: "64 word"
  b_quant_factor :: "64 word"
  i_quant_offset :: "64 word"
  b_quant_offset :: "64 word"
  dct_algo :: "32 word"
  strict_std_compliance :: "32 word"
  max_b_frames :: "32 word"
  mpeg_quant :: "32 word"
  intra_dc_precision :: "32 word"
  me_method :: "32 word"
  mb_decision :: "32 word"
  nsse_weight :: "32 word"
  frame_skip_cmp :: "32 word"
  rc_buffer_aggressivity :: "64 word"
  codec_tag :: "32 word"
  thread_count :: "32 word"
  coder_type :: "32 word"
  me_cmp :: "32 word"
  me_subpel_quality :: "32 word"
  me_range :: "32 word"
  keyint_min :: "32 word"
  scenechange_threshold :: "32 word"
  b_frame_strategy :: "32 word"
  refs :: "32 word"

record audio_params =
  sample_rate :: "32 word"
  channels :: "32 word"
  frame_size :: "32 word"

record AVStream =
  pts_wrap_bits :: "32 word"
  tb_num :: "32 word"
  tb_den :: "32 word"
  codec_id :: "32 word"
  codec_type :: "32 word"
  bit_rate :: "32 word"
  flags :: "32 word"
  flags2 :: "32 word"
  debug :: "32 word"
  extradata :: "byte list"
  video :: video_params
  audio :: audio_params

abbreviation HEADER_SIZE :: nat where "HEADER_SIZE \<equiv> 8192"
abbreviation TYPE_VIDEO :: "32 word" where "TYPE_VIDEO \<equiv> 0"
abbreviation TYPE_AUDIO :: "32 word" where "TYPE_AUDIO \<equiv> 1"

definition GLOBAL_HEADER :: "32 word" where "GLOBAL_HEADER = 0x00400000"

section \<open>Writing\<close>

text \<open>\<open>pb\<close> as the bytes written so far: a write behind the end of the buffer is a fault.\<close>

definition put_fields :: "nat \<Rightarrow> fields \<Rightarrow> byte list \<Rightarrow> byte list result" where
  "put_fields lim fs out =
     (if length out + length (field_bytes fs) \<le> lim then Inr (out @ field_bytes fs) else Inl OutOfBounds)"

definition video_fields :: "(64 word \<Rightarrow> 64 word) \<Rightarrow> video_params \<Rightarrow> fields" where
  "video_fields k1000 v =
     [(4, ucast (v_tb_num v)), (4, ucast (v_tb_den v)), (2, ucast (width v)), (2, ucast (height v)),
      (2, ucast (gop_size v)), (4, ucast (pix_fmt v)), (1, ucast (qmin v)), (1, ucast (qmax v)),
      (1, ucast (max_qdiff v)), (2, k1000 (qcompress v)), (2, k1000 (qblur v)),
      (4, ucast (bit_rate_tolerance v)), (4, ucast (rc_max_rate v)), (4, ucast (rc_min_rate v)),
      (4, ucast (rc_buffer_size v)), (8, i_quant_factor v), (8, b_quant_factor v),
      (8, i_quant_offset v), (8, b_quant_offset v), (4, ucast (dct_algo v)),
      (4, ucast (strict_std_compliance v)), (4, ucast (max_b_frames v)), (4, ucast (mpeg_quant v)),
      (4, ucast (intra_dc_precision v)), (4, ucast (me_method v)), (4, ucast (mb_decision v)),
      (4, ucast (nsse_weight v)), (4, ucast (frame_skip_cmp v)), (8, rc_buffer_aggressivity v),
      (4, ucast (codec_tag v)), (1, ucast (thread_count v)), (4, ucast (coder_type v)),
      (4, ucast (me_cmp v)), (4, ucast (me_subpel_quality v)), (4, ucast (me_range v)),
      (4, ucast (keyint_min v)), (4, ucast (scenechange_threshold v)), (4, ucast (b_frame_strategy v)),
      (8, qcompress v), (8, qblur v), (4, ucast (max_qdiff v)), (4, ucast (refs v))]"

definition audio_fields :: "audio_params \<Rightarrow> fields" where
  "audio_fields a = [(4, ucast (sample_rate a)), (2, ucast (channels a)), (2, ucast (frame_size a))]"

definition stream_flags :: "AVStream \<Rightarrow> 32 word" where
  "stream_flags st = (if extradata st \<noteq> [] then flags st OR GLOBAL_HEADER else flags st)"

definition time_fields :: "AVStream \<Rightarrow> fields" where
  "time_fields st = [(4, ucast (pts_wrap_bits st)), (4, ucast (tb_num st)), (4, ucast (tb_den st))]"

definition generic_fields :: "AVStream \<Rightarrow> fields" where
  "generic_fields st =
     [(4, ucast (codec_id st)), (1, ucast (codec_type st)), (4, ucast (bit_rate st)),
      (4, ucast (stream_flags st)), (4, ucast (flags2 st)), (4, ucast (debug st))]"

text \<open>One stream.  \<open>Inl r\<close> inside is an early return of the whole function.\<close>

definition write_stream ::
  "(64 word \<Rightarrow> 64 word) \<Rightarrow> int \<Rightarrow> AVStream \<Rightarrow> byte list \<Rightarrow> (int + byte list) result" where
  "write_stream k1000 sz st out =
     then_do (put_fields HEADER_SIZE (time_fields st) out) (\<lambda>o1.
       if codec_id st = 0 then Inr (Inl 0)
       else
         then_do (put_fields HEADER_SIZE (generic_fields st) o1) (\<lambda>o2.
         then_do
           (if stream_flags st AND GLOBAL_HEADER \<noteq> 0 then
              (if int (length o2) + int (length (extradata st)) > sz - 57 * 4 then Inr (Inl 0)
               else
                 then_do (put_fields HEADER_SIZE [(4, word_of_nat (length (extradata st)))] o2) (\<lambda>o3.
                   if length o3 + length (extradata st) \<le> HEADER_SIZE then Inr (Inr (o3 @ extradata st))
                   else Inl OutOfBounds))
            else Inr (Inr o2)) (\<lambda>r.
          case r of
            Inl n \<Rightarrow> Inr (Inl n)
          | Inr o4 \<Rightarrow>
              if codec_type st = TYPE_VIDEO then
                then_do (put_fields HEADER_SIZE (video_fields k1000 (video st)) o4) (\<lambda>o5. Inr (Inr o5))
              else if codec_type st = TYPE_AUDIO then
                then_do (put_fields HEADER_SIZE (audio_fields (audio st)) o4) (\<lambda>o5. Inr (Inr o5))
              else Inr (Inl (-1)))))"

fun write_streams ::
  "(64 word \<Rightarrow> 64 word) \<Rightarrow> int \<Rightarrow> AVStream list \<Rightarrow> byte list \<Rightarrow> (int + byte list) result" where
  "write_streams k1000 sz [] out = Inr (Inr out)"
| "write_streams k1000 sz (st # sts) out =
     then_do (write_stream k1000 sz st out) (\<lambda>r.
       case r of Inl n \<Rightarrow> Inr (Inl n) | Inr o1 \<Rightarrow> write_streams k1000 sz sts o1)"

definition header_write ::
  "(64 word \<Rightarrow> 64 word) \<Rightarrow> AVStream list \<Rightarrow> int \<Rightarrow> (int \<times> byte list) result" where
  "header_write k1000 sts sz =
     then_do (put_fields HEADER_SIZE
                [(4, word_of_nat (length sts)), (4, ucast (sum_list (map bit_rate sts)))] []) (\<lambda>o1.
     then_do (write_streams k1000 sz sts o1) (\<lambda>r.
       case r of Inl n \<Rightarrow> Inr (n, []) | Inr o2 \<Rightarrow> Inr (int (length o2), o2)))"

section \<open>Reading\<close>

definition video_of :: "64 word list \<Rightarrow> video_params" where
  "video_of x =
     \<lparr>v_tb_num = ucast (x ! 0), v_tb_den = ucast (x ! 1), width = ucast (x ! 2), height = ucast (x ! 3),
      gop_size = ucast (x ! 4), pix_fmt = ucast (x ! 5), qmin = ucast (x ! 6), qmax = ucast (x ! 7),
      max_qdiff = ucast (x ! 40), qcompress = x ! 38, qblur = x ! 39,
      bit_rate_tolerance = ucast (x ! 11), rc_max_rate = ucast (x ! 12), rc_min_rate = ucast (x ! 13),
      rc_buffer_size = ucast (x ! 14), i_quant_factor = x ! 15, b_quant_factor = x ! 16,
      i_quant_offset = x ! 17, b_quant_offset = x ! 18, dct_algo = ucast (x ! 19),
      strict_std_compliance = ucast (x ! 20), max_b_frames = ucast (x ! 21), mpeg_quant = ucast (x ! 22),
      intra_dc_precision = ucast (x ! 23), me_method = ucast (x ! 24), mb_decision = ucast (x ! 25),
      nsse_weight = ucast (x ! 26), frame_skip_cmp = ucast (x ! 27), rc_buffer_aggressivity = x ! 28,
      codec_tag = ucast (x ! 29), thread_count = ucast (x ! 30), coder_type = ucast (x ! 31),
      me_cmp = ucast (x ! 32), me_subpel_quality = ucast (x ! 33), me_range = ucast (x ! 34),
      keyint_min = ucast (x ! 35), scenechange_threshold = ucast (x ! 36), b_frame_strategy = ucast (x ! 37),
      refs = ucast (x ! 41)\<rparr>"

definition video_sizes :: "nat list" where
  "video_sizes = [4, 4, 2, 2, 2, 4, 1, 1, 1, 2, 2, 4, 4, 4, 4, 8, 8, 8, 8, 4, 4, 4, 4, 4, 4, 4, 4, 4, 8,
     4, 1, 4, 4, 4, 4, 4, 4, 4, 8, 8, 4, 4]"

definition audio_of :: "64 word list \<Rightarrow> audio_params" where
  "audio_of x = \<lparr>sample_rate = ucast (x ! 0), channels = ucast (x ! 1), frame_size = ucast (x ! 2)\<rparr>"

text \<open>
  \<open>st0\<close> is the stream \<open>avformat_new_stream\<close> makes (\<open>None\<close> when it fails), \<open>xok n\<close> whether
  \<open>ff_alloc_extradata\<close> gives a block of \<open>n\<close> bytes; its result is not looked at.  \<open>None\<close> as a value is
  the label \<open>fail\<close>.  \<open>pos\<close> is \<open>pb - pb0\<close>.
\<close>

definition read_extra ::
  "(int \<Rightarrow> bool) \<Rightarrow> int \<Rightarrow> int \<Rightarrow> byte list \<Rightarrow> (byte list \<times> byte list) option result" where
  "read_extra xok sz pos bs =
     then_do (read_vals [4] bs) (\<lambda>(vs, r).
       let n = to_int32 (uint (vs ! 0)) in
       if pos + 4 + n > sz - 57 * 4 then Inr None
       else if n < 0 \<or> \<not> xok n \<and> n \<noteq> 0 then Inl NullDeref
       else if length r < nat n then Inl OutOfBounds
       else Inr (Some (take (nat n) r, drop (nat n) r)))"

definition read_stream ::
  "AVStream option \<Rightarrow> (int \<Rightarrow> bool) \<Rightarrow> int \<Rightarrow> int \<Rightarrow> byte list \<Rightarrow> (AVStream \<times> byte list) option result" where
  "read_stream st0 xok sz pos bs =
     (case st0 of
        None \<Rightarrow> Inr None
      | Some st \<Rightarrow>
          then_do (read_vals [4, 4, 4, 4, 1, 4, 4, 4, 4] bs) (\<lambda>(x, r).
            let st1 = st\<lparr>pts_wrap_bits := ucast (x ! 0), tb_num := ucast (x ! 1), tb_den := ucast (x ! 2),
                         codec_id := ucast (x ! 3), codec_type := ucast (x ! 4), bit_rate := ucast (x ! 5),
                         flags := ucast (x ! 6), flags2 := ucast (x ! 7), debug := ucast (x ! 8)\<rparr> in
            if codec_id st1 = 0 then Inr None
            else
              then_do
                (if flags st1 AND GLOBAL_HEADER \<noteq> 0 then
                   then_do (read_extra xok sz (pos + 33) r) (\<lambda>e.
                     Inr (map_option (\<lambda>(ds, r1). (st1\<lparr>extradata := ds\<rparr>, r1)) e))
                 else Inr (Some (st1, r))) (\<lambda>y.
               case y of
                 None \<Rightarrow> Inr None
               | Some (st2, r2) \<Rightarrow>
                   if codec_type st2 = TYPE_VIDEO then
                     then_do (read_vals video_sizes r2) (\<lambda>(v, r3). Inr (Some (st2\<lparr>video := video_of v\<rparr>, r3)))
                   else if codec_type st2 = TYPE_AUDIO then
                     then_do (read_vals [4, 2, 2] r2) (\<lambda>(a, r3). Inr (Some (st2\<lparr>audio := audio_of a\<rparr>, r3)))
                   else Inr None)))"

fun read_streams ::
  "(nat \<Rightarrow> AVStream option) \<Rightarrow> (int \<Rightarrow> bool) \<Rightarrow> int \<Rightarrow> nat \<Rightarrow> nat \<Rightarrow> byte list
   \<Rightarrow> (AVStream list \<times> byte list) option result" where
  "read_streams new xok sz 0 i bs = Inr (Some ([], bs))"
| "read_streams new xok sz (Suc n) i bs =
     then_do (read_stream (new i) xok sz (int HEADER_SIZE - int (length bs)) bs) (\<lambda>y.
       case y of
         None \<Rightarrow> Inr None
       | Some (st, r) \<Rightarrow>
           then_do (read_streams new xok sz n (Suc i) r) (\<lambda>z.
             Inr (map_option (\<lambda>(sts, r1). (st # sts, r1)) z)))"

text \<open>\<open>pb\<close> holds the whole buffer; on \<open>fail\<close> every stream is freed again and the result is 0.\<close>

definition header_read ::
  "(nat \<Rightarrow> AVStream option) \<Rightarrow> (int \<Rightarrow> bool) \<Rightarrow> byte list \<Rightarrow> int \<Rightarrow> (int \<times> AVStream list) result" where
  "header_read new xok pb sz =
     then_do (read_vals [4, 4] pb) (\<lambda>(x, r).
     then_do (read_streams new xok sz (nat (to_int32 (uint (x ! 0)))) 0 r) (\<lambda>y.
       case y of
         None \<Rightarrow> Inr (0, [])
       | Some (sts, r1) \<Rightarrow> Inr (int (length pb) - int (length r1), sts)))"

section \<open>The file\<close>

text \<open>The name is printed into 128 bytes without a bound.\<close>

definition header_file_name :: "string \<Rightarrow> int \<Rightarrow> string result" where
  "header_file_name name postfix =
     (let t = ''/var/ffh.'' @ name @ ''.'' @ int_str postfix in
      if length t < 128 then Inr t else Inl OutOfBounds)"

definition ff_header_write ::
  "(64 word \<Rightarrow> 64 word) \<Rightarrow> bool \<Rightarrow> (string \<Rightarrow> bool) \<Rightarrow> AVStream list \<Rightarrow> string \<Rightarrow> int
   \<Rightarrow> (int \<times> (string \<times> byte list) option) result" where
  "ff_header_write k1000 mem_ok open_ok sts name postfix =
     (if sts = [] then Inr (0, None)
      else if \<not> mem_ok then Inr (0, None)
      else
        then_do (header_write k1000 sts (int HEADER_SIZE)) (\<lambda>(len, bs).
          if len \<le> 0 then Inr (0, None)
          else then_do (header_file_name name postfix) (\<lambda>f.
            if open_ok f then Inr (len, Some (f, take (nat len) bs)) else Inr (0, None))))"

definition ff_header_read ::
  "(nat \<Rightarrow> AVStream option) \<Rightarrow> (int \<Rightarrow> bool) \<Rightarrow> bool \<Rightarrow> (string \<Rightarrow> byte list option) \<Rightarrow> AVStream list
   \<Rightarrow> string \<Rightarrow> int \<Rightarrow> (int \<times> AVStream list) result" where
  "ff_header_read new xok mem_ok disk sts name postfix =
     (if sts \<noteq> [] then Inr (0, sts)
      else if \<not> mem_ok then Inr (0, [])
      else
        then_do (header_file_name name postfix) (\<lambda>f.
          case disk f of
            None \<Rightarrow> Inr (0, [])
          | Some bs \<Rightarrow>
              let d = take HEADER_SIZE bs in
              header_read new xok (d @ replicate (HEADER_SIZE - length d) 0) (int HEADER_SIZE)))"

section \<open>Round trip\<close>

text \<open>
  What survives: every number that fits its field, and the extra data when the flag says there is some.
\<close>

definition fits :: "nat \<Rightarrow> 32 word \<Rightarrow> bool" where
  "fits n v \<longleftrightarrow> uint v < 2 ^ (8 * n)"

definition stream_fits :: "AVStream \<Rightarrow> bool" where
  "stream_fits st \<longleftrightarrow> codec_id st \<noteq> 0
     \<and> (codec_type st = TYPE_VIDEO \<and>
          (\<forall>v \<in> {width (video st), height (video st), gop_size (video st)}. fits 2 v) \<and>
          (\<forall>v \<in> {qmin (video st), qmax (video st), thread_count (video st)}. fits 1 v)
        \<or> codec_type st = TYPE_AUDIO \<and> fits 2 (channels (audio st)) \<and> fits 2 (frame_size (audio st)))"

text \<open>The stream as it comes back into the fresh \<open>st0\<close>.\<close>

definition read_back :: "AVStream \<Rightarrow> AVStream \<Rightarrow> AVStream" where
  "read_back st0 st =
     st\<lparr>flags := stream_flags st,
        extradata := (if stream_flags st AND GLOBAL_HEADER \<noteq> 0 then extradata st else extradata st0),
        video := (if codec_type st = TYPE_VIDEO then video st else video st0),
        audio := (if codec_type st = TYPE_AUDIO then audio st else audio st0)\<rparr>"

lemma ucast_take_32 [simp]: "(ucast (take_bit 32 (ucast v :: 64 word)) :: 32 word) = v"
  by (rule bit_word_eqI) (auto simp: bit_simps)

lemma ucast_take_fits:
  assumes "fits n v" "8 * n \<le> 32"
  shows "(ucast (take_bit (8 * n) (ucast v :: 64 word)) :: 32 word) = v"
proof -
  have "take_bit (8 * n) v = v"
    using assms(1) by (simp add: fits_def word_uint_eq_iff unsigned_take_bit_eq take_bit_int_eq_self)
  moreover have "(ucast (take_bit (8 * n) (ucast v :: 64 word)) :: 32 word) = take_bit (8 * n) v"
    by (rule bit_word_eqI) (use assms(2) in \<open>auto simp: bit_simps\<close>)
  ultimately show ?thesis by simp
qed

lemma take_bit_64 [simp]: "take_bit 64 (v :: 64 word) = v"
  by (rule bit_word_eqI) (auto simp: bit_simps)

lemma video_of_fields:
  assumes "\<forall>x \<in> {width v, height v, gop_size v}. fits 2 x" "\<forall>x \<in> {qmin v, qmax v, thread_count v}. fits 1 x"
  shows "video_of (map (\<lambda>(n, v). take_bit (8 * n) v) (video_fields k v)) = v"
  using assms ucast_take_fits [of 2] ucast_take_fits [of 1]
  by (cases v) (simp add: video_of_def video_fields_def)

lemma audio_of_fields:
  assumes "fits 2 (channels a)" "fits 2 (frame_size a)"
  shows "audio_of (map (\<lambda>(n, v). take_bit (8 * n) v) (audio_fields a)) = a"
  using assms ucast_take_fits [of 2] by (cases a) (simp add: audio_of_def audio_fields_def)

lemma video_sizes_fields: "map fst (video_fields k v) = video_sizes"
  by (simp add: video_fields_def video_sizes_def)

lemma length_field_bytes [simp]: "length (field_bytes fs) = sum_list (map fst fs)"
  by (induction fs) (auto simp: field_bytes_def)

lemma put_fields_Inr: "put_fields lim fs out = Inr out' \<longleftrightarrow>
    length out + sum_list (map fst fs) \<le> lim \<and> out' = out @ field_bytes fs"
  by (auto simp: put_fields_def)

text \<open>What one stream adds to the header.\<close>

definition extra_bytes :: "AVStream \<Rightarrow> byte list" where
  "extra_bytes st =
     (if stream_flags st AND GLOBAL_HEADER \<noteq> 0
      then field_bytes [(4, word_of_nat (length (extradata st)))] @ extradata st else [])"

definition spec_bytes :: "(64 word \<Rightarrow> 64 word) \<Rightarrow> AVStream \<Rightarrow> byte list" where
  "spec_bytes k st = (if codec_type st = TYPE_VIDEO then field_bytes (video_fields k (video st))
                      else field_bytes (audio_fields (audio st)))"

lemma write_stream_Inr:
  assumes "write_stream k sz st out = Inr (Inr out')"
  shows "out' = out @ field_bytes (time_fields st) @ field_bytes (generic_fields st) @ extra_bytes st @ spec_bytes k st"
    and "stream_flags st AND GLOBAL_HEADER \<noteq> 0 \<longrightarrow>
           int (length out) + 33 + int (length (extradata st)) \<le> sz - 57 * 4"
    and "length out' \<le> HEADER_SIZE" "codec_id st \<noteq> 0" "codec_type st = TYPE_VIDEO \<or> codec_type st = TYPE_AUDIO"
  using assms unfolding write_stream_def
  by (auto simp: put_fields_Inr extra_bytes_def spec_bytes_def time_fields_def generic_fields_def
      split: if_split_asm)

lemma extra_length: "n < 2 ^ 31 \<Longrightarrow> to_int32 (uint (take_bit 32 (word_of_nat n :: 64 word))) = int n"
proof -
  assume n: "n < 2 ^ 31"
  have "uint (take_bit 32 (word_of_nat n :: 64 word)) = int n"
    using n by (simp add: unsigned_take_bit_eq uint_word_of_int_eq take_bit_int_eq_self unsigned_of_nat
        take_bit_nat_eq_self take_bit_int_eq_self_iff uint_nat)
  with n sint_word_of_int_32 [of "int n"] show ?thesis by (simp add: to_int32_def)
qed

lemma read_extra_written:
  assumes "length ds < 2 ^ 31" "pos + 4 + int (length ds) \<le> sz - 57 * 4" "\<forall>n \<ge> 0. xok n"
  shows "read_extra xok sz pos (field_bytes [(4, word_of_nat (length ds))] @ ds @ rest) = Inr (Some (ds, rest))"
proof -
  have "read_vals [4] (field_bytes [(4, word_of_nat (length ds))] @ ds @ rest)
      = Inr ([take_bit 32 (word_of_nat (length ds))], ds @ rest)"
    using read_vals_fields [of "[(4, word_of_nat (length ds))]" "ds @ rest"] by simp
  then show ?thesis
    using assms by (simp add: read_extra_def extra_length Let_def)
qed

lemma read_stream_written:
  assumes "stream_fits st" "\<forall>n \<ge> 0. xok n" "length (extradata st) < 2 ^ 31"
    and "stream_flags st AND GLOBAL_HEADER \<noteq> 0 \<longrightarrow> pos + 37 + int (length (extradata st)) \<le> sz - 57 * 4"
  shows "read_stream (Some st0) xok sz pos
           (field_bytes (time_fields st) @ field_bytes (generic_fields st) @ extra_bytes st @ spec_bytes k st @ rest)
       = Inr (Some (read_back st0 st, rest))"
proof -
  let ?g = "time_fields st @ generic_fields st" and ?r = "extra_bytes st @ spec_bytes k st @ rest"
  let ?st1 = "st0\<lparr>pts_wrap_bits := pts_wrap_bits st, tb_num := tb_num st, tb_den := tb_den st,
                  codec_id := codec_id st, codec_type := codec_type st, bit_rate := bit_rate st,
                  flags := stream_flags st, flags2 := flags2 st, debug := debug st\<rparr>"
  have gb: "field_bytes (time_fields st) @ field_bytes (generic_fields st) @ ?r = field_bytes ?g @ ?r"
    by (simp add: field_bytes_def)
  have gs: "map fst ?g = [4, 4, 4, 4, 1, 4, 4, 4, 4]" by (simp add: time_fields_def generic_fields_def)
  note rg = read_vals_fields [of ?g ?r, unfolded gs]
  have ty: "codec_type st = TYPE_VIDEO \<or> codec_type st = TYPE_AUDIO" using assms(1) by (auto simp: stream_fits_def)
  then have tyb: "(ucast (take_bit 8 (ucast (codec_type st) :: 64 word)) :: 32 word) = codec_type st" by auto
  let ?x = "map (\<lambda>(n, v). take_bit (8 * n) v) ?g"
  have x: "st0\<lparr>pts_wrap_bits := ucast (?x ! 0), tb_num := ucast (?x ! 1), tb_den := ucast (?x ! 2),
                         codec_id := ucast (?x ! 3), codec_type := ucast (?x ! 4), bit_rate := ucast (?x ! 5),
                         flags := ucast (?x ! 6), flags2 := ucast (?x ! 7), debug := ucast (?x ! 8)\<rparr> = ?st1"
    using tyb by (simp add: time_fields_def generic_fields_def)
  have id: "codec_id ?st1 \<noteq> 0" using assms(1) by (simp add: stream_fits_def)
  define e where "e = (if stream_flags st AND GLOBAL_HEADER \<noteq> 0 then extradata st else extradata st0)"
  have ex: "(if flags ?st1 AND GLOBAL_HEADER \<noteq> 0 then
                   then_do (read_extra xok sz (pos + 33) ?r) (\<lambda>e.
                     Inr (map_option (\<lambda>(ds, r1). (?st1\<lparr>extradata := ds\<rparr>, r1)) e))
                 else Inr (Some (?st1, ?r))) = Inr (Some (?st1\<lparr>extradata := e\<rparr>, spec_bytes k st @ rest))"
  proof (cases "stream_flags st AND GLOBAL_HEADER \<noteq> 0")
    case True
    have "read_extra xok sz (pos + 33) (field_bytes [(4, word_of_nat (length (extradata st)))] @ extradata st @ spec_bytes k st @ rest)
        = Inr (Some (extradata st, spec_bytes k st @ rest))"
      using assms True by (intro read_extra_written) auto
    then show ?thesis using True by (simp add: extra_bytes_def e_def)
  next
    case False
    then show ?thesis by (simp add: extra_bytes_def e_def)
  qed
  have body: "read_stream (Some st0) xok sz pos (field_bytes ?g @ ?r) =
     (if codec_type st = TYPE_VIDEO then
        then_do (read_vals video_sizes (spec_bytes k st @ rest)) (\<lambda>(v, r3).
          Inr (Some (?st1\<lparr>extradata := e, video := video_of v\<rparr>, r3)))
      else if codec_type st = TYPE_AUDIO then
        then_do (read_vals [4, 2, 2] (spec_bytes k st @ rest)) (\<lambda>(a, r3).
          Inr (Some (?st1\<lparr>extradata := e, audio := audio_of a\<rparr>, r3)))
      else Inr None)"
    unfolding read_stream_def option.case rg then_do_simps split_conv Let_def x if_not_P [OF id] ex
    by simp
  show ?thesis
  proof (cases "codec_type st = TYPE_VIDEO")
    case True
    then have f: "video_of (map (\<lambda>(n, v). take_bit (8 * n) v) (video_fields k (video st))) = video st"
      using assms(1) by (intro video_of_fields) (auto simp: stream_fits_def)
    have "read_vals video_sizes (spec_bytes k st @ rest)
        = Inr (map (\<lambda>(n, v). take_bit (8 * n) v) (video_fields k (video st)), rest)"
      using read_vals_fields [of "video_fields k (video st)" rest] True
      by (simp add: spec_bytes_def video_sizes_fields)
    then show ?thesis unfolding gb body using True f by (simp add: read_back_def e_def)
  next
    case False
    then have t: "codec_type st = TYPE_AUDIO" using ty by simp
    then have f: "audio_of (map (\<lambda>(n, v). take_bit (8 * n) v) (audio_fields (audio st))) = audio st"
      using assms(1) by (intro audio_of_fields) (auto simp: stream_fits_def)
    have sz: "map fst (audio_fields (audio st)) = [4, 2, 2]" by (simp add: audio_fields_def)
    have "read_vals [4, 2, 2] (spec_bytes k st @ rest)
        = Inr (map (\<lambda>(n, v). take_bit (8 * n) v) (audio_fields (audio st)), rest)"
      using read_vals_fields [of "audio_fields (audio st)" rest] False
      unfolding sz by (simp add: spec_bytes_def)
    then show ?thesis unfolding gb body using False t f by (simp add: read_back_def e_def)
  qed
qed

lemma write_streams_ConsE:
  assumes "write_streams k sz (st # sts) out = Inr (Inr out')"
  obtains o1 where "write_stream k sz st out = Inr (Inr o1)" "write_streams k sz sts o1 = Inr (Inr out')"
proof -
  obtain r where w: "write_stream k sz st out = Inr r" using assms by (cases "write_stream k sz st out") auto
  then show ?thesis using assms that by (cases r) auto
qed

lemma write_stream_early: "write_stream k sz st out = Inr (Inl n) \<Longrightarrow> n \<le> 0"
  unfolding write_stream_def by (auto split: if_split_asm)

lemma write_streams_early: "write_streams k sz sts out = Inr (Inl n) \<Longrightarrow> n \<le> 0"
proof (induction sts arbitrary: out)
  case (Cons st sts)
  obtain r where w: "write_stream k sz st out = Inr r" using Cons.prems by (cases "write_stream k sz st out") auto
  then show ?case using Cons write_stream_early [of k sz st out] by (cases r) auto
qed simp

lemma write_streams_length:
  "write_streams k sz sts out = Inr (Inr out') \<Longrightarrow>
   length out \<le> length out' \<and> (sts \<noteq> [] \<longrightarrow> length out' \<le> HEADER_SIZE)"
proof (induction sts arbitrary: out)
  case (Cons st sts)
  then obtain o1 where w: "write_stream k sz st out = Inr (Inr o1)" and r: "write_streams k sz sts o1 = Inr (Inr out')"
    by (elim write_streams_ConsE)
  show ?case
  proof (cases "sts = []")
    case True
    then show ?thesis using r write_stream_Inr(1,3) [OF w] by auto
  next
    case False
    then show ?thesis using Cons.IH [OF r] write_stream_Inr(1) [OF w] by simp
  qed
qed simp

text \<open>
  The streams that follow one another, read where they were written.  \<open>tight\<close> is the reader's own
  bound on the extra data, four bytes stricter than the writer's.
\<close>

definition tight :: "int \<Rightarrow> int \<Rightarrow> AVStream \<Rightarrow> bool" where
  "tight sz pos st \<longleftrightarrow>
     (stream_flags st AND GLOBAL_HEADER \<noteq> 0 \<longrightarrow> pos + 37 + int (length (extradata st)) \<le> sz - 57 * 4)"

fun all_tight :: "(64 word \<Rightarrow> 64 word) \<Rightarrow> int \<Rightarrow> AVStream list \<Rightarrow> byte list \<Rightarrow> bool" where
  "all_tight k sz [] out = True"
| "all_tight k sz (st # sts) out =
     (tight sz (int (length out)) st \<and>
      all_tight k sz sts (out @ field_bytes (time_fields st) @ field_bytes (generic_fields st) @ extra_bytes st @ spec_bytes k st))"

lemma read_streams_written:
  assumes "write_streams k sz sts out = Inr (Inr out')" "all_tight k sz sts out"
    and "\<forall>st \<in> set sts. stream_fits st \<and> length (extradata st) < 2 ^ 31" "\<forall>n \<ge> 0. xok n"
    and "\<forall>j < length sts. new (i + j) = Some st0" "length (out' @ rest) = HEADER_SIZE"
  shows "\<exists>tail. out' = out @ tail \<and>
     read_streams new xok sz (length sts) i (tail @ rest) = Inr (Some (map (read_back st0) sts, rest))"
  using assms
proof (induction sts arbitrary: out i)
  case Nil
  then show ?case by simp
next
  case (Cons st sts)
  let ?b = "field_bytes (time_fields st) @ field_bytes (generic_fields st) @ extra_bytes st @ spec_bytes k st"
  obtain o1 where w: "write_stream k sz st out = Inr (Inr o1)" and r: "write_streams k sz sts o1 = Inr (Inr out')"
    using Cons.prems(1) by (elim write_streams_ConsE)
  have o1: "o1 = out @ ?b" using write_stream_Inr(1) [OF w] by simp
  have t: "all_tight k sz sts o1" "tight sz (int (length out)) st" using Cons.prems(2) o1 by simp_all
  have n: "\<forall>j < length sts. new (Suc i + j) = Some st0" "new i = Some st0"
    using Cons.prems(5) by (auto simp: less_Suc_eq_0_disj all_conj_distrib split: nat.splits)
  obtain tail where tl: "out' = o1 @ tail"
    "read_streams new xok sz (length sts) (Suc i) (tail @ rest) = Inr (Some (map (read_back st0) sts, rest))"
    using Cons.IH [OF r t(1) _ Cons.prems(4) n(1) Cons.prems(6)] Cons.prems(3) by auto
  have pos: "int HEADER_SIZE - int (length (?b @ tail @ rest)) = int (length out)"
    using Cons.prems(6) unfolding tl(1) o1 by simp
  have st: "read_stream (Some st0) xok sz (int (length out)) (?b @ tail @ rest)
      = Inr (Some (read_back st0 st, tail @ rest))"
    using read_stream_written [of st xok "int (length out)" sz st0 k "tail @ rest"] Cons.prems(3,4) t(2)
    by (simp add: tight_def)
  have "read_streams new xok sz (length (st # sts)) i (?b @ tail @ rest)
      = Inr (Some (map (read_back st0) (st # sts), rest))"
    unfolding list.size add_Suc_right add_0_right read_streams.simps pos n(2) st by (simp add: tl(2))
  then show ?case using tl(1) o1 by (intro exI [of _ "?b @ tail"]) simp
qed

text \<open>C13. What \<open>header_write\<close> puts into the header, \<open>header_read\<close> gets out again: for any list of audio and video
  streams whose numbers fit their fields and whose extra data keeps to the reader's bound, reading
  the 8192-byte header (zeros behind what was written) consumes exactly the bytes written and
  yields the same streams, field by field; the extra data comes with the global-header flag.\<close>

theorem stream_header_roundtrip:
  assumes "header_write k sts (int HEADER_SIZE) = Inr (n, bs)" "0 < n"
    and "\<forall>st \<in> set sts. stream_fits st \<and> length (extradata st) < 2 ^ 31" "length sts < 2 ^ 31"
    and "all_tight k (int HEADER_SIZE) sts (field_bytes [(4, word_of_nat (length sts)), (4, ucast (sum_list (map bit_rate sts)))])"
    and "\<forall>n \<ge> 0. xok n" "\<forall>j < length sts. new j = Some st0"
  shows "header_read new xok (bs @ replicate (HEADER_SIZE - length bs) 0) (int HEADER_SIZE)
       = Inr (n, map (read_back st0) sts)"
proof -
  let ?f = "[(4, word_of_nat (length sts)), (4, ucast (sum_list (map bit_rate sts)))] :: fields"
  let ?z = "replicate (HEADER_SIZE - length bs) (0 :: byte)"
  have p: "put_fields HEADER_SIZE ?f [] = Inr (field_bytes ?f)" by (simp add: put_fields_def)
  have w: "write_streams k (int HEADER_SIZE) sts (field_bytes ?f) = Inr (Inr bs)" and n: "n = int (length bs)"
  proof -
    obtain r where r: "write_streams k (int HEADER_SIZE) sts (field_bytes ?f) = Inr r"
      using assms(1) unfolding header_write_def p then_do_simps then_do_eq_Inr by blast
    note hw = assms(1) [unfolded header_write_def p then_do_simps r]
    have "\<exists>o1. r = Inr o1"
    proof (cases r)
      case (Inl m)
      then have "m \<le> 0" using r write_streams_early by simp
      then show ?thesis using hw assms(2) Inl by simp
    qed simp
    then show "write_streams k (int HEADER_SIZE) sts (field_bytes ?f) = Inr (Inr bs)" "n = int (length bs)"
      using hw r by auto
  qed
  have l8: "length (field_bytes ?f) = 8" by simp
  have lb: "length bs \<le> HEADER_SIZE \<and> 8 \<le> length bs"
    using write_streams_length [OF w] l8 w by (cases "sts = []") auto
  have "\<forall>j < length sts. new (0 + j) = Some st0" using assms(7) by simp
  moreover have "length (bs @ ?z) = HEADER_SIZE" using lb by simp
  ultimately obtain tail where t: "bs = field_bytes ?f @ tail"
    "read_streams new xok (int HEADER_SIZE) (length sts) 0 (tail @ ?z) = Inr (Some (map (read_back st0) sts, ?z))"
    using read_streams_written [OF w assms(5,3,6)] by blast
  have rv: "read_vals [4, 4] (bs @ ?z) = Inr (map (\<lambda>(n, v). take_bit (8 * n) v) ?f, tail @ ?z)"
    using read_vals_fields [of ?f "tail @ ?z"] t(1) by simp
  have cnt: "nat (to_int32 (uint (map (\<lambda>(n, v). take_bit (8 * n) v) ?f ! 0))) = length sts"
    using extra_length [OF assms(4)] by simp
  have len: "int (length (bs @ ?z)) - int (length ?z) = n" using n by simp
  show ?thesis
    unfolding header_read_def rv then_do_simps split_conv cnt t(2) option.case len ..
qed

definition stream_zero :: AVStream where
  "stream_zero =
     \<lparr>pts_wrap_bits = 0, tb_num = 0, tb_den = 0, codec_id = 0, codec_type = 0, bit_rate = 0, flags = 0,
      flags2 = 0, debug = 0, extradata = [], video = video_of (replicate 42 0), audio = audio_of [0, 0, 0]\<rparr>"

definition demo_audio :: AVStream where
  "demo_audio = stream_zero\<lparr>pts_wrap_bits := 33, tb_num := 1, tb_den := 90000, codec_id := 0x15002, codec_type := TYPE_AUDIO,
     extradata := [0x12, 0x10], audio := \<lparr>sample_rate = 44100, channels = 2, frame_size = 1024\<rparr>\<rparr>"

theorem stream_header_roundtrip_witness:
  "\<exists>n bs. header_write (\<lambda>_. 0) [demo_audio] (int HEADER_SIZE) = Inr (n, bs)
     \<and> header_read (\<lambda>_. Some stream_zero) (\<lambda>_. True) (bs @ replicate (HEADER_SIZE - length bs) 0) (int HEADER_SIZE)
       = Inr (n, [read_back stream_zero demo_audio])"
proof -
  let ?f = "[(4, word_of_nat (length [demo_audio])), (4, ucast (sum_list (map bit_rate [demo_audio])))] :: fields"
  have w: "\<exists>n bs. header_write (\<lambda>_. 0) [demo_audio] (int HEADER_SIZE) = Inr (n, bs) \<and> 0 < n"
    by (simp add: header_write_def write_stream_def put_fields_def time_fields_def generic_fields_def audio_fields_def
        stream_flags_def demo_audio_def stream_zero_def GLOBAL_HEADER_def)
  have f: "\<forall>st \<in> set [demo_audio]. stream_fits st \<and> length (extradata st) < 2 ^ 31"
    by (simp add: stream_fits_def demo_audio_def stream_zero_def fits_def)
  have t: "all_tight (\<lambda>_. 0) (int HEADER_SIZE) [demo_audio] (field_bytes ?f)"
    by (simp add: tight_def demo_audio_def stream_zero_def)
  from w obtain n bs where "header_write (\<lambda>_. 0) [demo_audio] (int HEADER_SIZE) = Inr (n, bs)" "0 < n" by blast
  from stream_header_roundtrip [OF this f _ t, of "\<lambda>_. True" "\<lambda>_. Some stream_zero" stream_zero] this(1)
  show ?thesis by auto
qed

section \<open>Where the bounds go wrong\<close>

lemma video_size: "sum_list (map fst (video_fields k v)) = 174"
  by (simp add: video_fields_def)

lemma write_video_plain:
  assumes "codec_id st \<noteq> 0" "codec_type st = TYPE_VIDEO" "stream_flags st AND GLOBAL_HEADER = 0"
    and "7985 < length out" "length out \<le> HEADER_SIZE"
  shows "write_stream k sz st out = Inl OutOfBounds"
  using assms
  by (auto simp: write_stream_def put_fields_def time_fields_def generic_fields_def video_size)

lemma write_video_extra:
  assumes "codec_id st \<noteq> 0" "codec_type st = TYPE_VIDEO" "stream_flags st AND GLOBAL_HEADER \<noteq> 0"
    and "length out + 33 + length (extradata st) \<le> HEADER_SIZE - 228"
  shows "write_stream k (int HEADER_SIZE) st out
    = Inr (Inr (out @ field_bytes (time_fields st) @ field_bytes (generic_fields st) @ extra_bytes st @ spec_bytes k st))"
  using assms
  by (simp add: write_stream_def put_fields_def time_fields_def generic_fields_def video_size extra_bytes_def spec_bytes_def)

text \<open>\<open>header_write\<close> only checks for room where there is extra data.  A video stream with nearly as much
  extra data as the check lets through, followed by one without any, is written past the end of the
  header buffer.\<close>

theorem header_write_overflows:
  assumes "codec_id a \<noteq> 0" "codec_type a = TYPE_VIDEO" "stream_flags a AND GLOBAL_HEADER \<noteq> 0"
    and "7766 < length (extradata a)" "length (extradata a) \<le> 7923"
    and "codec_id b \<noteq> 0" "codec_type b = TYPE_VIDEO" "stream_flags b AND GLOBAL_HEADER = 0"
  shows "header_write k [a, b] (int HEADER_SIZE) = Inl OutOfBounds"
proof -
  let ?f = "[(4, word_of_nat (length [a, b])), (4, ucast (sum_list (map bit_rate [a, b])))] :: fields"
  let ?o = "field_bytes ?f @ field_bytes (time_fields a) @ field_bytes (generic_fields a) @ extra_bytes a @ spec_bytes k a"
  have p: "put_fields HEADER_SIZE ?f [] = Inr (field_bytes ?f)" by (simp add: put_fields_def)
  have w: "write_stream k (int HEADER_SIZE) a (field_bytes ?f) = Inr (Inr ?o)"
    by (rule write_video_extra) (use assms in simp_all)
  have "length ?o = 219 + length (extradata a)"
    using assms(2,3) by (simp add: time_fields_def generic_fields_def extra_bytes_def spec_bytes_def video_size)
  then have "write_stream k (int HEADER_SIZE) b ?o = Inl OutOfBounds"
    using assms by (intro write_video_plain) simp_all
  then show ?thesis unfolding header_write_def p then_do_simps write_streams.simps w sum.case by simp
qed

definition demo_video :: "byte list \<Rightarrow> AVStream" where
  "demo_video ds = stream_zero\<lparr>codec_id := 28, codec_type := TYPE_VIDEO, extradata := ds\<rparr>"

theorem header_write_overflows_witness:
  "header_write (\<lambda>_. 0) [demo_video (replicate 7800 1), demo_video []] (int HEADER_SIZE) = Inl OutOfBounds"
proof -
  define ds :: "byte list" where "ds = replicate 7800 1"
  have l: "length ds = 7800" by (simp only: ds_def length_replicate)
  then have n: "ds \<noteq> []" by auto
  show ?thesis unfolding ds_def [symmetric]
    by (rule header_write_overflows)
       (simp_all add: demo_video_def stream_zero_def stream_flags_def GLOBAL_HEADER_def l n)
qed

text \<open>The reader's bound on the extra data is four bytes stricter than the writer's, because it is tested
  after the size field: a header whose extra data falls between the two is written, and then refused.\<close>

theorem header_written_not_readable:
  assumes "codec_id a \<noteq> 0" "codec_type a = TYPE_VIDEO" "stream_flags a AND GLOBAL_HEADER \<noteq> 0"
    and "7919 < length (extradata a)" "length (extradata a) \<le> 7923" "new 0 = Some st0"
  shows "\<exists>n bs. header_write k [a] (int HEADER_SIZE) = Inr (n, bs) \<and> n = int (length bs) \<and> 0 < n
    \<and> header_read new xok (bs @ replicate (HEADER_SIZE - length bs) 0) (int HEADER_SIZE) = Inr (0, [])"
proof -
  let ?f = "[(4, word_of_nat (length [a])), (4, ucast (sum_list (map bit_rate [a])))] :: fields"
  let ?g = "time_fields a @ generic_fields a"
  define o1 where "o1 = field_bytes ?f @ field_bytes (time_fields a) @ field_bytes (generic_fields a) @ extra_bytes a @ spec_bytes k a"
  have p: "put_fields HEADER_SIZE ?f [] = Inr (field_bytes ?f)" by (simp add: put_fields_def)
  have w: "write_stream k (int HEADER_SIZE) a (field_bytes ?f) = Inr (Inr o1)"
    unfolding o1_def by (rule write_video_extra) (use assms in simp_all)
  have hw: "header_write k [a] (int HEADER_SIZE) = Inr (int (length o1), o1)"
    unfolding header_write_def p then_do_simps write_streams.simps w sum.case by simp
  let ?z = "replicate (HEADER_SIZE - length o1) (0 :: byte)"
  have l1: "length o1 = 219 + length (extradata a)"
    using assms(2,3) by (simp add: o1_def time_fields_def generic_fields_def extra_bytes_def spec_bytes_def video_size)
  define r where "r = extra_bytes a @ spec_bytes k a @ ?z"
  have bz: "o1 @ ?z = field_bytes ?f @ field_bytes ?g @ r" by (simp add: o1_def r_def field_bytes_def)
  have lz: "length (field_bytes ?g @ r) = HEADER_SIZE - 8"
    using arg_cong [OF bz, of length] l1 assms(5) by simp
  have rv: "read_vals [4, 4] (o1 @ ?z) = Inr (map (\<lambda>(n, v). take_bit (8 * n) v) ?f, field_bytes ?g @ r)"
    using read_vals_fields [of ?f "field_bytes ?g @ r"] unfolding bz by simp
  have cnt: "nat (to_int32 (uint (map (\<lambda>(n, v). take_bit (8 * n) v) ?f ! 0))) = Suc 0"
    using extra_length [of 1] by simp
  have gs: "map fst ?g = [4, 4, 4, 4, 1, 4, 4, 4, 4]" by (simp add: time_fields_def generic_fields_def)
  note rg = read_vals_fields [of ?g r, unfolded gs]
  have "read_vals [4] r = Inr ([take_bit 32 (word_of_nat (length (extradata a)))], extradata a @ spec_bytes k a @ ?z)"
    using read_vals_fields [of "[(4, word_of_nat (length (extradata a)))]" "extradata a @ spec_bytes k a @ ?z"] assms(3)
    by (simp add: r_def extra_bytes_def)
  then have re: "read_extra xok (int HEADER_SIZE) (8 + 33) r = Inr None"
    using assms(4,5) by (simp add: read_extra_def extra_length Let_def)
  have "read_stream (Some st0) xok (int HEADER_SIZE) 8 (field_bytes ?g @ r) = Inr None"
    unfolding read_stream_def option.case rg then_do_simps split_conv Let_def
    using assms(1,3) re by (simp add: time_fields_def generic_fields_def)
  moreover have ps: "int HEADER_SIZE - int (length (field_bytes ?g @ r)) = 8" unfolding lz by simp
  ultimately have rs: "read_streams new xok (int HEADER_SIZE) (Suc 0) 0 (field_bytes ?g @ r) = Inr None"
    unfolding read_streams.simps ps assms(6) by (simp only: then_do_simps option.case)
  then have "header_read new xok (o1 @ ?z) (int HEADER_SIZE) = Inr (0, [])"
    unfolding header_read_def rv then_do_simps split_conv cnt rs by simp
  then show ?thesis using hw l1 by (intro exI [of _ "int (length o1)"] exI [of _ o1]) simp
qed

theorem header_written_not_readable_witness:
  "\<exists>n bs. header_write (\<lambda>_. 0) [demo_video (replicate 7920 1)] (int HEADER_SIZE) = Inr (n, bs) \<and> n = int (length bs) \<and> 0 < n
    \<and> header_read (\<lambda>_. Some stream_zero) (\<lambda>_. True) (bs @ replicate (HEADER_SIZE - length bs) 0) (int HEADER_SIZE) = Inr (0, [])"
proof -
  define ds :: "byte list" where "ds = replicate 7920 1"
  have l: "length ds = 7920" by (simp only: ds_def length_replicate)
  then have n: "ds \<noteq> []" by auto
  show ?thesis unfolding ds_def [symmetric]
    by (rule header_written_not_readable [of _ "\<lambda>_. Some stream_zero"])
       (simp_all add: demo_video_def stream_zero_def stream_flags_def GLOBAL_HEADER_def l n)
qed

end
