(* ===== verification/HlsMuxer.thy ===== *)
theory HlsMuxer
  imports HttpText AvString
begin

text \<open>
  The segmenter of \<open>src/hlsenc.c\<close>: the window of segments behind the playlist, the deletion of old
  segment files, the playlist itself and the decision where a segment ends.

  Floating point values are their bit patterns; the operations the code applies to them, the names
  FFmpeg derives (\<open>av_basename\<close>, \<open>av_get_frame_filename\<close>) and its time comparison are parameters,
  collected in \<open>muxer_env\<close>.
\<close>

section \<open>State\<close>

type_synonym f32 = "32 word"
type_synonym f64 = "64 word"

record HLSSegment =
  filename :: string
  duration :: f64
  seg_pos :: int
  seg_size :: int

record HLSContext =
  number :: int
  sequence :: int
  start_sequence :: int
  max_nb_segments :: int
  wrap :: int
  single_file :: bool
  delete_segments :: bool
  segment_filename :: "string option"
  allowcache :: int
  recording_time :: int
  has_video :: int
  start_pts :: "int option"
  end_pts :: "int option"
  last_duration :: f64
  start_pos :: int
  last_size :: int
  nb_entries :: int
  segments :: "HLSSegment list"
  old_segments :: "HLSSegment list"
  basename :: string
  baseurl :: "string option"
  avf_filename :: string
  drop_cnt :: int
  first_key_found :: bool

text \<open>
  \<open>e_add d x\<close> and \<open>e_sub d x\<close> are \<open>d += x\<close> and \<open>d -= x\<close> on a \<open>float\<close> with a \<open>double\<close>, \<open>e_le_neg d x\<close>
  is \<open>d <= -x\<close>, \<open>e_lt_int n x\<close> is \<open>n < x\<close>, \<open>e_ceil\<close> is \<open>(int)ceil(x)\<close>, \<open>e_show\<close> is \<open>%f\<close>.
\<close>

record muxer_env =
  e_add :: "f32 \<Rightarrow> f64 \<Rightarrow> f32"
  e_sub :: "f32 \<Rightarrow> f64 \<Rightarrow> f32"
  e_le_neg :: "f32 \<Rightarrow> f64 \<Rightarrow> bool"
  e_lt_int :: "int \<Rightarrow> f64 \<Rightarrow> bool"
  e_ceil :: "f64 \<Rightarrow> int"
  e_show :: "f64 \<Rightarrow> string"
  e_basename :: "string \<Rightarrow> string"
  e_frame_name :: "string \<Rightarrow> int \<Rightarrow> int \<times> string"
  e_malloc :: "int \<Rightarrow> bool"

definition ENOMEM :: int where "ENOMEM = -12"
definition EINVAL :: int where "EINVAL = -22"

section \<open>Old segments\<close>

text \<open>
  The walk over the old segments: how many of them stay.  Each one's duration is taken off; the list
  is cut behind the first one at which what is left falls to the negative of its duration.
\<close>

fun old_walk :: "muxer_env \<Rightarrow> f32 \<Rightarrow> HLSSegment list \<Rightarrow> HLSSegment list \<times> HLSSegment list" where
  "old_walk ev d [] = ([], [])"
| "old_walk ev d (g # gs) =
     (let d1 = e_sub ev d (duration g) in
      if e_le_neg ev d1 (duration g) then ([g], gs)
      else let (keep, cut) = old_walk ev d1 gs in (g # keep, cut))"

text \<open>
  Removing the files: the result, the names given to \<open>unlink\<close>, and the segments not reached because
  an allocation failed (they are lost to the list all the same).
\<close>

fun unlink_all :: "muxer_env \<Rightarrow> string \<Rightarrow> HLSSegment list \<Rightarrow> int \<times> string list" where
  "unlink_all ev dir [] = (0, [])"
| "unlink_all ev dir (g # gs) =
     (let path_size = int (length dir) + int (length (filename g)) + 1 in
      if \<not> e_malloc ev path_size then (ENOMEM, [])
      else let (r, ps) = unlink_all ev dir gs in (r, (dir @ filename g) # ps))"

definition dir_part :: "muxer_env \<Rightarrow> string \<Rightarrow> string" where
  "dir_part ev p = take (length p - length (e_basename ev p)) p"

definition hls_delete_old_segments :: "muxer_env \<Rightarrow> HLSContext \<Rightarrow> int \<times> string list \<times> HLSContext" where
  "hls_delete_old_segments ev h =
     (let d = foldl (\<lambda>d g. e_add ev d (duration g)) 0 (segments h);
          (keep, cut) = old_walk ev d (old_segments h);
          src = (case segment_filename h of Some f \<Rightarrow> f | None \<Rightarrow> avf_filename h);
          h1 = h\<lparr>old_segments := keep\<rparr> in
      if cut = [] then (0, [], h1)
      else if \<not> e_malloc ev (int (length src) + 1) then (ENOMEM, [], h1)
      else let (r, ps) = unlink_all ev (dir_part ev src) cut in (r, ps, h1))"

section \<open>The window\<close>

definition sizeof_HLSSegment :: int where "sizeof_HLSSegment = 1056"

text \<open>The second result are the files that were removed.\<close>

definition hls_append_segment ::
  "muxer_env \<Rightarrow> HLSContext \<Rightarrow> f64 \<Rightarrow> int \<Rightarrow> int \<Rightarrow> int \<times> string list \<times> HLSContext" where
  "hls_append_segment ev h dur p sz =
     (if \<not> e_malloc ev sizeof_HLSSegment then (ENOMEM, [], h)
      else
        let en = \<lparr>filename = take 1023 (e_basename ev (avf_filename h)), duration = dur, seg_pos = p, seg_size = sz\<rparr>;
            h1 = h\<lparr>segments := segments h @ [en]\<rparr> in
        if max_nb_segments h1 \<noteq> 0 \<and> nb_entries h1 \<ge> max_nb_segments h1 then
          (case segments h1 of
             [] \<Rightarrow> (0, [], h1)
           | g # gs \<Rightarrow>
               let h2 = h1\<lparr>segments := gs\<rparr> in
               if delete_segments h2 \<and> \<not> (single_file h2 \<or> wrap h2 \<noteq> 0) then
                 let (ret, ps, h3) = hls_delete_old_segments ev (h2\<lparr>old_segments := g # old_segments h2\<rparr>) in
                 if ret < 0 then (ret, ps, h3) else (0, ps, h3\<lparr>sequence := sequence h3 + 1\<rparr>)
               else (0, [], h2\<lparr>sequence := sequence h2 + 1\<rparr>))
        else (0, [], h1\<lparr>nb_entries := nb_entries h1 + 1, sequence := sequence h1 + 1\<rparr>))"

text \<open>\<open>hls_free_segments\<close> gives every node back; what is left of the list is nothing.\<close>

fun hls_free_segments :: "HLSSegment list \<Rightarrow> HLSSegment list" where
  "hls_free_segments [] = []"
| "hls_free_segments (en # p) = hls_free_segments p"

section \<open>The playlist\<close>

definition nl :: string where "nl = [CHR 0x0A]"

definition media_sequence :: "HLSContext \<Rightarrow> int" where
  "media_sequence h = max (start_sequence h) (sequence h - nb_entries h)"

definition target_duration :: "muxer_env \<Rightarrow> HLSSegment list \<Rightarrow> int" where
  "target_duration ev gs = foldl (\<lambda>t g. if e_lt_int ev t (duration g) then e_ceil ev (duration g) else t) 0 gs"

definition playlist_entry :: "muxer_env \<Rightarrow> HLSContext \<Rightarrow> HLSSegment \<Rightarrow> string" where
  "playlist_entry ev h g =
     ''#EXTINF:'' @ e_show ev (duration g) @ '','' @ nl @
     (if single_file h then ''#EXT-X-BYTERANGE:'' @ int_str (seg_size g) @ ''@'' @ int_str (seg_pos g) @ nl else []) @
     (case baseurl h of Some u \<Rightarrow> u | None \<Rightarrow> []) @ filename g @ nl"

text \<open>\<open>hls_window\<close>: the text written, when \<open>avio_open2\<close> succeeds (\<open>open_ret\<close>).\<close>

definition hls_window :: "muxer_env \<Rightarrow> HLSContext \<Rightarrow> int \<Rightarrow> bool \<Rightarrow> int \<times> string" where
  "hls_window ev h open_ret fin =
     (if open_ret < 0 then (open_ret, [])
      else
        (open_ret,
         ''#EXTM3U'' @ nl @ ''#EXT-X-VERSION:'' @ int_str (if single_file h then 4 else 3) @ nl @
         (if allowcache h = 0 \<or> allowcache h = 1
          then ''#EXT-X-ALLOW-CACHE:'' @ (if allowcache h = 0 then ''NO'' else ''YES'') @ nl else []) @
         ''#EXT-X-TARGETDURATION:'' @ int_str (target_duration ev (segments h)) @ nl @
         ''#EXT-X-MEDIA-SEQUENCE:'' @ int_str (media_sequence h) @ nl @
         concat (map (playlist_entry ev h) (segments h)) @
         (if fin then ''#EXT-X-ENDLIST'' @ nl else [])))"

section \<open>Segment files\<close>

text \<open>The template of the segment names that \<open>hls_write_header\<close> makes of the playlist's name.\<close>

definition segment_template :: "string option \<Rightarrow> bool \<Rightarrow> string \<Rightarrow> string" where
  "segment_template given single name =
     (case given of
        Some f \<Rightarrow> f
      | None \<Rightarrow>
          let pat = (if single then ''.ts'' else ''%d.ts'');
              stem = (case strrchr name CHR ''.'' of None \<Rightarrow> name | Some ext \<Rightarrow> take (length name - length ext) name) in
          stem @ pat)"

text \<open>\<open>e_frame_name\<close> is the result of \<open>av_get_frame_filename\<close> and what it leaves in \<open>oc->filename\<close>.\<close>

definition hls_start :: "muxer_env \<Rightarrow> HLSContext \<Rightarrow> int \<Rightarrow> int \<times> HLSContext" where
  "hls_start ev h open_ret =
     (let (r, f) = (if single_file h then (0, take 1023 (basename h))
                    else e_frame_name ev (basename h) (if wrap h \<noteq> 0 then sequence h mod wrap h else sequence h));
          h1 = h\<lparr>avf_filename := f\<rparr> in
      if r < 0 then (EINVAL, h1)
      else (if open_ret < 0 then open_ret else 0, h1\<lparr>number := number h1 + 1\<rparr>))"

text \<open>
  \<open>hls_write_header\<close>: what the library calls report is \<open>header_env\<close> (the option string's parse, the
  muxer's existence, the inner muxer's set-up, the first file, the inner header and the number of
  options nobody took); \<open>rec_time\<close> is \<open>hls->time * AV_TIME_BASE\<close> and \<open>videos\<close> says which streams are
  video.
\<close>

record header_env =
  rec_time :: int
  dict_ret :: int
  mpegts_known :: bool
  init_ret :: int
  open_first :: int
  inner_header :: int
  options_left :: int

definition MUXER_NOT_FOUND :: int where "MUXER_NOT_FOUND = -1481985528"

definition hls_write_header ::
  "muxer_env \<Rightarrow> header_env \<Rightarrow> HLSContext \<Rightarrow> bool list \<Rightarrow> bool \<Rightarrow> string \<Rightarrow> int \<times> HLSContext" where
  "hls_write_header ev he h videos format_options name =
     (let h1 = h\<lparr>sequence := start_sequence h, recording_time := rec_time he, start_pts := None\<rparr>;
          fail = (\<lambda>r g. (r, if r < 0 then g\<lparr>basename := []\<rparr> else g)) in
      if format_options \<and> dict_ret he < 0 then fail (dict_ret he) h1
      else
        let h2 = h1\<lparr>has_video := has_video h1 + int (length (filter id videos))\<rparr>;
            t = segment_template (segment_filename h2) (single_file h2) name;
            needed = (case segment_filename h2 of Some f \<Rightarrow> int (length f) + 1
                      | None \<Rightarrow> int (length name) + (if single_file h2 then 3 else 5) + 1) in
        if \<not> mpegts_known he then fail MUXER_NOT_FOUND h2
        else if \<not> e_malloc ev needed then fail ENOMEM h2
        else if init_ret he < 0 then fail (init_ret he) (h2\<lparr>basename := t\<rparr>)
        else
          let (r, h3) = hls_start ev (h2\<lparr>basename := t, start_pos := 0, drop_cnt := 0\<rparr>) (open_first he) in
          if r < 0 then fail r h3
          else if options_left he \<noteq> 0 then fail EINVAL h3
          else fail (inner_header he) h3)"

section \<open>Packets\<close>

record packet =
  p_video :: bool
  p_key :: bool
  p_pts :: "int option"

text \<open>
  \<open>env_dur\<close> is the double the code computes from the difference of two time stamps, \<open>reached\<close> the
  result of \<open>av_compare_ts(pts - start_pts, ..) >= 0\<close> against \<open>end_pts\<close>, \<open>tell\<close> the writing position;
  the three results are those of opening the next segment, of the playlist and of the write.
\<close>

record packet_env =
  env_dur :: "int \<Rightarrow> f64"
  reached :: "int \<Rightarrow> int \<Rightarrow> bool"
  tell :: int
  open_segment :: int
  open_playlist :: int
  write_ret :: int

text \<open>A difference with \<open>AV_NOPTS_VALUE\<close> is the difference with \<open>-2^63\<close>.\<close>

definition ts_val :: "int option \<Rightarrow> int" where
  "ts_val t = (case t of Some v \<Rightarrow> v | None \<Rightarrow> - (2 ^ 63))"

text \<open>The end of a segment: append, open the next one, write the playlist (the result's second part).\<close>

definition split_segment ::
  "muxer_env \<Rightarrow> packet_env \<Rightarrow> HLSContext \<Rightarrow> packet \<Rightarrow> int \<times> string option \<times> HLSContext" where
  "split_segment ev pe h pkt =
     (let sz = tell pe - start_pos h;
          (ret, _, h1) = hls_append_segment ev (h\<lparr>last_size := sz\<rparr>) (last_duration h) (start_pos h) sz;
          h2 = h1\<lparr>start_pos := tell pe\<rparr> in
      if ret < 0 then (ret, None, h2)
      else
        let h3 = h2\<lparr>end_pts := p_pts pkt, last_duration := 0\<rparr>;
            (r, h4) = (if single_file h3 then (ret, h3\<lparr>number := number h3 + 1\<rparr>) else hls_start ev h3 (open_segment pe)) in
        if r < 0 then (r, None, h4)
        else let (w, txt) = hls_window ev h4 (open_playlist pe) False in
             (if w < 0 then w else 0, if w < 0 then None else Some txt, h4))"

definition hls_write_packet ::
  "muxer_env \<Rightarrow> packet_env \<Rightarrow> HLSContext \<Rightarrow> packet \<Rightarrow> int \<times> string option \<times> HLSContext" where
  "hls_write_packet ev pe h pkt =
     (let target = recording_time h * number h;
          h0 = (if \<not> first_key_found h \<and> p_video pkt then h\<lparr>drop_cnt := drop_cnt h + 1\<rparr> else h);
          key = (p_video pkt \<and> p_key pkt) in
      if \<not> first_key_found h \<and> \<not> key then (0, None, h0)
      else
        let h1 = h0\<lparr>first_key_found := True\<rparr>;
            h2 = (if start_pts h1 = None then h1\<lparr>start_pts := p_pts pkt, end_pts := p_pts pkt\<rparr> else h1);
            can_split = (p_pts pkt \<noteq> None \<and> (if has_video h2 \<noteq> 0 then key else True));
            is_ref = (p_pts pkt \<noteq> None \<and> (if has_video h2 \<noteq> 0 then p_video pkt else True));
            h3 = (if is_ref then h2\<lparr>last_duration := env_dur pe (ts_val (p_pts pkt) - ts_val (end_pts h2))\<rparr> else h2) in
        if can_split \<and> reached pe (ts_val (p_pts pkt) - ts_val (start_pts h3)) target then
          let (r, txt, h4) = split_segment ev pe h3 pkt in
          if r < 0 then (r, txt, h4) else (write_ret pe, txt, h4)
        else (write_ret pe, None, h3))"

definition hls_write_trailer ::
  "muxer_env \<Rightarrow> HLSContext \<Rightarrow> bool \<Rightarrow> int \<Rightarrow> int \<Rightarrow> string \<times> HLSContext" where
  "hls_write_trailer ev h is_open pos open_ret =
     (let h1 = (if is_open then
                  let sz = pos - start_pos h in
                  snd (snd (hls_append_segment ev (h\<lparr>last_size := sz\<rparr>) (last_duration h) (start_pos h) sz))
                else h);
          txt = snd (hls_window ev h1 open_ret True) in
      (txt, h1\<lparr>basename := [], segments := hls_free_segments (segments h1),
               old_segments := hls_free_segments (old_segments h1)\<rparr>))"

section \<open>The window slides\<close>

text \<open>
  The specification: all segments ever appended, in order.  The window shows the end of that list.
\<close>

definition made_segment :: "muxer_env \<Rightarrow> string \<Rightarrow> f64 \<times> int \<times> int \<Rightarrow> HLSSegment" where
  "made_segment ev f = (\<lambda>(d, p, sz). \<lparr>filename = take 1023 (e_basename ev f), duration = d, seg_pos = p, seg_size = sz\<rparr>)"

definition window_of :: "HLSContext \<Rightarrow> HLSSegment list \<Rightarrow> bool" where
  "window_of h all \<longleftrightarrow>
     sequence h = start_sequence h + int (length all) \<and> nb_entries h = int (length (segments h)) \<and>
     (if max_nb_segments h = 0 then segments h = all
      else segments h = drop (length all - nat (max_nb_segments h)) all)"

text \<open>A run of appends, each with the name the output has at the time.\<close>

fun append_all ::
  "muxer_env \<Rightarrow> (string \<times> f64 \<times> int \<times> int) list \<Rightarrow> HLSContext \<Rightarrow> HLSContext" where
  "append_all ev [] h = h"
| "append_all ev ((f, d, p, sz) # xs) h =
     append_all ev xs (snd (snd (hls_append_segment ev (h\<lparr>avf_filename := f\<rparr>) d p sz)))"

lemma delete_old_fields:
  assumes "hls_delete_old_segments ev h = (r, ps, h')"
  shows "segments h' = segments h" "sequence h' = sequence h" "nb_entries h' = nb_entries h"
    "start_sequence h' = start_sequence h" "max_nb_segments h' = max_nb_segments h"
  using assms by (auto simp: hls_delete_old_segments_def Let_def split: prod.splits if_splits)

lemma delete_old_ok: "\<forall>n. e_malloc ev n \<Longrightarrow> hls_delete_old_segments ev h = (r, ps, h') \<Longrightarrow> r = 0"
proof -
  assume m: "\<forall>n. e_malloc ev n" and d: "hls_delete_old_segments ev h = (r, ps, h')"
  have "fst (unlink_all ev dir gs) = 0" for dir gs
    using m by (induction ev dir gs rule: unlink_all.induct) (auto simp: Let_def split: prod.splits)
  then show ?thesis using d m
    by (auto simp: hls_delete_old_segments_def Let_def split: prod.splits if_splits) (metis fst_conv)
qed

lemma append_window:
  assumes "window_of h all" "0 \<le> max_nb_segments h" "\<forall>n. e_malloc ev n"
    and "hls_append_segment ev (h\<lparr>avf_filename := f\<rparr>) d p sz = (r, ps, h')"
  shows "window_of h' (all @ [made_segment ev f (d, p, sz)])" "max_nb_segments h' = max_nb_segments h"
    "start_sequence h' = start_sequence h" "r = 0"
proof -
  let ?en = "made_segment ev f (d, p, sz)"
  define h1 where "h1 = h\<lparr>avf_filename := f, segments := segments h @ [?en]\<rparr>"
  note ap = assms(4) [unfolded hls_append_segment_def, simplified assms(3) Let_def, simplified]
  have "window_of h' (all @ [?en]) \<and> max_nb_segments h' = max_nb_segments h \<and> start_sequence h' = start_sequence h \<and> r = 0"
  proof (cases "max_nb_segments h \<noteq> 0 \<and> nb_entries h \<ge> max_nb_segments h")
    case False
    then have h': "h' = h1\<lparr>nb_entries := nb_entries h + 1, sequence := sequence h + 1\<rparr>" "r = 0"
      using ap by (auto simp: h1_def made_segment_def)
    have "max_nb_segments h \<noteq> 0 \<Longrightarrow> length all < nat (max_nb_segments h)"
      using False assms(1,2) by (auto simp: window_of_def)
    then show ?thesis using assms(1) False h' by (auto simp: window_of_def h1_def)
  next
    case True
    then have mx: "0 < max_nb_segments h" using assms(2) by simp
    have seg: "segments h = drop (length all - nat (max_nb_segments h)) all" "nb_entries h = int (length (segments h))"
      using assms(1) mx by (simp_all add: window_of_def)
    then have full: "nat (max_nb_segments h) \<le> length all" using True mx by auto
    have "segments h \<noteq> []" using seg(2) True mx by auto
    then obtain g gs where gs: "segments h = g # gs" by (meson neq_Nil_conv)
    have gs': "gs @ [?en] = drop (length (all @ [?en]) - nat (max_nb_segments h)) (all @ [?en])"
    proof -
      have "gs = drop (Suc (length all - nat (max_nb_segments h))) all"
        using seg(1) gs by (metis drop_Suc list.sel(3) tl_drop)
      then show ?thesis using full mx by (simp add: Suc_diff_le)
    qed
    define h2 where "h2 = h1\<lparr>segments := gs @ [?en]\<rparr>"
    have w: "window_of (h3\<lparr>sequence := sequence h3 + 1\<rparr>) (all @ [?en])"
      if "segments h3 = gs @ [?en]" "sequence h3 = sequence h" "nb_entries h3 = nb_entries h"
        "start_sequence h3 = start_sequence h" "max_nb_segments h3 = max_nb_segments h" for h3
      using that assms(1) gs gs' mx by (simp add: window_of_def)
    show ?thesis
    proof (cases "delete_segments h \<and> \<not> (single_file h \<or> wrap h \<noteq> 0)")
      case False
      then have "h' = h2\<lparr>sequence := sequence h2 + 1\<rparr> \<and> r = 0"
        using ap True gs by (auto simp: h1_def h2_def made_segment_def)
      moreover have "window_of (h2\<lparr>sequence := sequence h2 + 1\<rparr>) (all @ [?en])"
        by (rule w) (simp_all add: h2_def h1_def)
      ultimately show ?thesis by (simp add: h2_def h1_def)
    next
      case del: True
      obtain r3 ps3 h3 where d3: "hls_delete_old_segments ev (h2\<lparr>old_segments := g # old_segments h2\<rparr>) = (r3, ps3, h3)"
        by (metis prod_cases3)
      have r3: "r3 = 0" by (rule delete_old_ok [OF assms(3) d3])
      note f3 = delete_old_fields [OF d3]
      have "h' = h3\<lparr>sequence := sequence h3 + 1\<rparr> \<and> r = 0"
        using ap True gs del d3 r3 by (auto simp: h1_def h2_def made_segment_def)
      moreover have "window_of (h3\<lparr>sequence := sequence h3 + 1\<rparr>) (all @ [?en])"
        by (rule w) (use f3 in \<open>simp_all add: h2_def h1_def\<close>)
      ultimately show ?thesis using f3 by (simp add: h2_def h1_def)
    qed
  qed
  then show "window_of h' (all @ [?en])" "max_nb_segments h' = max_nb_segments h"
    "start_sequence h' = start_sequence h" "r = 0" by simp_all
qed

text \<open>C14. The playlist is a sliding window: after any number of segments has been appended to a fresh
  context with a limit (0 means none), the list holds exactly the most recent ones up to that limit,
  in order, whichever segments' files were deleted on the way; and the \<open>MEDIA-SEQUENCE\<close> number
  printed is the number of the first segment listed, counting from the start number.\<close>

theorem playlist_is_sliding_window:
  assumes "segments h = []" "sequence h = start_sequence h" "nb_entries h = 0" "0 \<le> max_nb_segments h"
    and "\<forall>n. e_malloc ev n"
  shows "segments (append_all ev xs h) =
      (let all = map (\<lambda>(f, x). made_segment ev f x) xs in
       if max_nb_segments h = 0 then all else drop (length all - nat (max_nb_segments h)) all)
    \<and> media_sequence (append_all ev xs h) =
      start_sequence h + int (length xs) - int (length (segments (append_all ev xs h)))"
proof -
  have main: "window_of (append_all ev xs h) (all @ map (\<lambda>(f, x). made_segment ev f x) xs)
      \<and> max_nb_segments (append_all ev xs h) = max_nb_segments h \<and> start_sequence (append_all ev xs h) = start_sequence h"
    if "window_of h all" "0 \<le> max_nb_segments h" for h all
    using that
  proof (induction xs arbitrary: h all)
    case Nil
    then show ?case by simp
  next
    case (Cons x xs)
    obtain f d p sz where x: "x = (f, d, p, sz)" by (metis prod_cases4)
    obtain r ps h1 where a: "hls_append_segment ev (h\<lparr>avf_filename := f\<rparr>) d p sz = (r, ps, h1)"
      by (metis prod_cases3)
    note w = append_window [OF Cons.prems assms(5) a]
    show ?case using Cons.IH [OF w(1)] w(2,3) Cons.prems(2) a x by simp
  qed
  have "window_of h []" using assms(1-3) by (simp add: window_of_def)
  from main [OF this assms(4)] show ?thesis
    by (auto simp: window_of_def media_sequence_def Let_def)
qed

text \<open>Concrete parameters: integers as the doubles, names without directories, and memory.\<close>

definition toy_env :: muxer_env where
  "toy_env = \<lparr>e_add = (\<lambda>d x. d + ucast x), e_sub = (\<lambda>d x. d - ucast x), e_le_neg = (\<lambda>d x. sint d \<le> - sint x),
     e_lt_int = (\<lambda>n x. n < sint x), e_ceil = sint, e_show = (\<lambda>x. int_str (sint x)), e_basename = (\<lambda>p. p),
     e_frame_name = (\<lambda>t n. (0, ''out'' @ int_str n @ ''.ts'')), e_malloc = (\<lambda>_. True)\<rparr>"

definition fresh_hls :: HLSContext where
  "fresh_hls = \<lparr>number = 0, sequence = 7, start_sequence = 7, max_nb_segments = 2, wrap = 0, single_file = False,
     delete_segments = True, segment_filename = None, allowcache = -1, recording_time = 0, has_video = 1,
     start_pts = None, end_pts = None, last_duration = 0, start_pos = 0, last_size = 0, nb_entries = 0,
     segments = [], old_segments = [], basename = [], baseurl = None, avf_filename = [], drop_cnt = 0,
     first_key_found = False\<rparr>"

theorem playlist_witness:
  "map filename (segments (append_all toy_env [(''a.ts'', 2, 0, 10), (''b.ts'', 3, 0, 11), (''c.ts'', 4, 0, 12)] fresh_hls))
     = [''b.ts'', ''c.ts'']
   \<and> media_sequence (append_all toy_env [(''a.ts'', 2, 0, 10), (''b.ts'', 3, 0, 11), (''c.ts'', 4, 0, 12)] fresh_hls) = 8"
  using playlist_is_sliding_window [of fresh_hls toy_env "[(''a.ts'', 2, 0, 10), (''b.ts'', 3, 0, 11), (''c.ts'', 4, 0, 12)]"]
  by (simp add: fresh_hls_def toy_env_def made_segment_def Let_def)

section \<open>Streams without video\<close>

text \<open>A run of packets; the playlists written on the way are collected.\<close>

fun write_packets ::
  "muxer_env \<Rightarrow> HLSContext \<Rightarrow> (packet_env \<times> packet) list \<Rightarrow> int list \<times> string list \<times> HLSContext" where
  "write_packets ev h [] = ([], [], h)"
| "write_packets ev h ((pe, p) # ps) =
     (let (r, t, h1) = hls_write_packet ev pe h p;
          (rs, ts, h2) = write_packets ev h1 ps in
      (r # rs, (case t of Some x \<Rightarrow> x # ts | None \<Rightarrow> ts), h2))"

text \<open>A presentation without video is never segmented: as long as no packet is a video packet, every
  call answers 0 (success), no playlist is written, no segment starts and the muxer's state does not
  change, because the segmenter waits for a first video key frame before it takes anything.\<close>

theorem audio_only_is_dropped:
  assumes "\<not> first_key_found h" "\<forall>x\<in>set ps. \<not> p_video (snd x)"
  shows "write_packets ev h ps = (replicate (length ps) 0, [], h)"
  using assms
proof (induction ps)
  case Nil
  then show ?case by simp
next
  case (Cons x ps)
  obtain pe p where x: "x = (pe, p)" by (cases x)
  have "hls_write_packet ev pe h p = (0, None, h)"
    using Cons.prems x by (simp add: hls_write_packet_def Let_def)
  then show ?case using Cons x by simp
qed

theorem audio_only_witness:
  "let pe = \<lparr>env_dur = (\<lambda>_. 0), reached = (\<lambda>_ _. True), tell = 5, open_segment = 0, open_playlist = 0, write_ret = 0\<rparr>;
       pk = \<lparr>p_video = False, p_key = True, p_pts = Some 9\<rparr> in
   write_packets toy_env (fresh_hls\<lparr>has_video := 0\<rparr>) [(pe, pk), (pe, pk)] = ([0, 0], [], fresh_hls\<lparr>has_video := 0\<rparr>)"
  using audio_only_is_dropped [of "fresh_hls\<lparr>has_video := 0\<rparr>"
      "[(\<lparr>env_dur = (\<lambda>_. 0), reached = (\<lambda>_ _. True), tell = 5, open_segment = 0, open_playlist = 0, write_ret = 0\<rparr>, \<lparr>p_video = False, p_key = True, p_pts = Some 9\<rparr>), (\<lparr>env_dur = (\<lambda>_. 0), reached = (\<lambda>_ _. True), tell = 5, open_segment = 0, open_playlist = 0, write_ret = 0\<rparr>, \<lparr>p_video = False, p_key = True, p_pts = Some 9\<rparr>)]" toy_env]
  by (simp add: fresh_hls_def Let_def)

end
