(* ===== verification/PacketQueue.thy ===== *)
theory PacketQueue
  imports Prelude
begin

text \<open>
  The packet queues of \<open>src/ffplay2.c\<close> and the decoder thread that empties one: \<open>packet_queue_put\<close>,
  \<open>packet_queue_get\<close>, flushing, aborting and starting, \<open>decoder_decode_frame\<close>, and the system of the
  reading thread, the decoding thread and the thread that opens and closes a stream, as interleaved
  atomic steps.

  A seek throws the queue away and puts the flush packet, which raises the serial number; what the
  decoder must never do is to decode a packet of one serial number with a codec that still holds
  references from another.  \<open>decoder_never_mixes_serials\<close> is that guarantee, for all interleavings.
\<close>

section \<open>The queue\<close>

text \<open>\<open>FlushData\<close> is the address of \<open>flush_pkt\<close> itself, which is what marks that packet.\<close>

datatype pkt_data = FlushData | NullData | Bytes "char list"

record AVPacket =
  data :: pkt_data
  pkt_size :: int
  stream_index :: int

definition flush_pkt :: AVPacket where
  "flush_pkt = \<lparr>data = FlushData, pkt_size = 0, stream_index = 0\<rparr>"

record MyAVPacketList =
  pkt :: AVPacket
  ser :: int

record PacketQueue =
  pkts :: "MyAVPacketList list"
  nb_packets :: int
  qsize :: int
  abort_request :: bool
  serial :: int

text \<open>
  \<open>nsz\<close> is \<open>sizeof(MyAVPacketList)\<close>, \<open>mem\<close> whether \<open>av_malloc\<close> succeeds, \<open>dup\<close> whether
  \<open>av_dup_packet\<close> does.  The second result of \<open>packet_queue_put\<close> says whether the packet was freed.
\<close>

definition packet_queue_put_private :: "int \<Rightarrow> bool \<Rightarrow> PacketQueue \<Rightarrow> AVPacket \<Rightarrow> int \<times> PacketQueue" where
  "packet_queue_put_private nsz mem q p =
     (if abort_request q then (-1, q)
      else if \<not> mem then (-1, q)
      else
        let q1 = (if data p = FlushData then q\<lparr>serial := serial q + 1\<rparr> else q);
            e = \<lparr>pkt = p, ser = serial q1\<rparr> in
        (0, q1\<lparr>pkts := pkts q1 @ [e], nb_packets := nb_packets q1 + 1, qsize := qsize q1 + pkt_size p + nsz\<rparr>))"

definition packet_queue_put ::
  "int \<Rightarrow> bool \<Rightarrow> bool \<Rightarrow> PacketQueue \<Rightarrow> AVPacket \<Rightarrow> int \<times> bool \<times> PacketQueue" where
  "packet_queue_put nsz dup mem q p =
     (if data p \<noteq> FlushData \<and> \<not> dup then (-1, False, q)
      else let (ret, q1) = packet_queue_put_private nsz mem q p in
           (ret, data p \<noteq> FlushData \<and> ret < 0, q1))"

definition packet_queue_put_nullpacket ::
  "int \<Rightarrow> bool \<Rightarrow> bool \<Rightarrow> PacketQueue \<Rightarrow> int \<Rightarrow> int \<times> bool \<times> PacketQueue" where
  "packet_queue_put_nullpacket nsz dup mem q i =
     packet_queue_put nsz dup mem q \<lparr>data = NullData, pkt_size = 0, stream_index = i\<rparr>"

definition packet_queue_init :: PacketQueue where
  "packet_queue_init = \<lparr>pkts = [], nb_packets = 0, qsize = 0, abort_request = True, serial = 0\<rparr>"

definition packet_queue_flush :: "PacketQueue \<Rightarrow> PacketQueue" where
  "packet_queue_flush q = q\<lparr>pkts := [], nb_packets := 0, qsize := 0\<rparr>"

definition packet_queue_abort :: "PacketQueue \<Rightarrow> PacketQueue" where
  "packet_queue_abort q = q\<lparr>abort_request := True\<rparr>"

definition packet_queue_start :: "int \<Rightarrow> bool \<Rightarrow> PacketQueue \<Rightarrow> PacketQueue" where
  "packet_queue_start nsz mem q = snd (packet_queue_put_private nsz mem (q\<lparr>abort_request := False\<rparr>) flush_pkt)"

text \<open>One turn of the loop: \<open>None\<close> is the wait for the condition.\<close>

definition packet_queue_get ::
  "int \<Rightarrow> PacketQueue \<Rightarrow> bool \<Rightarrow> (int \<times> MyAVPacketList option \<times> PacketQueue) option" where
  "packet_queue_get nsz q block =
     (if abort_request q then Some (-1, None, q)
      else case pkts q of
        e # es \<Rightarrow> Some (1, Some e, q\<lparr>pkts := es, nb_packets := nb_packets q - 1,
                                      qsize := qsize q - (pkt_size (pkt e) + nsz)\<rparr>)
      | [] \<Rightarrow> if \<not> block then Some (0, None, q) else None)"

text \<open>The counters the reading thread looks at to decide whether the queues are full.\<close>

definition counted :: "int \<Rightarrow> PacketQueue \<Rightarrow> bool" where
  "counted nsz q \<longleftrightarrow> nb_packets q = int (length (pkts q))
     \<and> qsize q = (\<Sum>e \<leftarrow> pkts q. pkt_size (pkt e) + nsz)"

lemma counted_private: "counted nsz q \<Longrightarrow> counted nsz (snd (packet_queue_put_private nsz mem q p))"
  by (simp add: counted_def packet_queue_put_private_def Let_def)

lemma counted_put: "counted nsz q \<Longrightarrow> packet_queue_put nsz dup mem q p = (r, f, q1) \<Longrightarrow> counted nsz q1"
  using counted_private [of nsz q mem p]
  by (auto simp: packet_queue_put_def split: prod.splits if_splits)

lemma counted_get: "counted nsz q \<Longrightarrow> packet_queue_get nsz q b = Some (r, e, q1) \<Longrightarrow> counted nsz q1"
  by (auto simp: counted_def packet_queue_get_def split: if_splits list.splits)

lemma counted_others [simp]:
  "counted nsz packet_queue_init" "counted nsz (packet_queue_flush q)"
  "counted nsz (packet_queue_abort q) = counted nsz q"
  "counted nsz q \<Longrightarrow> counted nsz (packet_queue_start nsz mem q)"
  by (auto simp: counted_def packet_queue_init_def packet_queue_flush_def packet_queue_abort_def
      packet_queue_start_def packet_queue_put_private_def Let_def)

section \<open>The decoder\<close>

datatype media = VideoType | AudioType | SubtitleType

type_synonym rational = "int \<times> int"

record codec_env =
  codec_type :: media
  reorder_pts :: int
  rescale :: "int \<Rightarrow> rational \<Rightarrow> rational \<Rightarrow> int"
  ctx_tb :: rational
  pkt_tb :: rational

text \<open>What the codec answers to one packet.\<close>

record codec_answer =
  a_ret :: int
  a_got :: bool
  a_pts :: int
  a_pkt_pts :: int
  a_pkt_dts :: int
  a_best :: int
  a_samples :: int
  a_rate :: int

abbreviation NOPTS :: int where "NOPTS \<equiv> - (2 ^ 63)"

text \<open>\<open>pkt_temp\<close> keeps the serial number the packet had in the queue; the code does not.\<close>

record Decoder =
  pkt_temp :: MyAVPacketList
  pkt_serial :: int
  finished :: int
  flushed :: bool
  packet_pending :: bool
  start_pts :: int
  start_pts_tb :: rational
  next_pts :: int
  next_pts_tb :: rational

definition decoder_init :: Decoder where
  "decoder_init =
     \<lparr>pkt_temp = \<lparr>pkt = \<lparr>data = NullData, pkt_size = 0, stream_index = 0\<rparr>, ser = 0\<rparr>, pkt_serial = 0,
      finished = 0, flushed = False, packet_pending = False, start_pts = NOPTS, start_pts_tb = (0, 0),
      next_pts = 0, next_pts_tb = (0, 0)\<rparr>"

text \<open>The time stamp of a decoded frame, and the prediction for the next one of an audio stream.\<close>

definition frame_pts :: "codec_env \<Rightarrow> Decoder \<Rightarrow> codec_answer \<Rightarrow> int \<times> Decoder" where
  "frame_pts ce d a =
     (case codec_type ce of
        VideoType \<Rightarrow>
          (if reorder_pts ce = -1 then a_best a else if reorder_pts ce \<noteq> 0 then a_pkt_pts a else a_pkt_dts a, d)
      | AudioType \<Rightarrow>
          let tb = (1, a_rate a);
              t = (if a_pts a \<noteq> NOPTS then rescale ce (a_pts a) (ctx_tb ce) tb
                   else if a_pkt_pts a \<noteq> NOPTS then rescale ce (a_pkt_pts a) (pkt_tb ce) tb
                   else if next_pts d \<noteq> NOPTS then rescale ce (next_pts d) (next_pts_tb d) tb
                   else a_pts a) in
          (t, if t \<noteq> NOPTS then d\<lparr>next_pts := t + a_samples a, next_pts_tb := tb\<rparr> else d)
      | SubtitleType \<Rightarrow> (a_pts a, d))"

fun drop_data :: "int \<Rightarrow> pkt_data \<Rightarrow> pkt_data" where
  "drop_data n (Bytes bs) = Bytes (drop (nat n) bs)"
| "drop_data n d = d"

text \<open>What becomes of the packet after the codec has answered.\<close>

definition after_decode :: "codec_env \<Rightarrow> Decoder \<Rightarrow> codec_answer \<Rightarrow> Decoder" where
  "after_decode ce d a =
     (let p = pkt (pkt_temp d) in
      if a_ret a < 0 then d\<lparr>packet_pending := False\<rparr>
      else if data p \<noteq> NullData then
        let n = (if codec_type ce \<noteq> AudioType then pkt_size p else a_ret a);
            d1 = d\<lparr>pkt_temp := (pkt_temp d)\<lparr>pkt := p\<lparr>data := drop_data n (data p), pkt_size := pkt_size p - n\<rparr>\<rparr>\<rparr> in
        if pkt_size p - n \<le> 0 then d1\<lparr>packet_pending := False\<rparr> else d1
      else if \<not> a_got a then d\<lparr>packet_pending := False, finished := pkt_serial d\<rparr>
      else d)"

text \<open>
  \<open>decoder_decode_frame\<close> as the atomic actions other threads can come between: entering, the head of
  the loop, taking a packet, testing it, decoding, and the result returned.
\<close>

datatype dpc = DEnter | DLoop | DFetch | DTest MyAVPacketList | DDecode | DRet int

datatype codec_event = CodecNew | CodecFlush int | CodecDecode MyAVPacketList

definition decoder_step ::
  "int \<Rightarrow> codec_env \<Rightarrow> codec_answer \<Rightarrow> PacketQueue \<Rightarrow> Decoder \<Rightarrow> dpc
   \<Rightarrow> (PacketQueue \<times> Decoder \<times> dpc \<times> codec_event list) option" where
  "decoder_step nsz ce a q d pc =
     (case pc of
        DEnter \<Rightarrow> Some (q, d\<lparr>flushed := False\<rparr>, DLoop, [])
      | DLoop \<Rightarrow>
          if abort_request q then Some (q, d, DRet (-1), [])
          else if \<not> packet_pending d \<or> serial q \<noteq> pkt_serial d then Some (q, d, DFetch, [])
          else Some (q, d, DDecode, [])
      | DFetch \<Rightarrow>
          (case packet_queue_get nsz q True of
             None \<Rightarrow> None
           | Some (r, None, q1) \<Rightarrow> Some (q1, d, DRet (-1), [])
           | Some (r, Some e, q1) \<Rightarrow>
               let d1 = d\<lparr>pkt_serial := ser e\<rparr> in
               if data (pkt e) = FlushData then
                 Some (q1, d1\<lparr>finished := 0, flushed := True, next_pts := start_pts d,
                              next_pts_tb := start_pts_tb d\<rparr>, DTest e, [CodecFlush (ser e)])
               else Some (q1, d1, DTest e, []))
      | DTest e \<Rightarrow>
          if data (pkt e) = FlushData \<or> serial q \<noteq> pkt_serial d then Some (q, d, DFetch, [])
          else Some (q, d\<lparr>pkt_temp := e, packet_pending := True\<rparr>, DDecode, [])
      | DDecode \<Rightarrow>
          let d1 = (if a_got a then snd (frame_pts ce d a) else d);
              d2 = after_decode ce d1 a in
          Some (q, d2, if \<not> a_got a \<and> finished d2 = 0 then DLoop else DRet (if a_got a then 1 else 0),
                [CodecDecode (pkt_temp d)])
      | DRet r \<Rightarrow> None)"

section \<open>The threads\<close>

text \<open>
  The decoder's thread is running, has returned (\<open>SDL_WaitThread\<close> would return) or is not there
  because the stream is closed.
\<close>

datatype thread = Running dpc | Ended | Closed

record player =
  pq :: PacketQueue
  dec :: Decoder
  tid :: thread
  seeking :: bool
  codec_log :: "codec_event list"

definition player_start :: player where
  "player_start = \<lparr>pq = packet_queue_init, dec = decoder_init, tid = Closed, seeking = False, codec_log = []\<rparr>"

text \<open>
  The reading thread puts packets (\<open>put\<close>, which may fail for want of memory) and, for a seek, flushes
  the queue and then puts the flush packet, for which memory is supposed to be there; the decoder's
  thread takes its steps, calls again after a result that is not negative, or ends; a stream is closed
  by aborting the queue, waiting for the thread and flushing, and opened by starting the queue and
  initialising the decoder.
\<close>

inductive player_step :: "int \<Rightarrow> codec_env \<Rightarrow> player \<Rightarrow> player \<Rightarrow> bool" for nsz ce where
  put: "\<not> seeking s \<Longrightarrow> data p \<noteq> FlushData \<Longrightarrow> packet_queue_put nsz dup mem (pq s) p = (r, f, q)
        \<Longrightarrow> player_step nsz ce s (s\<lparr>pq := q\<rparr>)"
| seek_flush: "\<not> seeking s \<Longrightarrow> player_step nsz ce s (s\<lparr>pq := packet_queue_flush (pq s), seeking := True\<rparr>)"
| seek_put: "seeking s \<Longrightarrow> packet_queue_put nsz dup True (pq s) flush_pkt = (r, f, q)
        \<Longrightarrow> player_step nsz ce s (s\<lparr>pq := q, seeking := False\<rparr>)"
| decode: "tid s = Running pc \<Longrightarrow> decoder_step nsz ce a (pq s) (dec s) pc = Some (q, d, pc1, es)
        \<Longrightarrow> player_step nsz ce s (s\<lparr>pq := q, dec := d, tid := Running pc1, codec_log := codec_log s @ es\<rparr>)"
| again: "tid s = Running (DRet r) \<Longrightarrow> 0 \<le> r \<Longrightarrow> player_step nsz ce s (s\<lparr>tid := Running DEnter\<rparr>)"
| return: "tid s = Running (DRet r) \<Longrightarrow> player_step nsz ce s (s\<lparr>tid := Ended\<rparr>)"
| abort: "player_step nsz ce s (s\<lparr>pq := packet_queue_abort (pq s)\<rparr>)"
| close: "tid s = Ended \<Longrightarrow> abort_request (pq s)
        \<Longrightarrow> player_step nsz ce s (s\<lparr>pq := packet_queue_flush (pq s), tid := Closed\<rparr>)"
| reopen: "tid s = Closed
        \<Longrightarrow> player_step nsz ce s (s\<lparr>pq := packet_queue_start nsz True (pq s), dec := decoder_init,
                tid := Running DEnter, codec_log := codec_log s @ [CodecNew]\<rparr>)"

inductive player_reaches :: "int \<Rightarrow> codec_env \<Rightarrow> player \<Rightarrow> bool" for nsz ce where
  start: "player_reaches nsz ce player_start"
| step: "player_reaches nsz ce s \<Longrightarrow> player_step nsz ce s t \<Longrightarrow> player_reaches nsz ce t"

text \<open>
  The log of a codec is clean if every packet is decoded under its own serial number: the last thing
  the codec saw before was a flush of that number, or a packet of that number.
\<close>

fun clean :: "int option \<Rightarrow> codec_event list \<Rightarrow> bool" where
  "clean c [] = True"
| "clean c (CodecNew # es) = clean None es"
| "clean c (CodecFlush n # es) = clean (Some n) es"
| "clean c (CodecDecode e # es) = (c = Some (ser e) \<and> clean c es)"

fun codec_serial :: "int option \<Rightarrow> codec_event list \<Rightarrow> int option" where
  "codec_serial c [] = c"
| "codec_serial c (CodecNew # es) = codec_serial None es"
| "codec_serial c (CodecFlush n # es) = codec_serial (Some n) es"
| "codec_serial c (CodecDecode e # es) = codec_serial (Some (ser e)) es"

lemma clean_append: "clean c (xs @ ys) \<longleftrightarrow> clean c xs \<and> clean (codec_serial c xs) ys"
  by (induction c xs rule: clean.induct) auto

lemma codec_serial_append [simp]: "codec_serial c (xs @ ys) = codec_serial (codec_serial c xs) ys"
  by (induction c xs rule: codec_serial.induct) auto

text \<open>What waits in the queue fits behind a codec in state \<open>c\<close>; \<open>chain_end\<close> is its state afterwards.\<close>

fun chain :: "int option \<Rightarrow> MyAVPacketList list \<Rightarrow> bool" where
  "chain c [] = True"
| "chain c (e # es) =
     (if data (pkt e) = FlushData then chain (Some (ser e)) es else c = Some (ser e) \<and> chain c es)"

definition chain_end :: "int option \<Rightarrow> MyAVPacketList list \<Rightarrow> int option" where
  "chain_end c es = (if es = [] then c else Some (ser (last es)))"

lemma chain_snoc:
  "chain c (es @ [e]) \<longleftrightarrow> chain c es \<and> (data (pkt e) = FlushData \<or> chain_end c es = Some (ser e))"
  by (induction c es rule: chain.induct) (auto simp: chain_end_def)

lemma chain_end_snoc [simp]: "chain_end c (es @ [e]) = Some (ser e)"
  by (simp add: chain_end_def)

lemma chain_end_Nil [simp]: "chain_end c [] = c"
  by (simp add: chain_end_def)

lemma chain_end_Cons: "chain c (e # es) \<Longrightarrow> chain_end (Some (ser e)) es = chain_end c (e # es)"
  by (auto simp: chain_end_def)

definition codec_of :: "player \<Rightarrow> int option" where
  "codec_of s = codec_serial None (codec_log s)"

fun pc_ok :: "int option \<Rightarrow> Decoder \<Rightarrow> thread \<Rightarrow> bool" where
  "pc_ok c d (Running DFetch) = True"
| "pc_ok c d (Running (DTest e)) = (c = Some (ser e) \<and> pkt_serial d = ser e)"
| "pc_ok c d (Running DDecode) = (c = Some (ser (pkt_temp d)) \<and> pkt_serial d = ser (pkt_temp d))"
| "pc_ok c d (Running (DRet r)) = (0 \<le> r \<longrightarrow> packet_pending d \<longrightarrow> c = Some (ser (pkt_temp d)) \<and> pkt_serial d = ser (pkt_temp d))"
| "pc_ok c d (Running pc) = (packet_pending d \<longrightarrow> c = Some (ser (pkt_temp d)) \<and> pkt_serial d = ser (pkt_temp d))"
| "pc_ok c d t = True"

definition player_ok :: "int \<Rightarrow> player \<Rightarrow> bool" where
  "player_ok nsz s \<longleftrightarrow> clean None (codec_log s) \<and> counted nsz (pq s)
     \<and> (tid s = Closed \<longrightarrow> abort_request (pq s) \<and> pkts (pq s) = [])
     \<and> (\<forall>pc. tid s = Running pc \<longrightarrow> chain (codec_of s) (pkts (pq s)))
     \<and> (\<forall>pc. tid s = Running pc \<longrightarrow> \<not> seeking s \<longrightarrow> \<not> abort_request (pq s)
          \<longrightarrow> chain_end (codec_of s) (pkts (pq s)) = Some (serial (pq s)))
     \<and> pc_ok (codec_of s) (dec s) (tid s)"

lemma after_decode_fields [simp]:
  "ser (pkt_temp (after_decode ce d a)) = ser (pkt_temp d)" "pkt_serial (after_decode ce d a) = pkt_serial d"
  by (simp_all add: after_decode_def Let_def)

lemma frame_pts_fields [simp]:
  "pkt_temp (snd (frame_pts ce d a)) = pkt_temp d" "pkt_serial (snd (frame_pts ce d a)) = pkt_serial d"
  by (simp_all add: frame_pts_def Let_def split: media.splits)

lemma player_ok_start: "player_ok nsz player_start"
  by (simp add: player_ok_def player_start_def packet_queue_init_def counted_def)

lemma player_ok_put:
  assumes "player_ok nsz s" "\<not> seeking s" "data p \<noteq> FlushData" "packet_queue_put nsz dup mem (pq s) p = (r, f, q)"
  shows "player_ok nsz (s\<lparr>pq := q\<rparr>)"
proof -
  have c: "counted nsz q" using counted_put [OF _ assms(4)] assms(1) by (simp add: player_ok_def)
  show ?thesis using assms c
    by (auto simp: player_ok_def codec_of_def packet_queue_put_def packet_queue_put_private_def Let_def chain_snoc
        split: if_splits)
qed

lemma player_ok_seek:
  assumes "player_ok nsz s" "seeking s" "packet_queue_put nsz dup True (pq s) flush_pkt = (r, f, q)"
  shows "player_ok nsz (s\<lparr>pq := q, seeking := False\<rparr>)"
proof -
  have c: "counted nsz q" using counted_put [OF _ assms(3)] assms(1) by (simp add: player_ok_def)
  show ?thesis using assms c
    by (auto simp: player_ok_def codec_of_def packet_queue_put_def packet_queue_put_private_def Let_def chain_snoc
        flush_pkt_def split: if_splits)
qed

lemma player_ok_fetch:
  assumes "player_ok nsz s" "tid s = Running DFetch" "decoder_step nsz ce a (pq s) (dec s) DFetch = Some (q, d, pc1, es)"
  shows "player_ok nsz (s\<lparr>pq := q, dec := d, tid := Running pc1, codec_log := codec_log s @ es\<rparr>)"
proof -
  obtain r eo q1 where g: "packet_queue_get nsz (pq s) True = Some (r, eo, q1)"
    using assms(3) by (auto simp: decoder_step_def split: option.splits)
  have cq: "counted nsz q1" using counted_get [OF _ g] assms(1) by (simp add: player_ok_def)
  show ?thesis
  proof (cases eo)
    case None
    then have "q = pq s" "d = dec s" "pc1 = DRet (-1)" "es = []"
      using g assms(3) by (auto simp: decoder_step_def packet_queue_get_def split: if_splits list.splits)
    then show ?thesis using assms(1,2) by (simp add: player_ok_def codec_of_def)
  next
    case (Some e)
    have ne: "\<not> abort_request (pq s)" and ps: "pkts (pq s) = e # pkts q1" "abort_request q1 = abort_request (pq s)"
      "serial q1 = serial (pq s)"
      using g Some by (auto simp: packet_queue_get_def split: if_splits list.splits)
    have "chain (codec_of s) (pkts (pq s))" using assms(1,2) by (simp add: player_ok_def)
    then have ch: "chain (codec_of s) (e # pkts q1)" by (simp only: ps(1))
    have ok: "player_ok nsz s" by (rule assms(1))
    have ch1: "chain (Some (ser e)) (pkts q1)" using ch by (auto split: if_splits)
    have end1: "chain_end (Some (ser e)) (pkts q1) = chain_end (codec_of s) (pkts (pq s))"
      using chain_end_Cons [OF ch] ps by simp
    show ?thesis
    proof (cases "data (pkt e) = FlushData")
      case True
      then have "q = q1" "pc1 = DTest e" "es = [CodecFlush (ser e)]" "pkt_serial d = ser e"
        using assms(3) g Some by (auto simp: decoder_step_def)
      then show ?thesis using ok assms(2) ps True ch ch1 cq end1
        by (simp add: player_ok_def codec_of_def clean_append)
    next
      case False
      then have "q = q1" "pc1 = DTest e" "es = []" "pkt_serial d = ser e"
        using assms(3) g Some by (auto simp: decoder_step_def)
      then show ?thesis using ok assms(2) ps False ch ch1 cq end1
        by (auto simp: player_ok_def codec_of_def)
    qed
  qed
qed

lemma player_ok_decode:
  assumes "player_ok nsz s" "tid s = Running pc" "decoder_step nsz ce a (pq s) (dec s) pc = Some (q, d, pc1, es)"
  shows "player_ok nsz (s\<lparr>pq := q, dec := d, tid := Running pc1, codec_log := codec_log s @ es\<rparr>)"
proof (cases "pc = DFetch")
  case True
  then show ?thesis using player_ok_fetch assms by blast
next
  case False
  have q: "q = pq s" using False assms(3) by (auto simp: decoder_step_def Let_def split: dpc.splits if_splits)
  have ok: "clean None (codec_log s)" "counted nsz (pq s)" "chain (codec_of s) (pkts (pq s))"
    "\<not> seeking s \<longrightarrow> \<not> abort_request (pq s) \<longrightarrow> chain_end (codec_of s) (pkts (pq s)) = Some (serial (pq s))"
    "pc_ok (codec_of s) (dec s) (Running pc)"
    using assms(1,2) by (simp_all add: player_ok_def)
  show ?thesis
  proof (cases "pc = DDecode")
    case True
    let ?t = "pkt_temp (dec s)"
    have es: "es = [CodecDecode ?t]" and d: "ser (pkt_temp d) = ser ?t" "pkt_serial d = pkt_serial (dec s)"
      and pc1: "pc1 = DLoop \<or> (\<exists>r. pc1 = DRet r)"
      using assms(3) True by (auto simp: decoder_step_def Let_def split: if_splits)
    have c: "codec_of s = Some (ser ?t)" "pkt_serial (dec s) = ser ?t" using ok(5) True by simp_all
    show ?thesis unfolding player_ok_def using ok c d pc1 q es
      by (auto simp: codec_of_def clean_append)
  next
    case ndec: False
    have es: "es = []" using False ndec assms(3) by (auto simp: decoder_step_def split: dpc.splits if_splits)
    have "pc_ok (codec_of s) d (Running pc1)"
      using ok(5) False ndec assms(3) by (auto simp: decoder_step_def split: dpc.splits if_splits)
    then show ?thesis unfolding player_ok_def using ok q es by (simp add: codec_of_def)
  qed
qed

lemma player_ok_step: "player_step nsz ce s t \<Longrightarrow> player_ok nsz s \<Longrightarrow> player_ok nsz t"
proof (induction rule: player_step.induct)
  case (put s p dup mem r f q)
  then show ?case using player_ok_put by blast
next
  case (seek_put s dup r f q)
  then show ?case using player_ok_seek by blast
next
  case (decode s pc a q d pc1 es)
  then show ?case using player_ok_decode by blast
next
  case (reopen s)
  then show ?case
    by (simp add: player_ok_def codec_of_def clean_append packet_queue_start_def packet_queue_put_private_def
        flush_pkt_def Let_def decoder_init_def counted_def chain_end_def)
qed (auto simp: player_ok_def codec_of_def packet_queue_flush_def packet_queue_abort_def counted_def)

lemma player_ok_reaches: "player_reaches nsz ce s \<Longrightarrow> player_ok nsz s"
  by (induction rule: player_reaches.induct) (auto intro: player_ok_start player_ok_step)

text \<open>C2. The decoder never mixes serial numbers.  However the reading thread, the decoding thread and the
  opening and closing of the stream interleave, with seeks at any time, every packet handed to the
  codec carries the serial number for which the codec was flushed last; between packets of two
  different numbers there is always a flush (or a new codec).\<close>

theorem decoder_never_mixes_serials:
  assumes "player_reaches nsz ce s"
  shows "clean None (codec_log s)"
  using player_ok_reaches [OF assms] by (simp add: player_ok_def)

text \<open>C24. The counters of a packet queue are exact in every reachable state: \<open>nb_packets\<close> is the number of
  packets waiting and \<open>size\<close> the sum of their sizes and of the list nodes, which is what the reading
  thread's limits are compared with.\<close>

theorem packet_queue_is_counted:
  assumes "player_reaches nsz ce s"
  shows "nb_packets (pq s) = int (length (pkts (pq s)))
    \<and> qsize (pq s) = (\<Sum>e \<leftarrow> pkts (pq s). pkt_size (pkt e) + nsz)"
  using player_ok_reaches [OF assms] by (simp add: player_ok_def counted_def)

text \<open>The steps as a function of what happens, to run examples.\<close>

datatype happening =
  HPut AVPacket | HSeekFlush | HSeekPut | HDecode codec_answer | HAgain | HReturn | HAbort | HClose | HOpen

fun happens :: "int \<Rightarrow> codec_env \<Rightarrow> happening \<Rightarrow> player \<Rightarrow> player option" where
  "happens nsz ce (HPut p) s =
     (if \<not> seeking s \<and> data p \<noteq> FlushData then Some (s\<lparr>pq := snd (snd (packet_queue_put nsz True True (pq s) p))\<rparr>) else None)"
| "happens nsz ce HSeekFlush s =
     (if \<not> seeking s then Some (s\<lparr>pq := packet_queue_flush (pq s), seeking := True\<rparr>) else None)"
| "happens nsz ce HSeekPut s =
     (if seeking s then Some (s\<lparr>pq := snd (snd (packet_queue_put nsz True True (pq s) flush_pkt)), seeking := False\<rparr>) else None)"
| "happens nsz ce (HDecode a) s =
     (case tid s of
        Running pc \<Rightarrow> map_option (\<lambda>(q, d, pc1, es). s\<lparr>pq := q, dec := d, tid := Running pc1, codec_log := codec_log s @ es\<rparr>)
                        (decoder_step nsz ce a (pq s) (dec s) pc)
      | _ \<Rightarrow> None)"
| "happens nsz ce HAgain s =
     (case tid s of Running (DRet r) \<Rightarrow> if 0 \<le> r then Some (s\<lparr>tid := Running DEnter\<rparr>) else None | _ \<Rightarrow> None)"
| "happens nsz ce HReturn s = (case tid s of Running (DRet r) \<Rightarrow> Some (s\<lparr>tid := Ended\<rparr>) | _ \<Rightarrow> None)"
| "happens nsz ce HAbort s = Some (s\<lparr>pq := packet_queue_abort (pq s)\<rparr>)"
| "happens nsz ce HClose s =
     (if tid s = Ended \<and> abort_request (pq s) then Some (s\<lparr>pq := packet_queue_flush (pq s), tid := Closed\<rparr>) else None)"
| "happens nsz ce HOpen s =
     (if tid s = Closed then Some (s\<lparr>pq := packet_queue_start nsz True (pq s), dec := decoder_init,
                tid := Running DEnter, codec_log := codec_log s @ [CodecNew]\<rparr>) else None)"

fun all_happen :: "int \<Rightarrow> codec_env \<Rightarrow> happening list \<Rightarrow> player \<Rightarrow> player option" where
  "all_happen nsz ce [] s = Some s"
| "all_happen nsz ce (h # hs) s = (case happens nsz ce h s of None \<Rightarrow> None | Some t \<Rightarrow> all_happen nsz ce hs t)"

lemma happens_step:
  assumes "happens nsz ce h s = Some t"
  shows "player_step nsz ce s t"
proof -
  show ?thesis
  proof (cases h)
    case (HPut p)
    obtain r f q where q: "packet_queue_put nsz True True (pq s) p = (r, f, q)" by (metis prod_cases3)
    show ?thesis using assms HPut player_step.put [OF _ _ q] q by (auto split: if_splits)
  next
    case HSeekPut
    obtain r f q where q: "packet_queue_put nsz True True (pq s) flush_pkt = (r, f, q)" by (metis prod_cases3)
    show ?thesis using assms HSeekPut player_step.seek_put [OF _ q] q by (auto split: if_splits)
  qed (use assms in \<open>auto split: if_splits thread.splits dpc.splits intro: player_step.intros\<close>)
qed

lemma all_happen_reaches:
  "all_happen nsz ce hs s = Some t \<Longrightarrow> player_reaches nsz ce s \<Longrightarrow> player_reaches nsz ce t"
  by (induction hs arbitrary: s) (auto split: option.splits dest: happens_step intro: player_reaches.step)

definition demo_env :: codec_env where
  "demo_env = \<lparr>codec_type = VideoType, reorder_pts = -1, rescale = (\<lambda>t _ _. t), ctx_tb = (1, 25), pkt_tb = (1, 25)\<rparr>"

definition demo_answer :: codec_answer where
  "demo_answer = \<lparr>a_ret = 3, a_got = True, a_pts = 0, a_pkt_pts = 0, a_pkt_dts = 0, a_best = 0, a_samples = 0, a_rate = 1\<rparr>"

definition demo_pkt :: "char list \<Rightarrow> AVPacket" where
  "demo_pkt bs = \<lparr>data = Bytes bs, pkt_size = int (length bs), stream_index = 0\<rparr>"

text \<open>A stream is opened, a packet is decoded, a seek throws the next packet away, another one is decoded.\<close>

definition demo_run :: "happening list" where
  "demo_run = (let d = HDecode demo_answer in
     [HOpen, HPut (demo_pkt ''abc'')] @ replicate 7 d @ [HAgain, HPut (demo_pkt ''old''), HSeekFlush, HSeekPut,
      HPut (demo_pkt ''new''), HPut (demo_pkt ''more'')] @ replicate 7 d)"

definition demo_end :: player where
  "demo_end = the (all_happen 100 demo_env demo_run player_start)"

lemma demo_reaches: "player_reaches 100 demo_env demo_end"
proof -
  have "all_happen 100 demo_env demo_run player_start \<noteq> None" by code_simp
  then have "all_happen 100 demo_env demo_run player_start = Some demo_end" by (auto simp: demo_end_def)
  then show ?thesis by (rule all_happen_reaches) (rule player_reaches.start)
qed

theorem decoder_never_mixes_witness:
  "codec_log demo_end =
     [CodecNew, CodecFlush 1, CodecDecode \<lparr>pkt = demo_pkt ''abc'', ser = 1\<rparr>,
      CodecFlush 2, CodecDecode \<lparr>pkt = demo_pkt ''new'', ser = 2\<rparr>]
   \<and> clean None (codec_log demo_end)"
proof -
  have "codec_log demo_end =
     [CodecNew, CodecFlush 1, CodecDecode \<lparr>pkt = demo_pkt ''abc'', ser = 1\<rparr>,
      CodecFlush 2, CodecDecode \<lparr>pkt = demo_pkt ''new'', ser = 2\<rparr>]" by code_simp
  with decoder_never_mixes_serials [OF demo_reaches] show ?thesis by simp
qed

theorem packet_queue_is_counted_witness:
  "pkts (pq demo_end) = [\<lparr>pkt = demo_pkt ''more'', ser = 2\<rparr>] \<and> nb_packets (pq demo_end) = 1 \<and> qsize (pq demo_end) = 104"
proof -
  have "pkts (pq demo_end) = [\<lparr>pkt = demo_pkt ''more'', ser = 2\<rparr>]" by code_simp
  with packet_queue_is_counted [OF demo_reaches] show ?thesis by (simp add: demo_pkt_def)
qed

end
