(* ===== verification/ControlChannel.thy ===== *)
theory ControlChannel
  imports StreamBuffer
begin

text \<open>
  How the control channel of \<open>src/stream_buffer.c\<close> is opened and closed: \<open>ff_ctl_open\<close>, \<open>ff_ctl_open2\<close>,
  \<open>ctl_msg_open\<close> and \<open>ff_ctl_close\<close>, with the descriptors they leave open and the buffers they leave behind.
\<close>

section \<open>The static variables and the descriptors\<close>

text \<open>A pointer to a buffer: null, to a buffer, or to one that has been freed.\<close>

datatype sb_ptr = NullSb | Sb StreamBuffer | FreedSb

text \<open>\<open>socks\<close> holds the open sockets, with whether they do not block.\<close>

record channel =
  ch_ctrl_fd :: int
  ch_serv_fd :: int
  ch_in :: sb_ptr
  ch_out :: sb_ptr
  socks :: "int \<rightharpoonup> bool"

text \<open>
  What the system calls answer; a buffer is what \<open>sb_init\<close> gives.  \<open>nonblock_ret\<close> is \<open>fcntl\<close>, and \<open>ip_ok\<close> whether
  \<open>inet_aton\<close> can read the address.
\<close>

record sock_calls =
  socket_ret :: int
  bind_ret :: int
  listen_ret :: int
  connect_ret :: int
  nonblock_ret :: int
  ip_ok :: bool
  new_in :: "StreamBuffer option"
  new_out :: "StreamBuffer option"

definition sb_of :: "StreamBuffer option \<Rightarrow> sb_ptr" where
  "sb_of s = (case s of None \<Rightarrow> NullSb | Some b \<Rightarrow> Sb b)"

definition sb_destroy :: "sb_ptr \<Rightarrow> sb_ptr result" where
  "sb_destroy s = (case s of NullSb \<Rightarrow> Inr NullSb | Sb b \<Rightarrow> Inr FreedSb | FreedSb \<Rightarrow> Inl UseAfterFree)"

text \<open>Setting the flag may fail; that is only printed.\<close>

definition set_nonblock :: "sock_calls \<Rightarrow> int \<Rightarrow> (int \<rightharpoonup> bool) \<Rightarrow> (int \<rightharpoonup> bool)" where
  "set_nonblock K fd m = (if nonblock_ret K < 0 then m else m(fd \<mapsto> True))"

definition ff_ctl_open :: "sock_calls \<Rightarrow> channel \<Rightarrow> int \<times> channel" where
  "ff_ctl_open K c =
     (let fd = socket_ret K in
      if fd < 0 then (-1, c)
      else
        let c1 = c\<lparr>socks := (socks c)(fd \<mapsto> False)\<rparr> in
        if bind_ret K < 0 then (-1, c1\<lparr>socks := (socks c1)(fd := None)\<rparr>)
        else if listen_ret K < 0 then (-1, c1\<lparr>socks := (socks c1)(fd := None)\<rparr>)
        else (fd, c1\<lparr>socks := set_nonblock K fd (socks c1), ch_serv_fd := fd,
                     ch_in := sb_of (new_in K), ch_out := sb_of (new_out K)\<rparr>))"

definition ff_ctl_open2 :: "sock_calls \<Rightarrow> channel \<Rightarrow> int \<times> channel" where
  "ff_ctl_open2 K c =
     (if \<not> ip_ok K then (-1, c)
      else
        let fd = socket_ret K in
        if fd < 0 then (-1, c)
        else
          let c1 = c\<lparr>socks := (socks c)(fd \<mapsto> False)\<rparr> in
          if connect_ret K < 0 then (-1, c1\<lparr>socks := (socks c1)(fd := None)\<rparr>)
          else (fd, c1\<lparr>socks := set_nonblock K fd (socks c1), ch_ctrl_fd := fd,
                       ch_in := sb_of (new_in K), ch_out := sb_of (new_out K)\<rparr>))"

text \<open>\<open>accept\<close> gives \<open>socket_ret\<close>.\<close>

definition ctl_msg_open :: "sock_calls \<Rightarrow> channel \<Rightarrow> int \<times> channel" where
  "ctl_msg_open K c =
     (let fd = socket_ret K in
      if fd < 0 then (-1, c)
      else (fd, c\<lparr>socks := set_nonblock K fd ((socks c)(fd \<mapsto> False)), ch_ctrl_fd := fd\<rparr>))"

definition ff_ctl_close :: "channel \<Rightarrow> (int \<times> channel) result" where
  "ff_ctl_close c =
     then_do (sb_destroy (ch_in c)) (\<lambda>i.
     then_do (sb_destroy (ch_out c)) (\<lambda>o1.
       Inr (0, c\<lparr>ch_in := i, ch_out := o1, ch_ctrl_fd := -1, ch_serv_fd := -1\<rparr>)))"

section \<open>What is left open\<close>

text \<open>The kernel gives descriptors that are not in use.\<close>

definition fresh :: "sock_calls \<Rightarrow> channel \<Rightarrow> bool" where
  "fresh K c \<longleftrightarrow> socks c (socket_ret K) = None"


definition demo_calls :: "int \<Rightarrow> sock_calls" where
  "demo_calls fd = \<lparr>socket_ret = fd, bind_ret = 0, listen_ret = 0, connect_ret = -1, nonblock_ret = 0, ip_ok = True,
     new_in = sb_init True (Some (replicate 8 0)) 8, new_out = sb_init True (Some (replicate 8 0)) 8\<rparr>"

definition no_channel :: channel where
  "no_channel = \<lparr>ch_ctrl_fd = 0, ch_serv_fd = 0, ch_in = NullSb, ch_out = NullSb, socks = Map.empty\<rparr>"


text \<open>Closing the channel closes no descriptor, so the sockets stay open for ever; and the pointers to the freed
  buffers stay, so that closing the channel a second time frees them again.\<close>

theorem ctl_close_leaks:
  assumes "ch_in c = Sb b" "ch_out c = Sb b'"
  shows "\<exists>c'. ff_ctl_close c = Inr (0, c') \<and> socks c' = socks c \<and> ch_ctrl_fd c' = -1 \<and> ch_serv_fd c' = -1
    \<and> ff_ctl_close c' = Inl UseAfterFree"
  using assms by (simp add: ff_ctl_close_def sb_destroy_def)

theorem ctl_close_witness:
  "case ff_ctl_close (snd (ff_ctl_open (demo_calls 3) no_channel)) of
     Inr (_, c) \<Rightarrow> socks c = [3 \<mapsto> True] \<and> ff_ctl_close c = Inl UseAfterFree
   | Inl _ \<Rightarrow> False"
proof -
  let ?c = "snd (ff_ctl_open (demo_calls 3) no_channel)"
  obtain b b' where "ch_in ?c = Sb b" "ch_out ?c = Sb b'" "socks ?c = [3 \<mapsto> True]"
    by (auto simp: ff_ctl_open_def demo_calls_def no_channel_def sb_init_def sb_of_def set_nonblock_def Let_def)
  with ctl_close_leaks [OF this(1,2)] show ?thesis by auto
qed

end
