(* ===== verification/DateText.thy ===== *)
theory DateText
  imports HttpText
begin

text \<open>
  \<open>ff_strptime\<close> of \<open>src/avstring.c\<close>, the replacement of \<open>strptime\<close> for systems without it: it reads the dates of HTTP,
  over the scanners and the calendar of \<open>AvString\<close>.
\<close>

section \<open>Scanning\<close>

definition date_format :: string where
  "date_format = ''%a, %d %b %Y %H:%M:%S GMT''"

text \<open>One call of \<open>get_word\<close> and the step of the pointer: the word, what follows, and the block the word is in.\<close>

definition next_word :: "string \<Rightarrow> char list \<Rightarrow> (string \<times> string \<times> char list) result" where
  "next_word p dst =
     then_do (tm_get_word p dst) (\<lambda>(dst1, n). then_do (cstr dst1) (\<lambda>w. Inr (w, drop n p, dst1)))"

text \<open>\<open>%02d\<close> of \<open>sscanf\<close>: spaces, then up to two characters of a number.\<close>

definition scan_d2 :: "string \<Rightarrow> (int \<times> string) option" where
  "scan_d2 s =
     (let s1 = dropWhile (\<lambda>c. av_isspace (ord c)) s;
          (neg, n, s2) = (case s1 of
             c # r \<Rightarrow> if c = CHR ''-'' then (True, 1, r) else if c = CHR ''+'' then (False, 1, r) else (False, 2, s1)
           | [] \<Rightarrow> (False, 2, []));
          ds = takeWhile (\<lambda>c. digit_val 10 c \<noteq> None) (take n s2);
          v = strto_digits 10 0 ds in
      if ds = [] then None else Some (if neg then - v else v, drop (length ds) s2))"

text \<open>\<open>%02d:%02d:%02d\<close>: what is not read stays as it is.\<close>

definition scan_time :: "string \<Rightarrow> tm \<Rightarrow> tm" where
  "scan_time s t =
     (case scan_d2 s of
        Some (h, CHR '':'' # r) \<Rightarrow>
          (let t1 = t\<lparr>tm_hour := h\<rparr> in
           case scan_d2 r of
             Some (m, CHR '':'' # q) \<Rightarrow>
               (let t2 = t1\<lparr>tm_min := m\<rparr> in
                case scan_d2 q of Some (sec, _) \<Rightarrow> t2\<lparr>tm_sec := sec\<rparr> | None \<Rightarrow> t2)
           | Some (m, _) \<Rightarrow> t1\<lparr>tm_min := m\<rparr>
           | None \<Rightarrow> t1)
      | Some (h, _) \<Rightarrow> t\<lparr>tm_hour := h\<rparr>
      | None \<Rightarrow> t)"

definition atoi :: "string \<Rightarrow> int" where
  "atoi s = to_int32 (strtoll 10 s)"

text \<open>\<open>word\<close> is the local array; the result is the time and where the reading stopped.\<close>

definition ff_strptime :: "string \<Rightarrow> string \<Rightarrow> char list \<Rightarrow> (int \<times> string) option result" where
  "ff_strptime str fmt word =
     (if fmt \<noteq> date_format then Inr None
      else
        let t0 = \<lparr>tm_year = 0, tm_mon = 0, tm_mday = 0, tm_hour = 0, tm_min = 0, tm_sec = 0\<rparr> in
        then_do (next_word str word) (\<lambda>(_, p1, b1).
        then_do (next_word p1 b1) (\<lambda>(w2, p2, b2).
        let t1 = t0\<lparr>tm_mday := atoi w2\<rparr> in
        then_do (next_word p2 b2) (\<lambda>(w3, p3, b3).
        let t2 = t1\<lparr>tm_mon := get_mon w3 - 1\<rparr> in
        then_do (next_word p3 b3) (\<lambda>(w4, p4, b4).
        let t3 = t2\<lparr>tm_year := atoi w4 - 1900\<rparr> in
        then_do (next_word p4 b4) (\<lambda>(w5, p5, b5).
        let t4 = scan_time w5 t3 in
        then_do (next_word p5 b5) (\<lambda>(_, p6, _). Inr (Some (av_timegm t4, p6)))))))))"

section \<open>Dates that are written are read\<close>

definition two_digits :: "nat \<Rightarrow> string" where
  "two_digits n = [digit_char (n div 10), digit_char (n mod 10)]"

definition http_date :: "string \<Rightarrow> nat \<Rightarrow> nat \<Rightarrow> nat \<Rightarrow> nat \<Rightarrow> nat \<Rightarrow> nat \<Rightarrow> string" where
  "http_date wday y m d h mi s =
     wday @ '', '' @ two_digits d @ '' '' @ mon_names ! m @ '' '' @ nat_str 10 y @ '' ''
       @ two_digits h @ '':'' @ two_digits mi @ '':'' @ two_digits s @ '' GMT''"

definition a_word :: "string \<Rightarrow> bool" where
  "a_word w \<longleftrightarrow> w \<noteq> [] \<and> length w < 64 \<and> (\<forall>c \<in> set w. \<not> av_isspace (ord c) \<and> c \<noteq> NUL)"

lemma next_word_step:
  assumes "a_word w" "\<forall>c \<in> set ws. av_isspace (ord c)" "rest = [] \<or> av_isspace (ord (hd rest))" "length dst = 64"
  shows "\<exists>dst1. next_word (ws @ w @ rest) dst = Inr (w, rest, dst1) \<and> length dst1 = 64"
proof -
  obtain c cs where w: "w = c # cs" "\<not> av_isspace (ord c)" using assms(1) by (cases w) (auto simp: a_word_def)
  have p: "dropWhile (\<lambda>c. av_isspace (ord c)) (ws @ w @ rest) = w @ rest"
    using assms(2) w by (simp add: dropWhile_append)
  have t: "takeWhile (\<lambda>c. \<not> av_isspace (ord c)) (w @ rest) = w" "dropWhile (\<lambda>c. \<not> av_isspace (ord c)) (w @ rest) = rest"
    using assms(1,3) by (cases rest; auto simp: a_word_def takeWhile_append dropWhile_append)+
  have len: "length (w @ [NUL]) \<le> length dst" using assms(1,4) by (simp add: a_word_def)
  let ?d = "(w @ [NUL]) @ drop (length w + 1) dst"
  have m: "mem_wr dst 0 (w @ [NUL]) = Inr ?d" using len by (simp add: mem_wr_def)
  have "NUL \<notin> set w" using assms(1) by (auto simp: a_word_def)
  then have "cstr ?d = Inr w" by (simp add: cstr_def sep_split)
  then show ?thesis using m p t len assms(4) by (simp add: next_word_def tm_get_word_def Let_def)
qed

lemma digit_of: "k < 10 \<Longrightarrow> digit_val 10 (digit_char k) = Some (int k)"
  using digit_val_digit_char [of k 10] by simp

lemma digit_char_plain:
  assumes "k < 10"
  shows "\<not> av_isspace (ord (digit_char k))" "digit_char k \<noteq> CHR ''-''" "digit_char k \<noteq> CHR ''+''" "digit_char k \<noteq> NUL"
  using digit_val_props [of 10 "digit_char k"] digit_of [OF assms] by simp_all

lemma two_digits_value: "n < 100 \<Longrightarrow> strto_digits 10 0 (two_digits n) = int n"
proof -
  assume "n < 100"
  then have "n div 10 < 10" "n mod 10 < 10" by auto
  then show ?thesis by (simp add: two_digits_def digit_of) (metis div_mult_mod_eq mult.commute of_nat_add of_nat_mult of_nat_numeral)
qed

lemma scan_two_digits:
  assumes "n < 100"
  shows "scan_d2 (two_digits n @ r) = Some (int n, r)"
proof -
  have k: "n div 10 < 10" "n mod 10 < 10" using assms by auto
  show ?thesis using two_digits_value [OF assms] digit_char_plain [OF k(1)] digit_of [OF k(1)] digit_of [OF k(2)]
    by (simp add: scan_d2_def two_digits_def Let_def)
qed

lemma atoi_two_digits:
  assumes "n < 100"
  shows "atoi (two_digits n) = int n"
proof -
  have k: "n div 10 < 10" using assms by auto
  have "strtoll 10 (two_digits n) = int n"
    using two_digits_value [OF assms] digit_char_plain [OF k] assms
    by (simp add: strtoll_def two_digits_def Let_def saturate64_def)
  then show ?thesis using sint_word_of_int_32 [of "int n"] assms by (simp add: atoi_def to_int32_def)
qed

lemma nat_str_plain: "\<forall>c \<in> set (nat_str 10 n). \<not> av_isspace (ord c) \<and> c \<noteq> NUL \<and> c \<noteq> CHR ''-'' \<and> c \<noteq> CHR ''+''"
  using nat_str_digits [of 10 n] digit_val_props [of 10] by simp

lemma atoi_nat_str:
  assumes "n < 2 ^ 31"
  shows "atoi (nat_str 10 n) = int n"
proof -
  obtain c cs where d: "nat_str 10 n = c # cs" by (cases "nat_str 10 n") auto
  then have c: "\<not> av_isspace (ord c)" "c \<noteq> CHR ''-''" "c \<noteq> CHR ''+''" using nat_str_plain [of n] by auto
  have "strtoll 10 (nat_str 10 n) = saturate64 (int n)"
    using strto_digits_nat_str [of 10 n] c unfolding d strtoll_def by (auto simp: Let_def split: list.splits)
  then show ?thesis using sint_word_of_int_32 [of "int n"] assms by (simp add: atoi_def to_int32_def saturate64_def)
qed

lemma month_read: "1 \<le> m \<Longrightarrow> m \<le> 12 \<Longrightarrow> get_mon (mon_names ! m) = int m \<and> a_word (mon_names ! m)"
proof -
  assume "1 \<le> m" "m \<le> 12"
  then have "m \<in> {1..12}" by simp
  also have "{1..12} = {1, 2, 3, 4, 5, 6, 7, 8, 9, 10, 11, 12 :: nat}" by (rule set_eqI) (simp, arith)
  finally show ?thesis by (elim insertE emptyE) (simp_all add: get_mon_def mon_names_def a_word_def av_isspace_def ord_def)
qed

lemma two_digits_word: "n < 100 \<Longrightarrow> a_word (two_digits n)"
  using digit_char_plain by (auto simp: a_word_def two_digits_def)

text \<open>A date in the form HTTP uses is read, whatever the day of the week is and whatever the word buffer held.\<close>

lemma http_date_read:
  assumes "a_word (wday @ '','')" "1 \<le> m" "m \<le> 12" "d < 100" "h < 100" "mi < 100" "s < 100" "y < 2 ^ 31" "length word = 64"
  shows "ff_strptime (http_date wday y m d h mi s) date_format word =
      Inr (Some (av_timegm \<lparr>tm_year = int y - 1900, tm_mon = int m - 1, tm_mday = int d, tm_hour = int h, tm_min = int mi, tm_sec = int s\<rparr>, []))"
proof -
  let ?time = "two_digits h @ '':'' @ two_digits mi @ '':'' @ two_digits s"
  have sp: "av_isspace (ord CHR '' '')" by (simp add: av_isspace_def ord_def)
  have yw: "a_word (nat_str 10 y)"
    using nat_str_plain [of y] nat_str_length [of 10 y 10] assms(8) by (auto simp: a_word_def)
  have tw: "a_word ?time"
    using two_digits_word [OF assms(5)] two_digits_word [OF assms(6)] two_digits_word [OF assms(7)]
    by (auto simp: a_word_def two_digits_def av_isspace_def ord_def)
  have gw: "a_word ''GMT''" by (simp add: a_word_def av_isspace_def ord_def)
  define r5 where "r5 = '' '' @ ''GMT'' @ []"
  define r4 where "r4 = '' '' @ ?time @ r5"
  define r3 where "r3 = '' '' @ nat_str 10 y @ r4"
  define r2 where "r2 = '' '' @ (mon_names ! m) @ r3"
  define r1 where "r1 = '' '' @ two_digits d @ r2"
  note step = next_word_step [where ws = "'' ''"]
  obtain b1 where b1: "next_word ([] @ (wday @ '','') @ r1) word = Inr (wday @ '','', r1, b1)" "length b1 = 64"
    using next_word_step [where ws = "[]" and rest = r1, OF assms(1) _ _ assms(9)] sp by (auto simp: r1_def)
  obtain b2 where b2: "next_word r1 b1 = Inr (two_digits d, r2, b2)" "length b2 = 64"
    using step [where rest = r2, OF two_digits_word [OF assms(4)] _ _ b1(2)] sp unfolding r1_def by (auto simp: r2_def)
  obtain b3 where b3: "next_word r2 b2 = Inr (mon_names ! m, r3, b3)" "length b3 = 64"
    using step [where rest = r3, OF conjunct2 [OF month_read [OF assms(2,3)]] _ _ b2(2)] sp unfolding r2_def by (auto simp: r3_def)
  obtain b4 where b4: "next_word r3 b3 = Inr (nat_str 10 y, r4, b4)" "length b4 = 64"
    using step [where rest = r4, OF yw _ _ b3(2)] sp unfolding r3_def by (auto simp: r4_def)
  obtain b5 where b5: "next_word r4 b4 = Inr (?time, r5, b5)" "length b5 = 64"
    using step [where rest = r5, OF tw _ _ b4(2)] sp unfolding r4_def by (auto simp: r5_def)
  obtain b6 where b6: "next_word r5 b5 = Inr (''GMT'', [], b6)"
    using step [where rest = "[]", OF gw _ _ b5(2)] sp unfolding r5_def by auto
  have t: "http_date wday y m d h mi s = [] @ (wday @ '','') @ r1"
    by (simp add: http_date_def r1_def r2_def r3_def r4_def r5_def)
  have time: "scan_time ?time t0 = t0\<lparr>tm_hour := int h, tm_min := int mi, tm_sec := int s\<rparr>" for t0
    using scan_two_digits [OF assms(5)] scan_two_digits [OF assms(6)] scan_two_digits [OF assms(7), of "[]"]
    by (simp add: scan_time_def Let_def)
  show "ff_strptime (http_date wday y m d h mi s) date_format word =
      Inr (Some (av_timegm \<lparr>tm_year = int y - 1900, tm_mon = int m - 1, tm_mday = int d, tm_hour = int h, tm_min = int mi, tm_sec = int s\<rparr>, []))"
    using month_read [OF assms(2,3)] atoi_two_digits [OF assms(4)] atoi_nat_str [OF assms(8)]
    unfolding t ff_strptime_def by (simp add: b1(1) [simplified] b2 b3 b4 b5 b6 time [simplified] Let_def)
qed

text \<open>The time of day is added to the day.\<close>

lemma av_timegm_time:
  "av_timegm (tm_of dt \<lparr>tm_hour := h, tm_min := mi, tm_sec := s\<rparr>) = av_timegm (tm_of dt) + (3600 * h + 60 * mi + s)"
  by (cases dt) (simp add: av_timegm_def tm_of_def Let_def)

lemma date_in_month: "valid_date (y, m, d) \<Longrightarrow> 0 < y \<and> 1 \<le> m \<and> m \<le> 12 \<and> 0 < d \<and> d \<le> 31"
  by (auto simp: valid_date_def days_in_month_def split: if_splits)



lemma other_format_refused: "fmt \<noteq> date_format \<Longrightarrow> ff_strptime str fmt word = Inr None"
  by (simp add: ff_strptime_def)

end
