(* ===== verification/FfUtils.thy ===== *)
theory FfUtils
  imports RelayProofs
begin

text \<open>
  The rest of \<open>src/ff_utils.c\<close>: how a remuxer wraps what FFmpeg's muxer produces into the blocks the
  server relays.  What the muxer writes into the dynamic buffer, and its result, are parameters.
\<close>

section \<open>Writing blocks\<close>

text \<open>
  The output: whether its format is \<open>flv\<close> (the test of \<open>oformat->name\<close>), and the bytes written to
  \<open>pb\<close> so far, \<open>None\<close> for a null pointer.
\<close>

record out_ctx =
  is_flv :: bool
  pb :: "char list option"

definition put_block :: "nat \<Rightarrow> char list \<Rightarrow> out_ctx \<Rightarrow> out_ctx result" where
  "put_block type ds oc =
     (case pb oc of None \<Rightarrow> Inl NullDeref | Some out \<Rightarrow> Inr (oc\<lparr>pb := Some (out @ sff_write_block type ds)\<rparr>))"

text \<open>\<open>dyn\<close>: a dynamic buffer could be opened; \<open>hdr\<close>: the header's bytes, \<open>None\<close> if the muxer fails.\<close>

definition sff_write_header :: "bool \<Rightarrow> char list option \<Rightarrow> out_ctx \<Rightarrow> (int \<times> out_ctx) result" where
  "sff_write_header dyn hdr oc =
     (if \<not> dyn then Inr (-1, oc)
      else case hdr of
        None \<Rightarrow> Inr (-1, oc)
      | Some bs \<Rightarrow> if 0 < length bs then then_do (put_block 1 bs oc) (\<lambda>oc1. Inr (0, oc1)) else Inr (0, oc))"

text \<open>
  \<open>mux\<close> gives the result and the bytes of \<open>av_interleaved_write_frame\<close>, or of \<open>av_write_trailer\<close> when
  there is no packet; a packet is its stream index and what the muxer knows of it.
\<close>

definition sff_write_packet ::
  "bool \<Rightarrow> ((int \<times> 'p) option \<Rightarrow> int \<times> char list) \<Rightarrow> out_ctx \<Rightarrow> (int \<times> 'p) option \<Rightarrow> (int \<times> out_ctx) result" where
  "sff_write_packet dyn mux oc pkt =
     (if pb oc = None then Inr (0, oc)
      else if \<not> dyn then Inr (-1, oc)
      else
        let (ret, bs) = mux pkt;
            idx = (case pkt of Some (i, _) \<Rightarrow> word_of_int i | None \<Rightarrow> -1) :: 32 word;
            buf = wb32_chars idx @ bs;
            frame_size = int (length buf) - 4 in
        if frame_size \<le> 0 then Inr (ret, oc)
        else if ret < 0 then Inr (ret, oc)
        else then_do (put_block 2 buf oc) (\<lambda>oc1. Inr (0, oc1)))"

definition ff_wrapper_write_header ::
  "bool \<Rightarrow> char list option \<Rightarrow> (out_ctx \<Rightarrow> int \<times> out_ctx) \<Rightarrow> out_ctx \<Rightarrow> (int \<times> out_ctx) result" where
  "ff_wrapper_write_header dyn hdr lib oc = (if is_flv oc then sff_write_header dyn hdr oc else Inr (lib oc))"

definition ff_wrapper_write_packet ::
  "bool \<Rightarrow> ((int \<times> 'p) option \<Rightarrow> int \<times> char list) \<Rightarrow> (out_ctx \<Rightarrow> (int \<times> 'p) \<Rightarrow> int \<times> out_ctx) \<Rightarrow> out_ctx
   \<Rightarrow> int \<times> 'p \<Rightarrow> (int \<times> out_ctx) result" where
  "ff_wrapper_write_packet dyn mux lib oc pkt =
     (if is_flv oc then sff_write_packet dyn mux oc (Some pkt) else Inr (lib oc pkt))"

definition ff_wrapper_write_trailer ::
  "bool \<Rightarrow> ((int \<times> 'p) option \<Rightarrow> int \<times> char list) \<Rightarrow> (out_ctx \<Rightarrow> int \<times> out_ctx) \<Rightarrow> out_ctx \<Rightarrow> (int \<times> out_ctx) result" where
  "ff_wrapper_write_trailer dyn mux lib oc =
     (if is_flv oc then sff_write_packet dyn mux oc None else Inr (lib oc))"

text \<open>
  \<open>ff_filter_data\<close>: for an \<open>flv\<close> output the bit stream filter \<open>bsf\<close> runs once for every AAC stream, each
  time on what the time before left; \<open>aac\<close> lists which streams are AAC.
\<close>

fun filter_streams :: "(char list \<Rightarrow> int \<times> char list) \<Rightarrow> bool list \<Rightarrow> int \<times> char list \<Rightarrow> int \<times> char list" where
  "filter_streams bsf [] (r, ds) = (r, ds)"
| "filter_streams bsf (a # as) (r, ds) = filter_streams bsf as (if a then bsf ds else (r, ds))"

definition ff_filter_data ::
  "(char list \<Rightarrow> int \<times> char list) \<Rightarrow> bool list \<Rightarrow> bool \<Rightarrow> char list option \<Rightarrow> int \<times> char list option" where
  "ff_filter_data bsf aac flv d =
     (case d of
        None \<Rightarrow> (-1, None)
      | Some ds \<Rightarrow>
          if length ds < 2 then (-1, Some ds)
          else if flv then (let (r, ds1) = filter_streams bsf aac (-1, ds) in (r, Some ds1))
          else (-1, Some ds))"

section \<open>From the muxer to the ring\<close>

lemma wrapped_packet_bytes:
  assumes "is_flv oc" "pb oc = Some out" "mux (Some (i, p)) = (r, bs)" "0 \<le> r" "bs \<noteq> []"
  shows "ff_wrapper_write_packet True mux lib oc (i, p) = Inr (0, oc\<lparr>pb := Some (out @ sff_write_block 2 (wb32_chars (word_of_int i) @ bs))\<rparr>)"
  using assms by (simp add: ff_wrapper_write_packet_def sff_write_packet_def put_block_def Let_def)


definition demo_out :: out_ctx where
  "demo_out = \<lparr>is_flv = True, pb = Some ''POST''\<rparr>"

definition demo_mux :: "(int \<times> unit) option \<Rightarrow> int \<times> char list" where
  "demo_mux p = (0, ''ab'')"


end
