(* ===== verification/FrameQueue.thy ===== *)
theory FrameQueue
  imports PacketQueue QueueSpec
begin

text \<open>
  The frame queues of \<open>src/ffplay2.c\<close>: a ring of decoded frames between a decoder's thread and the
  display, which can keep the frame shown last.  The contract of both sides is an inductive relation;
  what is in the ring is a list, and every operation is an operation on that list.
\<close>

section \<open>The ring\<close>

definition FRAME_QUEUE_SIZE :: nat where "FRAME_QUEUE_SIZE = max 9 (max 3 16)"

text \<open>
  A frame by what the queue and its users look at; \<open>fr_data\<close> is \<open>None\<close> once it is unreferenced.  Of
  the libraries' frame it has what the player reads of a frame of samples.  A \<open>double\<close> is its bits; \<open>sub_start\<close> and \<open>sub_end\<close> are the display times of a subtitle, \<open>bmp\<close> is the
  texture of a picture, by its size.
\<close>

record AVFrame =
  av_data :: "byte list"
  nb_samples :: int
  av_format :: int
  av_channels :: int
  channel_layout :: int
  sample_rate :: int

record Frame =
  fr_data :: "AVFrame option"
  fr_serial :: int
  fr_pos :: int
  fr_pts :: "64 word"
  fr_duration :: "64 word"
  sub_start :: int
  sub_end :: int
  bmp :: "(int \<times> int) option"
  allocated :: bool
  fr_width :: int
  fr_height :: int

record FrameQueue =
  queue :: "Frame list"
  rindex :: nat
  windex :: nat
  fsize :: int
  max_size :: nat
  keep_last :: bool
  rindex_shown :: nat

text \<open>\<open>pktq\<close> is the packet queue of the same stream; its state is an argument.\<close>

definition frame_queue_init :: "Frame list \<Rightarrow> nat \<Rightarrow> bool \<Rightarrow> FrameQueue" where
  "frame_queue_init zero n keep =
     \<lparr>queue = zero, rindex = 0, windex = 0, fsize = 0, max_size = min n FRAME_QUEUE_SIZE,
      keep_last = keep, rindex_shown = 0\<rparr>"

definition frame_queue_unref_item :: "nat \<Rightarrow> FrameQueue \<Rightarrow> FrameQueue" where
  "frame_queue_unref_item i f = f\<lparr>queue := (queue f)[i := (queue f ! i)\<lparr>fr_data := None\<rparr>]\<rparr>"

definition frame_queue_peek :: "FrameQueue \<Rightarrow> nat" where
  "frame_queue_peek f = (rindex f + rindex_shown f) mod max_size f"

definition frame_queue_peek_next :: "FrameQueue \<Rightarrow> nat" where
  "frame_queue_peek_next f = (rindex f + rindex_shown f + 1) mod max_size f"

definition frame_queue_peek_last :: "FrameQueue \<Rightarrow> nat" where
  "frame_queue_peek_last f = rindex f"

text \<open>
  The two that wait: \<open>None\<close> is the wait, \<open>Some None\<close> the null pointer of an aborted queue.  The slots
  are returned by index, as the code returns their addresses.
\<close>

definition frame_queue_peek_writable :: "PacketQueue \<Rightarrow> FrameQueue \<Rightarrow> nat option option" where
  "frame_queue_peek_writable q f =
     (if int (max_size f) \<le> fsize f \<and> \<not> abort_request q then None
      else if abort_request q then Some None else Some (Some (windex f)))"

definition frame_queue_peek_readable :: "PacketQueue \<Rightarrow> FrameQueue \<Rightarrow> nat option option" where
  "frame_queue_peek_readable q f =
     (if fsize f - int (rindex_shown f) \<le> 0 \<and> \<not> abort_request q then None
      else if abort_request q then Some None
      else Some (Some ((rindex f + rindex_shown f) mod max_size f)))"

definition frame_queue_push :: "FrameQueue \<Rightarrow> FrameQueue" where
  "frame_queue_push f =
     f\<lparr>windex := (if windex f + 1 = max_size f then 0 else windex f + 1), fsize := fsize f + 1\<rparr>"

definition frame_queue_next :: "FrameQueue \<Rightarrow> FrameQueue" where
  "frame_queue_next f =
     (if keep_last f \<and> rindex_shown f = 0 then f\<lparr>rindex_shown := 1\<rparr>
      else
        let f1 = frame_queue_unref_item (rindex f) f in
        f1\<lparr>rindex := (if rindex f1 + 1 = max_size f1 then 0 else rindex f1 + 1), fsize := fsize f1 - 1\<rparr>)"

definition frame_queue_prev :: "FrameQueue \<Rightarrow> nat \<times> FrameQueue" where
  "frame_queue_prev f = (rindex_shown f, f\<lparr>rindex_shown := 0\<rparr>)"

definition frame_queue_nb_remaining :: "FrameQueue \<Rightarrow> int" where
  "frame_queue_nb_remaining f = fsize f - int (rindex_shown f)"

definition frame_queue_last_pos :: "PacketQueue \<Rightarrow> FrameQueue \<Rightarrow> int" where
  "frame_queue_last_pos q f =
     (let fp = queue f ! rindex f in
      if rindex_shown f \<noteq> 0 \<and> fr_serial fp = serial q then fr_pos fp else -1)"

section \<open>The contents as a list\<close>

definition held :: "FrameQueue \<Rightarrow> Frame list" where
  "held f = map (\<lambda>i. queue f ! ((rindex f + i) mod max_size f)) [0..<nat (fsize f)]"

definition fq_ok :: "FrameQueue \<Rightarrow> bool" where
  "fq_ok f \<longleftrightarrow> 0 < max_size f \<and> max_size f \<le> length (queue f) \<and> rindex f < max_size f
     \<and> 0 \<le> fsize f \<and> fsize f \<le> int (max_size f) \<and> windex f = (rindex f + nat (fsize f)) mod max_size f
     \<and> (rindex_shown f = 0 \<or> keep_last f \<and> rindex_shown f = 1 \<and> 1 \<le> fsize f)"

lemma mod_next: "(i :: nat) < n \<Longrightarrow> (if i + 1 = n then 0 else i + 1) = (i + 1) mod n"
  by (auto simp: mod_if)

lemma mod_wrap: "(r :: nat) < n \<Longrightarrow> a < n \<Longrightarrow> (r + a) mod n = (if r + a < n then r + a else r + a - n)"
  by (simp add: le_mod_geq)

lemma mod_add_inj: "(r :: nat) < n \<Longrightarrow> a < n \<Longrightarrow> b < n \<Longrightarrow> (r + a) mod n = (r + b) mod n \<Longrightarrow> a = b"
  by (simp add: mod_wrap split: if_splits)

text \<open>Storing a frame in the slot \<open>windex\<close> names and pushing it appends to the list.\<close>

definition fill :: "Frame \<Rightarrow> FrameQueue \<Rightarrow> FrameQueue" where
  "fill p f = f\<lparr>queue := (queue f)[windex f := p]\<rparr>"

lemma held_push:
  assumes "fq_ok f" "fsize f < int (max_size f)"
  shows "fq_ok (frame_queue_push (fill p f))" "held (frame_queue_push (fill p f)) = held f @ [p]"
proof -
  let ?n = "nat (fsize f)"
  have n: "?n < max_size f" "nat (fsize f + 1) = Suc ?n" and w: "windex f = (rindex f + ?n) mod max_size f"
    "windex f < max_size f" "rindex f < max_size f" "max_size f \<le> length (queue f)"
    using assms by (auto simp: fq_ok_def)
  have next_w: "(if windex f + 1 = max_size f then 0 else windex f + 1) = (rindex f + Suc ?n) mod max_size f"
    using mod_next [OF w(2)] w(1) by (metis Suc_eq_plus1 add_Suc_right mod_Suc_eq)
  show "fq_ok (frame_queue_push (fill p f))"
    using assms next_w n w(4) unfolding fq_ok_def frame_queue_push_def fill_def by auto
  have "held (frame_queue_push (fill p f)) =
      map (\<lambda>i. (queue f)[windex f := p] ! ((rindex f + i) mod max_size f)) ([0..<?n] @ [?n])"
    using n by (simp add: held_def frame_queue_push_def fill_def)
  also have "\<dots> = held f @ [p]"
  proof -
    have "(queue f)[windex f := p] ! ((rindex f + i) mod max_size f) = queue f ! ((rindex f + i) mod max_size f)"
      if "i < ?n" for i
    proof -
      have "(rindex f + i) mod max_size f \<noteq> windex f"
        using mod_add_inj [OF w(3), of i ?n] that n(1) w(1) by auto
      then show ?thesis by simp
    qed
    moreover have "(queue f)[windex f := p] ! ((rindex f + ?n) mod max_size f) = p"
      using w by (metis nth_list_update_eq order_less_le_trans)
    ultimately show ?thesis by (simp add: held_def)
  qed
  finally show "held (frame_queue_push (fill p f)) = held f @ [p]" .
qed

lemma length_held [simp]: "length (held f) = nat (fsize f)"
  by (simp add: held_def)

text \<open>\<open>frame_queue_next\<close> either marks the first frame as shown or drops it.\<close>

lemma held_next:
  assumes "fq_ok f" "0 < frame_queue_nb_remaining f"
  shows "fq_ok (frame_queue_next f)"
    "held (frame_queue_next f) = (if keep_last f \<and> rindex_shown f = 0 then held f else tl (held f))"
proof -
  let ?n = "nat (fsize f)"
  have n: "0 < ?n" "?n \<le> max_size f" and w: "rindex f < max_size f" "max_size f \<le> length (queue f)"
    using assms by (auto simp: fq_ok_def frame_queue_nb_remaining_def)
  have next_r: "(if rindex f + 1 = max_size f then 0 else rindex f + 1) = (rindex f + 1) mod max_size f"
    by (rule mod_next [OF w(1)])
  have rem: "int (rindex_shown f) < fsize f" using assms(2) by (simp add: frame_queue_nb_remaining_def)
  show "fq_ok (frame_queue_next f)"
  proof (cases "keep_last f \<and> rindex_shown f = 0")
    case True
    then show ?thesis using assms rem by (auto simp: fq_ok_def frame_queue_next_def)
  next
    case False
    have "windex f = ((rindex f + 1) mod max_size f + nat (fsize f - 1)) mod max_size f"
    proof -
      have "((rindex f + 1) mod max_size f + nat (fsize f - 1)) mod max_size f = (rindex f + 1 + nat (fsize f - 1)) mod max_size f"
        by (rule mod_add_left_eq)
      also have "rindex f + 1 + nat (fsize f - 1) = rindex f + ?n" using n by simp
      finally show ?thesis using assms(1) by (simp add: fq_ok_def)
    qed
    then show ?thesis using assms False rem next_r
      by (auto simp: fq_ok_def frame_queue_next_def frame_queue_unref_item_def Let_def)
  qed
  show "held (frame_queue_next f) = (if keep_last f \<and> rindex_shown f = 0 then held f else tl (held f))"
  proof (cases "keep_last f \<and> rindex_shown f = 0")
    case True
    then show ?thesis by (simp add: held_def frame_queue_next_def)
  next
    case False
    let ?q = "(queue f)[rindex f := (queue f ! rindex f)\<lparr>fr_data := None\<rparr>]"
    have "frame_queue_next f =
        f\<lparr>queue := ?q, rindex := (if rindex f + 1 = max_size f then 0 else rindex f + 1), fsize := fsize f - 1\<rparr>"
      using False by (auto simp: frame_queue_next_def frame_queue_unref_item_def Let_def)
    then have "held (frame_queue_next f) = map (\<lambda>i. ?q ! (((rindex f + 1) mod max_size f + i) mod max_size f)) [0..<nat (fsize f - 1)]"
      unfolding next_r by (simp add: held_def)
    also have "\<dots> = map (\<lambda>i. queue f ! ((rindex f + Suc i) mod max_size f)) [0..<?n - 1]"
    proof (rule map_cong)
      have "nat (fsize f - 1) = ?n - 1" by arith
      then show "[0..<nat (fsize f - 1)] = [0..<?n - 1]" by simp
      fix i assume "i \<in> set [0..<?n - 1]"
      then have i: "Suc i < max_size f" using n by auto
      have e: "((rindex f + 1) mod max_size f + i) mod max_size f = (rindex f + Suc i) mod max_size f"
        by (simp add: mod_add_left_eq)
      have "(rindex f + Suc i) mod max_size f \<noteq> rindex f"
        using mod_add_inj [OF w(1) i, of 0] w(1) by auto
      then show "?q ! (((rindex f + 1) mod max_size f + i) mod max_size f) = queue f ! ((rindex f + Suc i) mod max_size f)"
        unfolding e by simp
    qed
    also have "\<dots> = tl (held f)"
      using n by (intro nth_equalityI) (simp_all add: held_def nth_tl)
    finally show ?thesis by (simp only: if_not_P [OF False])
  qed
qed

section \<open>The two sides\<close>

text \<open>
  The writer waits for room, fills the slot and pushes it (\<open>queue_picture\<close>, \<open>audio_thread\<close>,
  \<open>subtitle_thread\<close>); when it has to wait or the queue is aborted, nothing is put.
\<close>

definition fq_put :: "PacketQueue \<Rightarrow> FrameQueue \<Rightarrow> Frame \<Rightarrow> FrameQueue result" where
  "fq_put q f p =
     (case frame_queue_peek_writable q f of
        Some (Some i) \<Rightarrow>
          if i < length (queue f) then Inr (frame_queue_push (f\<lparr>queue := (queue f)[i := p]\<rparr>)) else Inl OutOfBounds
      | _ \<Rightarrow> Inr f)"

text \<open>
  The reader of samples takes the next frame and steps over it before it uses it, as
  \<open>audio_decode_frame\<close> does; \<open>None\<close> when there is nothing to take.
\<close>

definition fq_take :: "PacketQueue \<Rightarrow> FrameQueue \<Rightarrow> (Frame option \<times> FrameQueue) result" where
  "fq_take q f =
     (case frame_queue_peek_readable q f of
        Some (Some i) \<Rightarrow> if i < length (queue f) then Inr (Some (queue f ! i), frame_queue_next f) else Inl OutOfBounds
      | _ \<Rightarrow> Inr (None, f))"

definition unshown :: "FrameQueue \<Rightarrow> Frame list" where
  "unshown f = drop (rindex_shown f) (held f)"

definition fq_inv :: "PacketQueue \<Rightarrow> nat \<Rightarrow> bool \<Rightarrow> FrameQueue \<Rightarrow> bool" where
  "fq_inv q n k f \<longleftrightarrow> fq_ok f \<and> \<not> abort_request q \<and> max_size f = n \<and> keep_last f = k"

lemma next_fields:
  "max_size (frame_queue_next f) = max_size f" "keep_last (frame_queue_next f) = keep_last f"
  by (simp_all add: frame_queue_next_def frame_queue_unref_item_def Let_def)

lemma push_fields:
  "max_size (frame_queue_push (fill p f)) = max_size f" "keep_last (frame_queue_push (fill p f)) = keep_last f"
  "rindex_shown (frame_queue_push (fill p f)) = rindex_shown f"
  by (simp_all add: frame_queue_push_def fill_def)

lemma fq_put_ok:
  assumes "fq_inv q n k f" "length (unshown f) < n - (if k then 1 else 0)"
  shows "\<exists>f'. fq_put q f p = Inr f' \<and> fq_inv q n k f' \<and> unshown f' = unshown f @ [p]
    \<and> (rindex_shown f \<noteq> 0 \<longrightarrow> hd (held f') = hd (held f)) \<and> rindex_shown f' = rindex_shown f"
proof -
  have ok: "fq_ok f" using assms(1) by (simp add: fq_inv_def)
  have room: "fsize f < int (max_size f)"
    using assms ok by (auto simp: fq_inv_def fq_ok_def unshown_def split: if_splits)
  have "windex f < length (queue f)"
    using ok by (auto simp: fq_ok_def intro: less_le_trans [OF mod_less_divisor])
  then have put: "fq_put q f p = Inr (frame_queue_push (fill p f))"
    using assms(1) room by (simp add: fq_put_def frame_queue_peek_writable_def fq_inv_def fill_def)
  have shown: "rindex_shown f \<le> length (held f)" "rindex_shown f \<noteq> 0 \<Longrightarrow> held f \<noteq> []"
    using ok by (auto simp: fq_ok_def held_def)
  show ?thesis
    using put held_push [OF ok room, of p] push_fields [of p f] assms(1) shown
    by (auto simp: fq_inv_def unshown_def)
qed

lemma fq_take_ok:
  assumes "fq_inv q n k f"
  shows "\<exists>f'. fq_take q f = Inr (case unshown f of [] \<Rightarrow> None | p # _ \<Rightarrow> Some p, f')
      \<and> fq_inv q n k f' \<and> unshown f' = tl (unshown f)
      \<and> (k \<longrightarrow> unshown f \<noteq> [] \<longrightarrow> rindex_shown f' = 1 \<and> hd (held f') = hd (unshown f))"
proof (cases "0 < frame_queue_nb_remaining f")
  case False
  have ok: "fq_ok f" using assms by (simp add: fq_inv_def)
  have "unshown f = []" using False by (simp add: unshown_def frame_queue_nb_remaining_def)
  moreover have "fq_take q f = Inr (None, f)"
    using False by (simp add: fq_take_def frame_queue_peek_readable_def frame_queue_nb_remaining_def)
  ultimately show ?thesis using assms by simp
next
  case True
  have ok: "fq_ok f" using assms by (simp add: fq_inv_def)
  let ?i = "(rindex f + rindex_shown f) mod max_size f"
  have i: "?i < length (queue f)" and len: "rindex_shown f < nat (fsize f)"
    using ok True by (auto simp: fq_ok_def frame_queue_nb_remaining_def intro: less_le_trans [OF mod_less_divisor])
  have take: "fq_take q f = Inr (Some (queue f ! ?i), frame_queue_next f)"
    using assms True i
    by (simp add: fq_take_def frame_queue_peek_readable_def frame_queue_nb_remaining_def fq_inv_def)
  have head: "unshown f = queue f ! ?i # drop (Suc (rindex_shown f)) (held f)"
  proof -
    have "unshown f = held f ! rindex_shown f # drop (Suc (rindex_shown f)) (held f)"
      unfolding unshown_def using len by (intro Cons_nth_drop_Suc [symmetric]) simp
    then show ?thesis using len by (simp add: held_def)
  qed
  note nx = held_next [OF ok True] next_fields [of f]
  have inv': "fq_inv q n k (frame_queue_next f)" using assms nx by (simp add: fq_inv_def)
  have un': "unshown (frame_queue_next f) = drop (Suc (rindex_shown f)) (held f)"
  proof (cases "keep_last f \<and> rindex_shown f = 0")
    case True
    then show ?thesis using nx(2) by (simp add: unshown_def frame_queue_next_def)
  next
    case False
    then have "rindex_shown (frame_queue_next f) = rindex_shown f"
      by (auto simp: frame_queue_next_def frame_queue_unref_item_def Let_def)
    then show ?thesis using nx(2) [unfolded if_not_P [OF False]] by (simp add: unshown_def drop_Suc)
  qed
  have first: "hd (unshown f) = queue f ! ?i" by (subst head) simp
  have kept: "rindex_shown (frame_queue_next f) = 1 \<and> hd (held (frame_queue_next f)) = queue f ! ?i" if k
  proof -
    have k: "keep_last f" using that assms by (simp add: fq_inv_def)
    show ?thesis
    proof (cases "rindex_shown f = 0")
      case True
      then show ?thesis using k nx(2) first by (simp add: frame_queue_next_def unshown_def)
    next
      case False
      then have "rindex_shown f = 1" using ok by (auto simp: fq_ok_def)
      moreover from this have "rindex_shown (frame_queue_next f) = 1"
        by (simp add: frame_queue_next_def frame_queue_unref_item_def Let_def)
      ultimately show ?thesis using nx(2) first by (simp add: unshown_def drop_Suc)
    qed
  qed
  show ?thesis using take head un' inv' kept by auto
qed

interpretation frames: packet_queue "fq_inv q n k" unshown "\<lambda>_. True" "n - (if k then 1 else 0)" "fq_put q" "fq_take q"
  for q n k
  by unfold_locales (use fq_put_ok fq_take_ok in blast)+

lemma fq_init_inv:
  "length zero = FRAME_QUEUE_SIZE \<Longrightarrow> 0 < n \<Longrightarrow> n \<le> FRAME_QUEUE_SIZE \<Longrightarrow> \<not> abort_request q \<Longrightarrow>
   fq_inv q n k (frame_queue_init zero n k) \<and> unshown (frame_queue_init zero n k) = []"
  by (simp add: fq_inv_def fq_ok_def frame_queue_init_def unshown_def held_def)

text \<open>C16. A frame queue is a queue.  From a fresh queue of any size up to 16, with or without keeping the
  frame shown last, for every interleaving of the decoder's puts and the reader's takes in which no
  more frames are outstanding than the size (less one when the last frame is kept), no access leaves
  the ring, nothing has to wait for room, and the reader gets every frame once, in order.\<close>

theorem frame_queue_is_queue:
  assumes "length zero = FRAME_QUEUE_SIZE" "0 < n" "n \<le> FRAME_QUEUE_SIZE" "\<not> abort_request q"
    and "q_peak ops 0 \<le> n - (if k then 1 else 0)"
  shows "\<exists>f. q_run (fq_put q) (fq_take q) ops (frame_queue_init zero n k) = Inr (fst (q_spec ops []), f)
    \<and> unshown f = snd (q_spec ops [])"
  using frames.run_is_queue [where st = "frame_queue_init zero n k" and ops = ops and q = q and n = n and k = k]
    fq_init_inv [OF assms(1-4), of k] assms(5) by auto

definition zero_frame :: Frame where
  "zero_frame = \<lparr>fr_data = None, fr_serial = 0, fr_pos = 0, fr_pts = 0, fr_duration = 0,
     sub_start = 0, sub_end = 0, bmp = None, allocated = False, fr_width = 0, fr_height = 0\<rparr>"

definition demo_samples :: "string \<Rightarrow> AVFrame" where
  "demo_samples ds = \<lparr>av_data = map of_char ds, nb_samples = int (length ds), av_format = 1, av_channels = 1,
     channel_layout = 4, sample_rate = 1\<rparr>"

definition demo_frame :: "string \<Rightarrow> Frame" where
  "demo_frame ds = zero_frame\<lparr>fr_data := Some (demo_samples ds), fr_serial := 1\<rparr>"

definition demo_queue :: FrameQueue where
  "demo_queue = frame_queue_init (replicate 16 zero_frame) 3 True"

definition started :: PacketQueue where
  "started = packet_queue_start 100 True packet_queue_init"

lemma started_runs: "\<not> abort_request started"
  by (simp add: started_def packet_queue_start_def packet_queue_init_def packet_queue_put_private_def Let_def)

theorem frame_queue_witness:
  "\<exists>f. q_run (fq_put started) (fq_take started)
        [QPush (demo_frame ''a''), QPush (demo_frame ''b''), QPop, QPush (demo_frame ''c''), QPop, QPop, QPop] demo_queue
      = Inr ([demo_frame ''a'', demo_frame ''b'', demo_frame ''c''], f) \<and> unshown f = []"
  using frame_queue_is_queue [where k = True and n = 3 and q = started
      and ops = "[QPush (demo_frame ''a''), QPush (demo_frame ''b''), QPop, QPush (demo_frame ''c''), QPop, QPop, QPop]"
      and zero = "replicate 16 zero_frame"] started_runs
  by (simp add: FRAME_QUEUE_SIZE_def demo_queue_def)

section \<open>The frame in use\<close>

fun fq_puts :: "PacketQueue \<Rightarrow> Frame list \<Rightarrow> FrameQueue \<Rightarrow> FrameQueue result" where
  "fq_puts q [] f = Inr f"
| "fq_puts q (p # ps) f = then_do (fq_put q f p) (fq_puts q ps)"

lemma fq_put_keeps:
  assumes "fq_inv q n k f" "rindex_shown f \<noteq> 0"
  shows "\<exists>f'. fq_put q f p = Inr f' \<and> fq_inv q n k f' \<and> rindex_shown f' \<noteq> 0 \<and> hd (held f') = hd (held f)"
proof (cases "int (max_size f) \<le> fsize f")
  case True
  then have "fq_put q f p = Inr f" by (simp add: fq_put_def frame_queue_peek_writable_def)
  then show ?thesis using assms by simp
next
  case False
  have "length (unshown f) < n - (if k then 1 else 0)"
    using False assms by (auto simp: fq_inv_def fq_ok_def unshown_def)
  from fq_put_ok [OF assms(1) this, of p] assms(2) show ?thesis by auto
qed

lemma fq_puts_keep:
  "fq_inv q n k f \<Longrightarrow> rindex_shown f \<noteq> 0 \<Longrightarrow>
   \<exists>f'. fq_puts q ps f = Inr f' \<and> fq_inv q n k f' \<and> rindex_shown f' \<noteq> 0 \<and> hd (held f') = hd (held f)"
proof (induction ps arbitrary: f)
  case (Cons p ps)
  from fq_put_keeps [OF Cons.prems, of p] obtain f1 where
    f1: "fq_put q f p = Inr f1" "fq_inv q n k f1" "rindex_shown f1 \<noteq> 0" "hd (held f1) = hd (held f)" by blast
  from Cons.IH [OF f1(2,3)] f1(1,4) show ?case by auto
qed simp

text \<open>The reader may step over a frame before it uses it: in a queue that keeps the last frame, the frame
  \<open>fq_take\<close> returned is still in the slot of the reading index, with its data, after any number of
  further puts (those that find no room wait), until the reader takes the next one.\<close>

theorem taken_frame_stays:
  assumes "fq_inv q n True f" "fq_take q f = Inr (Some p, f1)"
  shows "\<exists>f2. fq_puts q ps f1 = Inr f2 \<and> queue f2 ! frame_queue_peek_last f2 = p"
proof -
  from fq_take_ok [OF assms(1)] assms(2) have
    f1: "fq_inv q n True f1" "(case unshown f of [] \<Rightarrow> None | p # _ \<Rightarrow> Some p) = Some p"
      "unshown f \<noteq> [] \<longrightarrow> rindex_shown f1 = 1 \<and> hd (held f1) = hd (unshown f)" by auto
  then have s: "rindex_shown f1 \<noteq> 0" "hd (held f1) = p" by (auto split: list.splits)
  from fq_puts_keep [OF f1(1) s(1), of ps] s(2) obtain f2 where
    f2: "fq_puts q ps f1 = Inr f2" "fq_inv q n True f2" "rindex_shown f2 \<noteq> 0" "hd (held f2) = p" by auto
  have "held f2 \<noteq> []" "rindex f2 < max_size f2" using f2(2,3) by (auto simp: fq_inv_def fq_ok_def held_def)
  then have "hd (held f2) = queue f2 ! rindex f2" by (simp add: hd_conv_nth held_def)
  then show ?thesis using f2(1,4) by (simp add: frame_queue_peek_last_def)
qed

definition demo_filled :: FrameQueue where
  "demo_filled = frame_queue_push (fill (demo_frame ''b'') (frame_queue_push (fill (demo_frame ''a'') demo_queue)))"

theorem taken_frame_witness:
  "\<exists>f1 f2. fq_take started demo_filled = Inr (Some (demo_frame ''a''), f1)
     \<and> fq_puts started [demo_frame ''c'', demo_frame ''d'', demo_frame ''e''] f1 = Inr f2
     \<and> queue f2 ! frame_queue_peek_last f2 = demo_frame ''a''"
proof -
  have i: "fq_inv started 3 True demo_filled" by code_simp
  have "fq_take started demo_filled = Inr (Some (demo_frame ''a''), frame_queue_next demo_filled)" by code_simp
  with taken_frame_stays [OF i this] show ?thesis by blast
qed

end
