(* ===== verification/Pes.thy ===== *)
theory Pes
  imports Prelude
begin

text \<open>
  The demuxer of \<open>src/pes.c\<close> for packetised elementary streams: start codes, the 33-bit time stamps,
  the packet header with its length field of three bytes, and the search for the next start code in
  damaged data.
\<close>

section \<open>Fields\<close>

definition rb16 :: "byte \<Rightarrow> byte \<Rightarrow> 64 word" where
  "rb16 a b = push_bit 8 (ucast a) OR ucast b"

text \<open>1 is video, 2 audio or a private stream, 0 no start code.\<close>

definition is_pes_start_code :: "32 word \<Rightarrow> nat" where
  "is_pes_start_code code =
     (if code AND 0xfffffff0 = 0x1e0 AND 0xfffffff0 then 1
      else if code AND 0xffffffe0 = 0x1c0 AND 0xffffffe0 then 2
      else if code = 0x000001bd \<or> code = 0x000001bf then 2
      else 0)"

definition parse_pes_pts :: "byte \<Rightarrow> byte \<Rightarrow> byte \<Rightarrow> byte \<Rightarrow> byte \<Rightarrow> 64 word" where
  "parse_pes_pts b0 b1 b2 b3 b4 =
     (push_bit 29 (ucast b0 AND 0x0e) OR push_bit 15 (drop_bit 1 (rb16 b1 b2))) OR drop_bit 1 (rb16 b3 b4)"

definition pts_at :: "nat \<Rightarrow> byte list \<Rightarrow> 64 word" where
  "pts_at i b = parse_pes_pts (b ! i) (b ! (i + 1)) (b ! (i + 2)) (b ! (i + 3)) (b ! (i + 4))"

definition probe_score :: nat where "probe_score = 50 + 1"

definition pes_read_probe :: "byte list \<Rightarrow> nat" where
  "pes_read_probe b =
     (if \<exists>i < length b - 4. is_pes_start_code (rb32 (b ! i) (b ! (i + 1)) (b ! (i + 2)) (b ! (i + 3))) \<noteq> 0
      then probe_score else 0)"

section \<open>Input\<close>

text \<open>The byte stream: what the file holds, the position, and whether a read has met the end.\<close>

record avio =
  content :: "byte list"
  at_pos :: nat
  at_eof :: bool

definition avio_r8 :: "avio \<Rightarrow> byte \<times> avio" where
  "avio_r8 a = (if at_pos a < length (content a) then (content a ! at_pos a, a\<lparr>at_pos := at_pos a + 1\<rparr>)
                else (0, a\<lparr>at_eof := True\<rparr>))"

definition avio_read :: "nat \<Rightarrow> avio \<Rightarrow> byte list \<times> avio" where
  "avio_read n a =
     (let bs = take n (drop (at_pos a) (content a)) in
      (bs, a\<lparr>at_pos := at_pos a + length bs, at_eof := at_eof a \<or> length bs < n\<rparr>))"

definition avio_seek :: "nat \<Rightarrow> avio \<Rightarrow> avio" where
  "avio_seek n a = a\<lparr>at_pos := n, at_eof := False\<rparr>"

definition start_byte :: "byte \<Rightarrow> bool" where
  "start_byte b \<longleftrightarrow> is_pes_start_code (push_bit 8 1 OR ucast b) \<noteq> 0"

text \<open>The loop of \<open>sync_to_startcode\<close>; the first result is \<open>found\<close>.\<close>

function pes_sync_loop :: "avio \<Rightarrow> bool \<times> avio" where
  "pes_sync_loop a =
     (if at_eof a then (False, a)
      else
        let (b0, a0) = avio_r8 a in
        if b0 \<noteq> 0 then pes_sync_loop a0
        else let (b1, a1) = avio_r8 a0 in
        if b1 \<noteq> 0 then pes_sync_loop a1
        else let (b2, a2) = avio_r8 a1 in
        if b2 \<noteq> 1 then pes_sync_loop a2
        else let (b3, a3) = avio_r8 a2 in
        if start_byte b3 then (True, a3) else pes_sync_loop a3)"
  by pat_completeness auto

definition left_to_read :: "avio \<Rightarrow> nat" where
  "left_to_read a = 2 * (length (content a) - at_pos a) + (if at_eof a then 0 else 1)"

lemma avio_r8_le:
  "(b, a1) = avio_r8 a \<Longrightarrow> left_to_read a1 \<le> left_to_read a"
  "(b, a1) = avio_r8 a \<Longrightarrow> \<not> at_eof a \<Longrightarrow> left_to_read a1 < left_to_read a"
  by (auto simp: avio_r8_def left_to_read_def split: if_splits)

termination pes_sync_loop
proof (relation "measure left_to_read", simp_all, goal_cases)
  case (1 a b a0)
  then show ?case using avio_r8_le by metis
next
  case (2 a b a0 b1 a1)
  then show ?case using avio_r8_le by (metis le_less_trans)
next
  case (3 a b a0 b1 a1 b2 a2)
  then show ?case using avio_r8_le by (metis le_less_trans)
next
  case (4 a b a0 b1 a1 b2 a2 b3 a3)
  then show ?case using avio_r8_le by (metis le_less_trans)
qed

declare pes_sync_loop.simps [simp del]

definition sync_to_startcode :: "avio \<Rightarrow> avio" where
  "sync_to_startcode a = (let (found, a1) = pes_sync_loop a in if found then avio_seek (at_pos a1 - 4) a1 else a1)"

section \<open>Packets\<close>

text \<open>
  A stream: whether it is audio, its codec, and whether FFmpeg parses its headers.  \<open>mp2\<close> is the first
  of FFmpeg's numbers of audio codecs; number 0 is no codec.
\<close>

record pes_stream =
  is_audio :: bool
  codec_id :: int
  need_parsing :: bool

definition AVERROR_INVALIDDATA :: int where "AVERROR_INVALIDDATA = -1094995529"

definition pes_read_header :: "int \<Rightarrow> int \<Rightarrow> bool \<Rightarrow> pes_stream list \<Rightarrow> int \<times> pes_stream list" where
  "pes_read_header mp2 cid mem sts =
     (if sts = [] \<and> cid \<noteq> 0 \<and> \<not> mem then (AVERROR_ENOMEM, sts)
      else
        let sts1 = (if sts = [] \<and> cid \<noteq> 0
                    then [\<lparr>is_audio = (mp2 \<le> cid), codec_id = cid, need_parsing = False\<rparr>] else sts) in
        case sts1 of
          [st] \<Rightarrow> (0, [st\<lparr>need_parsing := True\<rparr>])
        | _ \<Rightarrow> (AVERROR_INVALIDDATA, sts1))"

record pes_packet =
  pk_data :: "byte list"
  pk_pts :: "64 word option"
  pk_dts :: "64 word option"
  pk_key :: bool

datatype pes_result = PesEOF | PesAgain | PesNoMem | PesPacket pes_packet

definition MAX_PES_HEADER_SIZE :: nat where "MAX_PES_HEADER_SIZE = 19"
definition MAX_PES_PAYLOAD_SIZE :: int where "MAX_PES_PAYLOAD_SIZE = 512 * 1024"

text \<open>
  \<open>junk n\<close> is what \<open>av_new_packet\<close> leaves in \<open>n\<close> fresh bytes, \<open>mem n\<close> whether it gets them;
  \<open>parsing\<close> is \<open>st->need_parsing\<close>.
\<close>

definition pes_read_packet ::
  "(nat \<Rightarrow> byte list) \<Rightarrow> (int \<Rightarrow> bool) \<Rightarrow> bool \<Rightarrow> avio \<Rightarrow> pes_result \<times> avio" where
  "pes_read_packet junk mem parsing a =
     (let (hd, a1) = avio_read MAX_PES_HEADER_SIZE a;
          buf = hd @ replicate (MAX_PES_HEADER_SIZE - length hd) 0 in
      if length hd < 9 then (PesEOF, a1)
      else if is_pes_start_code (rb32 (buf ! 0) (buf ! 1) (buf ! 2) (buf ! 3)) = 0 then (PesAgain, sync_to_startcode a1)
      else
        let total_size = uint (buf ! 4) * 65536 + uint (buf ! 5) * 256 + uint (buf ! 6);
            flags = buf ! 7;
            pes_header_size = unat (buf ! 8) + 9;
            (pts, dts) =
              (if flags AND 0xc0 = 0x80 then (Some (pts_at 9 buf), Some (pts_at 9 buf))
               else if flags AND 0xc0 = 0xc0 then (Some (pts_at 9 buf), Some (pts_at 14 buf))
               else (None, None));
            sz = (if total_size \<noteq> 0 \<and> MAX_PES_PAYLOAD_SIZE > total_size
                  then total_size + 6 - int pes_header_size else MAX_PES_PAYLOAD_SIZE) in
        if sz < 0 \<or> \<not> mem sz then (PesNoMem, a1)
        else
          let a2 = avio_seek (at_pos a + pes_header_size) a1;
              (ds, a3) = (if total_size \<noteq> 0 then avio_read (nat sz) a2 else ([], a2)) in
          (PesPacket \<lparr>pk_data = ds @ drop (length ds) (junk (nat sz)), pk_pts = pts, pk_dts = dts,
                      pk_key = (\<not> parsing)\<rparr>, a3))"

section \<open>Time stamps\<close>

text \<open>The five bytes of a time stamp as the standard lays them out: a marker, then 3, 15 and 15 bits.\<close>

definition pts_bytes :: "byte \<Rightarrow> 64 word \<Rightarrow> byte list" where
  "pts_bytes m t =
     [push_bit 4 m OR (push_bit 1 (ucast (drop_bit 30 t) AND 7) OR 1),
      ucast (drop_bit 22 t), (ucast (drop_bit 14 t) AND 0xfe) OR 1,
      ucast (drop_bit 7 t), push_bit 1 (ucast t) OR 1]"

lemma numeral_7_mask: "(7 :: byte) = mask 3" by (simp add: mask_eq_exp_minus_1)

lemma numeral_fe_mask: "(0xfe :: byte) = push_bit 1 (mask 7)" by (simp add: mask_eq_exp_minus_1 push_bit_eq_mult)

lemma numeral_0e_mask: "(0x0e :: 64 word) = push_bit 1 (mask 3)" by (simp add: mask_eq_exp_minus_1 push_bit_eq_mult)

lemma bit_rb16: "bit (rb16 a b) n \<longleftrightarrow> (if n < 8 then bit b n else n < 16 \<and> bit a (n - 8))"
  by (auto simp: rb16_def bit_simps dest: bit_imp_le_length)

lemma bit_times_2: "bit (w * 2 :: 'a :: len word) n \<longleftrightarrow> 0 < n \<and> n < LENGTH('a) \<and> bit w (n - 1)"
proof -
  have "w * 2 = push_bit 1 w" by (simp add: push_bit_eq_mult)
  then show ?thesis by (simp only: bit_push_bit_iff) (auto simp: bit_simps dest: bit_imp_le_length)
qed

lemma pts_low: "drop_bit 1 (rb16 (ucast (drop_bit 7 t)) (push_bit 1 (ucast t) OR 1)) = take_bit 15 (t :: 64 word)"
  by (rule bit_word_eqI) (auto simp: bit_rb16 bit_simps bit_times_2)

lemma pts_middle: "drop_bit 1 (rb16 (ucast (drop_bit 22 t)) ((ucast (drop_bit 14 t) AND 0xfe) OR 1)) = take_bit 15 (drop_bit 15 (t :: 64 word))"
  unfolding numeral_fe_mask by (rule bit_word_eqI) (auto simp: bit_rb16 bit_simps bit_times_2)

lemma pts_high: "push_bit 29 (ucast (push_bit 4 m OR (push_bit 1 (ucast (drop_bit 30 t) AND 7) OR 1) :: byte) AND 0x0e) = push_bit 30 (take_bit 3 (drop_bit 30 (t :: 64 word)))"
  unfolding numeral_7_mask numeral_0e_mask by (rule bit_word_eqI) (auto simp: bit_simps bit_times_2)

lemma pts_join: "(push_bit 30 (take_bit 3 (drop_bit 30 t)) OR push_bit 15 (take_bit 15 (drop_bit 15 t))) OR take_bit 15 t = take_bit 33 (t :: 64 word)"
proof (rule bit_word_eqI)
  fix n assume "n < LENGTH(64)"
  consider "n < 15" | "15 \<le> n" "n < 30" | "30 \<le> n" by linarith
  then show "bit ((push_bit 30 (take_bit 3 (drop_bit 30 t)) OR push_bit 15 (take_bit 15 (drop_bit 15 t))) OR take_bit 15 t) n
    = bit (take_bit 33 t) n" by cases (auto simp: bit_simps)
qed

lemma pts_roundtrip:
  "parse_pes_pts (push_bit 4 m OR (push_bit 1 (ucast (drop_bit 30 t) AND 7) OR 1)) (ucast (drop_bit 22 t))
     ((ucast (drop_bit 14 t) AND 0xfe) OR 1) (ucast (drop_bit 7 t)) (push_bit 1 (ucast t) OR 1) = take_bit 33 t"
  unfolding parse_pes_pts_def pts_high pts_middle pts_low pts_join ..

section \<open>A stream read back\<close>

datatype stamps = NoStamp | OneStamp "64 word" | TwoStamps "64 word" "64 word"

fun stamp_bytes :: "stamps \<Rightarrow> byte list" where
  "stamp_bytes NoStamp = []"
| "stamp_bytes (OneStamp t) = pts_bytes 2 t"
| "stamp_bytes (TwoStamps p d) = pts_bytes 3 p @ pts_bytes 1 d"

fun stamp_flags :: "stamps \<Rightarrow> byte" where
  "stamp_flags NoStamp = 0"
| "stamp_flags (OneStamp t) = 0x80"
| "stamp_flags (TwoStamps p d) = 0xc0"

fun stamp_pts :: "stamps \<Rightarrow> 64 word option \<times> 64 word option" where
  "stamp_pts NoStamp = (None, None)"
| "stamp_pts (OneStamp t) = (Some (take_bit 33 t), Some (take_bit 33 t))"
| "stamp_pts (TwoStamps p d) = (Some (take_bit 33 p), Some (take_bit 33 d))"

text \<open>A packet as a sender makes it: stream id, length of three bytes, flags, header length, payload.\<close>

definition pes_bytes :: "byte \<Rightarrow> stamps \<Rightarrow> byte list \<Rightarrow> byte list" where
  "pes_bytes sid st ds =
     (let n = length ds + length (stamp_bytes st) + 3 in
      [0, 0, 1, sid, word_of_nat (n div 65536), word_of_nat (n div 256), word_of_nat n, stamp_flags st,
       word_of_nat (length (stamp_bytes st))] @ stamp_bytes st @ ds)"

definition good_sid :: "byte \<Rightarrow> bool" where
  "good_sid b \<longleftrightarrow> is_pes_start_code (rb32 0 0 1 b) \<noteq> 0"

lemma length_pts_bytes [simp]: "length (pts_bytes m t) = 5"
  by (simp add: pts_bytes_def)

lemma length_stamps: "length (stamp_bytes st) \<le> 10"
  by (cases st) simp_all

lemma uint_byte: "uint (word_of_nat n :: byte) = int (n mod 256)"
  by (simp add: unsigned_of_nat take_bit_eq_mod)

lemma len24:
  assumes "n < 16777216"
  shows "uint (word_of_nat (n div 65536) :: byte) * 65536 + uint (word_of_nat (n div 256) :: byte) * 256
     + uint (word_of_nat n :: byte) = int n"
proof -
  have "n div 65536 mod 256 * 65536 + n div 256 mod 256 * 256 + n mod 256 = n"
  proof -
    have "n div 65536 = n div 256 div 256" by (simp add: div_mult2_eq [symmetric])
    moreover have "n div 65536 mod 256 = n div 65536" using assms by simp
    ultimately show ?thesis
      using div_mult_mod_eq [of n 256] div_mult_mod_eq [of "n div 256" 256] by linarith
  qed
  from arg_cong [OF this, of int] show ?thesis unfolding uint_byte by (simp only: of_nat_add of_nat_mult of_nat_numeral)
qed

definition pes_head :: "byte \<Rightarrow> stamps \<Rightarrow> nat \<Rightarrow> byte list" where
  "pes_head sid st n =
     [0, 0, 1, sid, word_of_nat (n div 65536), word_of_nat (n div 256), word_of_nat n, stamp_flags st,
      word_of_nat (length (stamp_bytes st))]"

lemma pes_bytes_head:
  "pes_bytes sid st ds = pes_head sid st (length ds + length (stamp_bytes st) + 3) @ stamp_bytes st @ ds"
  by (simp add: pes_bytes_def pes_head_def Let_def)

lemma length_pes_head [simp]: "length (pes_head sid st n) = 9"
  by (simp add: pes_head_def)

lemma take_pes_header:
  "\<exists>zs. take 19 (pes_bytes sid st ds @ ys) @ replicate (19 - length (take 19 (pes_bytes sid st ds @ ys))) 0
     = pes_head sid st (length ds + length (stamp_bytes st) + 3) @ stamp_bytes st @ zs"
  using length_stamps [of st] by (simp add: pes_bytes_head take_append)

lemma nth_head_tail: "length h = 9 \<Longrightarrow> (h @ xs) ! (9 + i) = xs ! i"
  by (metis nth_append_length_plus)

lemma pts_bytes_parse:
  "\<exists>a b c d e. pts_bytes m t = [a, b, c, d, e] \<and> parse_pes_pts a b c d e = take_bit 33 t"
  unfolding pts_bytes_def using pts_roundtrip by blast

lemma pts_at_stamps:
  "pts_at 9 (pes_head sid s n @ pts_bytes m t @ zs) = take_bit 33 t"
  "pts_at 14 (pes_head sid s n @ pts_bytes m' t' @ pts_bytes m t @ zs) = take_bit 33 t"
proof -
  obtain a b c d e a' b' c' d' e' where "pts_bytes m t = [a, b, c, d, e]" "parse_pes_pts a b c d e = take_bit 33 t"
    "pts_bytes m' t' = [a', b', c', d', e']"
    using pts_bytes_parse by metis
  then show "pts_at 9 (pes_head sid s n @ pts_bytes m t @ zs) = take_bit 33 t"
    "pts_at 14 (pes_head sid s n @ pts_bytes m' t' @ pts_bytes m t @ zs) = take_bit 33 t"
    by (simp_all add: pts_at_def pes_head_def)
qed

definition pes_content :: "stamps \<Rightarrow> byte list \<Rightarrow> bool \<Rightarrow> pes_packet" where
  "pes_content st ds parsing =
     \<lparr>pk_data = ds, pk_pts = fst (stamp_pts st), pk_dts = snd (stamp_pts st), pk_key = (\<not> parsing)\<rparr>"

lemma pes_read_written:
  assumes "content a = pre @ pes_bytes sid st ds @ ys" "at_pos a = length pre"
    and "good_sid sid" "length ds \<le> 524272" "\<forall>n \<ge> 0. mem n" "\<forall>n. length (junk n) = n"
  shows "\<exists>e. pes_read_packet junk mem parsing a =
    (PesPacket (pes_content st ds parsing), a\<lparr>at_pos := length (pre @ pes_bytes sid st ds), at_eof := e\<rparr>)"
proof -
  let ?n = "length ds + length (stamp_bytes st) + 3"
  let ?h = "pes_head sid st ?n"
  obtain hd a1 where rd: "avio_read 19 a = (hd, a1)" "hd = take 19 (pes_bytes sid st ds @ ys)"
    "content a1 = content a"
    using assms(1,2) by (simp add: avio_read_def Let_def)
  obtain zs where buf: "hd @ replicate (19 - length hd) 0 = ?h @ stamp_bytes st @ zs"
    using take_pes_header [of sid st ds ys] rd(2) by auto
  have len9: "\<not> length hd < 9" using rd(2) by (simp add: pes_bytes_head)
  have total: "uint ((?h @ stamp_bytes st @ zs) ! 4) * 65536 + uint ((?h @ stamp_bytes st @ zs) ! 5) * 256
      + uint ((?h @ stamp_bytes st @ zs) ! 6) = int ?n"
    using len24 [of ?n] length_stamps [of st] assms(4) by (simp add: pes_head_def)
  have code: "is_pes_start_code (rb32 ((?h @ stamp_bytes st @ zs) ! 0) ((?h @ stamp_bytes st @ zs) ! 1)
      ((?h @ stamp_bytes st @ zs) ! 2) ((?h @ stamp_bytes st @ zs) ! 3)) \<noteq> 0"
    using assms(3) by (simp add: pes_head_def good_sid_def)
  have hsz: "unat ((?h @ stamp_bytes st @ zs) ! 8) + 9 = length (stamp_bytes st) + 9"
    using length_stamps [of st] by (simp add: pes_head_def unat_of_nat)
  have flags: "(?h @ stamp_bytes st @ zs) ! 7 = stamp_flags st" by (simp add: pes_head_def)
  have times: "(if (?h @ stamp_bytes st @ zs) ! 7 AND 0xc0 = 0x80 then (Some (pts_at 9 (?h @ stamp_bytes st @ zs)), Some (pts_at 9 (?h @ stamp_bytes st @ zs)))
      else if (?h @ stamp_bytes st @ zs) ! 7 AND 0xc0 = 0xc0 then (Some (pts_at 9 (?h @ stamp_bytes st @ zs)), Some (pts_at 14 (?h @ stamp_bytes st @ zs)))
      else (None, None)) = stamp_pts st"
    unfolding flags by (cases st) (simp_all add: pts_at_stamps)
  have skip: "drop (length pre + (length (stamp_bytes st) + 9)) (content a) = ds @ ys"
    using assms(1) by (simp add: pes_bytes_head)
  have sz: "(if int ?n \<noteq> 0 \<and> MAX_PES_PAYLOAD_SIZE > int ?n then int ?n + 6 - int (length (stamp_bytes st) + 9)
      else MAX_PES_PAYLOAD_SIZE) = int (length ds)"
    using assms(4) length_stamps [of st] by (simp add: MAX_PES_PAYLOAD_SIZE_def)
  have read: "avio_read (length ds) (avio_seek (length pre + (length (stamp_bytes st) + 9)) a1)
      = (ds, a1\<lparr>at_pos := length (pre @ pes_bytes sid st ds), at_eof := False\<rparr>)"
    using skip rd(3) by (simp add: avio_read_def avio_seek_def Let_def pes_bytes_head)
  have a1: "a1\<lparr>at_pos := p, at_eof := e\<rparr> = a\<lparr>at_pos := p, at_eof := e\<rparr>" for p e
    using rd(1) by (auto simp: avio_read_def Let_def)
  have "pes_read_packet junk mem parsing a =
      (PesPacket (pes_content st ds parsing), a1\<lparr>at_pos := length (pre @ pes_bytes sid st ds), at_eof := False\<rparr>)"
    unfolding pes_read_packet_def MAX_PES_HEADER_SIZE_def rd(1) Let_def prod.case buf if_not_P [OF len9]
      if_not_P [OF code] total times hsz sz assms(2)
    using read assms(5,6) by (cases "stamp_pts st") (simp add: pes_content_def)
  then show ?thesis unfolding a1 by blast
qed

text \<open>The calls an application makes: so many reads, one after the other.\<close>

fun pes_read_all ::
  "(nat \<Rightarrow> byte list) \<Rightarrow> (int \<Rightarrow> bool) \<Rightarrow> bool \<Rightarrow> nat \<Rightarrow> avio \<Rightarrow> pes_result list" where
  "pes_read_all junk mem parsing 0 a = []"
| "pes_read_all junk mem parsing (Suc n) a =
     (let (r, a1) = pes_read_packet junk mem parsing a in r # pes_read_all junk mem parsing n a1)"

fun pes_enc :: "byte \<times> stamps \<times> byte list \<Rightarrow> byte list" where
  "pes_enc (sid, st, ds) = pes_bytes sid st ds"

lemma pes_read_end:
  assumes "at_pos a = length (content a)"
  shows "fst (pes_read_packet junk mem parsing a) = PesEOF"
  using assms by (simp add: pes_read_packet_def avio_read_def Let_def)

text \<open>C19. A stream of packets is read back as it was sent: for any list of packets of audio, video or private
  streams, each with no time stamp, one or two, and a payload of at most 524272 bytes, written one
  after the other, as many reads give exactly these payloads, with the low 33 bits of each time
  stamp, and the next read reports the end.\<close>

theorem pes_stream_roundtrip:
  assumes "\<forall>(sid, st, ds) \<in> set ps. good_sid sid \<and> length ds \<le> 524272"
    and "\<forall>n \<ge> 0. mem n" "\<forall>n. length (junk n) = n"
  shows "pes_read_all junk mem parsing (length ps + 1) \<lparr>content = concat (map pes_enc ps), at_pos = 0, at_eof = False\<rparr>
    = map (\<lambda>(sid, st, ds). PesPacket (pes_content st ds parsing)) ps @ [PesEOF]"
proof -
  have "pes_read_all junk mem parsing (length ps + 1) a
      = map (\<lambda>(sid, st, ds). PesPacket (pes_content st ds parsing)) ps @ [PesEOF]"
    if "content a = pre @ concat (map pes_enc ps)" "at_pos a = length pre" for a pre
    using assms(1) that
  proof (induction ps arbitrary: a pre)
    case Nil
    then show ?case using pes_read_end [of a junk mem parsing] by (simp add: case_prod_beta Let_def)
  next
    case (Cons p ps)
    obtain sid st ds where p: "p = (sid, st, ds)" by (cases p)
    have c: "content a = pre @ pes_bytes sid st ds @ concat (map pes_enc ps)" using Cons.prems(2) p by simp
    from pes_read_written [OF c Cons.prems(3) _ _ assms(2,3), of parsing] Cons.prems(1) p obtain e where
      r: "pes_read_packet junk mem parsing a = (PesPacket (pes_content st ds parsing),
        a\<lparr>at_pos := length (pre @ pes_bytes sid st ds), at_eof := e\<rparr>)" by auto
    have "pes_read_all junk mem parsing (length ps + 1) (a\<lparr>at_pos := length (pre @ pes_bytes sid st ds), at_eof := e\<rparr>)
      = map (\<lambda>(sid, st, ds). PesPacket (pes_content st ds parsing)) ps @ [PesEOF]"
      by (rule Cons.IH [where pre = "pre @ pes_bytes sid st ds"]) (use Cons.prems(1) c in auto)
    then show ?case using r p by simp
  qed
  from this [of _ "[]"] show ?thesis by simp
qed

theorem pes_stream_witness:
  "pes_read_all (\<lambda>n. replicate n 0) (\<lambda>_. True) False 3
     \<lparr>content = pes_bytes 0xe0 (TwoStamps 93600 90000) [1, 2, 3] @ pes_bytes 0xc0 NoStamp [4], at_pos = 0, at_eof = False\<rparr>
   = [PesPacket \<lparr>pk_data = [1, 2, 3], pk_pts = Some 93600, pk_dts = Some 90000, pk_key = True\<rparr>,
      PesPacket \<lparr>pk_data = [4], pk_pts = None, pk_dts = None, pk_key = True\<rparr>, PesEOF]"
proof -
  have g: "good_sid 0xe0" "good_sid 0xc0" by code_simp+
  have t: "take_bit 33 (93600 :: 64 word) = 93600" "take_bit 33 (90000 :: 64 word) = 90000" by code_simp+
  show ?thesis
    using pes_stream_roundtrip [of "[(0xe0, TwoStamps 93600 90000, [1, 2, 3]), (0xc0, NoStamp, [4])]" "\<lambda>_. True"
        "\<lambda>n. replicate n 0" False] g
    by (simp add: pes_content_def t numeral_3_eq_3)
qed

section \<open>Finding the next start code\<close>

lemma start_byte_good: "start_byte b \<longleftrightarrow> good_sid b"
  by (simp add: start_byte_def good_sid_def rb32_def)

lemma r8_at: "drop (at_pos a) (content a) = b # xs \<Longrightarrow> avio_r8 a = (b, a\<lparr>at_pos := at_pos a + 1\<rparr>)"
proof -
  assume d: "drop (at_pos a) (content a) = b # xs"
  then have "at_pos a < length (content a)" by (metis drop_all list.distinct(1) not_le)
  then show ?thesis using nth_via_drop [OF d] by (simp add: avio_r8_def)
qed

lemma pes_sync_loop_skip:
  "drop (at_pos a) (content a) = js @ xs \<Longrightarrow> 0 \<notin> set js \<Longrightarrow> \<not> at_eof a \<Longrightarrow>
   pes_sync_loop a = pes_sync_loop (a\<lparr>at_pos := at_pos a + length js\<rparr>)"
proof (induction js arbitrary: a)
  case (Cons j js)
  have r: "avio_r8 a = (j, a\<lparr>at_pos := at_pos a + 1\<rparr>)" using r8_at Cons.prems(1) by simp
  have "drop (at_pos a + 1) (content a) = js @ xs"
    using Cons.prems(1) by (metis append_Cons drop_Suc Suc_eq_plus1 list.sel(3) tl_drop)
  then show ?case
    using Cons.IH [of "a\<lparr>at_pos := at_pos a + 1\<rparr>"] Cons.prems r by (subst pes_sync_loop.simps) simp
qed simp

lemma pes_sync_loop_at_end:
  assumes "at_pos a = length (content a)" "\<not> at_eof a"
  shows "pes_sync_loop a = (False, a\<lparr>at_eof := True\<rparr>)"
proof -
  have r: "avio_r8 (a\<lparr>at_eof := e\<rparr>) = (0, a\<lparr>at_eof := True\<rparr>)" "avio_r8 a = (0, a\<lparr>at_eof := True\<rparr>)" for e
    using assms by (simp_all add: avio_r8_def)
  show ?thesis using assms(2) by (subst pes_sync_loop.simps) (simp add: r pes_sync_loop.simps [of "a\<lparr>at_eof := True\<rparr>"])
qed

text \<open>After damaged data the demuxer finds the next packet: if what stands before the next start code has
  no zero byte, \<open>sync_to_startcode\<close> stops exactly at that start code.\<close>

theorem sync_stops_at_start_code:
  assumes "drop (at_pos a) (content a) = js @ [0, 0, 1, sid] @ xs" "0 \<notin> set js" "good_sid sid" "\<not> at_eof a"
  shows "sync_to_startcode a = a\<lparr>at_pos := at_pos a + length js\<rparr>"
proof -
  let ?a = "a\<lparr>at_pos := at_pos a + length js\<rparr>"
  have d: "drop (at_pos a + length js) (content a) = [0, 0, 1, sid] @ xs"
    using assms(1) by (metis add.commute append_eq_conv_conj drop_drop)
  have step: "drop (at_pos a + length js + i) (content a) = drop i ([0, 0, 1, sid] @ xs)" for i
    using d by (metis add.commute drop_drop)
  have "avio_r8 ?a = (0, ?a\<lparr>at_pos := at_pos a + length js + 1\<rparr>)"
      "avio_r8 (?a\<lparr>at_pos := at_pos a + length js + 1\<rparr>) = (0, ?a\<lparr>at_pos := at_pos a + length js + 2\<rparr>)"
      "avio_r8 (?a\<lparr>at_pos := at_pos a + length js + 2\<rparr>) = (1, ?a\<lparr>at_pos := at_pos a + length js + 3\<rparr>)"
      "avio_r8 (?a\<lparr>at_pos := at_pos a + length js + 3\<rparr>) = (sid, ?a\<lparr>at_pos := at_pos a + length js + 4\<rparr>)"
    using r8_at [of ?a] r8_at [of "?a\<lparr>at_pos := at_pos a + length js + 1\<rparr>"]
      r8_at [of "?a\<lparr>at_pos := at_pos a + length js + 2\<rparr>"] r8_at [of "?a\<lparr>at_pos := at_pos a + length js + 3\<rparr>"]
      step [of 0] step [of 1] step [of 2] step [of 3]
    by (simp_all add: numeral_2_eq_2 numeral_3_eq_3)
  then have
    "pes_sync_loop ?a = (True, ?a\<lparr>at_pos := at_pos a + length js + 4\<rparr>)"
    using assms(3,4) by (subst pes_sync_loop.simps) (simp add: start_byte_good)
  then have "pes_sync_loop a = (True, ?a\<lparr>at_pos := at_pos a + length js + 4\<rparr>)"
    using pes_sync_loop_skip [OF assms(1,2,4)] by simp
  then show ?thesis using assms(4) by (simp add: sync_to_startcode_def avio_seek_def)
qed

text \<open>A start code behind a single zero byte is missed: of the bytes 00 00 00 01 E0 the search takes the
  third zero for the end of a failed match and goes on behind it.  When nothing but non-zero bytes
  follow, it ends at the end of the file, although a packet was there.\<close>

theorem sync_misses_start_code:
  assumes "drop (at_pos a) (content a) = [0, 0, 0, 1, 0xe0] @ xs" "0 \<notin> set xs" "\<not> at_eof a"
  shows "sync_to_startcode a = a\<lparr>at_pos := length (content a), at_eof := True\<rparr> \<and> good_sid 0xe0"
proof -
  have step: "drop (at_pos a + i) (content a) = drop i ([0, 0, 0, 1, 0xe0] @ xs)" for i
    using assms(1) by (metis add.commute drop_drop)
  have r: "avio_r8 a = (0, a\<lparr>at_pos := at_pos a + 1\<rparr>)"
      "avio_r8 (a\<lparr>at_pos := at_pos a + 1\<rparr>) = (0, a\<lparr>at_pos := at_pos a + 2\<rparr>)"
      "avio_r8 (a\<lparr>at_pos := at_pos a + 2\<rparr>) = (0, a\<lparr>at_pos := at_pos a + 3\<rparr>)"
    using r8_at [of a] r8_at [of "a\<lparr>at_pos := at_pos a + 1\<rparr>"] r8_at [of "a\<lparr>at_pos := at_pos a + 2\<rparr>"]
      step [of 0] step [of 1] step [of 2]
    by (simp_all add: numeral_2_eq_2 numeral_3_eq_3)
  let ?b = "a\<lparr>at_pos := at_pos a + 3\<rparr>"
  have rest: "drop (at_pos ?b) (content ?b) = ([1, 0xe0] @ xs) @ []" using step [of 3] by (simp add: numeral_3_eq_3)
  have "length (content a) = at_pos a + 5 + length xs"
    using arg_cong [OF assms(1), of length] by simp
  then have len: "at_pos ?b + length ([1, 0xe0] @ xs) = length (content a)" by simp
  have "pes_sync_loop a = pes_sync_loop ?b" using r assms(3) by (subst pes_sync_loop.simps) simp
  also have "\<dots> = pes_sync_loop (?b\<lparr>at_pos := length (content a)\<rparr>)"
    using pes_sync_loop_skip [OF rest] assms(2,3) len by simp
  also have "\<dots> = (False, a\<lparr>at_pos := length (content a), at_eof := True\<rparr>)"
    using pes_sync_loop_at_end [of "?b\<lparr>at_pos := length (content a)\<rparr>"] assms(3) by simp
  finally have "sync_to_startcode a = a\<lparr>at_pos := length (content a), at_eof := True\<rparr>"
    by (simp add: sync_to_startcode_def)
  moreover have "good_sid 0xe0" by code_simp
  ultimately show ?thesis by simp
qed

theorem sync_stops_witness:
  "sync_to_startcode \<lparr>content = [9, 8, 7, 0, 0, 1, 0xc5, 4], at_pos = 1, at_eof = False\<rparr>
   = \<lparr>content = [9, 8, 7, 0, 0, 1, 0xc5, 4], at_pos = 3, at_eof = False\<rparr>"
proof -
  have g: "good_sid 0xc5" by code_simp
  show ?thesis
    using sync_stops_at_start_code [of "\<lparr>content = [9, 8, 7, 0, 0, 1, 0xc5, 4], at_pos = 1, at_eof = False\<rparr>" "[8, 7]" "0xc5" "[4]"] g
    by (simp add: numeral_3_eq_3)
qed

theorem sync_misses_witness:
  "sync_to_startcode \<lparr>content = [0, 0, 0, 1, 0xe0, 5], at_pos = 0, at_eof = False\<rparr>
   = \<lparr>content = [0, 0, 0, 1, 0xe0, 5], at_pos = 6, at_eof = True\<rparr>"
  using sync_misses_start_code [of "\<lparr>content = [0, 0, 0, 1, 0xe0, 5], at_pos = 0, at_eof = False\<rparr>" "[5]"] by simp

end
