(* ===== verification/PlayerClock.thy ===== *)
theory PlayerClock
  imports FrameQueue
begin

text \<open>
  The clocks of \<open>src/ffplay2.c\<close> and what is decided with them: the master clock, pausing, seeking
  requests, the speed of the external clock and the delay before the next picture.

  A \<open>double\<close> is its bits; arithmetic and comparison on doubles is a parameter (\<open>fl\<close>), as is the
  sequence of the readings of \<open>av_gettime_relative\<close>.
\<close>

section \<open>Floating point and time\<close>

type_synonym f64 = "64 word"

text \<open>\<open>f_lit n d\<close> is the literal \<open>n/d\<close>, \<open>f_int\<close> the conversion of an integer, \<open>f_trunc\<close> the one back,
  \<open>f_ms\<close> the value of \<open>(float) n / 1000\<close>.\<close>

record fl =
  f_add :: "f64 \<Rightarrow> f64 \<Rightarrow> f64"
  f_sub :: "f64 \<Rightarrow> f64 \<Rightarrow> f64"
  f_mul :: "f64 \<Rightarrow> f64 \<Rightarrow> f64"
  f_div :: "f64 \<Rightarrow> f64 \<Rightarrow> f64"
  f_lt :: "f64 \<Rightarrow> f64 \<Rightarrow> bool"
  f_le :: "f64 \<Rightarrow> f64 \<Rightarrow> bool"
  f_nan :: "f64 \<Rightarrow> bool"
  f_abs :: "f64 \<Rightarrow> f64"
  f_int :: "int \<Rightarrow> f64"
  f_trunc :: "f64 \<Rightarrow> int"
  f_lit :: "int \<Rightarrow> int \<Rightarrow> f64"
  f_ms :: "int \<Rightarrow> f64"
  NAN :: f64
  now :: "nat \<Rightarrow> int"

definition FFMAX :: "fl \<Rightarrow> f64 \<Rightarrow> f64 \<Rightarrow> f64" where
  "FFMAX F a b = (if f_lt F b a then a else b)"

definition FFMIN :: "fl \<Rightarrow> f64 \<Rightarrow> f64 \<Rightarrow> f64" where
  "FFMIN F a b = (if f_lt F b a then b else a)"

section \<open>The player's state\<close>

text \<open>\<open>queue_serial\<close> points to the serial number of a packet queue, or of the clock itself.\<close>

datatype serial_ref = AudioSerial | VideoSerial | OwnSerial

record Clock =
  c_pts :: f64
  pts_drift :: f64
  last_updated :: f64
  speed :: f64
  c_serial :: int
  c_paused :: bool
  queue_serial :: serial_ref

datatype sync_type = AV_SYNC_AUDIO_MASTER | AV_SYNC_VIDEO_MASTER | AV_SYNC_EXTERNAL_CLOCK

datatype show_mode = SHOW_MODE_NONE | SHOW_MODE_VIDEO | SHOW_MODE_WAVES | SHOW_MODE_RDFT

text \<open>What \<open>video_display\<close> draws: a picture, or the waves or the spectrum of the sound.\<close>

datatype drawn = Picture Frame | AudioWave

text \<open>
  \<open>has_audio\<close>, \<open>has_video\<close> and \<open>has_subtitle\<close> say whether \<open>audio_st\<close>, \<open>video_st\<close>, \<open>subtitle_st\<close> are
  set; \<open>reads\<close> counts the readings of the time, \<open>shown\<close> lists what was drawn.
\<close>

record VideoState =
  paused :: bool
  read_pause_enosys :: bool
  force_refresh :: bool
  stepping :: bool
  seek_req :: bool
  seek_by_byte :: bool
  seek_pos :: int
  seek_rel :: int
  audclk :: Clock
  vidclk :: Clock
  extclk :: Clock
  pictq :: FrameQueue
  subpq :: FrameQueue
  sampq :: FrameQueue
  audioq :: PacketQueue
  videoq :: PacketQueue
  subtitleq :: PacketQueue
  audio_stream :: int
  video_stream :: int
  has_audio :: bool
  has_video :: bool
  has_subtitle :: bool
  av_sync_type :: sync_type
  realtime :: bool
  mode :: show_mode
  frame_timer :: f64
  last_vis_time :: f64
  max_frame_duration :: f64
  remaining_time :: f64
  frame_drops_late :: int
  frame_drops_early :: int
  frame_last_filter_delay :: f64
  viddec_pkt_serial :: int
  reads :: nat
  shown :: "drawn list"

definition gettime :: "fl \<Rightarrow> VideoState \<Rightarrow> f64 \<times> VideoState" where
  "gettime F is = (f_div F (f_int F (now F (reads is))) (f_lit F 1000000 1), is\<lparr>reads := reads is + 1\<rparr>)"

datatype clock_id = Aud | Vid | Ext

fun clk :: "clock_id \<Rightarrow> VideoState \<Rightarrow> Clock" where
  "clk Aud is = audclk is"
| "clk Vid is = vidclk is"
| "clk Ext is = extclk is"

fun put_clk :: "clock_id \<Rightarrow> Clock \<Rightarrow> VideoState \<Rightarrow> VideoState" where
  "put_clk Aud c is = is\<lparr>audclk := c\<rparr>"
| "put_clk Vid c is = is\<lparr>vidclk := c\<rparr>"
| "put_clk Ext c is = is\<lparr>extclk := c\<rparr>"

definition serial_at :: "VideoState \<Rightarrow> Clock \<Rightarrow> int" where
  "serial_at is c = (case queue_serial c of AudioSerial \<Rightarrow> serial (audioq is) | VideoSerial \<Rightarrow> serial (videoq is)
                     | OwnSerial \<Rightarrow> c_serial c)"

section \<open>Clocks\<close>

definition get_clock :: "fl \<Rightarrow> clock_id \<Rightarrow> VideoState \<Rightarrow> f64 \<times> VideoState" where
  "get_clock F i is =
     (let c = clk i is in
      if serial_at is c \<noteq> c_serial c then (NAN F, is)
      else if c_paused c then (c_pts c, is)
      else
        let (t, is1) = gettime F is in
        (f_sub F (f_add F (pts_drift c) t) (f_mul F (f_sub F t (last_updated c)) (f_sub F (f_lit F 1 1) (speed c))), is1))"

definition set_clock_at :: "fl \<Rightarrow> Clock \<Rightarrow> f64 \<Rightarrow> int \<Rightarrow> f64 \<Rightarrow> Clock" where
  "set_clock_at F c t n time = c\<lparr>c_pts := t, last_updated := time, pts_drift := f_sub F t time, c_serial := n\<rparr>"

definition set_clock :: "fl \<Rightarrow> clock_id \<Rightarrow> f64 \<Rightarrow> int \<Rightarrow> VideoState \<Rightarrow> VideoState" where
  "set_clock F i t n is = (let (time, is1) = gettime F is in put_clk i (set_clock_at F (clk i is1) t n time) is1)"

definition set_clock_speed :: "fl \<Rightarrow> clock_id \<Rightarrow> f64 \<Rightarrow> VideoState \<Rightarrow> VideoState" where
  "set_clock_speed F i v is =
     (let (t, is1) = get_clock F i is;
          is2 = set_clock F i t (c_serial (clk i is1)) is1 in
      put_clk i ((clk i is2)\<lparr>speed := v\<rparr>) is2)"

definition init_clock :: "fl \<Rightarrow> clock_id \<Rightarrow> serial_ref \<Rightarrow> VideoState \<Rightarrow> VideoState" where
  "init_clock F i q is =
     set_clock F i (NAN F) (-1)
       (put_clk i ((clk i is)\<lparr>speed := f_lit F 1 1, c_paused := False, queue_serial := q\<rparr>) is)"

definition sync_clock_to_slave :: "fl \<Rightarrow> clock_id \<Rightarrow> clock_id \<Rightarrow> VideoState \<Rightarrow> VideoState" where
  "sync_clock_to_slave F i slave is =
     (let (c, is1) = get_clock F i is;
          (sc, is2) = get_clock F slave is1 in
      if \<not> f_nan F sc \<and> (f_nan F c \<or> f_lt F (f_lit F 10 1) (f_abs F (f_sub F c sc)))
      then set_clock F i sc (c_serial (clk slave is2)) is2 else is2)"

definition get_master_sync_type :: "VideoState \<Rightarrow> sync_type" where
  "get_master_sync_type is =
     (case av_sync_type is of
        AV_SYNC_VIDEO_MASTER \<Rightarrow> if has_video is then AV_SYNC_VIDEO_MASTER else AV_SYNC_AUDIO_MASTER
      | AV_SYNC_AUDIO_MASTER \<Rightarrow> if has_audio is then AV_SYNC_AUDIO_MASTER else AV_SYNC_EXTERNAL_CLOCK
      | AV_SYNC_EXTERNAL_CLOCK \<Rightarrow> AV_SYNC_EXTERNAL_CLOCK)"

definition get_master_clock :: "fl \<Rightarrow> VideoState \<Rightarrow> f64 \<times> VideoState" where
  "get_master_clock F is =
     (case get_master_sync_type is of
        AV_SYNC_VIDEO_MASTER \<Rightarrow> get_clock F Vid is
      | AV_SYNC_AUDIO_MASTER \<Rightarrow> get_clock F Aud is
      | AV_SYNC_EXTERNAL_CLOCK \<Rightarrow> get_clock F Ext is)"

definition MIN_FRAMES :: int where "MIN_FRAMES = 5"

definition check_external_clock_speed :: "fl \<Rightarrow> VideoState \<Rightarrow> VideoState" where
  "check_external_clock_speed F is =
     (let v = speed (extclk is); step = f_lit F 1 1000; one = f_lit F 1 1 in
      if (0 \<le> video_stream is \<and> nb_packets (videoq is) \<le> MIN_FRAMES div 2)
         \<or> (0 \<le> audio_stream is \<and> nb_packets (audioq is) \<le> MIN_FRAMES div 2)
      then set_clock_speed F Ext (FFMAX F (f_lit F 900 1000) (f_sub F v step)) is
      else if (video_stream is < 0 \<or> nb_packets (videoq is) > MIN_FRAMES * 2)
         \<and> (audio_stream is < 0 \<or> nb_packets (audioq is) > MIN_FRAMES * 2)
      then set_clock_speed F Ext (FFMIN F (f_lit F 1010 1000) (f_add F v step)) is
      else if f_lt F v one \<or> f_lt F one v \<or> f_nan F v
      then set_clock_speed F Ext (f_add F v (f_div F (f_mul F step (f_sub F one v)) (f_abs F (f_sub F one v)))) is
      else is)"

section \<open>Requests\<close>

definition stream_seek :: "int \<Rightarrow> int \<Rightarrow> bool \<Rightarrow> VideoState \<Rightarrow> VideoState" where
  "stream_seek p r by_bytes is =
     (if \<not> seek_req is then is\<lparr>seek_pos := p, seek_rel := r, seek_by_byte := by_bytes, seek_req := True\<rparr> else is)"

definition stream_toggle_pause :: "fl \<Rightarrow> VideoState \<Rightarrow> VideoState" where
  "stream_toggle_pause F is =
     (let is3 =
        (if paused is then
           let (t, is1) = gettime F is;
               is2 = is1\<lparr>frame_timer := f_add F (frame_timer is1)
                            (f_sub F (f_add F t (pts_drift (vidclk is1))) (c_pts (vidclk is1)))\<rparr>;
               is2' = (if \<not> read_pause_enosys is2 then is2\<lparr>vidclk := (vidclk is2)\<lparr>c_paused := False\<rparr>\<rparr> else is2);
               (v, is2'') = get_clock F Vid is2' in
           set_clock F Vid v (c_serial (vidclk is2'')) is2''
         else is);
          (e, is4) = get_clock F Ext is3;
          is5 = set_clock F Ext e (c_serial (extclk is4)) is4;
          p = (\<not> paused is5) in
      is5\<lparr>paused := p, audclk := (audclk is5)\<lparr>c_paused := p\<rparr>, vidclk := (vidclk is5)\<lparr>c_paused := p\<rparr>,
          extclk := (extclk is5)\<lparr>c_paused := p\<rparr>\<rparr>)"

definition toggle_pause :: "fl \<Rightarrow> VideoState \<Rightarrow> VideoState" where
  "toggle_pause F is = (stream_toggle_pause F is)\<lparr>stepping := False\<rparr>"

definition step_to_next_frame :: "fl \<Rightarrow> VideoState \<Rightarrow> VideoState" where
  "step_to_next_frame F is = (if paused is then stream_toggle_pause F is else is)\<lparr>stepping := True\<rparr>"

section \<open>Delays\<close>

definition compute_target_delay :: "fl \<Rightarrow> f64 \<Rightarrow> VideoState \<Rightarrow> f64 \<times> VideoState" where
  "compute_target_delay F delay is =
     (if get_master_sync_type is \<noteq> AV_SYNC_VIDEO_MASTER then
        let (v, is1) = get_clock F Vid is;
            (m, is2) = get_master_clock F is1;
            diff = f_sub F v m;
            threshold = FFMAX F (f_lit F 4 100) (FFMIN F (f_lit F 1 10) delay);
            d = (if \<not> f_nan F diff \<and> f_lt F (f_abs F diff) (max_frame_duration is2) then
                   (if f_le F diff (f_sub F (f_lit F 0 1) threshold) then FFMAX F (f_lit F 0 1) (f_add F delay diff)
                    else if f_le F threshold diff \<and> f_lt F (f_lit F 1 10) delay then f_add F delay diff
                    else if f_le F threshold diff then f_mul F (f_lit F 2 1) delay
                    else delay)
                 else delay) in
        (d, is2)
      else (delay, is))"

definition vp_duration :: "fl \<Rightarrow> VideoState \<Rightarrow> Frame \<Rightarrow> Frame \<Rightarrow> f64" where
  "vp_duration F is vp nextvp =
     (if fr_serial vp = fr_serial nextvp then
        let d = f_sub F (fr_pts nextvp) (fr_pts vp) in
        if f_nan F d \<or> f_le F d (f_lit F 0 1) \<or> f_lt F (max_frame_duration is) d then fr_duration vp else d
      else f_lit F 0 1)"

definition update_video_pts :: "fl \<Rightarrow> f64 \<Rightarrow> int \<Rightarrow> VideoState \<Rightarrow> VideoState" where
  "update_video_pts F t n is = sync_clock_to_slave F Ext Vid (set_clock F Vid t n is)"

section \<open>What the clocks leave alone\<close>

text \<open>Everything but the clocks, the count of readings, and what pausing changes.\<close>

definition same_queues :: "VideoState \<Rightarrow> VideoState \<Rightarrow> bool" where
  "same_queues a b \<longleftrightarrow> pictq b = pictq a \<and> subpq b = subpq a \<and> sampq b = sampq a \<and> audioq b = audioq a
     \<and> videoq b = videoq a \<and> subtitleq b = subtitleq a \<and> shown b = shown a \<and> frame_drops_late b = frame_drops_late a
     \<and> force_refresh b = force_refresh a \<and> has_video b = has_video a \<and> has_subtitle b = has_subtitle a
     \<and> has_audio b = has_audio a \<and> mode b = mode a"

lemma same_queues_refl [simp]: "same_queues a a"
  by (simp add: same_queues_def)

lemma same_queues_trans: "same_queues a b \<Longrightarrow> same_queues b c \<Longrightarrow> same_queues a c"
  by (simp add: same_queues_def)

lemma same_gettime: "gettime F is = (t, is1) \<Longrightarrow> same_queues is is1"
  by (auto simp: gettime_def same_queues_def)

lemma same_put_clk: "same_queues is (put_clk i c is)"
  by (cases i) (simp_all add: same_queues_def)

lemma same_get_clock: "get_clock F i is = (t, is1) \<Longrightarrow> same_queues is is1"
  by (auto simp: get_clock_def Let_def split: if_splits prod.splits dest: same_gettime)

lemma same_set_clock: "same_queues is (set_clock F i t n is)"
  by (auto simp: set_clock_def split: prod.splits dest: same_gettime intro: same_queues_trans same_put_clk)

lemma same_after: "same_queues is is1 \<Longrightarrow> same_queues is (set_clock F i t n is1)"
    "same_queues is is1 \<Longrightarrow> same_queues is (put_clk i c is1)"
  using same_set_clock same_put_clk same_queues_trans by blast+

lemma same_set_clock_speed: "same_queues is (set_clock_speed F i v is)"
proof -
  obtain t is1 where g: "get_clock F i is = (t, is1)" by force
  show ?thesis unfolding set_clock_speed_def g Let_def prod.case
    by (intro same_after same_get_clock [OF g])
qed

lemma same_sync_clock: "same_queues is (sync_clock_to_slave F i j is)"
  by (auto simp: sync_clock_to_slave_def Let_def split: prod.splits dest!: same_get_clock
      intro: same_queues_trans same_set_clock)

lemma same_master_clock: "get_master_clock F is = (t, is1) \<Longrightarrow> same_queues is is1"
  by (auto simp: get_master_clock_def split: sync_type.splits dest: same_get_clock)

lemma same_check_speed: "same_queues is (check_external_clock_speed F is)"
  by (auto simp: check_external_clock_speed_def Let_def intro: same_set_clock_speed)

lemma same_target_delay: "compute_target_delay F d is = (t, is1) \<Longrightarrow> same_queues is is1"
  by (auto simp: compute_target_delay_def Let_def split: if_splits prod.splits
      dest!: same_get_clock same_master_clock intro: same_queues_trans)

lemma same_update_pts: "same_queues is (update_video_pts F t n is)"
  unfolding update_video_pts_def using same_set_clock same_sync_clock same_queues_trans by blast

lemmas clocks_same = same_gettime same_get_clock same_set_clock same_set_clock_speed same_sync_clock
  same_master_clock same_check_speed same_target_delay same_update_pts

lemma same_toggle_pause: "same_queues is (stream_toggle_pause F is)"
proof -
  have p: "same_queues is a \<Longrightarrow> same_queues is (a\<lparr>paused := p, audclk := c1, vidclk := c2, extclk := c3\<rparr>)"
    for a p c1 c2 c3 by (simp add: same_queues_def)
  have f: "same_queues is a \<Longrightarrow> same_queues is (a\<lparr>frame_timer := t\<rparr>)"
    "same_queues is a \<Longrightarrow> same_queues is (a\<lparr>vidclk := c\<rparr>)" for a t c
    by (simp_all add: same_queues_def)
  have g: "get_clock F i a = (t, b) \<Longrightarrow> same_queues is a \<Longrightarrow> same_queues is b"
    "gettime F a = (t, b) \<Longrightarrow> same_queues is a \<Longrightarrow> same_queues is b" for i a t b
    using same_get_clock same_gettime same_queues_trans by blast+
  show ?thesis unfolding stream_toggle_pause_def Let_def
    by (auto split: prod.splits if_splits intro!: p f same_after elim!: g)
qed

end
