(* ===== verification/PlayerVideo.thy ===== *)
theory PlayerVideo
  imports PlayerClock "HOL-Library.Sublist"
begin

text \<open>
  The display side of \<open>src/ffplay2.c\<close>: \<open>video_refresh\<close>, which decides at every tick which picture to show,
  which to drop and how long to wait, and the hand-over of a decoded picture to the queue.

  A refresh is one call: the decoders may fill the queues between calls, not within one.  The retry loop
  is a \<open>partial_function\<close>, so that its return is a theorem; the line printed with \<open>show_status\<close> is left out.
\<close>

section \<open>Drawing\<close>

record popts =
  display_disable :: bool
  framedrop :: int
  rdftspeed :: f64

definition video_image_display :: "VideoState \<Rightarrow> VideoState" where
  "video_image_display is =
     (let vp = queue (pictq is) ! frame_queue_peek (pictq is) in
      if bmp vp \<noteq> None then is\<lparr>shown := shown is @ [Picture vp]\<rparr> else is)"

definition video_display :: "VideoState \<Rightarrow> VideoState" where
  "video_display is =
     (if has_audio is \<and> mode is \<noteq> SHOW_MODE_VIDEO then is\<lparr>shown := shown is @ [AudioWave]\<rparr>
      else if has_video is then video_image_display is else is)"

section \<open>The subtitles' queue\<close>

lemma next_remaining: "frame_queue_nb_remaining (frame_queue_next f) = frame_queue_nb_remaining f - 1"
  by (simp add: frame_queue_next_def frame_queue_nb_remaining_def frame_queue_unref_item_def Let_def)

text \<open>Whether the first subtitle is from before a seek, over, or superseded by the one after it.\<close>

definition subtitle_over :: "fl \<Rightarrow> VideoState \<Rightarrow> bool" where
  "subtitle_over F is =
     (let sp = queue (subpq is) ! frame_queue_peek (subpq is);
          sp2 = (if 1 < frame_queue_nb_remaining (subpq is)
                 then Some (queue (subpq is) ! frame_queue_peek_next (subpq is)) else None) in
      fr_serial sp \<noteq> serial (subtitleq is)
      \<or> f_lt F (f_add F (fr_pts sp) (f_ms F (sub_end sp))) (c_pts (vidclk is))
      \<or> (case sp2 of Some s \<Rightarrow> f_lt F (f_add F (fr_pts s) (f_ms F (sub_start s))) (c_pts (vidclk is)) | None \<Rightarrow> False))"

function subtitle_loop :: "fl \<Rightarrow> VideoState \<Rightarrow> VideoState" where
  "subtitle_loop F is =
     (if 0 < frame_queue_nb_remaining (subpq is) \<and> subtitle_over F is
      then subtitle_loop F (is\<lparr>subpq := frame_queue_next (subpq is)\<rparr>) else is)"
  by pat_completeness auto
termination
  by (relation "measure (\<lambda>(F, is). nat (frame_queue_nb_remaining (subpq is)))") (auto simp: next_remaining)

declare subtitle_loop.simps [simp del]

section \<open>One picture\<close>

text \<open>
  How one round of \<open>retry\<close> ends: the round is repeated, the call returns to wait, or it goes on after
  the \<open>if\<close>.  The number is \<open>redisplay\<close>.
\<close>

datatype round_end = Retry | Return | Finish

text \<open>From the label \<open>display\<close>.\<close>

definition display_picture :: "fl \<Rightarrow> popts \<Rightarrow> VideoState \<Rightarrow> VideoState" where
  "display_picture F P is =
     (let is1 = (if \<not> display_disable P \<and> mode is = SHOW_MODE_VIDEO then video_display is else is);
          is2 = is1\<lparr>pictq := frame_queue_next (pictq is1)\<rparr> in
      if stepping is2 \<and> \<not> paused is2 then stream_toggle_pause F is2 else is2)"

text \<open>The picture is due: the frame timer and the clocks are set, and it is dropped when the next one is due too.\<close>

definition picture_due :: "fl \<Rightarrow> popts \<Rightarrow> nat \<Rightarrow> f64 \<Rightarrow> f64 \<Rightarrow> Frame \<Rightarrow> VideoState \<Rightarrow> round_end \<times> nat \<times> VideoState" where
  "picture_due F P redisplay delay time vp is =
     (let is1 = is\<lparr>frame_timer := f_add F (frame_timer is) delay\<rparr>;
          is2 = (if f_lt F (f_lit F 0 1) delay \<and> f_lt F (f_lit F 1 10) (f_sub F time (frame_timer is1))
                 then is1\<lparr>frame_timer := time\<rparr> else is1);
          is3 = (if redisplay = 0 \<and> \<not> f_nan F (fr_pts vp)
                 then update_video_pts F (fr_pts vp) (fr_serial vp) is2 else is2) in
      if 1 < frame_queue_nb_remaining (pictq is3)
         \<and> (let duration = vp_duration F is3 vp (queue (pictq is3) ! frame_queue_peek_next (pictq is3)) in
            \<not> stepping is3
            \<and> (redisplay \<noteq> 0 \<or> 0 < framedrop P
               \<or> (framedrop P \<noteq> 0 \<and> get_master_sync_type is3 \<noteq> AV_SYNC_VIDEO_MASTER))
            \<and> f_lt F (f_add F (frame_timer is3) duration) time)
      then
        let is4 = (if redisplay = 0 then is3\<lparr>frame_drops_late := frame_drops_late is3 + 1\<rparr> else is3) in
        (Retry, 0, is4\<lparr>pictq := frame_queue_next (pictq is4)\<rparr>)
      else
        let is4 = (if has_subtitle is3 then subtitle_loop F is3 else is3) in
        (Finish, redisplay, display_picture F P is4))"

definition picture_round :: "fl \<Rightarrow> popts \<Rightarrow> nat \<Rightarrow> VideoState \<Rightarrow> round_end \<times> nat \<times> VideoState" where
  "picture_round F P redisplay is =
     (if frame_queue_nb_remaining (pictq is) = 0 then (Finish, redisplay, is)
      else
        let lastvp = queue (pictq is) ! frame_queue_peek_last (pictq is);
            vp = queue (pictq is) ! frame_queue_peek (pictq is) in
        if fr_serial vp \<noteq> serial (videoq is) then (Retry, 0, is\<lparr>pictq := frame_queue_next (pictq is)\<rparr>)
        else
          let is1 = (if fr_serial lastvp \<noteq> fr_serial vp \<and> redisplay = 0
                     then (let (t, is') = gettime F is in is'\<lparr>frame_timer := t\<rparr>) else is) in
          if paused is1 then (Finish, redisplay, display_picture F P is1)
          else
            let last_duration = vp_duration F is1 lastvp vp;
                (delay, is2) = (if redisplay \<noteq> 0 then (f_lit F 0 1, is1) else compute_target_delay F last_duration is1);
                (time, is3) = gettime F is2 in
            if f_lt F time (f_add F (frame_timer is3) delay) \<and> redisplay = 0
            then (Return, redisplay,
                  is3\<lparr>remaining_time := FFMIN F (f_sub F (f_add F (frame_timer is3) delay) time) (remaining_time is3)\<rparr>)
            else picture_due F P redisplay delay time vp is3)"

partial_function (option) picture_loop :: "fl \<Rightarrow> popts \<Rightarrow> nat \<Rightarrow> VideoState \<Rightarrow> (round_end \<times> VideoState) option" where
  "picture_loop F P redisplay is =
     (case picture_round F P redisplay is of
        (Retry, n, is1) \<Rightarrow> picture_loop F P n is1
      | (Return, n, is1) \<Rightarrow> Some (Return, is1)
      | (Finish, n, is1) \<Rightarrow> Some (Finish, is1))"

section \<open>A refresh\<close>

definition refresh_audio :: "fl \<Rightarrow> popts \<Rightarrow> VideoState \<Rightarrow> VideoState" where
  "refresh_audio F P is =
     (if \<not> display_disable P \<and> mode is \<noteq> SHOW_MODE_VIDEO \<and> has_audio is then
        let (time, is1) = gettime F is;
            is2 = (if force_refresh is1 \<or> f_lt F (f_add F (last_vis_time is1) (rdftspeed P)) time
                   then (video_display is1)\<lparr>last_vis_time := time\<rparr> else is1) in
        is2\<lparr>remaining_time := FFMIN F (remaining_time is2) (f_sub F (f_add F (last_vis_time is2) (rdftspeed P)) time)\<rparr>
      else is)"

definition video_refresh :: "fl \<Rightarrow> popts \<Rightarrow> VideoState \<Rightarrow> VideoState option" where
  "video_refresh F P is =
     (let is1 = (if \<not> paused is \<and> get_master_sync_type is = AV_SYNC_EXTERNAL_CLOCK \<and> realtime is
                 then check_external_clock_speed F is else is);
          is2 = refresh_audio F P is1 in
      if has_video is2 then
        let (redisplay, is3) = (if force_refresh is2
              then (let (r, f) = frame_queue_prev (pictq is2) in (r, is2\<lparr>pictq := f\<rparr>)) else (0, is2)) in
        (case picture_loop F P redisplay is3 of
           Some (Finish, is4) \<Rightarrow> Some (is4\<lparr>force_refresh := False\<rparr>)
         | Some (_, is4) \<Rightarrow> Some is4
         | None \<Rightarrow> None)
      else Some (is2\<lparr>force_refresh := False\<rparr>))"

section \<open>What a refresh does to the queues\<close>

lemma next_ok:
  assumes "fq_ok f" "0 < frame_queue_nb_remaining f"
  shows "fq_ok (frame_queue_next f)" "unshown (frame_queue_next f) = tl (unshown f)"
    "suffix (held (frame_queue_next f)) (held f)"
    "keep_last f \<Longrightarrow> rindex_shown (frame_queue_next f) = 1 \<and> hd (held (frame_queue_next f)) = hd (unshown f)"
    "unshown f \<noteq> []" "queue f ! frame_queue_peek f = hd (unshown f)"
proof -
  let ?i = "(rindex f + rindex_shown f) mod max_size f"
  have i: "fq_inv started (max_size f) (keep_last f) f"
    using assms(1) started_runs by (simp add: fq_inv_def)
  have len: "rindex_shown f < nat (fsize f)" and lt: "?i < length (queue f)"
    using assms by (auto simp: fq_ok_def frame_queue_nb_remaining_def intro: less_le_trans [OF mod_less_divisor])
  have take: "fq_take started f = Inr (Some (queue f ! ?i), frame_queue_next f)"
    using assms(2) started_runs lt
    by (simp add: fq_take_def frame_queue_peek_readable_def frame_queue_nb_remaining_def)
  show ne: "unshown f \<noteq> []" using len by (simp add: unshown_def)
  have "Inr (Some (queue f ! ?i), frame_queue_next f) =
      Inr (case unshown f of [] \<Rightarrow> None | p # _ \<Rightarrow> Some p, frame_queue_next f)"
    using fq_take_ok [OF i] take by auto
  then show "queue f ! frame_queue_peek f = hd (unshown f)"
    using ne by (auto simp: frame_queue_peek_def split: list.splits)
  show "fq_ok (frame_queue_next f)" "suffix (held (frame_queue_next f)) (held f)"
    using held_next [OF assms] by simp_all
  show "unshown (frame_queue_next f) = tl (unshown f)"
    "keep_last f \<Longrightarrow> rindex_shown (frame_queue_next f) = 1 \<and> hd (held (frame_queue_next f)) = hd (unshown f)"
    using fq_take_ok [OF i] take ne by auto
qed

lemma hd_unshown_in: "fq_ok f \<Longrightarrow> 0 < frame_queue_nb_remaining f \<Longrightarrow> hd (unshown f) \<in> set (held f)"
  using next_ok(5) [of f] hd_in_set [of "unshown f"] in_set_dropD unfolding unshown_def by metis

text \<open>Frames are only taken from the front of the queues of pictures and subtitles.\<close>

definition refreshed :: "VideoState \<Rightarrow> VideoState \<Rightarrow> bool" where
  "refreshed a b \<longleftrightarrow> fq_ok (pictq b) \<and> fq_ok (subpq b) \<and> suffix (held (pictq b)) (held (pictq a))
     \<and> suffix (held (subpq b)) (held (subpq a)) \<and> videoq b = videoq a \<and> keep_last (pictq b) = keep_last (pictq a)"

text \<open>At most one picture is drawn, of the current serial number, and it is the one kept as last.\<close>

definition one_drawn :: "VideoState \<Rightarrow> VideoState \<Rightarrow> bool" where
  "one_drawn a b \<longleftrightarrow> shown b = shown a \<or>
     (\<exists>p. shown b = shown a @ [Picture p] \<and> p \<in> set (held (pictq a)) \<and> fr_serial p = serial (videoq a)
          \<and> (keep_last (pictq a) \<longrightarrow> rindex_shown (pictq b) = 1 \<and> hd (held (pictq b)) = p))"

lemma refreshed_trans: "refreshed a b \<Longrightarrow> refreshed b c \<Longrightarrow> refreshed a c"
  using suffix_order.trans by (auto simp: refreshed_def)

lemma same_refreshed: "same_queues a b \<Longrightarrow> fq_ok (pictq a) \<Longrightarrow> fq_ok (subpq a) \<Longrightarrow> refreshed a b"
  by (simp add: refreshed_def same_queues_def)

lemma refreshed_next:
  "fq_ok (pictq a) \<Longrightarrow> fq_ok (subpq a) \<Longrightarrow> 0 < frame_queue_nb_remaining (pictq a) \<Longrightarrow>
   refreshed a (a\<lparr>pictq := frame_queue_next (pictq a)\<rparr>)"
  using next_ok(1,3) next_fields by (simp add: refreshed_def)

lemma subtitle_loop_ok:
  "fq_ok (pictq is) \<Longrightarrow> fq_ok (subpq is) \<Longrightarrow>
   refreshed is (subtitle_loop F is) \<and> pictq (subtitle_loop F is) = pictq is \<and> shown (subtitle_loop F is) = shown is"
proof (induction F "is" rule: subtitle_loop.induct)
  case (1 F "is")
  show ?case
  proof (cases "0 < frame_queue_nb_remaining (subpq is) \<and> subtitle_over F is")
    case True
    let ?is = "is\<lparr>subpq := frame_queue_next (subpq is)\<rparr>"
    have "refreshed is ?is" using True 1(2,3) next_ok(1,3) by (simp add: refreshed_def)
    moreover from this have "refreshed ?is (subtitle_loop F ?is) \<and> pictq (subtitle_loop F ?is) = pictq ?is
        \<and> shown (subtitle_loop F ?is) = shown ?is"
      using 1 True by (auto simp: refreshed_def)
    ultimately show ?thesis unfolding subtitle_loop.simps [of F "is"] if_P [OF True]
      using refreshed_trans by auto
  next
    case False
    then show ?thesis unfolding subtitle_loop.simps [of F "is"] if_not_P [OF False]
      using 1(2,3) by (simp add: refreshed_def)
  qed
qed

lemma display_ok:
  assumes "fq_ok (pictq is)" "fq_ok (subpq is)" "0 < frame_queue_nb_remaining (pictq is)"
    "fr_serial (hd (unshown (pictq is))) = serial (videoq is)"
  shows "refreshed is (display_picture F P is) \<and> one_drawn is (display_picture F P is)"
proof -
  let ?d = "if \<not> display_disable P \<and> mode is = SHOW_MODE_VIDEO then video_display is else is"
  let ?n = "?d\<lparr>pictq := frame_queue_next (pictq ?d)\<rparr>"
  have d: "pictq ?d = pictq is" "subpq ?d = subpq is" "videoq ?d = videoq is"
    "shown ?d = shown is \<or> shown ?d = shown is @ [Picture (hd (unshown (pictq is)))]"
    using next_ok(6) [OF assms(1,3)] by (auto simp: video_display_def video_image_display_def Let_def)
  note nx = next_ok [OF assms(1,3)] next_fields [of "pictq is"]
  have n: "refreshed is ?n" using nx d(1-3) assms(2) by (simp add: refreshed_def)
  have drawn: "one_drawn is b" if "shown b = shown ?d" "pictq b = frame_queue_next (pictq is)" for b
    using d(4) nx hd_unshown_in [OF assms(1,3)] assms(4) that by (auto simp: one_drawn_def)
  show ?thesis
  proof (cases "stepping ?n \<and> \<not> paused ?n")
    case True
    have s: "same_queues ?n (stream_toggle_pause F ?n)" by (rule same_toggle_pause)
    then have "one_drawn is (stream_toggle_pause F ?n)" using d(1) by (intro drawn) (auto simp: same_queues_def)
    then show ?thesis unfolding display_picture_def Let_def if_P [OF True]
      using refreshed_trans [OF n same_refreshed [OF s]] n by (simp add: refreshed_def)
  next
    case False
    have "one_drawn is ?n" using d(1) by (intro drawn) auto
    then show ?thesis unfolding display_picture_def Let_def if_not_P [OF False] using n by simp
  qed
qed

lemma same_keeps:
  assumes "same_queues a b"
  shows "pictq b = pictq a" "subpq b = subpq a" "videoq b = videoq a" "shown b = shown a"
  using assms by (simp_all add: same_queues_def)

lemma one_drawn_after:
  "pictq b = pictq a \<Longrightarrow> videoq b = videoq a \<Longrightarrow> shown b = shown a \<Longrightarrow> one_drawn b c \<Longrightarrow> one_drawn a c"
  by (simp add: one_drawn_def)

text \<open>A round either drops the first picture to try again, or ends having drawn at most one.\<close>

definition round_ok :: "VideoState \<Rightarrow> round_end \<Rightarrow> VideoState \<Rightarrow> bool" where
  "round_ok a e b \<longleftrightarrow> refreshed a b \<and>
     (if e = Retry then shown b = shown a \<and> frame_queue_nb_remaining (pictq b) < frame_queue_nb_remaining (pictq a)
      else one_drawn a b)"

lemma round_ok_after:
  assumes "same_queues a b" "fq_ok (pictq a)" "fq_ok (subpq a)" "round_ok b e c"
  shows "round_ok a e c"
  using refreshed_trans [OF same_refreshed [OF assms(1-3)], of c] one_drawn_after [of b a c] assms(4) same_keeps [OF assms(1)]
  by (auto simp: round_ok_def)

lemma picture_due_ok:
  assumes "fq_ok (pictq is)" "fq_ok (subpq is)" "0 < frame_queue_nb_remaining (pictq is)"
    "fr_serial (hd (unshown (pictq is))) = serial (videoq is)"
    and "picture_due F P redisplay delay time vp is = (e, n, is')"
  shows "round_ok is e is'"
proof -
  let ?is1 = "is\<lparr>frame_timer := f_add F (frame_timer is) delay\<rparr>"
  define is2 where "is2 = (if f_lt F (f_lit F 0 1) delay \<and> f_lt F (f_lit F 1 10) (f_sub F time (frame_timer ?is1))
                 then ?is1\<lparr>frame_timer := time\<rparr> else ?is1)"
  define is3 where "is3 = (if redisplay = 0 \<and> \<not> f_nan F (fr_pts vp)
                 then update_video_pts F (fr_pts vp) (fr_serial vp) is2 else is2)"
  define late where "late \<longleftrightarrow> 1 < frame_queue_nb_remaining (pictq is3)
         \<and> (let duration = vp_duration F is3 vp (queue (pictq is3) ! frame_queue_peek_next (pictq is3)) in
            \<not> stepping is3
            \<and> (redisplay \<noteq> 0 \<or> 0 < framedrop P
               \<or> (framedrop P \<noteq> 0 \<and> get_master_sync_type is3 \<noteq> AV_SYNC_VIDEO_MASTER))
            \<and> f_lt F (f_add F (frame_timer is3) duration) time)"
  note due = assms(5) [unfolded picture_due_def Let_def [of ?is1] Let_def [of "if _ then _ else _"],
      folded is2_def, folded is3_def, folded late_def]
  have "same_queues is is2" by (simp add: is2_def same_queues_def)
  moreover have "same_queues is2 is3" using same_update_pts by (simp add: is3_def)
  ultimately have s: "same_queues is is3" by (rule same_queues_trans)
  note k = same_keeps [OF s]
  have "round_ok is3 e is'"
  proof (cases late)
    case True
    let ?is4 = "if redisplay = 0 then is3\<lparr>frame_drops_late := frame_drops_late is3 + 1\<rparr> else is3"
    have is': "e = Retry" "is' = ?is4\<lparr>pictq := frame_queue_next (pictq ?is4)\<rparr>"
      using due True by (auto simp: Let_def)
    have "refreshed is3 is'" unfolding is'(2)
      using next_ok(1,3) [OF assms(1,3)] next_fields [of "pictq is"] assms(2) k by (simp add: refreshed_def)
    then show ?thesis using is' by (simp add: round_ok_def next_remaining)
  next
    case False
    define is4 where "is4 = (if has_subtitle is3 then subtitle_loop F is3 else is3)"
    have is': "e = Finish" "is' = display_picture F P is4"
      using due False by (auto simp: Let_def is4_def)
    have r: "refreshed is3 is4" "pictq is4 = pictq is3" "shown is4 = shown is3"
      using subtitle_loop_ok [of is3 F] assms(1,2) k by (auto simp: is4_def refreshed_def)
    have "refreshed is4 is' \<and> one_drawn is4 is'"
      unfolding is'(2) using r assms k by (intro display_ok) (auto simp: refreshed_def)
    moreover have "videoq is4 = videoq is3" using r(1) by (simp add: refreshed_def)
    ultimately have "refreshed is3 is'" "one_drawn is3 is'"
      using refreshed_trans [OF r(1)] one_drawn_after [OF r(2) _ r(3)] by blast+
    then show ?thesis using is'(1) by (simp add: round_ok_def)
  qed
  with s assms(1,2) show ?thesis by (rule round_ok_after)
qed

lemma picture_round_ok:
  assumes "fq_ok (pictq is)" "fq_ok (subpq is)" "picture_round F P redisplay is = (e, n, is')"
  shows "round_ok is e is'"
proof (cases "frame_queue_nb_remaining (pictq is) = 0")
  case True
  then show ?thesis using assms by (auto simp: picture_round_def round_ok_def refreshed_def one_drawn_def)
next
  case False
  then have nb: "0 < frame_queue_nb_remaining (pictq is)"
    using assms(1) by (auto simp: fq_ok_def frame_queue_nb_remaining_def)
  note vp = next_ok(6) [OF assms(1) nb]
  let ?last = "queue (pictq is) ! frame_queue_peek_last (pictq is)"
  let ?vp = "hd (unshown (pictq is))"
  note r = assms(3) [unfolded picture_round_def if_not_P [OF False] vp Let_def [of ?last] Let_def [of ?vp]]
  show ?thesis
  proof (cases "fr_serial ?vp = serial (videoq is)")
    case False
    then have "e = Retry" "is' = is\<lparr>pictq := frame_queue_next (pictq is)\<rparr>" using r by auto
    then show ?thesis using refreshed_next [OF assms(1,2) nb] by (simp add: round_ok_def next_remaining)
  next
    case True
    define is1 where "is1 = (if fr_serial ?last \<noteq> fr_serial ?vp \<and> redisplay = 0
        then (let (t, is') = gettime F is in is'\<lparr>frame_timer := t\<rparr>) else is)"
    have s1: "same_queues is is1" by (auto simp: is1_def gettime_def same_queues_def)
    note r = r [unfolded not_not if_not_P [of "fr_serial ?vp \<noteq> _", unfolded not_not, OF True], folded is1_def]
    show ?thesis
    proof (cases "paused is1")
      case True
      then have "e = Finish" "is' = display_picture F P is1" using r by (auto simp: Let_def)
      then have "round_ok is1 e is'"
        using display_ok [of is1 F P] assms(1,2) nb \<open>fr_serial ?vp = _\<close> same_keeps [OF s1] by (simp add: round_ok_def)
      with s1 assms(1,2) show ?thesis by (rule round_ok_after)
    next
      case False
      obtain delay is2 where d: "(if redisplay \<noteq> 0 then (f_lit F 0 1, is1)
          else compute_target_delay F (vp_duration F is1 ?last ?vp) is1) = (delay, is2)" by force
      obtain time is3 where t: "gettime F is2 = (time, is3)" by force
      note r = r [unfolded Let_def if_not_P [OF False] d prod.case t]
      have "same_queues is1 is2" using d same_target_delay by (auto split: if_splits)
      then have s: "same_queues is is3" using s1 same_gettime [OF t] same_queues_trans by blast
      note k = same_keeps [OF s]
      have "round_ok is3 e is'"
      proof (cases "f_lt F time (f_add F (frame_timer is3) delay) \<and> redisplay = 0")
        case True
        then show ?thesis using r assms(1,2) k by (auto simp: round_ok_def refreshed_def one_drawn_def)
      next
        case False
        then show ?thesis using r assms(1,2) nb \<open>fr_serial ?vp = _\<close> k
          by (intro picture_due_ok [of is3 F P redisplay delay time ?vp e n is'])
             (simp_all only: if_not_P [OF False] if_False)
      qed
      with s assms(1,2) show ?thesis by (rule round_ok_after)
    qed
  qed
qed

text \<open>The rounds end: each one that is repeated has taken a picture.\<close>

lemma picture_loop_ok:
  "fq_ok (pictq is) \<Longrightarrow> fq_ok (subpq is) \<Longrightarrow>
   \<exists>e is'. picture_loop F P n is = Some (e, is') \<and> e \<noteq> Retry \<and> refreshed is is' \<and> one_drawn is is'"
proof (induction "nat (frame_queue_nb_remaining (pictq is))" arbitrary: "is" n rule: less_induct)
  case less
  obtain e m is1 where r: "picture_round F P n is = (e, m, is1)" by (cases "picture_round F P n is")
  note ok = picture_round_ok [OF less.prems r]
  show ?case
  proof (cases "e = Retry")
    case True
    then have r1: "refreshed is is1" "shown is1 = shown is"
      "frame_queue_nb_remaining (pictq is1) < frame_queue_nb_remaining (pictq is)"
      using ok by (auto simp: round_ok_def)
    then have q: "fq_ok (pictq is1)" "fq_ok (subpq is1)" "set (held (pictq is1)) \<subseteq> set (held (pictq is))"
      "videoq is1 = videoq is" "keep_last (pictq is1) = keep_last (pictq is)"
      by (auto simp: refreshed_def suffix_def)
    have "0 < frame_queue_nb_remaining (pictq is)"
      using q(1) r1(3) by (auto simp: fq_ok_def frame_queue_nb_remaining_def)
    then have "nat (frame_queue_nb_remaining (pictq is1)) < nat (frame_queue_nb_remaining (pictq is))"
      using r1(3) by simp
    from less.hyps [OF this q(1,2), of m] obtain e' is' where
      l: "picture_loop F P m is1 = Some (e', is')" "e' \<noteq> Retry" "refreshed is1 is'" "one_drawn is1 is'" by blast
    have "one_drawn is is'" using l(4) q r1(2) by (auto simp: one_drawn_def)
    then show ?thesis
      using l(1,2) refreshed_trans [OF r1(1) l(3)] r True by (subst picture_loop.simps) simp
  next
    case False
    then show ?thesis using r ok by (subst picture_loop.simps) (cases e; simp add: round_ok_def)
  qed
qed

lemma refresh_audio_keeps:
  "pictq (refresh_audio F P is) = pictq is \<and> subpq (refresh_audio F P is) = subpq is
   \<and> videoq (refresh_audio F P is) = videoq is
   \<and> (mode is = SHOW_MODE_VIDEO \<longrightarrow> refresh_audio F P is = is)"
  by (auto simp: refresh_audio_def gettime_def video_display_def video_image_display_def Let_def)

text \<open>The whole call, from what the rounds do.\<close>

lemma video_refresh_ok:
  assumes "fq_ok (pictq is)" "fq_ok (subpq is)"
  shows "\<exists>is'. video_refresh F P is = Some is' \<and> refreshed is is' \<and> (mode is = SHOW_MODE_VIDEO \<longrightarrow> one_drawn is is')"
proof -
  define is1 where "is1 = (if \<not> paused is \<and> get_master_sync_type is = AV_SYNC_EXTERNAL_CLOCK \<and> realtime is
                 then check_external_clock_speed F is else is)"
  define is2 where "is2 = refresh_audio F P is1"
  have s: "same_queues is is1" using same_check_speed by (simp add: is1_def)
  have q: "pictq is2 = pictq is" "subpq is2 = subpq is" "videoq is2 = videoq is"
    using refresh_audio_keeps [of F P is1] same_keeps [OF s] by (simp_all add: is2_def)
  have sh: "mode is = SHOW_MODE_VIDEO \<Longrightarrow> shown is2 = shown is"
    using refresh_audio_keeps [of F P is1] s by (auto simp: is2_def same_queues_def)
  note vr = video_refresh_def [of F P "is", folded is1_def, unfolded Let_def, folded is2_def]
  show ?thesis
  proof (cases "has_video is2")
    case False
    then show ?thesis using vr q sh assms by (auto simp: refreshed_def one_drawn_def)
  next
    case True
    obtain n is3 where p: "(if force_refresh is2
              then (let (r, f) = frame_queue_prev (pictq is2) in (r, is2\<lparr>pictq := f\<rparr>)) else (0, is2)) = (n, is3)" by force
    then have k: "fq_ok (pictq is3)" "fq_ok (subpq is3)" "held (pictq is3) = held (pictq is)" "subpq is3 = subpq is"
      "keep_last (pictq is3) = keep_last (pictq is)" "videoq is3 = videoq is" "shown is3 = shown is2"
      using assms q by (auto simp: frame_queue_prev_def fq_ok_def held_def split: if_splits)
    from picture_loop_ok [OF k(1,2), of F P n] obtain e is4 where
      l: "picture_loop F P n is3 = Some (e, is4)" "e \<noteq> Retry" "refreshed is3 is4" "one_drawn is3 is4" by blast
    have r: "refreshed is is4" using l(3) k by (simp add: refreshed_def)
    have d: "one_drawn is is4" if "mode is = SHOW_MODE_VIDEO"
      using l(4) sh [OF that] k(3,5-7) by (simp add: one_drawn_def)
    note vr = vr [unfolded if_P [OF True] p [unfolded Let_def] prod.case l(1) option.case]
    define is5 where "is5 = (if e = Finish then is4\<lparr>force_refresh := False\<rparr> else is4)"
    have "video_refresh F P is = Some is5" using vr l(2) by (cases e) (simp_all add: is5_def)
    then show ?thesis using r d by (auto simp: refreshed_def one_drawn_def is5_def)
  qed
qed

section \<open>Properties of a refresh\<close>

definition toy_fl :: "(nat \<Rightarrow> int) \<Rightarrow> fl" where
  "toy_fl ticks = \<lparr>f_add = (+), f_sub = (-), f_mul = (*), f_div = (\<lambda>a b. a), f_lt = (\<lambda>a b. sint a < sint b),
     f_le = (\<lambda>a b. sint a \<le> sint b), f_nan = (\<lambda>a. False), f_abs = (\<lambda>a. word_of_int (abs (sint a))),
     f_int = word_of_int, f_trunc = sint, f_lit = (\<lambda>n d. word_of_int (n div d)), f_ms = (\<lambda>n. word_of_int (n div 1000)),
     NAN = 0, now = ticks\<rparr>"

definition demo_clock :: "serial_ref \<Rightarrow> Clock" where
  "demo_clock r = \<lparr>c_pts = 0, pts_drift = 0, last_updated = 0, speed = 1, c_serial = 1, c_paused = False, queue_serial = r\<rparr>"

definition demo_picture :: "string \<Rightarrow> int \<Rightarrow> Frame" where
  "demo_picture ds n = zero_frame\<lparr>fr_data := Some (demo_samples ds), fr_serial := n, bmp := Some (640, 480)\<rparr>"

text \<open>A queue holding a picture already shown, one from before a seek, and one to show.\<close>

definition demo_pictures :: FrameQueue where
  "demo_pictures =
     (frame_queue_push (fill (demo_picture ''new'' 1) (frame_queue_push (fill (demo_picture ''old'' 0)
       (frame_queue_push (fill (demo_picture ''shown'' 0) demo_queue))))))\<lparr>rindex_shown := 1\<rparr>"

definition demo_video :: VideoState where
  "demo_video =
     \<lparr>paused = False, read_pause_enosys = False, force_refresh = False, stepping = False, seek_req = False,
      seek_by_byte = False, seek_pos = 0, seek_rel = 0, audclk = demo_clock AudioSerial, vidclk = demo_clock VideoSerial,
      extclk = demo_clock OwnSerial, pictq = demo_pictures, subpq = demo_queue, sampq = demo_queue,
      audioq = started, videoq = started, subtitleq = started, audio_stream = 0, video_stream = 1,
      has_audio = True, has_video = True, has_subtitle = False, av_sync_type = AV_SYNC_AUDIO_MASTER,
      realtime = False, mode = SHOW_MODE_VIDEO, frame_timer = 0, last_vis_time = 0, max_frame_duration = 10,
      remaining_time = 0, frame_drops_late = 0, frame_drops_early = 0, frame_last_filter_delay = 0,
      viddec_pkt_serial = 1, reads = 0, shown = []\<rparr>"

definition demo_opts :: popts where
  "demo_opts = \<lparr>display_disable = False, framedrop = -1, rdftspeed = 0\<rparr>"

lemma demo_video_ok: "fq_ok (pictq demo_video)" "fq_ok (subpq demo_video)"
  by code_simp+

text \<open>A refresh returns.  Whatever the clocks and the readings of the time are, and however many
  pictures the queue holds from before a seek or too late to show, \<open>video_refresh\<close> comes to an end;
  both frame queues are well formed again and have only lost frames at the front, and the packets'
  queue is as it was.\<close>

theorem video_refresh_returns:
  assumes "fq_ok (pictq is)" "fq_ok (subpq is)"
  shows "\<exists>is'. video_refresh F P is = Some is' \<and> fq_ok (pictq is') \<and> fq_ok (subpq is')
    \<and> suffix (held (pictq is')) (held (pictq is)) \<and> suffix (held (subpq is')) (held (subpq is))
    \<and> videoq is' = videoq is"
  using video_refresh_ok [OF assms, of F P] by (auto simp: refreshed_def)

theorem video_refresh_returns_witness:
  "\<exists>is'. video_refresh (toy_fl (\<lambda>n. int n)) demo_opts demo_video = Some is' \<and> fq_ok (pictq is') \<and> fq_ok (subpq is')
    \<and> suffix (held (pictq is')) (held (pictq demo_video)) \<and> suffix (held (subpq is')) (held (subpq demo_video))
    \<and> videoq is' = videoq demo_video"
  by (rule video_refresh_returns [OF demo_video_ok])

text \<open>C5. Only current pictures are drawn.  In video mode a refresh draws at most one picture; it is one the
  queue held when the refresh began, decoded from packets after the last seek (its serial number is the
  packet queue's), and if the queue keeps its last frame, that picture stays in the ring as the one
  shown.\<close>

theorem refresh_draws_current:
  assumes "fq_ok (pictq is)" "fq_ok (subpq is)" "mode is = SHOW_MODE_VIDEO"
  shows "\<exists>is'. video_refresh F P is = Some is' \<and>
    (shown is' = shown is \<or>
     (\<exists>p. shown is' = shown is @ [Picture p] \<and> p \<in> set (held (pictq is)) \<and> fr_serial p = serial (videoq is)
        \<and> (keep_last (pictq is) \<longrightarrow> rindex_shown (pictq is') = 1 \<and> hd (held (pictq is')) = p)))"
  using video_refresh_ok [OF assms(1,2), of F P] assms(3) by (auto simp: one_drawn_def)

lemma demo_video_draws:
  "map_option shown (video_refresh (toy_fl (\<lambda>n. int n)) demo_opts demo_video) = Some [Picture (demo_picture ''new'' 1)]"
proof -
  let ?F = "toy_fl (\<lambda>n. int n)"
  have "(case picture_round ?F demo_opts 0 demo_video of (e, n, is1) \<Rightarrow> e = Retry \<and> n = 0 \<and>
      (case picture_round ?F demo_opts 0 is1 of (e, n, is2) \<Rightarrow>
        e = Finish \<and> n = 0 \<and> shown is2 = [Picture (demo_picture ''new'' 1)]))"
    by code_simp
  then obtain is1 is2 where r: "picture_round ?F demo_opts 0 demo_video = (Retry, 0, is1)"
    "picture_round ?F demo_opts 0 is1 = (Finish, 0, is2)" "shown is2 = [Picture (demo_picture ''new'' 1)]"
    by (auto split: prod.splits)
  have "picture_loop ?F demo_opts 0 demo_video = Some (Finish, is2)"
    using r by (simp add: picture_loop.simps [of ?F demo_opts])
  moreover have "refresh_audio ?F demo_opts demo_video = demo_video" using refresh_audio_keeps [of ?F demo_opts demo_video]
    by (simp add: demo_video_def)
  ultimately show ?thesis using r(3)
    by (simp add: video_refresh_def Let_def demo_video_def get_master_sync_type_def)
qed

theorem refresh_draws_current_witness:
  "\<exists>is' p. video_refresh (toy_fl (\<lambda>n. int n)) demo_opts demo_video = Some is' \<and> shown is' = [Picture p]
    \<and> fr_serial p = 1 \<and> rindex_shown (pictq is') = 1 \<and> hd (held (pictq is')) = p"
proof -
  have m: "mode demo_video = SHOW_MODE_VIDEO" "shown demo_video = []" "serial (videoq demo_video) = 1"
    "keep_last (pictq demo_video)" by code_simp+
  show ?thesis
    using refresh_draws_current [OF demo_video_ok m(1), of "toy_fl (\<lambda>n. int n)" demo_opts] demo_video_draws m(2-)
    by auto
qed

text \<open>A paused player redraws.  When a redraw is asked for while the player is paused, the picture shown last
  is drawn again, even if newer ones are waiting: the queues, the clocks and the timers are unchanged.\<close>

theorem paused_refresh_redraws:
  assumes "paused is" "force_refresh is" "has_video is" "mode is = SHOW_MODE_VIDEO" "\<not> display_disable P"
    and "fq_ok (pictq is)" "keep_last (pictq is)" "rindex_shown (pictq is) = 1"
    and "p = hd (held (pictq is))" "bmp p \<noteq> None" "fr_serial p = serial (videoq is)"
  shows "video_refresh F P is = Some (is\<lparr>shown := shown is @ [Picture p], force_refresh := False\<rparr>)"
proof -
  let ?q = "(pictq is)\<lparr>rindex_shown := 0\<rparr>"
  let ?is = "is\<lparr>pictq := ?q\<rparr>"
  have one: "1 \<le> fsize (pictq is)" "rindex (pictq is) < max_size (pictq is)" using assms(6,8) by (auto simp: fq_ok_def)
  then have p: "queue (pictq is) ! rindex (pictq is) = p" using assms(9) by (simp add: hd_conv_nth held_def)
  have peek: "frame_queue_peek ?q = rindex (pictq is)" "frame_queue_peek_last ?q = rindex (pictq is)"
    using one(2) by (simp_all add: frame_queue_peek_def frame_queue_peek_last_def)
  have kept: "frame_queue_next ?q = pictq is" using assms(7,8) by (simp add: frame_queue_next_def)
  have "display_picture F P ?is = is\<lparr>shown := shown is @ [Picture p]\<rparr>"
    using assms(1,3-5,10) p peek kept
    by (simp add: display_picture_def video_display_def video_image_display_def Let_def)
  then have "picture_round F P 1 ?is = (Finish, 1, is\<lparr>shown := shown is @ [Picture p]\<rparr>)"
    using assms(1,11) one(1) p peek
    by (simp add: picture_round_def Let_def frame_queue_nb_remaining_def)
  then have "picture_loop F P 1 ?is = Some (Finish, is\<lparr>shown := shown is @ [Picture p]\<rparr>)"
    by (subst picture_loop.simps) simp
  moreover have "refresh_audio F P is = is" using refresh_audio_keeps assms(4) by blast
  ultimately show ?thesis using assms(1-3,8) by (simp add: video_refresh_def Let_def frame_queue_prev_def)
qed

definition demo_paused :: VideoState where
  "demo_paused = demo_video\<lparr>paused := True, force_refresh := True,
     videoq := started\<lparr>serial := 0\<rparr>\<rparr>"

theorem paused_refresh_witness:
  "video_refresh (toy_fl (\<lambda>n. int n)) demo_opts demo_paused =
     Some (demo_paused\<lparr>shown := [Picture (demo_picture ''shown'' 0)], force_refresh := False\<rparr>)"
proof -
  have p: "paused demo_paused" "force_refresh demo_paused" "has_video demo_paused" "mode demo_paused = SHOW_MODE_VIDEO"
    "\<not> display_disable demo_opts" "fq_ok (pictq demo_paused)" "keep_last (pictq demo_paused)"
    "rindex_shown (pictq demo_paused) = 1" "demo_picture ''shown'' 0 = hd (held (pictq demo_paused))"
    "bmp (demo_picture ''shown'' 0) \<noteq> None" "fr_serial (demo_picture ''shown'' 0) = serial (videoq demo_paused)"
    and e: "shown demo_paused = []" by code_simp+
  show ?thesis using paused_refresh_redraws [OF p, of "toy_fl (\<lambda>n. int n)"] e by simp
qed

section \<open>The hand-over of a decoded picture\<close>

definition update_slot :: "nat \<Rightarrow> (Frame \<Rightarrow> Frame) \<Rightarrow> FrameQueue \<Rightarrow> FrameQueue" where
  "update_slot i g f = f\<lparr>queue := (queue f)[i := g (queue f ! i)]\<rparr>"

text \<open>
  In the main thread, on the event of the decoder's: the texture of the slot.  \<open>create\<close> says whether
  \<open>SDL_CreateTexture\<close> succeeds; when it does not, the process ends (\<open>None\<close>).
\<close>

definition alloc_picture :: "bool \<Rightarrow> int \<Rightarrow> int \<Rightarrow> FrameQueue \<Rightarrow> FrameQueue option" where
  "alloc_picture create w h f =
     (let i = windex f; vp = queue f ! i in
      if bmp vp = None \<or> fr_width vp \<noteq> w \<or> fr_height vp \<noteq> h then
        (if create then Some (update_slot i (\<lambda>v. v\<lparr>bmp := Some (fr_width v, fr_height v), allocated := True\<rparr>) f)
         else None)
      else Some (update_slot i (\<lambda>v. v\<lparr>allocated := True\<rparr>) f))"

text \<open>
  \<open>q0\<close> is the packet queue when the slot is asked for, \<open>q1\<close> when the wait for the texture is over; \<open>handled\<close>
  says whether the main thread has handled the event by then.  \<open>None\<close>: the thread still waits, or the
  process has ended.
\<close>

definition queue_picture ::
  "PacketQueue \<Rightarrow> PacketQueue \<Rightarrow> bool \<Rightarrow> bool \<Rightarrow> int \<Rightarrow> int \<Rightarrow> f64 \<Rightarrow> f64 \<Rightarrow> int \<Rightarrow> int \<Rightarrow> FrameQueue \<Rightarrow> (int \<times> FrameQueue) option" where
  "queue_picture q0 q1 handled create w h t d pos n f =
     (case frame_queue_peek_writable q0 f of
        None \<Rightarrow> None
      | Some None \<Rightarrow> Some (-1, f)
      | Some (Some i) \<Rightarrow>
          let f1 = update_slot i (\<lambda>v. v\<lparr>allocated := False, fr_width := w, fr_height := h\<rparr>) f in
          (case (if handled then alloc_picture create w h f1 else Some f1) of
             None \<Rightarrow> None
           | Some f2 \<Rightarrow>
               if abort_request q1 then Some (-1, f2)
               else if \<not> allocated (queue f2 ! i) then None
               else if bmp (queue f2 ! i) \<noteq> None then
                 Some (0, frame_queue_push
                   (update_slot i (\<lambda>v. v\<lparr>fr_pts := t, fr_duration := d, fr_pos := pos, fr_serial := n\<rparr>) f2))
               else Some (0, f2)))"

text \<open>\<open>got\<close> is what \<open>decoder_decode_frame\<close> returned, \<open>dpts\<close> the frame's time, if it has one.\<close>

definition get_video_frame :: "fl \<Rightarrow> popts \<Rightarrow> int \<Rightarrow> f64 option \<Rightarrow> VideoState \<Rightarrow> int \<times> VideoState" where
  "get_video_frame F P got dpts is =
     (if got < 0 then (-1, is)
      else if got \<noteq> 0 \<and> (0 < framedrop P \<or> (framedrop P \<noteq> 0 \<and> get_master_sync_type is \<noteq> AV_SYNC_VIDEO_MASTER)) then
        (case dpts of
           None \<Rightarrow> (got, is)
         | Some t \<Rightarrow>
             let (m, is1) = get_master_clock F is; diff = f_sub F t m in
             if \<not> f_nan F diff \<and> f_lt F (f_abs F diff) (f_lit F 10 1)
                \<and> f_lt F (f_sub F diff (frame_last_filter_delay is1)) (f_lit F 0 1)
                \<and> viddec_pkt_serial is1 = c_serial (vidclk is1) \<and> nb_packets (videoq is1) \<noteq> 0
             then (0, is1\<lparr>frame_drops_early := frame_drops_early is1 + 1\<rparr>) else (got, is1))
      else (got, is))"

text \<open>A decoded picture reaches the queue with its time and serial number, as the last of those to be
  shown, when there is room and nothing is aborted.  Its slot gets a texture of the picture's size only
  if it has none: a slot used before keeps its texture, whatever the size of the new picture.\<close>

theorem picture_is_queued:
  assumes "fq_ok f" "fsize f < int (max_size f)" "\<not> abort_request q0" "\<not> abort_request q1"
    and "slot = queue f ! windex f"
    and "p = slot\<lparr>fr_pts := t, fr_duration := d, fr_pos := pos, fr_serial := n, fr_width := w, fr_height := h,
      allocated := True, bmp := (case bmp slot of None \<Rightarrow> Some (w, h) | Some s \<Rightarrow> Some s)\<rparr>"
  shows "\<exists>f'. queue_picture q0 q1 True True w h t d pos n f = Some (0, f') \<and> fq_ok f' \<and> unshown f' = unshown f @ [p]"
proof -
  have i: "windex f < length (queue f)" "rindex_shown f \<le> length (held f)"
    using assms(1) by (auto simp: fq_ok_def intro: less_le_trans [OF mod_less_divisor])
  have "queue_picture q0 q1 True True w h t d pos n f = Some (0, frame_queue_push (fill p f))"
    using assms(2-6) i(1)
    by (cases "bmp slot"; cases "queue f ! windex f")
      (simp_all add: queue_picture_def frame_queue_peek_writable_def alloc_picture_def update_slot_def fill_def Let_def)
  moreover have "unshown (frame_queue_push (fill p f)) = unshown f @ [p]"
    using held_push(2) [OF assms(1,2), of p] push_fields(3) [of p f] i(2) by (simp add: unshown_def)
  ultimately show ?thesis using held_push(1) [OF assms(1,2)] by blast
qed

text \<open>A picture of 1920x1080 in a slot used for one of 640x480.\<close>

theorem picture_is_queued_witness:
  "\<exists>f'. queue_picture started started True True 1920 1080 7 1 0 1
      (demo_queue\<lparr>queue := replicate 16 (demo_picture ''used'' 0)\<rparr>) = Some (0, f') \<and> fq_ok f'
    \<and> unshown f' = [(demo_picture ''used'' 1)\<lparr>fr_pts := 7, fr_duration := 1, fr_width := 1920, fr_height := 1080,
         allocated := True, bmp := Some (640, 480)\<rparr>]"
proof -
  let ?f = "demo_queue\<lparr>queue := replicate 16 (demo_picture ''used'' 0)\<rparr>"
  have q: "fq_ok ?f" "fsize ?f < int (max_size ?f)" and u: "unshown ?f = []" by code_simp+
  have p: "(demo_picture ''used'' 1)\<lparr>fr_pts := 7, fr_duration := 1, fr_width := 1920, fr_height := 1080,
         allocated := True, bmp := Some (640, 480)\<rparr> =
     (demo_picture ''used'' 0)\<lparr>fr_pts := 7, fr_duration := 1, fr_pos := 0, fr_serial := 1, fr_width := 1920,
         fr_height := 1080, allocated := True,
         bmp := (case bmp (demo_picture ''used'' 0) of None \<Rightarrow> Some (1920, 1080) | Some s \<Rightarrow> Some s)\<rparr>"
    and w: "demo_picture ''used'' 0 = queue ?f ! windex ?f" by code_simp+
  show ?thesis using picture_is_queued [OF q started_runs started_runs w p] u by simp
qed

text \<open>An early drop is counted, and only drops; nothing else of the queues changes.\<close>

lemma early_drop_counts:
  "get_video_frame F P got dpts is = (r, is') \<Longrightarrow> pictq is' = pictq is \<and> videoq is' = videoq is \<and>
   (r = got \<or> (got < 0 \<and> r = -1) \<or> r = 0 \<and> nb_packets (videoq is) \<noteq> 0 \<and> framedrop P \<noteq> 0)"
  by (auto simp: get_video_frame_def Let_def same_queues_def dest!: same_master_clock
      split: if_splits option.splits prod.splits)

end
