(* ===== verification/PlayerAudio.thy ===== *)
theory PlayerAudio
  imports PlayerVideo "HOL-Library.Signed_Division"
begin

text \<open>
  The sound side of \<open>src/ffplay2.c\<close>: \<open>sdl_audio_callback\<close>, which fills the device's buffer from decoded
  frames, and what it calls: \<open>audio_decode_frame\<close>, \<open>synchronize_audio\<close>, \<open>update_sample_display\<close>.

  FFmpeg's resampler and its computations of sizes are a parameter (\<open>alib\<close>).  A call that has to wait for
  a frame has the outcome \<open>Waits\<close>; the callback's loop is a \<open>partial_function\<close>, so that its return is a theorem.
\<close>

section \<open>State\<close>

datatype 'a run = Waits | Fault fault | Returns 'a

record AudioParams =
  ap_freq :: int
  ap_channels :: int
  ap_layout :: int
  ap_fmt :: int
  ap_frame_size :: int
  ap_bytes_per_sec :: int

text \<open>\<open>vs\<close> is the rest of the player's state; \<open>'s\<close> is the resampler's.\<close>

record 's AudioState =
  vs :: VideoState
  audio_clock :: f64
  audio_clock_serial :: int
  audio_diff_cum :: f64
  audio_diff_avg_coef :: f64
  audio_diff_threshold :: f64
  audio_diff_avg_count :: int
  audio_hw_buf_size :: int
  audio_buf :: "byte list"
  audio_buf_size :: int
  audio_buf_index :: int
  audio_write_buf_size :: int
  audio_src :: AudioParams
  audio_tgt :: AudioParams
  swr_ctx :: "'s option"
  sample_array :: "16 word list"
  sample_array_index :: int
  audio_callback_time :: int

text \<open>
  \<open>new_swr\<close> is \<open>swr_alloc_set_opts\<close> with \<open>swr_init\<close> (\<open>None\<close> when either fails), \<open>init_swr\<close> a second
  \<open>swr_init\<close>, \<open>compensate\<close> is \<open>swr_set_compensation\<close>, \<open>convert\<close> is \<open>swr_convert\<close> with the bytes it
  writes, and \<open>alloc_ok\<close> says whether \<open>av_fast_malloc\<close> gives a buffer of a size.
\<close>

record 's alib =
  samples_size :: "int \<Rightarrow> int \<Rightarrow> int \<Rightarrow> int \<Rightarrow> int"
  layout_channels :: "int \<Rightarrow> int"
  default_layout :: "int \<Rightarrow> int"
  bytes_per_sample :: "int \<Rightarrow> int"
  new_swr :: "AudioParams \<Rightarrow> int \<Rightarrow> int \<Rightarrow> int \<Rightarrow> 's option"
  init_swr :: "'s \<Rightarrow> 's option"
  compensate :: "'s \<Rightarrow> int \<Rightarrow> int \<Rightarrow> (int \<times> 's)"
  convert :: "'s \<Rightarrow> int \<Rightarrow> byte list \<Rightarrow> int \<Rightarrow> (int \<times> byte list \<times> 's)"
  alloc_ok :: "int \<Rightarrow> bool"

definition SDL_AUDIO_MIN_BUFFER_SIZE :: int where "SDL_AUDIO_MIN_BUFFER_SIZE = 512"
definition SAMPLE_CORRECTION_PERCENT_MAX :: int where "SAMPLE_CORRECTION_PERCENT_MAX = 10"
definition AUDIO_DIFF_AVG_NB :: int where "AUDIO_DIFF_AVG_NB = 20"
definition SAMPLE_ARRAY_SIZE :: nat where "SAMPLE_ARRAY_SIZE = 8 * 65536"

section \<open>The samples on display\<close>

text \<open>The loop of \<open>update_sample_display\<close>: what is left to copy, the ring and where it is written.\<close>

lemma SAMPLE_ARRAY_pos: "0 < SAMPLE_ARRAY_SIZE"
  by (simp add: SAMPLE_ARRAY_SIZE_def)

function sample_copy :: "'b list \<Rightarrow> 'b list \<Rightarrow> int \<Rightarrow> ('b list \<times> int) result" where
  "sample_copy xs a i =
     (if 0 < length xs then
        let room = int SAMPLE_ARRAY_SIZE - i;
            len = (if int (length xs) < room then int (length xs) else room) in
        if len < 0 then Inl OutOfBounds
        else then_do (mem_wr a i (take (nat len) xs)) (\<lambda>a'.
          let i' = i + len in
          sample_copy (drop (nat len) xs) a' (if int SAMPLE_ARRAY_SIZE \<le> i' then 0 else i'))
      else Inr (a, i))"
  by pat_completeness auto
termination
  by (relation "measure (\<lambda>(xs, a, i). 2 * length xs + (if i = int SAMPLE_ARRAY_SIZE then 1 else 0))")
     (use SAMPLE_ARRAY_pos in auto)

declare sample_copy.simps [simp del]

fun shorts :: "byte list \<Rightarrow> 16 word list" where
  "shorts (a # b # bs) = (ucast a OR push_bit 8 (ucast b)) # shorts bs"
| "shorts _ = []"

definition update_sample_display :: "16 word list \<Rightarrow> 's AudioState \<Rightarrow> 's AudioState result" where
  "update_sample_display xs st =
     then_do (sample_copy xs (sample_array st) (sample_array_index st)) (\<lambda>(a, i).
       Inr (st\<lparr>sample_array := a, sample_array_index := i\<rparr>))"

section \<open>Synchronisation\<close>

definition synchronize_audio :: "fl \<Rightarrow> int \<Rightarrow> 's AudioState \<Rightarrow> int \<times> 's AudioState" where
  "synchronize_audio F n st =
     (if get_master_sync_type (vs st) \<noteq> AV_SYNC_AUDIO_MASTER then
        let (a, v1) = get_clock F Aud (vs st);
            (m, v2) = get_master_clock F v1;
            diff = f_sub F a m;
            st1 = st\<lparr>vs := v2\<rparr> in
        if \<not> f_nan F diff \<and> f_lt F (f_abs F diff) (f_lit F 10 1) then
          let st2 = st1\<lparr>audio_diff_cum := f_add F diff (f_mul F (audio_diff_avg_coef st1) (audio_diff_cum st1))\<rparr> in
          if audio_diff_avg_count st2 < AUDIO_DIFF_AVG_NB
          then (n, st2\<lparr>audio_diff_avg_count := audio_diff_avg_count st2 + 1\<rparr>)
          else
            let avg_diff = f_mul F (audio_diff_cum st2) (f_sub F (f_lit F 1 1) (audio_diff_avg_coef st2)) in
            if f_le F (audio_diff_threshold st2) (f_abs F avg_diff) then
              let wanted = n + f_trunc F (f_mul F diff (f_int F (ap_freq (audio_src st2))));
                  lo = n * (100 - SAMPLE_CORRECTION_PERCENT_MAX) sdiv 100;
                  hi = n * (100 + SAMPLE_CORRECTION_PERCENT_MAX) sdiv 100 in
              (min (max wanted lo) hi, st2)
            else (n, st2)
        else (n, st1\<lparr>audio_diff_avg_count := 0, audio_diff_cum := f_lit F 0 1\<rparr>)
      else (n, st))"

section \<open>Decoding a frame\<close>

text \<open>
  The \<open>do\<close> loop: the next frame decoded after the last seek.  \<open>None\<close> is the wait, \<open>Some None\<close> an
  aborted queue.  The frame is used after \<open>frame_queue_next\<close>, by its slot.
\<close>

function next_sample :: "VideoState \<Rightarrow> (nat option \<times> VideoState) option" where
  "next_sample is =
     (case frame_queue_peek_readable (audioq is) (sampq is) of
        None \<Rightarrow> None
      | Some None \<Rightarrow> Some (None, is)
      | Some (Some i) \<Rightarrow>
          let is1 = is\<lparr>sampq := frame_queue_next (sampq is)\<rparr> in
          if fr_serial (queue (sampq is1) ! i) \<noteq> serial (audioq is1) then next_sample is1 else Some (Some i, is1))"
  by pat_completeness auto
termination
  by (relation "measure (\<lambda>is. nat (frame_queue_nb_remaining (sampq is)))")
     (auto simp: next_remaining, auto simp: frame_queue_peek_readable_def frame_queue_nb_remaining_def split: if_splits)

declare next_sample.simps [simp del]

text \<open>A new resampler when the frame's format is not the one set up, or samples are to be added or removed.\<close>

definition setup_swr :: "'s alib \<Rightarrow> AVFrame \<Rightarrow> int \<Rightarrow> int \<Rightarrow> 's AudioState \<Rightarrow> bool \<times> 's AudioState" where
  "setup_swr L af layout wanted st =
     (if av_format af \<noteq> ap_fmt (audio_src st) \<or> layout \<noteq> ap_layout (audio_src st)
         \<or> sample_rate af \<noteq> ap_freq (audio_src st) \<or> (wanted \<noteq> nb_samples af \<and> swr_ctx st = None)
      then
        (case new_swr L (audio_tgt st) layout (av_format af) (sample_rate af) of
           None \<Rightarrow> (False, st\<lparr>swr_ctx := None\<rparr>)
         | Some c \<Rightarrow>
             (True, st\<lparr>swr_ctx := Some c, audio_src := (audio_src st)
                \<lparr>ap_layout := layout, ap_channels := av_channels af, ap_freq := sample_rate af, ap_fmt := av_format af\<rparr>\<rparr>))
      else (True, st))"

text \<open>The conversion; a negative result ends the call with it.\<close>

definition resample :: "'s alib \<Rightarrow> AVFrame \<Rightarrow> int \<Rightarrow> 's \<Rightarrow> 's AudioState \<Rightarrow> int \<times> 's AudioState" where
  "resample L af wanted c st =
     (let out_count = wanted * ap_freq (audio_tgt st) sdiv sample_rate af + 256;
          out_size = samples_size L (ap_channels (audio_tgt st)) out_count (ap_fmt (audio_tgt st)) 0;
          (r, c1) = (if wanted \<noteq> nb_samples af
             then compensate L c ((wanted - nb_samples af) * ap_freq (audio_tgt st) sdiv sample_rate af)
                    (wanted * ap_freq (audio_tgt st) sdiv sample_rate af)
             else (0, c)) in
      if out_size < 0 then (-1, st)
      else if r < 0 then (-1, st\<lparr>swr_ctx := Some c1\<rparr>)
      else if \<not> alloc_ok L out_size then (-12, st\<lparr>swr_ctx := Some c1\<rparr>)
      else
        let (len2, bs, c2) = convert L c1 out_count (av_data af) (nb_samples af);
            st1 = st\<lparr>swr_ctx := Some c2\<rparr> in
        if len2 < 0 then (-1, st1)
        else
          let st2 = (if len2 = out_count then st1\<lparr>swr_ctx := init_swr L c2\<rparr> else st1) in
          (len2 * ap_channels (audio_tgt st2) * bytes_per_sample L (ap_fmt (audio_tgt st2)), st2\<lparr>audio_buf := bs\<rparr>))"

definition audio_decode_frame :: "fl \<Rightarrow> 's alib \<Rightarrow> 's AudioState \<Rightarrow> (int \<times> 's AudioState) run" where
  "audio_decode_frame F L st =
     (if paused (vs st) then Returns (-1, st)
      else
        case next_sample (vs st) of
          None \<Rightarrow> Waits
        | Some (None, v) \<Rightarrow> Returns (-1, st\<lparr>vs := v\<rparr>)
        | Some (Some i, v) \<Rightarrow>
            let fr = queue (sampq v) ! i; st1 = st\<lparr>vs := v\<rparr> in
            (case fr_data fr of
               None \<Rightarrow> Fault UseAfterFree
             | Some af \<Rightarrow>
                 let data_size = samples_size L (av_channels af) (nb_samples af) (av_format af) 1;
                     layout = (if channel_layout af \<noteq> 0 \<and> av_channels af = layout_channels L (channel_layout af)
                               then channel_layout af else default_layout L (av_channels af));
                     (wanted, st2) = synchronize_audio F (nb_samples af) st1;
                     (ok, st3) = setup_swr L af layout wanted st2 in
                 if \<not> ok then Returns (-1, st3)
                 else
                   let (r, st4) = (case swr_ctx st3 of
                          Some c \<Rightarrow> resample L af wanted c st3
                        | None \<Rightarrow> (data_size, st3\<lparr>audio_buf := av_data af\<rparr>)) in
                   if swr_ctx st3 \<noteq> None \<and> r < 0 then Returns (r, st4)
                   else
                     Returns (r, st4
                       \<lparr>audio_clock := (if \<not> f_nan F (fr_pts fr)
                            then f_add F (fr_pts fr) (f_div F (f_int F (nb_samples af)) (f_int F (sample_rate af)))
                            else NAN F),
                        audio_clock_serial := fr_serial fr\<rparr>)))"

section \<open>The device's callback\<close>

text \<open>The buffer is refilled, with silence when no frame is to be had.\<close>

definition show_samples :: "int \<Rightarrow> 's AudioState \<Rightarrow> 's AudioState result" where
  "show_samples n st =
     (if mode (vs st) \<noteq> SHOW_MODE_VIDEO
      then then_do (mem_rd (audio_buf st) 0 (n div 2 * 2)) (\<lambda>bs. update_sample_display (shorts bs) st)
      else Inr st)"

definition refill :: "fl \<Rightarrow> 's alib \<Rightarrow> 's AudioState \<Rightarrow> 's AudioState run" where
  "refill F L st =
     (case audio_decode_frame F L st of
        Waits \<Rightarrow> Waits
      | Fault e \<Rightarrow> Fault e
      | Returns (n, st1) \<Rightarrow>
          if n < 0 then
            Returns (st1\<lparr>audio_buf := replicate (nat SDL_AUDIO_MIN_BUFFER_SIZE) 0,
              audio_buf_size := SDL_AUDIO_MIN_BUFFER_SIZE sdiv ap_frame_size (audio_tgt st1) * ap_frame_size (audio_tgt st1),
              audio_buf_index := 0\<rparr>)
          else
            (case show_samples n st1 of
               Inl e \<Rightarrow> Fault e
             | Inr st2 \<Rightarrow> Returns (st2\<lparr>audio_buf_size := n, audio_buf_index := 0\<rparr>)))"

partial_function (option) fill_stream ::
  "fl \<Rightarrow> 's alib \<Rightarrow> byte list \<Rightarrow> int \<Rightarrow> 's AudioState \<Rightarrow> (byte list \<times> 's AudioState) run option" where
  "fill_stream F L out len st =
     (if 0 < len then
        case (if audio_buf_size st \<le> audio_buf_index st then refill F L st else Returns st) of
          Waits \<Rightarrow> Some Waits
        | Fault e \<Rightarrow> Some (Fault e)
        | Returns st1 \<Rightarrow>
            let len1 = min (audio_buf_size st1 - audio_buf_index st1) len in
            (case mem_rd (audio_buf st1) (audio_buf_index st1) len1 of
               Inl e \<Rightarrow> Some (Fault e)
             | Inr bs \<Rightarrow> fill_stream F L (out @ bs) (len - len1) (st1\<lparr>audio_buf_index := audio_buf_index st1 + len1\<rparr>))
      else Some (Returns (out, st)))"

text \<open>What follows the loop: the sound's clock.\<close>

definition audio_done :: "fl \<Rightarrow> 's AudioState \<Rightarrow> 's AudioState" where
  "audio_done F st1 =
     (let st2 = st1\<lparr>audio_write_buf_size := audio_buf_size st1 - audio_buf_index st1\<rparr> in
      if \<not> f_nan F (audio_clock st2) then
        let t = f_sub F (audio_clock st2)
                  (f_div F (f_int F (2 * audio_hw_buf_size st2 + audio_write_buf_size st2))
                     (f_int F (ap_bytes_per_sec (audio_tgt st2))));
            c = set_clock_at F (audclk (vs st2)) t (audio_clock_serial st2)
                  (f_div F (f_int F (audio_callback_time st2)) (f_lit F 1000000 1)) in
        st2\<lparr>vs := sync_clock_to_slave F Ext Aud ((vs st2)\<lparr>audclk := c\<rparr>)\<rparr>
      else st2)"

definition sdl_audio_callback ::
  "fl \<Rightarrow> 's alib \<Rightarrow> int \<Rightarrow> 's AudioState \<Rightarrow> (byte list \<times> 's AudioState) run option" where
  "sdl_audio_callback F L len st =
     (let st0 = st\<lparr>audio_callback_time := now F (reads (vs st)), vs := (vs st)\<lparr>reads := reads (vs st) + 1\<rparr>\<rparr> in
      case fill_stream F L [] len st0 of
        None \<Rightarrow> None
      | Some (Returns (out, st1)) \<Rightarrow> Some (Returns (out, audio_done F st1))
      | Some r \<Rightarrow> Some r)"

section \<open>The ring of samples\<close>

text \<open>The reference: one sample after the other, around the ring.\<close>

fun put_samples :: "'b list \<Rightarrow> 'b list \<times> nat \<Rightarrow> 'b list \<times> nat" where
  "put_samples [] r = r"
| "put_samples (x # xs) (a, i) = put_samples xs (a[i := x], (i + 1) mod SAMPLE_ARRAY_SIZE)"

lemma put_samples_ok:
  "length (fst r) = SAMPLE_ARRAY_SIZE \<Longrightarrow> snd r < SAMPLE_ARRAY_SIZE \<Longrightarrow>
   length (fst (put_samples xs r)) = SAMPLE_ARRAY_SIZE \<and> snd (put_samples xs r) < SAMPLE_ARRAY_SIZE"
proof (induction xs arbitrary: r)
  case (Cons x xs)
  then show ?case using SAMPLE_ARRAY_pos by (cases r) simp
qed simp

lemma put_samples_chunk:
  "ys \<noteq> [] \<Longrightarrow> length a = SAMPLE_ARRAY_SIZE \<Longrightarrow> i + length ys \<le> SAMPLE_ARRAY_SIZE \<Longrightarrow>
   put_samples (ys @ zs) (a, i) =
   put_samples zs (take i a @ ys @ drop (i + length ys) a, (i + length ys) mod SAMPLE_ARRAY_SIZE)"
proof (induction ys arbitrary: a i)
  case (Cons y ys)
  then have i: "i < length a" by simp
  then have upd: "a[i := y] = take i a @ y # drop (Suc i) a" by (rule upd_conv_take_nth_drop)
  show ?case
  proof (cases "ys = []")
    case True
    then show ?thesis using upd by simp
  next
    case False
    then have "(i + 1) mod SAMPLE_ARRAY_SIZE = Suc i" using Cons.prems by (cases ys) simp_all
    moreover have "put_samples (ys @ zs) (a[i := y], Suc i) =
        put_samples zs (take (Suc i) (a[i := y]) @ ys @ drop (Suc i + length ys) (a[i := y]),
          (Suc i + length ys) mod SAMPLE_ARRAY_SIZE)"
      using Cons False by simp
    moreover have "take (Suc i) (a[i := y]) = take i a @ [y]" using i by (simp add: take_Suc_conv_app_nth)
    ultimately show ?thesis by simp
  qed
qed simp

lemma sample_copy_put:
  "length a = SAMPLE_ARRAY_SIZE \<Longrightarrow> i < SAMPLE_ARRAY_SIZE \<Longrightarrow>
   sample_copy xs a (int i) = Inr (fst (put_samples xs (a, i)), int (snd (put_samples xs (a, i))))"
proof (induction "length xs" arbitrary: xs a i rule: less_induct)
  case less
  show ?case
  proof (cases "xs = []")
    case True
    then show ?thesis by (subst sample_copy.simps) simp
  next
    case False
    define len where "len = min (length xs) (SAMPLE_ARRAY_SIZE - i)"
    have len: "(if int (length xs) < int SAMPLE_ARRAY_SIZE - int i then int (length xs)
        else int SAMPLE_ARRAY_SIZE - int i) = int len" "0 < len" "len \<le> length xs" "i + len \<le> SAMPLE_ARRAY_SIZE"
      using less.prems False by (auto simp: len_def)
    define ys where "ys = take len xs"
    define a' where "a' = take i a @ ys @ drop (i + len) a"
    define i' where "i' = (i + len) mod SAMPLE_ARRAY_SIZE"
    have ys: "length ys = len" "ys \<noteq> []" using len by (auto simp: ys_def)
    have i': "(if int SAMPLE_ARRAY_SIZE \<le> int i + int len then 0 else int i + int len) = int i'"
      using len(4) by (cases "i + len = SAMPLE_ARRAY_SIZE") (auto simp: i'_def)
    have wr: "mem_wr a (int i) ys = Inr a'" using less.prems len(4) ys(1) by (simp add: a'_def)
    have "sample_copy xs a (int i) = sample_copy (drop len xs) a' (int i')"
      using False len(2) wr i' unfolding ys_def by (subst sample_copy.simps) (simp add: Let_def len(1))
    also have "\<dots> = Inr (fst (put_samples (drop len xs) (a', i')), int (snd (put_samples (drop len xs) (a', i'))))"
      using less.prems len ys SAMPLE_ARRAY_pos by (intro less.hyps) (auto simp: a'_def i'_def)
    also have "put_samples (drop len xs) (a', i') = put_samples xs (a, i)"
      using put_samples_chunk [OF ys(2) less.prems(1), of i "drop len xs"] len(4) ys(1)
      by (simp add: a'_def i'_def ys_def)
    finally show ?thesis .
  qed
qed

text \<open>The copy for the display, which goes in stretches up to the ring's end, is the same as writing the
  samples one after the other around the ring; it never writes outside it, and the index stays inside.\<close>

theorem sample_display_is_ring:
  assumes "length (sample_array st) = SAMPLE_ARRAY_SIZE" "sample_array_index st = int i" "i < SAMPLE_ARRAY_SIZE"
    and "put_samples xs (sample_array st, i) = (a, j)"
  shows "update_sample_display xs st = Inr (st\<lparr>sample_array := a, sample_array_index := int j\<rparr>)
    \<and> length a = SAMPLE_ARRAY_SIZE \<and> j < SAMPLE_ARRAY_SIZE"
  using sample_copy_put [OF assms(1,3), of xs] put_samples_ok [of "(sample_array st, i)" xs] assms
  by (simp add: update_sample_display_def)

section \<open>Synchronisation stays close\<close>

text \<open>The number of samples wanted to follow the master clock is within 10 per cent of the frame's, whatever
  the clocks are; and without a master clock to follow it is the frame's.\<close>

theorem wanted_samples_bounded:
  assumes "0 \<le> n" "synchronize_audio F n st = (w, st')"
  shows "n * 90 div 100 \<le> w \<and> w \<le> n * 110 div 100
    \<and> (get_master_sync_type (vs st) = AV_SYNC_AUDIO_MASTER \<longrightarrow> w = n \<and> st' = st)"
proof -
  have q: "n * 90 sdiv 100 = n * 90 div 100" "n * 110 sdiv 100 = n * 110 div 100"
    using assms(1) by (cases "n = 0"; simp add: signed_divide_int_def)+
  have "n * 90 div 100 \<le> n" "n \<le> n * 110 div 100" using assms(1) by simp_all
  then show ?thesis using assms
    by (auto simp: synchronize_audio_def SAMPLE_CORRECTION_PERCENT_MAX_def q Let_def split: if_splits prod.splits)
qed

section \<open>The callback returns what it is asked for\<close>

text \<open>A frame taken from a queue that keeps its last frame is still in its slot after the step over it.\<close>

lemma taken_slot:
  assumes "fq_ok f" "0 < frame_queue_nb_remaining f" "keep_last f"
  shows "queue (frame_queue_next f) ! frame_queue_peek f = hd (unshown f)"
proof (cases "rindex_shown f = 0")
  case True
  then show ?thesis using assms next_ok(6) [OF assms(1,2)] by (simp add: frame_queue_next_def)
next
  case False
  then have s: "rindex_shown f = 1" "rindex f < max_size f" "fsize f \<le> int (max_size f)" "1 < fsize f"
    using assms by (auto simp: fq_ok_def frame_queue_nb_remaining_def)
  have "(rindex f + 1) mod max_size f \<noteq> rindex f"
    using mod_add_inj [OF s(2), of 1 0] s by auto
  then show ?thesis using next_ok(6) [OF assms(1,2)] False s(1)
    by (simp add: frame_queue_next_def frame_queue_unref_item_def frame_queue_peek_def Let_def)
qed

definition frames_ok :: "'s alib \<Rightarrow> FrameQueue \<Rightarrow> bool" where
  "frames_ok L f \<longleftrightarrow> fq_ok f \<and> keep_last f \<and>
     (\<forall>p \<in> set (unshown f). \<exists>af. fr_data p = Some af
        \<and> samples_size L (av_channels af) (nb_samples af) (av_format af) 1 \<le> int (length (av_data af)))"

lemma frames_ok_next:
  assumes "frames_ok L f" "0 < frame_queue_nb_remaining f"
  shows "frames_ok L (frame_queue_next f)"
  using assms next_ok(1,2,5) [of f] next_fields [of f] unfolding frames_ok_def by (auto dest: list.set_sel(2))

lemma next_sample_ok:
  "frames_ok L (sampq is) \<Longrightarrow> next_sample is = Some (j, v) \<Longrightarrow>
   \<exists>f. v = is\<lparr>sampq := f\<rparr> \<and> frames_ok L f \<and> frame_queue_nb_remaining f \<le> frame_queue_nb_remaining (sampq is)
     \<and> (\<forall>i. j = Some i \<longrightarrow> frame_queue_nb_remaining f < frame_queue_nb_remaining (sampq is)
          \<and> queue f ! i \<in> set (unshown (sampq is)) \<and> fr_serial (queue f ! i) = serial (audioq is))"
proof (induction "is" rule: next_sample.induct)
  case (1 "is")
  let ?f = "sampq is"
  let ?is1 = "is\<lparr>sampq := frame_queue_next ?f\<rparr>"
  show ?case
  proof (cases "frame_queue_peek_readable (audioq is) ?f")
    case None
    then show ?thesis using 1(3) by (simp add: next_sample.simps)
  next
    case (Some r)
    show ?thesis
    proof (cases r)
      case None
      then have "j = None" "v = is" using 1(3) Some by (auto simp: next_sample.simps [of "is"])
      then show ?thesis using 1(2) by (intro exI [of _ ?f]) simp
    next
      case (Some i)
      note peek = \<open>frame_queue_peek_readable _ _ = Some r\<close> [unfolded Some]
      have nb: "0 < frame_queue_nb_remaining ?f" and i: "i = frame_queue_peek ?f"
        using peek by (auto simp: frame_queue_peek_readable_def frame_queue_nb_remaining_def frame_queue_peek_def
            split: if_splits)
      have ok: "frames_ok L (frame_queue_next ?f)" "fq_ok ?f" "keep_last ?f"
        using frames_ok_next [OF 1(2) nb] 1(2) by (simp_all add: frames_ok_def)
      have head: "queue (frame_queue_next ?f) ! i = hd (unshown ?f)" "unshown ?f \<noteq> []"
        "unshown (frame_queue_next ?f) = tl (unshown ?f)"
        using taken_slot [OF ok(2) nb ok(3)] next_ok(2,5) [OF ok(2) nb] by (simp_all add: i)
      note step = next_sample.simps [of "is", unfolded peek option.case Let_def]
      show ?thesis
      proof (cases "fr_serial (queue (sampq ?is1) ! i) = serial (audioq ?is1)")
        case True
        then have "j = Some i" "v = ?is1" using 1(3) step by auto
        then show ?thesis using ok(1) head True
          by (intro exI [of _ "frame_queue_next ?f"]) (simp add: next_remaining)
      next
        case False
        then have "next_sample ?is1 = Some (j, v)" using 1(3) step by simp
        from 1(1) [OF peek refl refl _ _ this] ok(1) False obtain f where
          f: "v = ?is1\<lparr>sampq := f\<rparr>" "frames_ok L f"
            "frame_queue_nb_remaining f \<le> frame_queue_nb_remaining (sampq ?is1)"
            "\<forall>i. j = Some i \<longrightarrow> frame_queue_nb_remaining f < frame_queue_nb_remaining (sampq ?is1)
               \<and> queue f ! i \<in> set (unshown (sampq ?is1)) \<and> fr_serial (queue f ! i) = serial (audioq ?is1)"
          by auto
        have "set (unshown (frame_queue_next ?f)) \<subseteq> set (unshown ?f)"
          using head(2,3) by (auto dest: list.set_sel(2))
        then show ?thesis using f by (intro exI [of _ f]) (auto simp: next_remaining)
      qed
    qed
  qed
qed

text \<open>What the audio side needs of its state, and what FFmpeg promises of the resampler's output.\<close>

definition aud_base :: "'s alib \<Rightarrow> 's AudioState \<Rightarrow> bool" where
  "aud_base L st \<longleftrightarrow> frames_ok L (sampq (vs st)) \<and> 1 \<le> ap_frame_size (audio_tgt st)
     \<and> ap_frame_size (audio_tgt st) \<le> SDL_AUDIO_MIN_BUFFER_SIZE \<and> length (sample_array st) = SAMPLE_ARRAY_SIZE
     \<and> 0 \<le> sample_array_index st \<and> sample_array_index st < int SAMPLE_ARRAY_SIZE"

definition aud_ok :: "'s alib \<Rightarrow> 's AudioState \<Rightarrow> bool" where
  "aud_ok L st \<longleftrightarrow> aud_base L st \<and> 0 \<le> audio_buf_index st \<and> audio_buf_size st \<le> int (length (audio_buf st))"

definition lib_ok :: "'s alib \<Rightarrow> AudioParams \<Rightarrow> bool" where
  "lib_ok L t \<longleftrightarrow> (\<forall>c n bs k. case convert L c n bs k of (m, out, c') \<Rightarrow>
     0 \<le> m \<longrightarrow> m * ap_channels t * bytes_per_sample L (ap_fmt t) \<le> int (length out))"

definition waiting :: "'s AudioState \<Rightarrow> int" where
  "waiting st = frame_queue_nb_remaining (sampq (vs st))"

definition same_aud :: "'s AudioState \<Rightarrow> 's AudioState \<Rightarrow> bool" where
  "same_aud a b \<longleftrightarrow> sampq (vs b) = sampq (vs a) \<and> audio_tgt b = audio_tgt a \<and> sample_array b = sample_array a
     \<and> sample_array_index b = sample_array_index a"

lemma same_aud_base: "same_aud a b \<Longrightarrow> aud_base L b = aud_base L a" "same_aud a b \<Longrightarrow> waiting b = waiting a"
  by (simp_all add: same_aud_def aud_base_def waiting_def)

lemma same_aud_trans: "same_aud a b \<Longrightarrow> same_aud b c \<Longrightarrow> same_aud a c"
  by (simp add: same_aud_def)

lemma synchronize_same: "synchronize_audio F n st = (w, st') \<Longrightarrow> same_aud st st'"
  by (auto simp: synchronize_audio_def same_aud_def same_queues_def Let_def
      dest!: same_get_clock same_master_clock split: if_splits prod.splits)

lemma setup_same: "setup_swr L af layout w st = (ok, st') \<Longrightarrow> same_aud st st'"
  by (auto simp: setup_swr_def same_aud_def split: if_splits option.splits)

lemma resample_same:
  assumes "resample L af w c st = (r, st')" "lib_ok L (audio_tgt st)"
  shows "same_aud st st' \<and> (0 \<le> r \<longrightarrow> r \<le> int (length (audio_buf st')))"
proof -
  let ?oc = "w * ap_freq (audio_tgt st) sdiv sample_rate af + 256"
  obtain r1 c1 where e1: "(if w \<noteq> nb_samples af
             then compensate L c ((w - nb_samples af) * ap_freq (audio_tgt st) sdiv sample_rate af)
                    (w * ap_freq (audio_tgt st) sdiv sample_rate af)
             else (0, c)) = (r1, c1)" by force
  obtain m out c2 where cv: "convert L c1 ?oc (av_data af) (nb_samples af) = (m, out, c2)"
    by (cases rule: prod_cases3)
  have "0 \<le> m \<longrightarrow> m * ap_channels (audio_tgt st) * bytes_per_sample L (ap_fmt (audio_tgt st)) \<le> int (length out)"
    using assms(2) cv unfolding lib_ok_def by (metis (mono_tags, lifting) case_prod_conv)
  moreover note assms(1) [unfolded resample_def Let_def e1 prod.case cv]
  ultimately show ?thesis by (simp add: same_aud_def split: if_splits) auto
qed

lemma decode_ok:
  assumes "aud_base L st" "lib_ok L (audio_tgt st)"
  shows "case audio_decode_frame F L st of Waits \<Rightarrow> True | Fault e \<Rightarrow> False
    | Returns (n, st1) \<Rightarrow> aud_base L st1 \<and> audio_tgt st1 = audio_tgt st \<and> waiting st1 \<le> waiting st
        \<and> (0 \<le> n \<longrightarrow> waiting st1 < waiting st \<and> n \<le> int (length (audio_buf st1)))"
proof (cases "paused (vs st) \<or> next_sample (vs st) = None")
  case True
  then show ?thesis using assms(1) by (auto simp: audio_decode_frame_def)
next
  case False
  then obtain j v where ns: "next_sample (vs st) = Some (j, v)" and np: "\<not> paused (vs st)" by auto
  have "frames_ok L (sampq (vs st))" using assms(1) by (simp add: aud_base_def)
  from next_sample_ok [OF this ns] obtain f where
    f: "v = (vs st)\<lparr>sampq := f\<rparr>" "frames_ok L f" "frame_queue_nb_remaining f \<le> waiting st"
    and hit: "\<And>i. j = Some i \<Longrightarrow> frame_queue_nb_remaining f < waiting st \<and> queue f ! i \<in> set (unshown (sampq (vs st)))"
    by (auto simp: waiting_def)
  have base: "aud_base L (st\<lparr>vs := v\<rparr>)" "waiting (st\<lparr>vs := v\<rparr>) = frame_queue_nb_remaining f"
    using f assms(1) by (simp_all add: aud_base_def waiting_def)
  show ?thesis
  proof (cases j)
    case None
    then show ?thesis using ns np base f(3) by (simp add: audio_decode_frame_def)
  next
    case (Some i)
    let ?fr = "queue (sampq v) ! i"
    from hit [OF Some] assms(1) f(1) obtain af where
      af: "fr_data ?fr = Some af" "samples_size L (av_channels af) (nb_samples af) (av_format af) 1 \<le> int (length (av_data af))"
      by (auto simp: aud_base_def frames_ok_def)
    obtain w st2 where sy: "synchronize_audio F (nb_samples af) (st\<lparr>vs := v\<rparr>) = (w, st2)" by force
    define layout where "layout = (if channel_layout af \<noteq> 0 \<and> av_channels af = layout_channels L (channel_layout af)
                               then channel_layout af else default_layout L (av_channels af))"
    obtain ok st3 where se: "setup_swr L af layout w st2 = (ok, st3)" by force
    define res where "res = (case swr_ctx st3 of
                          Some c \<Rightarrow> resample L af w c st3
                        | None \<Rightarrow> (samples_size L (av_channels af) (nb_samples af) (av_format af) 1, st3\<lparr>audio_buf := av_data af\<rparr>))"
    obtain r st4 where re: "res = (r, st4)" by force
    have s3: "same_aud (st\<lparr>vs := v\<rparr>) st3" using synchronize_same [OF sy] setup_same [OF se] by (rule same_aud_trans)
    have t3: "audio_tgt st3 = audio_tgt st" using s3 by (simp add: same_aud_def)
    have s4: "same_aud st3 st4 \<and> (0 \<le> r \<longrightarrow> r \<le> int (length (audio_buf st4)))"
    proof (cases "swr_ctx st3")
      case None
      then have "st4 = st3\<lparr>audio_buf := av_data af\<rparr>" "r \<le> int (length (av_data af))" using re af(2) by (auto simp: res_def)
      then show "same_aud st3 st4 \<and> (0 \<le> r \<longrightarrow> r \<le> int (length (audio_buf st4)))" by (simp_all add: same_aud_def)
    next
      case (Some c)
      then have "resample L af w c st3 = (r, st4)" using re by (simp add: res_def)
      from resample_same [OF this] assms(2) t3 show "same_aud st3 st4 \<and> (0 \<le> r \<longrightarrow> r \<le> int (length (audio_buf st4)))" by simp_all
    qed
    note s = same_aud_base [OF s3] same_aud_base [OF same_aud_trans [OF s3 conjunct1 [OF s4]]]
    have t4: "audio_tgt st4 = audio_tgt st" using s4 t3 by (simp add: same_aud_def)
    have b5: "aud_base L (st4\<lparr>audio_clock := x, audio_clock_serial := y\<rparr>)"
      "waiting (st4\<lparr>audio_clock := x, audio_clock_serial := y\<rparr>) = frame_queue_nb_remaining f" for x y
      using s base by (simp_all add: aud_base_def waiting_def)
    note d = audio_decode_frame_def [of F L st, unfolded if_not_P [OF np] ns option.case prod.case Some af(1) Let_def
        layout_def [symmetric] sy se res_def [symmetric] re]
    show ?thesis unfolding d using s base t3 t4 b5 s4 hit [OF Some] by (auto simp: if_distrib)
  qed
qed

lemma show_samples_ok:
  assumes "aud_base L st" "0 \<le> n" "n \<le> int (length (audio_buf st))"
  shows "\<exists>st1. show_samples n st = Inr st1 \<and> aud_base L st1 \<and> vs st1 = vs st \<and> audio_tgt st1 = audio_tgt st
    \<and> audio_buf st1 = audio_buf st"
proof -
  obtain i where i: "sample_array_index st = int i" "i < SAMPLE_ARRAY_SIZE" "length (sample_array st) = SAMPLE_ARRAY_SIZE"
    using assms(1) by (auto simp: aud_base_def dest: nonneg_int_cases)
  have rd: "mem_rd (audio_buf st) 0 (n div 2 * 2) = Inr (take (nat (n div 2 * 2)) (audio_buf st))"
    using assms(2,3) by (simp add: mem_rd_def)
  show ?thesis
    using sample_copy_put [OF i(3,2)] put_samples_ok [of "(sample_array st, i)"] i assms(1)
    by (simp add: show_samples_def rd update_sample_display_def aud_base_def)
qed

lemma refill_ok:
  assumes "aud_base L st" "lib_ok L (audio_tgt st)"
  shows "case refill F L st of Waits \<Rightarrow> True | Fault e \<Rightarrow> False
    | Returns st1 \<Rightarrow> aud_ok L st1 \<and> audio_tgt st1 = audio_tgt st \<and> audio_buf_index st1 = 0 \<and> 0 \<le> audio_buf_size st1
        \<and> waiting st1 \<le> waiting st \<and> (audio_buf_size st1 = 0 \<longrightarrow> waiting st1 < waiting st)"
proof (cases "audio_decode_frame F L st")
  case (Returns r)
  obtain n st1 where r: "r = (n, st1)" by force
  have d: "aud_base L st1" "audio_tgt st1 = audio_tgt st" "waiting st1 \<le> waiting st"
    "0 \<le> n \<Longrightarrow> waiting st1 < waiting st \<and> n \<le> int (length (audio_buf st1))"
    using decode_ok [OF assms, of F] Returns r by auto
  show ?thesis
  proof (cases "n < 0")
    case True
    have fs: "1 \<le> ap_frame_size (audio_tgt st1)" "ap_frame_size (audio_tgt st1) \<le> 512"
      using d(1) by (auto simp: aud_base_def SDL_AUDIO_MIN_BUFFER_SIZE_def)
    have "512 sdiv ap_frame_size (audio_tgt st1) = 512 div ap_frame_size (audio_tgt st1)"
      using fs by (simp add: signed_divide_int_def)
    moreover have "1 \<le> 512 div ap_frame_size (audio_tgt st1)" using fs by (simp add: pos_imp_zdiv_pos_iff int_one_le_iff_zero_less)
    moreover have "512 div ap_frame_size (audio_tgt st1) * ap_frame_size (audio_tgt st1) \<le> 512"
      using fs by (simp add: div_times_less_eq_dividend minus_mod_eq_div_mult [symmetric])
    ultimately show ?thesis using Returns r True d fs
      by (simp add: refill_def aud_ok_def aud_base_def SDL_AUDIO_MIN_BUFFER_SIZE_def waiting_def)
  next
    case False
    with d(4) have n: "0 \<le> n" "waiting st1 < waiting st" "n \<le> int (length (audio_buf st1))" by auto
    from show_samples_ok [OF d(1) n(1,3)] obtain st2 where
      st2: "show_samples n st1 = Inr st2" "aud_base L st2" "vs st2 = vs st1" "audio_tgt st2 = audio_tgt st1"
        "audio_buf st2 = audio_buf st1" by blast
    then show ?thesis using Returns r False d n
      by (simp add: refill_def aud_ok_def aud_base_def waiting_def)
  qed
qed (use decode_ok [OF assms, of F] in \<open>simp_all add: refill_def\<close>)

lemma fill_stream_ok:
  "aud_ok L st \<Longrightarrow> lib_ok L (audio_tgt st) \<Longrightarrow> \<exists>r. fill_stream F L out len st = Some r \<and>
   (case r of Waits \<Rightarrow> True | Fault e \<Rightarrow> False
    | Returns (out', st') \<Rightarrow> int (length out') = int (length out) + max 0 len \<and> aud_ok L st'
        \<and> audio_tgt st' = audio_tgt st)"
proof (induction "nat (waiting st) + nat len" arbitrary: st out len rule: less_induct)
  case less
  show ?case
  proof (cases "0 < len")
    case False
    then show ?thesis using less.prems by (subst fill_stream.simps) simp
  next
    case True
    define m where "m = (if audio_buf_size st \<le> audio_buf_index st then refill F L st else Returns st)"
    show ?thesis
    proof (cases m)
      case Waits
      then show ?thesis using True by (subst fill_stream.simps) (simp add: m_def [symmetric])
    next
      case (Fault e)
      then have False using refill_ok [of L st F] less.prems by (auto simp: m_def aud_ok_def split: if_splits)
      then show ?thesis ..
    next
      case (Returns st1)
      have s1: "aud_ok L st1" "audio_tgt st1 = audio_tgt st" "waiting st1 \<le> waiting st"
        "audio_buf_index st1 \<le> audio_buf_size st1"
        "audio_buf_size st1 = audio_buf_index st1 \<longrightarrow> waiting st1 < waiting st"
        using refill_ok [of L st F] less.prems Returns by (auto simp: m_def aud_ok_def split: if_splits)
      define len1 where "len1 = min (audio_buf_size st1 - audio_buf_index st1) len"
      obtain bs where bs: "mem_rd (audio_buf st1) (audio_buf_index st1) len1 = Inr bs" "int (length bs) = len1"
      proof -
        have "\<exists>bs. mem_rd (audio_buf st1) (audio_buf_index st1) len1 = Inr bs"
          using s1(1,4) True by (auto simp: len1_def aud_ok_def mem_rd_def)
        then show ?thesis using that mem_rd_length by blast
      qed
      let ?st2 = "st1\<lparr>audio_buf_index := audio_buf_index st1 + len1\<rparr>"
      have ok2: "aud_ok L ?st2" "waiting ?st2 = waiting st1" "0 \<le> len1" "len1 \<le> len"
        using s1(1,4) True by (auto simp: aud_ok_def aud_base_def waiting_def len1_def)
      have "0 \<le> waiting st1" using s1(1)
        by (auto simp: aud_ok_def aud_base_def frames_ok_def waiting_def fq_ok_def frame_queue_nb_remaining_def)
      then have less1: "nat (waiting ?st2) + nat (len - len1) < nat (waiting st) + nat len"
        using ok2 s1(3,5) True by (cases "audio_buf_size st1 = audio_buf_index st1") (auto simp: len1_def)
      have "fill_stream F L out len st = fill_stream F L (out @ bs) (len - len1) ?st2"
        using True Returns bs(1) by (subst fill_stream.simps) (simp add: m_def [symmetric] Let_def len1_def [symmetric])
      moreover have t: "audio_tgt ?st2 = audio_tgt st" using s1(2) by simp
      have "lib_ok L (audio_tgt ?st2)" unfolding t by (rule less.prems(2))
      note less.hyps [OF less1 ok2(1) this, of "out @ bs", unfolded t]
      ultimately show ?thesis using bs(2) ok2(3,4) True by (auto split: run.splits)
    qed
  qed
qed

lemma audio_done_ok: "aud_ok L st \<Longrightarrow> aud_ok L (audio_done F st)"
  using same_sync_clock
  by (auto simp: audio_done_def aud_ok_def aud_base_def same_queues_def Let_def)

text \<open>C4. The device gets what it asks for.  In every state the invariant allows, and with any clocks, the
  callback returns or waits for the decoder; it reads no byte outside the buffers it copies from, and
  when it returns it has written exactly the number of bytes asked for, in a state that satisfies the
  invariant again.  (FFmpeg's resampler is assumed to write as many bytes as the samples it reports,
  and the device's samples are assumed to be at most 512 bytes.)\<close>

theorem audio_callback_fills:
  assumes "aud_ok L st" "lib_ok L (audio_tgt st)" "0 \<le> len"
  shows "sdl_audio_callback F L len st = Some Waits \<or>
    (\<exists>out st'. sdl_audio_callback F L len st = Some (Returns (out, st')) \<and> int (length out) = len \<and> aud_ok L st')"
proof -
  let ?st0 = "st\<lparr>audio_callback_time := now F (reads (vs st)), vs := (vs st)\<lparr>reads := reads (vs st) + 1\<rparr>\<rparr>"
  have "aud_ok L ?st0" using assms(1) by (simp add: aud_ok_def aud_base_def)
  moreover have "lib_ok L (audio_tgt ?st0)" using assms(2) by simp
  ultimately have "\<exists>r. fill_stream F L [] len ?st0 = Some r \<and>
     (case r of Waits \<Rightarrow> True | Fault e \<Rightarrow> False
      | Returns (out', st') \<Rightarrow> int (length out') = int (length ([] :: byte list)) + max 0 len \<and> aud_ok L st'
        \<and> audio_tgt st' = audio_tgt ?st0)" by (rule fill_stream_ok)
  then obtain r where r: "fill_stream F L [] len ?st0 = Some r" "case r of Waits \<Rightarrow> True | Fault e \<Rightarrow> False
        | Returns (out, st1) \<Rightarrow> int (length out) = int (length ([] :: byte list)) + max 0 len \<and> aud_ok L st1
        \<and> audio_tgt st1 = audio_tgt ?st0" by blast
  then show ?thesis using audio_done_ok [of L _ F]
    using assms(3) by (cases r) (auto simp: sdl_audio_callback_def)
qed

definition toy_lib :: "unit alib" where
  "toy_lib = \<lparr>samples_size = (\<lambda>c n f a. n * c * 2), layout_channels = (\<lambda>l. 1), default_layout = (\<lambda>c. 4),
     bytes_per_sample = (\<lambda>f. 2), new_swr = (\<lambda>t l f r. Some ()), init_swr = Some,
     compensate = (\<lambda>c d n. (0, c)), convert = (\<lambda>c n bs k. (0, [], c)), alloc_ok = (\<lambda>n. True)\<rparr>"

definition demo_params :: AudioParams where
  "demo_params = \<lparr>ap_freq = 1, ap_channels = 1, ap_layout = 4, ap_fmt = 1, ap_frame_size = 2, ap_bytes_per_sec = 2\<rparr>"

definition demo_sound :: Frame where
  "demo_sound = zero_frame\<lparr>fr_serial := 1, fr_data := Some \<lparr>av_data = [1, 0, 2, 0], nb_samples = 2, av_format = 1,
     av_channels = 1, channel_layout = 4, sample_rate = 1\<rparr>\<rparr>"

text \<open>One frame of two samples is queued; then the queue is aborted and silence follows.\<close>

definition demo_audio :: "unit AudioState" where
  "demo_audio =
     \<lparr>vs = demo_video\<lparr>sampq := frame_queue_push (fill demo_sound demo_queue)\<rparr>,
      audio_clock = 0, audio_clock_serial = 1, audio_diff_cum = 0, audio_diff_avg_coef = 0, audio_diff_threshold = 0,
      audio_diff_avg_count = 0, audio_hw_buf_size = 0, audio_buf = [9, 9], audio_buf_size = 2, audio_buf_index = 0,
      audio_write_buf_size = 0, audio_src = demo_params, audio_tgt = demo_params, swr_ctx = None,
      sample_array = replicate SAMPLE_ARRAY_SIZE 0, sample_array_index = 0, audio_callback_time = 0\<rparr>"

lemma demo_audio_ok: "aud_ok toy_lib demo_audio" "lib_ok toy_lib (audio_tgt demo_audio)"
proof -
  let ?f = "frame_queue_push (fill demo_sound demo_queue)"
  have "fq_ok ?f" "keep_last ?f" "unshown ?f = [demo_sound]" by code_simp+
  then show "aud_ok toy_lib demo_audio" using SAMPLE_ARRAY_pos
    by (simp add: aud_ok_def aud_base_def frames_ok_def demo_sound_def toy_lib_def demo_audio_def demo_params_def
        SDL_AUDIO_MIN_BUFFER_SIZE_def)
  show "lib_ok toy_lib (audio_tgt demo_audio)" by (simp add: lib_ok_def toy_lib_def)
qed

theorem audio_callback_witness:
  "\<exists>r. sdl_audio_callback (toy_fl (\<lambda>n. int n)) toy_lib 6 demo_audio = Some r
     \<and> (r = Waits \<or> (\<exists>out st'. r = Returns (out, st') \<and> length out = 6 \<and> aud_ok toy_lib st'))"
  using audio_callback_fills [OF demo_audio_ok, of 6 "toy_fl (\<lambda>n. int n)"] by auto

text \<open>Three samples, written from the last place of the ring on.\<close>

theorem sample_display_witness:
  "update_sample_display [1, 2, 3] (demo_audio\<lparr>sample_array_index := int (SAMPLE_ARRAY_SIZE - 1)\<rparr>) =
     Inr (demo_audio\<lparr>sample_array := (replicate SAMPLE_ARRAY_SIZE 0)[SAMPLE_ARRAY_SIZE - 1 := 1, 0 := 2, 1 := 3],
       sample_array_index := 2\<rparr>)"
proof -
  let ?st = "demo_audio\<lparr>sample_array_index := int (SAMPLE_ARRAY_SIZE - 1)\<rparr>"
  have "(Suc 0) mod SAMPLE_ARRAY_SIZE = 1" "2 mod SAMPLE_ARRAY_SIZE = 2" "Suc (SAMPLE_ARRAY_SIZE - 1) = SAMPLE_ARRAY_SIZE"
    by (simp_all add: SAMPLE_ARRAY_SIZE_def)
  then have "put_samples [1, 2, 3] (sample_array ?st, SAMPLE_ARRAY_SIZE - 1) =
      ((replicate SAMPLE_ARRAY_SIZE 0)[SAMPLE_ARRAY_SIZE - 1 := 1, 0 := 2, 1 := 3], 2)"
    by (simp add: demo_audio_def numeral_2_eq_2)
  from sample_display_is_ring [OF _ _ _ this] SAMPLE_ARRAY_pos show ?thesis by (simp add: demo_audio_def)
qed

end
