(* ===== verification/PlayerControl.thy ===== *)
theory PlayerControl
  imports PlayerVideo
begin

text \<open>
  What drives the player of \<open>src/ffplay2.c\<close>: the loop of \<open>read_thread\<close>, which reads packets into the
  queues and carries out seeks, the opening and closing of a stream, the cycling through the streams,
  and the reactions to keys in \<open>event_loop\<close>.

  One turn of the reading loop is a step; what FFmpeg answers in it is an argument.
\<close>

section \<open>State\<close>

text \<open>A stream of the file: its type (\<open>None\<close> for others than the three), its parameters, and whether it is a picture.\<close>

record stream =
  st_type :: "media option"
  st_rate :: int
  st_channels :: int
  attached_pic :: bool
  st_start_time :: "int option"

text \<open>
  The open file: \<open>program\<close> is \<open>av_find_program_from_stream\<close> with the program's stream numbers,
  \<open>chapter_after i pos\<close> says that chapter \<open>i\<close> starts after \<open>pos\<close> and \<open>chapter_start\<close> where it starts, in
  microseconds; \<open>is_rtsp\<close> is the test for the protocols that cannot be read while paused.
\<close>

record container =
  streams :: "stream list"
  program :: "int \<Rightarrow> int list option"
  nb_chapters :: nat
  chapter_after :: "nat \<Rightarrow> int \<Rightarrow> bool"
  chapter_start :: "nat \<Rightarrow> int"
  is_rtsp :: bool
  bit_rate :: int
  file_start :: "int option"
  file_pos :: int
  file_size :: int
  file_duration :: int

record Player =
  pv :: VideoState
  ic :: "container option"
  abort_player :: bool
  last_paused :: bool
  queue_attachments_req :: bool
  infinite_buffer :: int
  loop_count :: int
  eof_sent :: bool
  subtitle_stream :: int
  last_video_stream :: int
  last_audio_stream :: int
  last_subtitle_stream :: int
  auddec_finished :: int
  viddec_finished :: int
  vfilter_idx :: int
  win_width :: int
  win_height :: int
  full_screen :: bool

definition MAX_QUEUE_SIZE :: int where "MAX_QUEUE_SIZE = 15 * 1024 * 1024"

record ropts =
  node_size :: int
  autoexit :: bool
  start_time :: "int option"
  play_duration :: "int option"
  seek_bytes :: bool
  nb_vfilters :: int

section \<open>Putting packets\<close>

text \<open>\<open>m\<close> says whether memory is to be had.\<close>

definition put_on :: "ropts \<Rightarrow> bool \<Rightarrow> media \<Rightarrow> AVPacket \<Rightarrow> VideoState \<Rightarrow> VideoState" where
  "put_on R m k p is =
     (case k of
        AudioType \<Rightarrow> is\<lparr>audioq := snd (snd (packet_queue_put (node_size R) m m (audioq is) p))\<rparr>
      | VideoType \<Rightarrow> is\<lparr>videoq := snd (snd (packet_queue_put (node_size R) m m (videoq is) p))\<rparr>
      | SubtitleType \<Rightarrow> is\<lparr>subtitleq := snd (snd (packet_queue_put (node_size R) m m (subtitleq is) p))\<rparr>)"

definition put_null_on :: "ropts \<Rightarrow> bool \<Rightarrow> media \<Rightarrow> int \<Rightarrow> VideoState \<Rightarrow> VideoState" where
  "put_null_on R m k i is =
     (case k of
        AudioType \<Rightarrow> is\<lparr>audioq := snd (snd (packet_queue_put_nullpacket (node_size R) m m (audioq is) i))\<rparr>
      | VideoType \<Rightarrow> is\<lparr>videoq := snd (snd (packet_queue_put_nullpacket (node_size R) m m (videoq is) i))\<rparr>
      | SubtitleType \<Rightarrow> is\<lparr>subtitleq := snd (snd (packet_queue_put_nullpacket (node_size R) m m (subtitleq is) i))\<rparr>)"

definition flush_on :: "ropts \<Rightarrow> bool \<Rightarrow> media \<Rightarrow> VideoState \<Rightarrow> VideoState" where
  "flush_on R m k is =
     (case k of
        AudioType \<Rightarrow> put_on R m k flush_pkt (is\<lparr>audioq := packet_queue_flush (audioq is)\<rparr>)
      | VideoType \<Rightarrow> put_on R m k flush_pkt (is\<lparr>videoq := packet_queue_flush (videoq is)\<rparr>)
      | SubtitleType \<Rightarrow> put_on R m k flush_pkt (is\<lparr>subtitleq := packet_queue_flush (subtitleq is)\<rparr>))"

section \<open>A turn of the reading loop\<close>

text \<open>The bounds of a seek: at least and at most where to land, for seeks that go forward or back.\<close>

definition seek_min :: "VideoState \<Rightarrow> int" where
  "seek_min is = (if 0 < seek_rel is then seek_pos is - seek_rel is + 2 else - (2 ^ 63))"

definition seek_max :: "VideoState \<Rightarrow> int" where
  "seek_max is = (if seek_rel is < 0 then seek_pos is - seek_rel is - 2 else 2 ^ 63 - 1)"

text \<open>A request to seek is carried out; \<open>sk\<close> is \<open>avformat_seek_file\<close>.\<close>

definition seek_step :: "fl \<Rightarrow> ropts \<Rightarrow> bool \<Rightarrow> (int \<Rightarrow> int \<Rightarrow> int \<Rightarrow> int) \<Rightarrow> Player \<Rightarrow> Player" where
  "seek_step F R m sk p =
     (let is = pv p;
          r = sk (seek_min is) (seek_pos is) (seek_max is);
          is1 = (if r < 0 then is
                 else
                   let a = (if 0 \<le> audio_stream is then flush_on R m AudioType is else is);
                       b = (if 0 \<le> subtitle_stream p then flush_on R m SubtitleType a else a);
                       c = (if 0 \<le> video_stream b then flush_on R m VideoType b else b) in
                   if seek_by_byte c then set_clock F Ext (NAN F) 0 c
                   else set_clock F Ext (f_div F (f_int F (seek_pos is)) (f_lit F 1000000 1)) 0 c);
          is2 = is1\<lparr>seek_req := False\<rparr>;
          is3 = (if paused is2 then step_to_next_frame F is2 else is2) in
      p\<lparr>pv := is3, queue_attachments_req := True, eof_sent := False\<rparr>)"

definition picture_stream :: "Player \<Rightarrow> bool" where
  "picture_stream p = (case ic p of None \<Rightarrow> False
     | Some c \<Rightarrow> has_video (pv p) \<and> attached_pic (streams c ! nat (video_stream (pv p))))"

text \<open>\<open>copy\<close> is the copy of the attached picture, if that can be made.\<close>

definition attach_step :: "ropts \<Rightarrow> bool \<Rightarrow> AVPacket option \<Rightarrow> Player \<Rightarrow> Player option" where
  "attach_step R m copy p =
     (if queue_attachments_req p then
        if picture_stream p then
          (case copy of
             None \<Rightarrow> None
           | Some a \<Rightarrow> Some (p\<lparr>pv := put_null_on R m VideoType (video_stream (pv p)) (put_on R m VideoType a (pv p)),
                              queue_attachments_req := False\<rparr>))
        else Some (p\<lparr>queue_attachments_req := False\<rparr>)
      else Some p)"

definition queues_full :: "Player \<Rightarrow> bool" where
  "queues_full p =
     (let is = pv p in
      infinite_buffer p < 1 \<and>
      (MAX_QUEUE_SIZE < qsize (audioq is) + qsize (videoq is) + qsize (subtitleq is)
       \<or> ((MIN_FRAMES < nb_packets (audioq is) \<or> audio_stream is < 0 \<or> abort_request (audioq is))
          \<and> (MIN_FRAMES < nb_packets (videoq is) \<or> video_stream is < 0 \<or> abort_request (videoq is) \<or> picture_stream p)
          \<and> (MIN_FRAMES < nb_packets (subtitleq is) \<or> subtitle_stream p < 0 \<or> abort_request (subtitleq is)))))"

definition played_out :: "Player \<Rightarrow> bool" where
  "played_out p =
     (let is = pv p in
      \<not> paused is
      \<and> (\<not> has_audio is \<or> (auddec_finished p = serial (audioq is) \<and> frame_queue_nb_remaining (sampq is) = 0))
      \<and> (\<not> has_video is \<or> (viddec_finished p = serial (videoq is) \<and> frame_queue_nb_remaining (pictq is) = 0)))"

text \<open>At the end of what is to be played: the next loop, or (the result) the end.\<close>

definition end_step :: "ropts \<Rightarrow> Player \<Rightarrow> bool \<times> Player" where
  "end_step R p =
     (if played_out p then
        let n = loop_count p; n' = (if n \<noteq> 1 \<and> n \<noteq> 0 then n - 1 else n) in
        if n \<noteq> 1 \<and> (n = 0 \<or> n' \<noteq> 0)
        then (False, p\<lparr>loop_count := n',
               pv := stream_seek (case start_time R of Some t \<Rightarrow> t | None \<Rightarrow> 0) 0 False (pv p)\<rparr>)
        else (autoexit R, p\<lparr>loop_count := n'\<rparr>)
      else (False, p))"

text \<open>
  What \<open>av_read_frame\<close> gives: a packet with its time stamp and the length of a tick of its stream, or
  an error: whether it is the end of the file, and whether the file is broken.
\<close>

datatype read_result = GotPacket AVPacket int f64 | ReadError bool bool

definition in_play_range :: "fl \<Rightarrow> ropts \<Rightarrow> int option \<Rightarrow> int \<Rightarrow> f64 \<Rightarrow> bool" where
  "in_play_range F R st_start t tick =
     (case play_duration R of
        None \<Rightarrow> True
      | Some d \<Rightarrow>
          f_le F (f_sub F (f_mul F (f_int F (t - (case st_start of Some s \<Rightarrow> s | None \<Rightarrow> 0))) tick)
                    (f_div F (f_int F (case start_time R of Some s \<Rightarrow> s | None \<Rightarrow> 0)) (f_lit F 1000000 1)))
            (f_div F (f_int F d) (f_lit F 1000000 1)))"

definition store_packet :: "fl \<Rightarrow> ropts \<Rightarrow> bool \<Rightarrow> AVPacket \<Rightarrow> int \<Rightarrow> f64 \<Rightarrow> Player \<Rightarrow> Player" where
  "store_packet F R m a t tick p =
     (let is = pv p; i = stream_index a;
          start = (case ic p of Some c \<Rightarrow> st_start_time (streams c ! nat i) | None \<Rightarrow> None);
          ok = in_play_range F R start t tick in
      if i = audio_stream is \<and> ok then p\<lparr>pv := put_on R m AudioType a is\<rparr>
      else if i = video_stream is \<and> ok \<and> \<not> picture_stream p then p\<lparr>pv := put_on R m VideoType a is\<rparr>
      else if i = subtitle_stream p \<and> ok then p\<lparr>pv := put_on R m SubtitleType a is\<rparr>
      else p)"

definition end_of_file :: "ropts \<Rightarrow> bool \<Rightarrow> Player \<Rightarrow> Player" where
  "end_of_file R m p =
     (let is = pv p;
          a = (if 0 \<le> video_stream is then put_null_on R m VideoType (video_stream is) is else is);
          b = (if 0 \<le> audio_stream is then put_null_on R m AudioType (audio_stream is) a else a);
          c = (if 0 \<le> subtitle_stream p then put_null_on R m SubtitleType (subtitle_stream p) b else b) in
      p\<lparr>pv := c, eof_sent := True\<rparr>)"

datatype turn_end = Again | StopReading | FailReading

record answers =
  mem :: bool
  seek_ret :: "int \<Rightarrow> int \<Rightarrow> int \<Rightarrow> int"
  copied :: "AVPacket option"
  got :: read_result

text \<open>The part of a turn behind the seek.\<close>

definition turn_rest :: "fl \<Rightarrow> ropts \<Rightarrow> answers \<Rightarrow> Player \<Rightarrow> turn_end \<times> Player" where
  "turn_rest F R A p2 =
     (case attach_step R (mem A) (copied A) p2 of
        None \<Rightarrow> (FailReading, p2)
      | Some p3 \<Rightarrow>
          if queues_full p3 then (Again, p3)
          else
            let (quit, p4) = end_step R p3 in
            if quit then (FailReading, p4)
            else
              (case got A of
                 GotPacket a t tick \<Rightarrow> (Again, store_packet F R (mem A) a t tick (p4\<lparr>eof_sent := False\<rparr>))
               | ReadError at_end broken \<Rightarrow>
                   let p5 = (if at_end \<and> \<not> eof_sent p4 then end_of_file R (mem A) p4 else p4) in
                   (if broken then StopReading else Again, p5)))"

text \<open>A change of \<open>paused\<close> is passed on to the protocol.\<close>

definition note_pause :: "Player \<Rightarrow> Player" where
  "note_pause p = (if paused (pv p) \<noteq> last_paused p then p\<lparr>last_paused := paused (pv p)\<rparr> else p)"

definition read_turn :: "fl \<Rightarrow> ropts \<Rightarrow> answers \<Rightarrow> Player \<Rightarrow> turn_end \<times> Player" where
  "read_turn F R A p =
     (if abort_player p then (StopReading, p)
      else
        let p1 = note_pause p in
        if paused (pv p1) \<and> (case ic p1 of Some c \<Rightarrow> is_rtsp c | None \<Rightarrow> False) then (Again, p1)
        else
          let p2 = (if seek_req (pv p1) then seek_step F R (mem A) (seek_ret A) p1 else p1) in
          turn_rest F R A p2)"

section \<open>Opening and closing\<close>

definition stream_open :: "fl \<Rightarrow> sync_type \<Rightarrow> VideoState \<Rightarrow> VideoState" where
  "stream_open F sync is0 =
     (let is1 = is0\<lparr>pictq := frame_queue_init (replicate FRAME_QUEUE_SIZE zero_frame) 3 True,
            subpq := frame_queue_init (replicate FRAME_QUEUE_SIZE zero_frame) 16 False,
            sampq := frame_queue_init (replicate FRAME_QUEUE_SIZE zero_frame) 9 True,
            videoq := packet_queue_init, audioq := packet_queue_init, subtitleq := packet_queue_init\<rparr> in
      (init_clock F Ext OwnSerial (init_clock F Aud AudioSerial (init_clock F Vid VideoSerial is1)))
        \<lparr>av_sync_type := sync\<rparr>)"

text \<open>
  \<open>ret\<close> is the outcome of what FFmpeg and SDL are asked for: the decoder, its options and, for sound, the
  device.
\<close>

definition stream_component_open :: "ropts \<Rightarrow> bool \<Rightarrow> int \<Rightarrow> int \<Rightarrow> Player \<Rightarrow> int \<times> Player" where
  "stream_component_open R m ret i p =
     (case ic p of
        None \<Rightarrow> (-1, p)
      | Some c \<Rightarrow>
          if i < 0 \<or> int (length (streams c)) \<le> i then (-1, p)
          else
            let k = st_type (streams c ! nat i);
                p1 = (case k of
                        Some AudioType \<Rightarrow> p\<lparr>last_audio_stream := i\<rparr>
                      | Some SubtitleType \<Rightarrow> p\<lparr>last_subtitle_stream := i\<rparr>
                      | Some VideoType \<Rightarrow> p\<lparr>last_video_stream := i\<rparr>
                      | None \<Rightarrow> p) in
            if ret < 0 then (ret, p1)
            else
              (ret, case k of
                 Some AudioType \<Rightarrow>
                   p1\<lparr>auddec_finished := 0, pv := (pv p1)\<lparr>audio_stream := i, has_audio := True,
                        audioq := packet_queue_start (node_size R) m (audioq (pv p1))\<rparr>\<rparr>
               | Some VideoType \<Rightarrow>
                   p1\<lparr>viddec_finished := 0, queue_attachments_req := True,
                      pv := (pv p1)\<lparr>video_stream := i, has_video := True,
                        videoq := packet_queue_start (node_size R) m (videoq (pv p1))\<rparr>\<rparr>
               | Some SubtitleType \<Rightarrow>
                   p1\<lparr>subtitle_stream := i, pv := (pv p1)\<lparr>has_subtitle := True,
                        subtitleq := packet_queue_start (node_size R) m (subtitleq (pv p1))\<rparr>\<rparr>
               | None \<Rightarrow> p1))"

definition stream_component_close :: "int \<Rightarrow> Player \<Rightarrow> Player" where
  "stream_component_close i p =
     (case ic p of
        None \<Rightarrow> p
      | Some c \<Rightarrow>
          if i < 0 \<or> int (length (streams c)) \<le> i then p
          else
            let is = pv p in
            (case st_type (streams c ! nat i) of
               Some AudioType \<Rightarrow>
                 p\<lparr>pv := is\<lparr>audioq := packet_queue_flush (packet_queue_abort (audioq is)),
                          has_audio := False, audio_stream := -1\<rparr>\<rparr>
             | Some VideoType \<Rightarrow>
                 p\<lparr>pv := is\<lparr>videoq := packet_queue_flush (packet_queue_abort (videoq is)),
                          has_video := False, video_stream := -1\<rparr>\<rparr>
             | Some SubtitleType \<Rightarrow>
                 p\<lparr>subtitle_stream := -1,
                   pv := is\<lparr>subtitleq := packet_queue_flush (packet_queue_abort (subtitleq is)),
                          has_subtitle := False\<rparr>\<rparr>
             | None \<Rightarrow> p))"

text \<open>The names of the formats and protocols that come as they are made; \<open>pb\<close>: it is read through a byte stream.\<close>

definition is_realtime :: "string \<Rightarrow> bool \<Rightarrow> string \<Rightarrow> bool" where
  "is_realtime name pb filename \<longleftrightarrow>
     name = ''rtp'' \<or> name = ''rtsp'' \<or> name = ''sdp''
     \<or> (pb \<and> (take 4 filename = ''rtp:'' \<or> take 4 filename = ''udp:''))"

section \<open>The next stream of a type\<close>

definition usable :: "media \<Rightarrow> stream \<Rightarrow> bool" where
  "usable k st \<longleftrightarrow> st_type st = Some k \<and> (k = AudioType \<longrightarrow> st_rate st \<noteq> 0 \<and> st_channels st \<noteq> 0)"

text \<open>
  The search: \<open>good\<close> says whether the stream at an index (of the file, or of the program) will do.
  \<open>Some None\<close> leaves everything as it is, \<open>Some (Some i)\<close> switches to index \<open>i\<close>; \<open>None\<close>: no end.
\<close>

partial_function (option) cycle_loop :: "bool \<Rightarrow> (int \<Rightarrow> bool) \<Rightarrow> int \<Rightarrow> int \<Rightarrow> int \<Rightarrow> int option option" where
  "cycle_loop sub good n start i =
     (if n \<le> i + 1 then
        if sub then Some (Some (-1))
        else if start = -1 then Some None
        else if start = 0 then Some None
        else if good 0 then Some (Some 0)
        else cycle_loop sub good n start 0
      else if i + 1 = start then Some None
      else if good (i + 1) then Some (Some (i + 1))
      else cycle_loop sub good n start (i + 1))"

text \<open>The index at which the search starts in a program, \<open>-1\<close> when the stream is not in it.\<close>

fun index_in :: "int list \<Rightarrow> int \<Rightarrow> int \<Rightarrow> int" where
  "index_in [] x i = -1"
| "index_in (y # ys) x i = (if y = x then i else index_in ys x (i + 1))"

text \<open>
  The result of the search: whether subtitles are switched off, the stream to close and the one to open.
\<close>

definition cycle_search :: "media \<Rightarrow> container \<Rightarrow> Player \<Rightarrow> (bool \<times> int \<times> int) option option" where
  "cycle_search k c p =
     (let is = pv p;
          (start, old) = (case k of
              VideoType \<Rightarrow> (last_video_stream p, video_stream is)
            | AudioType \<Rightarrow> (last_audio_stream p, audio_stream is)
            | SubtitleType \<Rightarrow> (last_subtitle_stream p, subtitle_stream p));
          pr = (if k \<noteq> VideoType \<and> video_stream is \<noteq> -1 then program c (video_stream is) else None);
          (n, s, number) = (case pr of
              None \<Rightarrow> (int (length (streams c)), start, (\<lambda>i. i))
            | Some ns \<Rightarrow> (int (length ns), index_in ns start 0, (\<lambda>i. ns ! nat i))) in
      case cycle_loop (k = SubtitleType) (\<lambda>i. usable k (streams c ! nat (number i))) n s s of
        None \<Rightarrow> None
      | Some None \<Rightarrow> Some None
      | Some (Some i) \<Rightarrow> Some (Some (i = -1, old, if i \<noteq> -1 then number i else i)))"

definition stream_cycle_channel ::
  "ropts \<Rightarrow> bool \<Rightarrow> int \<Rightarrow> media \<Rightarrow> Player \<Rightarrow> Player result option" where
  "stream_cycle_channel R m ret k p =
     (case ic p of
        None \<Rightarrow> Some (Inl NullDeref)
      | Some c \<Rightarrow>
          (case cycle_search k c p of
             None \<Rightarrow> None
           | Some None \<Rightarrow> Some (Inr p)
           | Some (Some (off, old, j)) \<Rightarrow>
               let p1 = (if off then p\<lparr>last_subtitle_stream := -1\<rparr> else p) in
               Some (Inr (snd (stream_component_open R m ret j (stream_component_close old p1))))))"

section \<open>What the keys do\<close>

fun mode_num :: "show_mode \<Rightarrow> int" where
  "mode_num SHOW_MODE_NONE = -1"
| "mode_num SHOW_MODE_VIDEO = 0"
| "mode_num SHOW_MODE_WAVES = 1"
| "mode_num SHOW_MODE_RDFT = 2"

definition num_mode :: "int \<Rightarrow> show_mode" where
  "num_mode n = (if n = 0 then SHOW_MODE_VIDEO else if n = 1 then SHOW_MODE_WAVES
                 else if n = 2 then SHOW_MODE_RDFT else SHOW_MODE_NONE)"

partial_function (option) toggle_loop :: "bool \<Rightarrow> bool \<Rightarrow> int \<Rightarrow> int \<Rightarrow> int option" where
  "toggle_loop hv ha cur n =
     (let n1 = (n + 1) mod 3 in
      if n1 \<noteq> cur \<and> ((n1 = 0 \<and> \<not> hv) \<or> (n1 \<noteq> 0 \<and> \<not> ha)) then toggle_loop hv ha cur n1 else Some n1)"

definition toggle_audio_display :: "VideoState \<Rightarrow> VideoState option" where
  "toggle_audio_display is =
     (let cur = mode_num (mode is) in
      case toggle_loop (has_video is) (has_audio is) cur cur of
        None \<Rightarrow> None
      | Some n \<Rightarrow> Some (if cur \<noteq> n then is\<lparr>force_refresh := True, mode := num_mode n\<rparr> else is))"

text \<open>The chapter before the first that starts later, or the number of chapters when none does.\<close>

definition chapter_at :: "container \<Rightarrow> int \<Rightarrow> int" where
  "chapter_at c pos = (case find (\<lambda>i. chapter_after c i pos) [0..<nb_chapters c] of
     Some i \<Rightarrow> int i - 1 | None \<Rightarrow> int (nb_chapters c))"

definition seek_chapter :: "fl \<Rightarrow> container \<Rightarrow> int \<Rightarrow> VideoState \<Rightarrow> VideoState" where
  "seek_chapter F c incr is =
     (let (m, is1) = get_master_clock F is;
          pos = f_trunc F (f_mul F m (f_lit F 1000000 1)) in
      if nb_chapters c = 0 then is1
      else
        let i = max (chapter_at c pos + incr) 0 in
        if int (nb_chapters c) \<le> i then is1 else stream_seek (chapter_start c (nat i)) 0 False is1)"

text \<open>From the label \<open>do_seek\<close>: seconds forward or back.\<close>

definition do_seek :: "fl \<Rightarrow> ropts \<Rightarrow> container \<Rightarrow> int \<Rightarrow> VideoState \<Rightarrow> VideoState" where
  "do_seek F R c secs is =
     (let incr = f_lit F secs 1 in
      if seek_bytes R then
        let pos0 = -1;
            pos1 = (if pos0 < 0 \<and> 0 \<le> video_stream is then frame_queue_last_pos (videoq is) (pictq is) else pos0);
            pos2 = (if pos1 < 0 \<and> 0 \<le> audio_stream is then frame_queue_last_pos (audioq is) (sampq is) else pos1);
            pos3 = (if pos2 < 0 then file_pos c else pos2);
            incr1 = (if bit_rate c \<noteq> 0 then f_mul F incr (f_div F (f_int F (bit_rate c)) (f_lit F 8 1))
                     else f_mul F incr (f_lit F 180000 1)) in
        stream_seek (f_trunc F (f_add F (f_int F pos3) incr1)) (f_trunc F incr1) True is
      else
        let (m, is1) = get_master_clock F is;
            pos0 = (if f_nan F m then f_div F (f_int F (seek_pos is1)) (f_lit F 1000000 1) else m);
            pos1 = f_add F pos0 incr;
            pos2 = (case file_start c of
                      Some t \<Rightarrow> if f_lt F pos1 (f_div F (f_int F t) (f_lit F 1000000 1))
                                then f_div F (f_int F t) (f_lit F 1000000 1) else pos1
                    | None \<Rightarrow> pos1) in
        stream_seek (f_trunc F (f_mul F pos2 (f_lit F 1000000 1))) (f_trunc F (f_mul F incr (f_lit F 1000000 1))) False is1)"

definition mouse_seek :: "fl \<Rightarrow> ropts \<Rightarrow> container \<Rightarrow> f64 \<Rightarrow> int \<Rightarrow> VideoState \<Rightarrow> VideoState" where
  "mouse_seek F R c x width is =
     (if seek_bytes R \<or> file_duration c \<le> 0 then
        stream_seek (f_trunc F (f_div F (f_mul F (f_int F (file_size c mod 2 ^ 64)) x) (f_int F width))) 0 True is
      else
        let t = f_trunc F (f_mul F (f_div F x (f_int F width)) (f_int F (file_duration c))) in
        stream_seek (t + (case file_start c of Some s \<Rightarrow> s | None \<Rightarrow> 0)) 0 False is)"

datatype key = KeyQuit | KeyFull | KeyPause | KeyStep | KeyAudio | KeyVideo | KeyAll | KeySubtitle | KeyWaves
  | KeyPageUp | KeyPageDown | KeyLeft | KeyRight | KeyUp | KeyDown | KeyOther

datatype event = Key key | Exposed | Resized int int | MouseDown f64 | MouseMoved bool f64 | QuitEvent
  | AllocEvent bool int int | OtherEvent

datatype event_end = Quit | Crash fault | Stuck | Goes Player

definition goes :: "Player result option \<Rightarrow> event_end" where
  "goes r = (case r of None \<Rightarrow> Stuck | Some (Inl e) \<Rightarrow> Crash e | Some (Inr p) \<Rightarrow> Goes p)"

definition and_then :: "event_end \<Rightarrow> (Player \<Rightarrow> event_end) \<Rightarrow> event_end" where
  "and_then r g = (case r of Goes p \<Rightarrow> g p | e \<Rightarrow> e)"

definition on_state :: "Player \<Rightarrow> (VideoState \<Rightarrow> VideoState) \<Rightarrow> event_end" where
  "on_state p g = Goes (p\<lparr>pv := g (pv p)\<rparr>)"

definition with_file :: "Player \<Rightarrow> (container \<Rightarrow> event_end) \<Rightarrow> event_end" where
  "with_file p g = (case ic p of None \<Rightarrow> Crash NullDeref | Some c \<Rightarrow> g c)"

text \<open>\<open>rets\<close> are the outcomes of opening a stream of each type.\<close>

definition handle_key :: "fl \<Rightarrow> ropts \<Rightarrow> (media \<Rightarrow> int) \<Rightarrow> key \<Rightarrow> Player \<Rightarrow> event_end" where
  "handle_key F R rets k p =
     (case k of
        KeyQuit \<Rightarrow> Quit
      | KeyFull \<Rightarrow> Goes (p\<lparr>full_screen := \<not> full_screen p, pv := (pv p)\<lparr>force_refresh := True\<rparr>\<rparr>)
      | KeyPause \<Rightarrow> on_state p (toggle_pause F)
      | KeyStep \<Rightarrow> on_state p (step_to_next_frame F)
      | KeyAudio \<Rightarrow> goes (stream_cycle_channel R True (rets AudioType) AudioType p)
      | KeyVideo \<Rightarrow> goes (stream_cycle_channel R True (rets VideoType) VideoType p)
      | KeyAll \<Rightarrow>
          and_then (goes (stream_cycle_channel R True (rets VideoType) VideoType p)) (\<lambda>p1.
          and_then (goes (stream_cycle_channel R True (rets AudioType) AudioType p1)) (\<lambda>p2.
            goes (stream_cycle_channel R True (rets SubtitleType) SubtitleType p2)))
      | KeySubtitle \<Rightarrow> goes (stream_cycle_channel R True (rets SubtitleType) SubtitleType p)
      | KeyWaves \<Rightarrow>
          if mode (pv p) = SHOW_MODE_VIDEO \<and> vfilter_idx p < nb_vfilters R - 1 then
            Goes (p\<lparr>vfilter_idx := (if nb_vfilters R \<le> vfilter_idx p + 1 then 0 else vfilter_idx p + 1)\<rparr>)
          else
            (case toggle_audio_display (pv p) of
               None \<Rightarrow> Stuck | Some is \<Rightarrow> Goes (p\<lparr>vfilter_idx := 0, pv := is\<rparr>))
      | KeyPageUp \<Rightarrow> with_file p (\<lambda>c. on_state p (if nb_chapters c \<le> 1 then do_seek F R c 600 else seek_chapter F c 1))
      | KeyPageDown \<Rightarrow> with_file p (\<lambda>c. on_state p (if nb_chapters c \<le> 1 then do_seek F R c (-600) else seek_chapter F c (-1)))
      | KeyLeft \<Rightarrow> with_file p (\<lambda>c. on_state p (do_seek F R c (-10)))
      | KeyRight \<Rightarrow> with_file p (\<lambda>c. on_state p (do_seek F R c 10))
      | KeyUp \<Rightarrow> with_file p (\<lambda>c. on_state p (do_seek F R c 60))
      | KeyDown \<Rightarrow> with_file p (\<lambda>c. on_state p (do_seek F R c (-60)))
      | KeyOther \<Rightarrow> Goes p)"

text \<open>
  One event of \<open>event_loop\<close>, with neither \<open>exit_on_keydown\<close> nor \<open>exit_on_mousedown\<close> set; a texture that
  cannot be made ends the process.
\<close>

definition handle_event :: "fl \<Rightarrow> ropts \<Rightarrow> (media \<Rightarrow> int) \<Rightarrow> event \<Rightarrow> Player \<Rightarrow> event_end" where
  "handle_event F R rets e p =
     (case e of
        Key k \<Rightarrow> handle_key F R rets k p
      | Exposed \<Rightarrow> on_state p (\<lambda>is. is\<lparr>force_refresh := True\<rparr>)
      | Resized w h \<Rightarrow> Goes (p\<lparr>win_width := w, win_height := h, pv := (pv p)\<lparr>force_refresh := True\<rparr>\<rparr>)
      | MouseDown x \<Rightarrow> with_file p (\<lambda>c. on_state p (mouse_seek F R c x (win_width p)))
      | MouseMoved pressed x \<Rightarrow>
          if pressed then with_file p (\<lambda>c. on_state p (mouse_seek F R c x (win_width p))) else Goes p
      | QuitEvent \<Rightarrow> Quit
      | AllocEvent create w h \<Rightarrow>
          (case alloc_picture create w h (pictq (pv p)) of
             None \<Rightarrow> Quit | Some f \<Rightarrow> Goes (p\<lparr>pv := (pv p)\<lparr>pictq := f\<rparr>\<rparr>))
      | OtherEvent \<Rightarrow> Goes p)"

text \<open>A turn of \<open>refresh_loop_wait_event\<close> without an event.\<close>

definition wait_turn :: "fl \<Rightarrow> popts \<Rightarrow> Player \<Rightarrow> Player option" where
  "wait_turn F P p =
     (let is = (pv p)\<lparr>remaining_time := f_lit F 1 100\<rparr> in
      if mode is \<noteq> SHOW_MODE_NONE \<and> (\<not> paused is \<or> force_refresh is)
      then map_option (\<lambda>is'. p\<lparr>pv := is'\<rparr>) (video_refresh F P is)
      else Some (p\<lparr>pv := is\<rparr>))"

section \<open>Cycling finds the next stream\<close>

lemma cycle_to_end:
  "start \<le> i \<Longrightarrow> i < n \<Longrightarrow>
   cycle_loop sub good n start i =
     (case find good [i + 1..n - 1] of
        Some j \<Rightarrow> Some (Some j)
      | None \<Rightarrow> if sub then Some (Some (-1)) else if start = -1 \<or> start = 0 then Some None
                else if good 0 then Some (Some 0) else cycle_loop sub good n start 0)"
proof (induction "nat (n - i)" arbitrary: i rule: less_induct)
  case less
  show ?case
  proof (cases "n \<le> i + 1")
    case True
    then have "[i + 1..n - 1] = []" by simp
    then show ?thesis using True by (subst cycle_loop.simps) simp
  next
    case False
    have l: "[i + 1..n - 1] = (i + 1) # [i + 1 + 1..n - 1]" using False by (intro upto_rec1) simp
    have "i + 1 \<noteq> start" using less.prems by simp
    then show ?thesis
      using less.hyps [of "i + 1"] less.prems False unfolding l by (subst cycle_loop.simps) simp
  qed
qed

lemma cycle_from_zero:
  "0 \<le> i \<Longrightarrow> i < start \<Longrightarrow> start < n \<Longrightarrow>
   cycle_loop False good n start i = Some (find good [i + 1..start - 1])"
proof (induction "nat (start - i)" arbitrary: i rule: less_induct)
  case less
  show ?case
  proof (cases "i + 1 = start")
    case True
    then show ?thesis using less.prems by (subst cycle_loop.simps) auto
  next
    case False
    have l: "[i + 1..start - 1] = (i + 1) # [i + 1 + 1..start - 1]" using False less.prems by (intro upto_rec1) simp
    show ?thesis
      using less.hyps [of "i + 1"] less.prems False unfolding l by (subst cycle_loop.simps) simp
  qed
qed

text \<open>C25. The search for the next stream returns.  It takes the first usable one in the order that starts
  behind the current one and goes around to it; for subtitles it takes the first usable one behind the
  current one and otherwise none, which switches them off.\<close>

theorem cycle_finds_next:
  assumes "-1 \<le> start" "start < n"
  shows "cycle_loop False good n start start = Some (find good ([start + 1..n - 1] @ [0..start - 1]))
    \<and> cycle_loop True good n start start =
        Some (Some (case find good [start + 1..n - 1] of Some i \<Rightarrow> i | None \<Rightarrow> -1))"
proof
  show "cycle_loop True good n start start =
      Some (Some (case find good [start + 1..n - 1] of Some i \<Rightarrow> i | None \<Rightarrow> -1))"
    using cycle_to_end [of start start n True good] assms by (auto split: option.splits)
  have app: "find good (xs @ ys) = (case find good xs of Some i \<Rightarrow> Some i | None \<Rightarrow> find good ys)" for xs ys :: "int list"
    by (induction xs) auto
  have "find good [0..start - 1] = (if good 0 then Some 0 else find good [0 + 1..start - 1])" if "0 < start"
    using that by (subst upto_rec1) simp_all
  then show "cycle_loop False good n start start = Some (find good ([start + 1..n - 1] @ [0..start - 1]))"
    using cycle_to_end [of start start n False good] cycle_from_zero [of 0 start n good] assms
    by (cases "0 < start") (auto simp: app split: option.splits)
qed

theorem cycle_finds_next_witness:
  "cycle_loop False (\<lambda>i. i = 1 \<or> i = 2) 4 2 2 = Some (Some 1) \<and> cycle_loop True (\<lambda>i. i = 1 \<or> i = 2) 4 2 2 = Some (Some (-1))"
  using cycle_finds_next [of 2 4 "\<lambda>i. i = 1 \<or> i = 2"] by (simp add: upto.simps)

section \<open>The key that may hang\<close>

lemma toggle_hangs: "toggle_loop False False (-1) n = None"
proof (cases "toggle_loop False False (-1) n")
  case (Some r)
  have "\<not> False \<longrightarrow> \<not> False \<longrightarrow> (-1 :: int) = -1 \<longrightarrow> False"
  proof (rule toggle_loop.raw_induct [where P = "\<lambda>hv ha cur m r. \<not> hv \<longrightarrow> \<not> ha \<longrightarrow> cur = -1 \<longrightarrow> False", OF _ Some])
    fix f :: "bool \<Rightarrow> bool \<Rightarrow> int \<Rightarrow> int \<Rightarrow> int option" and hv ha cur n r
    assume ih: "\<And>hv ha cur n r. f hv ha cur n = Some r \<Longrightarrow> \<not> hv \<longrightarrow> \<not> ha \<longrightarrow> cur = -1 \<longrightarrow> False"
      and r: "(let n1 = (n + 1) mod 3 in
        if n1 \<noteq> cur \<and> (n1 = 0 \<and> \<not> hv \<or> n1 \<noteq> 0 \<and> \<not> ha) then f hv ha cur n1 else Some n1) = Some r"
    show "\<not> hv \<longrightarrow> \<not> ha \<longrightarrow> cur = -1 \<longrightarrow> False"
    proof (intro impI)
      assume h: "\<not> hv" "\<not> ha" "cur = -1"
      have "0 \<le> (n + 1) mod 3" by simp
      then have "(n + 1) mod 3 \<noteq> -1" by linarith
      then have "f hv ha cur ((n + 1) mod 3) = Some r" using r h by (auto simp: Let_def)
      from ih [OF this] h show False by blast
    qed
  qed
  then show ?thesis by simp
qed simp

lemma toggle_step:
  "n1 = (n + 1) mod 3 \<Longrightarrow> n1 = cur \<or> (if n1 = 0 then hv else ha) \<or> toggle_loop hv ha cur n1 \<noteq> None \<Longrightarrow>
   toggle_loop hv ha cur n \<noteq> None"
  by (subst toggle_loop.simps) (auto simp: Let_def split: if_splits)

lemma toggle_ends:
  assumes "cur \<in> {-1, 0, 1, 2}" "\<not> (cur = -1 \<and> \<not> hv \<and> \<not> ha)"
  shows "toggle_loop hv ha cur cur \<noteq> None"
proof -
  let ?t = "\<lambda>n. toggle_loop hv ha cur n \<noteq> None"
  have "cur = 1 \<or> ha \<or> ?t 1 \<Longrightarrow> ?t 0" "cur = 2 \<or> ha \<or> ?t 2 \<Longrightarrow> ?t 1" "cur = 0 \<or> hv \<or> ?t 0 \<Longrightarrow> ?t 2"
    "cur = 0 \<or> hv \<or> ?t 0 \<Longrightarrow> ?t (-1)"
    using toggle_step [of 1 0 cur hv ha] toggle_step [of 2 1 cur hv ha] toggle_step [of 0 2 cur hv ha]
      toggle_step [of 0 "-1" cur hv ha] by simp_all
  then show ?thesis using assms by blast
qed

lemma mode_num_in: "mode_num m \<in> {-1, 0, 1, 2}" "mode_num m = -1 \<longleftrightarrow> m = SHOW_MODE_NONE"
  by (cases m; simp)+

lemma toggle_none:
  "toggle_audio_display is = None \<longleftrightarrow> mode is = SHOW_MODE_NONE \<and> \<not> has_video is \<and> \<not> has_audio is"
proof (cases "mode is = SHOW_MODE_NONE \<and> \<not> has_video is \<and> \<not> has_audio is")
  case True
  then show ?thesis by (simp add: toggle_audio_display_def toggle_hangs)
next
  case False
  then have "toggle_loop (has_video is) (has_audio is) (mode_num (mode is)) (mode_num (mode is)) \<noteq> None"
    using toggle_ends [OF mode_num_in(1)] mode_num_in(2) by blast
  then show ?thesis using False by (auto simp: toggle_audio_display_def)
qed


definition closed_player :: Player where
  "closed_player = \<lparr>pv = demo_video\<lparr>mode := SHOW_MODE_NONE, has_video := False, has_audio := False\<rparr>, ic = None,
     abort_player = False, last_paused = False, queue_attachments_req = False, infinite_buffer = -1, loop_count = 1,
     eof_sent = False, subtitle_stream = -1, last_video_stream = -1, last_audio_stream = -1, last_subtitle_stream = -1,
     auddec_finished = 0, viddec_finished = 0, vfilter_idx = 0, win_width = 0, win_height = 0, full_screen = False\<rparr>"

definition demo_ropts :: ropts where
  "demo_ropts = \<lparr>node_size = 100, autoexit = False, start_time = None, play_duration = None, seek_bytes = False, nb_vfilters = 0\<rparr>"


section \<open>What reading does to the pictures\<close>

text \<open>The pictures waiting stay, and the serial number of the packets only grows.\<close>

definition pics_kept :: "VideoState \<Rightarrow> VideoState \<Rightarrow> bool" where
  "pics_kept a b \<longleftrightarrow> pictq b = pictq a \<and> subpq b = subpq a \<and> serial (videoq a) \<le> serial (videoq b)"

lemma pics_refl [simp]: "pics_kept a a"
  by (simp add: pics_kept_def)

lemma pics_trans: "pics_kept a b \<Longrightarrow> pics_kept b c \<Longrightarrow> pics_kept a c"
  by (simp add: pics_kept_def)

lemma same_pics: "same_queues a b \<Longrightarrow> pics_kept a b"
  by (simp add: same_queues_def pics_kept_def)

lemma put_serial: "serial q \<le> serial (snd (snd (packet_queue_put n d m q p)))"
  "serial q \<le> serial (snd (snd (packet_queue_put_nullpacket n d m q i)))"
  by (auto simp: packet_queue_put_nullpacket_def packet_queue_put_def packet_queue_put_private_def Let_def)

lemma pics_put [simp]: "pics_kept is (put_on R m k p is)" "pics_kept is (put_null_on R m k i is)"
  using put_serial by (cases k; simp add: put_on_def put_null_on_def pics_kept_def)+

lemma pics_flush [simp]: "pics_kept is (flush_on R m k is)"
  using pics_put(1) [of _ R m] pics_trans
  by (cases k) (simp_all add: flush_on_def put_on_def pics_kept_def packet_queue_flush_def
      order_trans [OF _ put_serial(1)])

text \<open>A flush of the video queue raises its serial number.\<close>

lemma flush_raises:
  "\<not> abort_request (videoq is) \<Longrightarrow> serial (videoq (flush_on R True VideoType is)) = serial (videoq is) + 1"
  by (simp add: flush_on_def put_on_def packet_queue_put_def packet_queue_put_private_def packet_queue_flush_def
      flush_pkt_def Let_def)

lemma flush_other:
  "k \<noteq> VideoType \<Longrightarrow> videoq (flush_on R m k is) = videoq is \<and> video_stream (flush_on R m k is) = video_stream is
    \<and> audio_stream (flush_on R m k is) = audio_stream is"
  by (cases k) (simp_all add: flush_on_def put_on_def)

lemma step_next_same: "same_queues is (step_to_next_frame F is)"
proof -
  have "same_queues a b \<Longrightarrow> same_queues a (b\<lparr>stepping := v\<rparr>)" for a b v by (simp add: same_queues_def)
  then show ?thesis using same_toggle_pause by (simp add: step_to_next_frame_def)
qed

lemma seek_step_pics:
  "pics_kept (pv p) (pv (seek_step F R m sk p))"
  "sk (seek_min (pv p)) (seek_pos (pv p)) (seek_max (pv p)) \<ge> 0 \<Longrightarrow> 0 \<le> video_stream (pv p) \<Longrightarrow> m \<Longrightarrow>
   \<not> abort_request (videoq (pv p)) \<Longrightarrow> serial (videoq (pv p)) < serial (videoq (pv (seek_step F R m sk p)))"
proof -
  let ?is = "pv p"
  define r where "r = sk (seek_min ?is) (seek_pos ?is) (seek_max ?is)"
  define a where "a = (if 0 \<le> audio_stream ?is then flush_on R m AudioType ?is else ?is)"
  define b where "b = (if 0 \<le> subtitle_stream p then flush_on R m SubtitleType a else a)"
  define c where "c = (if 0 \<le> video_stream b then flush_on R m VideoType b else b)"
  define d where "d = (if seek_by_byte c then set_clock F Ext (NAN F) 0 c
                   else set_clock F Ext (f_div F (f_int F (seek_pos ?is)) (f_lit F 1000000 1)) 0 c)"
  define is1 where "is1 = (if r < 0 then ?is else d)"
  define is2 where "is2 = is1\<lparr>seek_req := False\<rparr>"
  have e: "pv (seek_step F R m sk p) = (if paused is2 then step_to_next_frame F is2 else is2)"
    unfolding seek_step_def Let_def
    unfolding r_def [symmetric] a_def [symmetric] b_def [symmetric] c_def [symmetric] d_def [symmetric]
      is1_def [symmetric] is2_def [symmetric] by simp
  have "pics_kept ?is a" "pics_kept a b" "pics_kept b c" by (simp_all add: a_def b_def c_def)
  moreover have cd: "same_queues c d" using same_set_clock by (simp add: d_def)
  ultimately have "pics_kept ?is d" using pics_trans same_pics by meson
  then have "pics_kept ?is is1" by (simp add: is1_def)
  moreover have "pics_kept is1 is2" by (simp add: is2_def pics_kept_def)
  moreover have s2: "same_queues is2 (pv (seek_step F R m sk p))" unfolding e using step_next_same by simp
  ultimately show "pics_kept (pv p) (pv (seek_step F R m sk p))" using pics_trans same_pics by blast
  have ab: "videoq b = videoq ?is" "video_stream b = video_stream ?is"
    by (simp_all add: a_def b_def flush_other)
  show "serial (videoq (pv p)) < serial (videoq (pv (seek_step F R m sk p)))"
    if "sk (seek_min (pv p)) (seek_pos (pv p)) (seek_max (pv p)) \<ge> 0" "0 \<le> video_stream (pv p)" m
      "\<not> abort_request (videoq (pv p))"
  proof -
    have "serial (videoq c) = serial (videoq ?is) + 1"
      using flush_raises [of b R] ab that by (simp add: c_def)
    moreover have "videoq (pv (seek_step F R m sk p)) = videoq c"
      using s2 cd that(1) by (simp add: same_queues_def is2_def is1_def r_def)
    ultimately show ?thesis by simp
  qed
qed

lemma attach_pics: "attach_step R m copy p = Some p' \<Longrightarrow> pics_kept (pv p) (pv p')"
  using pics_trans [OF pics_put(1) pics_put(2)] by (auto simp: attach_step_def split: if_splits option.splits)

lemma end_step_pics: "end_step R p = (q, p') \<Longrightarrow> pics_kept (pv p) (pv p')"
  by (auto simp: end_step_def stream_seek_def pics_kept_def Let_def split: if_splits)

lemma store_pics: "pics_kept (pv p) (pv (store_packet F R m a t tick p))"
  by (auto simp: store_packet_def Let_def)

lemma end_of_file_pics: "pics_kept (pv p) (pv (end_of_file R m p))"
proof -
  have "pics_kept a b \<Longrightarrow> pics_kept a (if c then put_null_on R m k i b else b)" for a b c k i
    using pics_put(2) pics_trans by (metis (full_types))
  then show ?thesis unfolding end_of_file_def Let_def by simp
qed

lemma turn_rest_pics:
  assumes "turn_rest F R A p2 = (e, p')"
  shows "pics_kept (pv p2) (pv p')"
proof (cases "attach_step R (mem A) (copied A) p2")
  case None
  then show ?thesis using assms by (simp add: turn_rest_def)
next
  case (Some p3)
  note k3 = attach_pics [OF Some]
  obtain quit p4 where q: "end_step R p3 = (quit, p4)" by force
  note k4 = pics_trans [OF k3 end_step_pics [OF q]]
  show ?thesis
  proof (cases "queues_full p3 \<or> quit")
    case True
    then show ?thesis using assms k3 k4 by (cases "queues_full p3") (simp_all add: turn_rest_def Some q)
  next
    case False
    have "pics_kept (pv p4) (pv p')"
    proof (cases "got A")
      case (GotPacket a t tick)
      have "p' = store_packet F R (mem A) a t tick (p4\<lparr>eof_sent := False\<rparr>)"
        using assms False by (simp add: turn_rest_def Some q GotPacket)
      then show ?thesis using store_pics [of "p4\<lparr>eof_sent := False\<rparr>"] by simp
    next
      case (ReadError x y)
      have "p' = (if x \<and> \<not> eof_sent p4 then end_of_file R (mem A) p4 else p4)"
        using assms False by (simp add: turn_rest_def Some q ReadError Let_def)
      then show ?thesis using end_of_file_pics by simp
    qed
    with k4 show ?thesis by (rule pics_trans)
  qed
qed

text \<open>A turn in which the player runs and can be read from.\<close>

definition reading :: "Player \<Rightarrow> bool" where
  "reading p \<longleftrightarrow> \<not> abort_player p \<and> \<not> (paused (pv p) \<and> (case ic p of Some c \<Rightarrow> is_rtsp c | None \<Rightarrow> False))"

lemma read_turn_pics:
  assumes "read_turn F R A p = (e, p')"
  shows "pics_kept (pv p) (pv p')"
    and "reading p \<Longrightarrow> seek_req (pv p) \<Longrightarrow> 0 \<le> seek_ret A (seek_min (pv p)) (seek_pos (pv p)) (seek_max (pv p)) \<Longrightarrow>
      0 \<le> video_stream (pv p) \<Longrightarrow> mem A \<Longrightarrow> \<not> abort_request (videoq (pv p)) \<Longrightarrow>
      serial (videoq (pv p)) < serial (videoq (pv p'))"
proof -
  define p1 where "p1 = note_pause p"
  define p2 where "p2 = (if seek_req (pv p1) then seek_step F R (mem A) (seek_ret A) p1 else p1)"
  have p1: "pv p1 = pv p" "ic p1 = ic p" by (simp_all add: p1_def note_pause_def)
  have e: "read_turn F R A p =
      (if abort_player p then (StopReading, p)
       else if paused (pv p1) \<and> (case ic p1 of Some c \<Rightarrow> is_rtsp c | None \<Rightarrow> False) then (Again, p1)
       else turn_rest F R A p2)"
    by (simp only: read_turn_def Let_def p1_def p2_def)
  have t: "turn_rest F R A p2 = (e, p')" if "reading p"
    using assms that unfolding e p1 reading_def by (auto split: if_splits)
  have n: "pv p' = pv p" if "\<not> reading p"
  proof -
    have "p' = p \<or> p' = p1" using assms that unfolding e p1 reading_def by (auto split: if_splits)
    then show ?thesis using p1(1) by auto
  qed
  have k2: "pics_kept (pv p) (pv p2)" using seek_step_pics(1) [of p1] p1 by (simp add: p2_def)
  show "pics_kept (pv p) (pv p')"
    using pics_trans [OF k2 turn_rest_pics [OF t]] n by (cases "reading p") simp_all
  assume h: "reading p" "seek_req (pv p)" "0 \<le> seek_ret A (seek_min (pv p)) (seek_pos (pv p)) (seek_max (pv p))"
    "0 \<le> video_stream (pv p)" "mem A" "\<not> abort_request (videoq (pv p))"
  have "serial (videoq (pv p)) < serial (videoq (pv p2))"
    using seek_step_pics(2) [of "seek_ret A" p1] h p1 by (simp add: p2_def)
  moreover have "serial (videoq (pv p2)) \<le> serial (videoq (pv p'))"
    using turn_rest_pics [OF t [OF h(1)]] by (simp add: pics_kept_def)
  ultimately show "serial (videoq (pv p)) < serial (videoq (pv p'))" by simp
qed

section \<open>The player as a system\<close>

text \<open>
  The states the player reaches: from \<open>stream_open\<close>, by turns of the reading loop, of the waiting loop and of
  the event loop, by pictures and subtitles that arrive from the decoders (with the serial number of a
  packet that was put at some time), and by what opens the file.
\<close>

inductive player_reaches :: "fl \<Rightarrow> popts \<Rightarrow> ropts \<Rightarrow> Player \<Rightarrow> bool" for F P R where
  start: "pv p = stream_open F sync is0 \<Longrightarrow> player_reaches F P R p"
| opened: "player_reaches F P R p \<Longrightarrow>
    player_reaches F P R (p\<lparr>ic := Some c, pv := (pv p)\<lparr>mode := md, realtime := rt, max_frame_duration := d\<rparr>\<rparr>)"
| component: "player_reaches F P R p \<Longrightarrow> stream_component_open R m ret i p = (r, p') \<Longrightarrow> player_reaches F P R p'"
| closed: "player_reaches F P R p \<Longrightarrow> player_reaches F P R (stream_component_close i p)"
| read: "player_reaches F P R p \<Longrightarrow> read_turn F R A p = (e, p') \<Longrightarrow> player_reaches F P R p'"
| wait: "player_reaches F P R p \<Longrightarrow> wait_turn F P p = Some p' \<Longrightarrow> player_reaches F P R p'"
| event: "player_reaches F P R p \<Longrightarrow> handle_event F R rets ev p = Goes p' \<Longrightarrow> player_reaches F P R p'"
| picture: "player_reaches F P R p \<Longrightarrow> n \<le> serial (videoq (pv p)) \<Longrightarrow>
    queue_picture (videoq (pv p)) q handled create w h t d pos n (pictq (pv p)) = Some (r, f) \<Longrightarrow>
    player_reaches F P R (p\<lparr>pv := (pv p)\<lparr>pictq := f\<rparr>\<rparr>)"
| subtitle: "player_reaches F P R p \<Longrightarrow> fq_put (subtitleq (pv p)) (subpq (pv p)) s = Inr f \<Longrightarrow>
    player_reaches F P R (p\<lparr>pv := (pv p)\<lparr>subpq := f\<rparr>\<rparr>)"
| quit: "player_reaches F P R p \<Longrightarrow> player_reaches F P R (p\<lparr>abort_player := True\<rparr>)"

text \<open>The invariant: well-formed frame queues, and no picture newer than the packets.\<close>

definition frames_good :: "VideoState \<Rightarrow> bool" where
  "frames_good is \<longleftrightarrow> fq_ok (pictq is) \<and> fq_ok (subpq is) \<and> keep_last (pictq is)
     \<and> (\<forall>f \<in> set (held (pictq is)). fr_serial f \<le> serial (videoq is))"

lemma good_kept: "frames_good a \<Longrightarrow> pics_kept a b \<Longrightarrow> frames_good b"
  by (force simp: frames_good_def pics_kept_def)

lemma good_cong:
  "pictq b = pictq a \<Longrightarrow> subpq b = subpq a \<Longrightarrow> videoq b = videoq a \<Longrightarrow> frames_good b = frames_good a"
  by (simp add: frames_good_def)

lemma good_refreshed: "frames_good a \<Longrightarrow> refreshed a b \<Longrightarrow> frames_good b"
  by (auto simp: frames_good_def refreshed_def suffix_def)

lemma component_pics: "stream_component_open R m ret i p = (r, p') \<Longrightarrow> pics_kept (pv p) (pv p')"
proof -
  have "serial q \<le> serial (packet_queue_start n m q)" for n q
    by (simp add: packet_queue_start_def packet_queue_put_private_def Let_def)
  then show "stream_component_open R m ret i p = (r, p') \<Longrightarrow> pics_kept (pv p) (pv p')"
    by (auto simp: stream_component_open_def Let_def pics_kept_def split: if_splits option.splits media.splits)
qed

lemma close_pics: "pics_kept (pv p) (pv (stream_component_close i p))"
  by (auto simp: stream_component_close_def packet_queue_flush_def packet_queue_abort_def pics_kept_def Let_def
      split: option.splits media.splits)

lemma cycle_pics:
  assumes "stream_cycle_channel R m ret k p = Some (Inr p')"
  shows "pics_kept (pv p) (pv p')"
proof -
  have "p' = p \<or> (\<exists>p1 j old. pv p1 = pv p \<and> p' = snd (stream_component_open R m ret j (stream_component_close old p1)))"
  proof (cases "\<exists>c off old j. ic p = Some c \<and> cycle_search k c p = Some (Some (off, old, j))")
    case True
    then obtain c off old j where "ic p = Some c" "cycle_search k c p = Some (Some (off, old, j))" by blast
    moreover have "pv (if off then p\<lparr>last_subtitle_stream := -1\<rparr> else p) = pv p" by simp
    ultimately have "pv (if off then p\<lparr>last_subtitle_stream := -1\<rparr> else p) = pv p"
      "p' = snd (stream_component_open R m ret j
         (stream_component_close old (if off then p\<lparr>last_subtitle_stream := -1\<rparr> else p)))"
      using assms by (simp_all add: stream_cycle_channel_def Let_def split del: if_split)
    then show ?thesis by blast
  next
    case False
    then show ?thesis using assms by (auto simp: stream_cycle_channel_def split: option.splits)
  qed
  then show ?thesis
  proof
    assume "\<exists>p1 j old. pv p1 = pv p \<and> p' = snd (stream_component_open R m ret j (stream_component_close old p1))"
    then obtain p1 j old where p: "pv p1 = pv p" "p' = snd (stream_component_open R m ret j (stream_component_close old p1))" by blast
    obtain r where "stream_component_open R m ret j (stream_component_close old p1) = (r, p')" using p(2) by (metis prod.collapse)
    from pics_trans [OF close_pics component_pics [OF this]] show ?thesis using p(1) by simp
  qed simp
qed

lemma goes_cycle: "goes (stream_cycle_channel R m ret k p) = Goes p' \<Longrightarrow> pics_kept (pv p) (pv p')"
  using cycle_pics by (auto simp: goes_def split: option.splits sum.splits)

lemma and_then_Goes: "and_then r g = Goes p' \<longleftrightarrow> (\<exists>p1. r = Goes p1 \<and> g p1 = Goes p')"
  by (cases r) (simp_all add: and_then_def)

lemma seek_pics: "pics_kept is (stream_seek a b c is)"
  by (simp add: stream_seek_def pics_kept_def)

lemma seek_pics_after: "pics_kept is a \<Longrightarrow> pics_kept is (stream_seek x y z a)"
  using seek_pics pics_trans by blast

lemma master_pics: "get_master_clock F is = (m, is1) \<Longrightarrow> pics_kept is is1"
  using same_master_clock same_pics by blast

lemma user_seek_pics: "pics_kept is (do_seek F R c n is)" "pics_kept is (seek_chapter F c n is)"
  "pics_kept is (mouse_seek F R c x w is)"
proof -
  obtain m is1 where m: "get_master_clock F is = (m, is1)" by force
  note k = seek_pics_after [OF master_pics [OF m]] master_pics [OF m] seek_pics
  show "pics_kept is (do_seek F R c n is)" "pics_kept is (seek_chapter F c n is)" "pics_kept is (mouse_seek F R c x w is)"
    unfolding do_seek_def seek_chapter_def mouse_seek_def m Let_def prod.case using k by (simp_all split: if_splits)
qed

lemma toggle_display_pics: "toggle_audio_display is = Some is' \<Longrightarrow> pics_kept is is'"
  by (auto simp: toggle_audio_display_def pics_kept_def Let_def split: option.splits if_splits)

lemma pause_pics: "pics_kept is (toggle_pause F is)" "pics_kept is (step_to_next_frame F is)"
proof -
  have "pics_kept is (stream_toggle_pause F is)" using same_toggle_pause same_pics by blast
  then show "pics_kept is (toggle_pause F is)" by (simp add: toggle_pause_def pics_kept_def)
  show "pics_kept is (step_to_next_frame F is)" using step_next_same same_pics by blast
qed

lemma key_pics: "handle_key F R rets k p = Goes p' \<Longrightarrow> pics_kept (pv p) (pv p')"
proof -
  assume h: "handle_key F R rets k p = Goes p'"
  show ?thesis
  proof (cases k)
    case KeyAll
    then obtain p1 p2 where
      "goes (stream_cycle_channel R True (rets VideoType) VideoType p) = Goes p1"
      "goes (stream_cycle_channel R True (rets AudioType) AudioType p1) = Goes p2"
      "goes (stream_cycle_channel R True (rets SubtitleType) SubtitleType p2) = Goes p'"
      using h by (auto simp: handle_key_def and_then_Goes)
    then show ?thesis using goes_cycle pics_trans by blast
  next
    case KeyWaves
    then show ?thesis using h toggle_display_pics by (auto simp: handle_key_def split: if_splits option.splits)
  qed (use h user_seek_pics pause_pics in \<open>auto simp: handle_key_def on_state_def with_file_def pics_kept_def [of _ "_\<lparr>force_refresh := _\<rparr>"]
      dest: goes_cycle split: option.splits\<close>)
qed

text \<open>Changing a slot but for its serial number keeps the queue.\<close>

lemma slot_good:
  assumes "\<And>v. fr_serial (g v) = fr_serial v" "frames_good is"
  shows "frames_good (is\<lparr>pictq := update_slot i g (pictq is)\<rparr>)"
proof -
  let ?f = "pictq is" and ?f' = "update_slot i g (pictq is)"
  have ok: "fq_ok ?f' = fq_ok ?f" "keep_last ?f' = keep_last ?f" by (simp_all add: fq_ok_def update_slot_def)
  have s: "fr_serial (queue ?f' ! j) = fr_serial (queue ?f ! j)" for j
    using assms(1) by (cases "i = j"; cases "i < length (queue ?f)") (simp_all add: update_slot_def not_less list_update_beyond)
  have "fr_serial ` set (held ?f') = fr_serial ` set (held ?f)"
    using s by (simp add: held_def image_image update_slot_def [of i g "pictq is"])
  then have "(\<forall>x \<in> set (held ?f'). fr_serial x \<le> n) = (\<forall>x \<in> set (held ?f). fr_serial x \<le> n)" for n
    by (metis (no_types, lifting) image_iff)
  then show ?thesis using assms(2) ok by (simp add: frames_good_def)
qed

lemma alloc_good: "frames_good is \<Longrightarrow> alloc_picture create w h (pictq is) = Some f \<Longrightarrow> frames_good (is\<lparr>pictq := f\<rparr>)"
  by (auto simp: alloc_picture_def Let_def intro!: slot_good split: if_splits)

lemma event_good:
  assumes "frames_good (pv p)" "handle_event F R rets ev p = Goes p'"
  shows "frames_good (pv p')"
proof (cases "\<exists>create w h. ev = AllocEvent create w h")
  case True
  then show ?thesis using assms alloc_good by (auto simp: handle_event_def split: option.splits)
next
  case False
  then have "pics_kept (pv p) (pv p')"
    using assms(2) key_pics user_seek_pics(3)
    by (cases ev) (auto simp: handle_event_def on_state_def with_file_def pics_kept_def [of _ "_\<lparr>force_refresh := _\<rparr>"]
        split: option.splits if_splits)
  with assms(1) show ?thesis by (rule good_kept)
qed

lemma queue_picture_good:
  assumes "frames_good is" "n \<le> serial (videoq is)"
    "queue_picture (videoq is) q handled create w h t d pos n (pictq is) = Some (r, f)"
  shows "frames_good (is\<lparr>pictq := f\<rparr>)"
proof (cases "frame_queue_peek_writable (videoq is) (pictq is)")
  case None
  then show ?thesis using assms(3) by (simp add: queue_picture_def)
next
  case (Some j)
  show ?thesis
  proof (cases j)
    case None
    then show ?thesis using assms Some by (simp add: queue_picture_def frames_good_def)
  next
    case (Some i)
    note peek = \<open>frame_queue_peek_writable _ _ = Some j\<close> [unfolded Some]
    then have i: "i = windex (pictq is)" "fsize (pictq is) < int (max_size (pictq is))"
      by (auto simp: frame_queue_peek_writable_def split: if_splits)
    let ?f1 = "update_slot i (\<lambda>v. v\<lparr>allocated := False, fr_width := w, fr_height := h\<rparr>) (pictq is)"
    have g1: "frames_good (is\<lparr>pictq := ?f1\<rparr>)" using assms(1) by (intro slot_good) simp
    obtain f2 where f2: "(if handled then alloc_picture create w h ?f1 else Some ?f1) = Some f2"
      using assms(3) by (auto simp: queue_picture_def peek Let_def split: option.splits)
    have g2: "frames_good (is\<lparr>pictq := f2\<rparr>)"
      using alloc_good [OF g1, of create w h f2] f2 g1 by (auto split: if_splits)
    have w2: "windex f2 = i" "fsize f2 = fsize (pictq is)" "max_size f2 = max_size (pictq is)"
      using f2 i by (auto simp: alloc_picture_def update_slot_def Let_def split: if_splits)
    note r = assms(3) [unfolded queue_picture_def peek option.case Let_def f2]
    show ?thesis
    proof (cases "abort_request q \<or> bmp (queue f2 ! i) = None")
      case True
      then show ?thesis using r g2 by (auto split: if_splits)
    next
      case False
      let ?p = "(queue f2 ! i)\<lparr>fr_pts := t, fr_duration := d, fr_pos := pos, fr_serial := n\<rparr>"
      have "f = frame_queue_push (fill ?p f2)"
        using r False w2 by (auto simp: update_slot_def fill_def split: if_splits)
      then show ?thesis
        using held_push [of f2 ?p] push_fields [of ?p f2] g2 assms(2) i w2 by (simp add: frames_good_def)
    qed
  qed
qed

lemma wait_good:
  assumes "frames_good (pv p)"
  shows "\<exists>p'. wait_turn F P p = Some p' \<and> frames_good (pv p')"
proof -
  let ?is = "(pv p)\<lparr>remaining_time := f_lit F 1 100\<rparr>"
  have g: "frames_good ?is" using assms by (simp add: frames_good_def)
  then obtain is' where "video_refresh F P ?is = Some is'" "refreshed ?is is'"
    using video_refresh_ok [of ?is F P] by (auto simp: frames_good_def)
  then show ?thesis using g good_refreshed by (auto simp: wait_turn_def Let_def)
qed

lemma stream_open_good: "frames_good (stream_open F sync is0)"
proof -
  let ?is1 = "is0\<lparr>pictq := frame_queue_init (replicate FRAME_QUEUE_SIZE zero_frame) 3 True,
            subpq := frame_queue_init (replicate FRAME_QUEUE_SIZE zero_frame) 16 False,
            sampq := frame_queue_init (replicate FRAME_QUEUE_SIZE zero_frame) 9 True,
            videoq := packet_queue_init, audioq := packet_queue_init, subtitleq := packet_queue_init\<rparr>"
  have g: "frames_good ?is1"
    by (simp add: frames_good_def fq_ok_def held_def frame_queue_init_def FRAME_QUEUE_SIZE_def)
  have init: "same_queues a (init_clock F i q a)" for i q a
    unfolding init_clock_def using same_after same_put_clk by blast
  have "same_queues ?is1 (init_clock F Ext OwnSerial (init_clock F Aud AudioSerial (init_clock F Vid VideoSerial ?is1)))"
    using init same_queues_trans by blast
  from good_kept [OF g same_pics [OF this]] show ?thesis
    by (simp add: stream_open_def Let_def frames_good_def)
qed

lemma player_good: "player_reaches F P R p \<Longrightarrow> frames_good (pv p)"
proof (induction rule: player_reaches.induct)
  case (start p sync is0)
  then show ?case by (simp add: stream_open_good)
next
  case (opened p c md rt d)
  then show ?case by (simp add: frames_good_def)
next
  case (component p m ret i r p')
  then show ?case using good_kept component_pics by blast
next
  case (closed p i)
  then show ?case using good_kept close_pics by blast
next
  case (read p A e p')
  then show ?case using good_kept read_turn_pics(1) by blast
next
  case (wait p p')
  then show ?case using wait_good [of p F P] by auto
next
  case (event p rets ev p')
  then show ?case using event_good by blast
next
  case (picture p n q handled create w h t d pos r f)
  from queue_picture_good [OF picture.IH picture.hyps(2,3)] show ?case by simp
next
  case (subtitle p s f)
  then show ?case
    using held_push(1) [of "subpq (pv p)" s]
    by (auto simp: frames_good_def fq_put_def fill_def frame_queue_peek_writable_def split: if_splits)
next
  case (quit p)
  then show ?case by simp
qed

text \<open>C6. The display never stops.  In every state the player reaches - whatever is read, decoded, sought, opened,
  closed or typed, in whatever order - a turn of the waiting loop, with the refresh it makes, comes to an
  end, in a state from which the next one does too.\<close>

theorem display_goes_on:
  assumes "player_reaches F P R p"
  shows "\<exists>p'. wait_turn F P p = Some p' \<and> player_reaches F P R p'"
  using wait_good [OF player_good [OF assms], of F P] player_reaches.wait [OF assms] by blast

lemma open_reaches:
  "player_reaches F P R (closed_player\<lparr>pv := stream_open F AV_SYNC_AUDIO_MASTER demo_video\<rparr>)"
  by (rule player_reaches.start) simp

theorem display_goes_on_witness:
  "\<exists>p'. wait_turn (toy_fl (\<lambda>n. int n)) demo_opts
      (closed_player\<lparr>pv := stream_open (toy_fl (\<lambda>n. int n)) AV_SYNC_AUDIO_MASTER demo_video\<rparr>) = Some p'
    \<and> player_reaches (toy_fl (\<lambda>n. int n)) demo_opts demo_ropts p'"
  by (rule display_goes_on [OF open_reaches])


text \<open>A file with one video stream is opened, a picture is queued, and the right arrow is pressed.\<close>

definition demo_ticks :: fl where
  "demo_ticks = toy_fl (\<lambda>n. int n)"

definition demo_file :: container where
  "demo_file = \<lparr>streams = [\<lparr>st_type = Some VideoType, st_rate = 0, st_channels = 0, attached_pic = False, st_start_time = None\<rparr>],
     program = (\<lambda>i. None), nb_chapters = 0, chapter_after = (\<lambda>i t. False), chapter_start = (\<lambda>i. 0), is_rtsp = False,
     bit_rate = 0, file_start = None, file_pos = 0, file_size = 0, file_duration = 0\<rparr>"

definition demo_open :: Player where
  "demo_open =
     (let p0 = closed_player\<lparr>pv := stream_open demo_ticks AV_SYNC_AUDIO_MASTER demo_video\<rparr>;
          p1 = p0\<lparr>ic := Some demo_file, pv := (pv p0)\<lparr>mode := SHOW_MODE_VIDEO, realtime := False, max_frame_duration := 10\<rparr>\<rparr> in
      snd (stream_component_open demo_ropts True 0 0 p1))"

definition demo_waiting :: FrameQueue where
  "demo_waiting = snd (the (queue_picture (videoq (pv demo_open)) (videoq (pv demo_open)) True True 640 480 7 1 0 1 (pictq (pv demo_open))))"

definition demo_seeking :: Player where
  "demo_seeking =
     (case handle_event demo_ticks demo_ropts (\<lambda>k. 0) (Key KeyRight) (demo_open\<lparr>pv := (pv demo_open)\<lparr>pictq := demo_waiting\<rparr>\<rparr>) of
        Goes p \<Rightarrow> p | e \<Rightarrow> demo_open)"

definition demo_answers :: answers where
  "demo_answers = \<lparr>mem = True, seek_ret = (\<lambda>a b c. 0), copied = None, got = ReadError True False\<rparr>"

lemma demo_seeking_reached: "player_reaches demo_ticks demo_opts demo_ropts demo_seeking"
proof -
  let ?p0 = "closed_player\<lparr>pv := stream_open demo_ticks AV_SYNC_AUDIO_MASTER demo_video\<rparr>"
  let ?p1 = "?p0\<lparr>ic := Some demo_file, pv := (pv ?p0)\<lparr>mode := SHOW_MODE_VIDEO, realtime := False, max_frame_duration := 10\<rparr>\<rparr>"
  obtain r where r: "stream_component_open demo_ropts True 0 0 ?p1 = (r, demo_open)"
    unfolding demo_open_def Let_def by (metis prod.collapse)
  have o1: "player_reaches demo_ticks demo_opts demo_ropts demo_open"
    by (rule player_reaches.component [OF player_reaches.opened [OF open_reaches] r])
  have "queue_picture (videoq (pv demo_open)) (videoq (pv demo_open)) True True 640 480 7 1 0 1 (pictq (pv demo_open)) \<noteq> None
      \<and> 1 \<le> serial (videoq (pv demo_open))" by code_simp
  then obtain k where n: "1 \<le> serial (videoq (pv demo_open))"
    and q: "queue_picture (videoq (pv demo_open)) (videoq (pv demo_open)) True True 640 480 7 1 0 1 (pictq (pv demo_open))
      = Some (k, demo_waiting)" by (auto simp: demo_waiting_def)
  have o2: "player_reaches demo_ticks demo_opts demo_ropts (demo_open\<lparr>pv := (pv demo_open)\<lparr>pictq := demo_waiting\<rparr>\<rparr>)"
    by (rule player_reaches.picture [OF o1 n q])
  have "case handle_event demo_ticks demo_ropts (\<lambda>k. 0) (Key KeyRight) (demo_open\<lparr>pv := (pv demo_open)\<lparr>pictq := demo_waiting\<rparr>\<rparr>)
      of Goes p \<Rightarrow> True | _ \<Rightarrow> False" by code_simp
  then have "handle_event demo_ticks demo_ropts (\<lambda>k. 0) (Key KeyRight) (demo_open\<lparr>pv := (pv demo_open)\<lparr>pictq := demo_waiting\<rparr>\<rparr>)
      = Goes demo_seeking" by (auto simp: demo_seeking_def split: event_end.splits)
  from player_reaches.event [OF o2 this] show ?thesis .
qed


section \<open>Reading stops when the queues are full\<close>

definition total_size :: "VideoState \<Rightarrow> int" where
  "total_size is = qsize (audioq is) + qsize (videoq is) + qsize (subtitleq is)"

lemma put_size:
  "0 \<le> n \<Longrightarrow> 0 \<le> pkt_size p \<Longrightarrow> qsize (snd (snd (packet_queue_put n d m q p))) \<le> qsize q + pkt_size p + n"
  "0 \<le> n \<Longrightarrow> qsize (snd (snd (packet_queue_put_nullpacket n d m q i))) \<le> qsize q + n"
  by (auto simp: packet_queue_put_nullpacket_def packet_queue_put_def packet_queue_put_private_def Let_def)

lemma total_put:
  "0 \<le> node_size R \<Longrightarrow> 0 \<le> pkt_size a \<Longrightarrow> total_size (put_on R m k a is) \<le> total_size is + pkt_size a + node_size R"
  "0 \<le> node_size R \<Longrightarrow> total_size (put_null_on R m k i is) \<le> total_size is + node_size R"
  using put_size(1) [of "node_size R" a m m "audioq is"] put_size(1) [of "node_size R" a m m "videoq is"]
    put_size(1) [of "node_size R" a m m "subtitleq is"] put_size(2) [of "node_size R" m m "audioq is" i]
    put_size(2) [of "node_size R" m m "videoq is" i] put_size(2) [of "node_size R" m m "subtitleq is" i]
  by (cases k; simp add: put_on_def put_null_on_def total_size_def)+

lemma end_step_total: "end_step R p = (q, p') \<Longrightarrow> total_size (pv p') = total_size (pv p)"
  by (auto simp: end_step_def stream_seek_def total_size_def Let_def split: if_splits)

lemma end_of_file_total:
  assumes "0 \<le> node_size R"
  shows "total_size (pv (end_of_file R m p)) \<le> total_size (pv p) + 3 * node_size R"
proof -
  have null: "total_size (if c then put_null_on R m k i b else b) \<le> total_size b + node_size R" for c k i b
    using total_put(2) assms by simp
  define a where "a = (if 0 \<le> video_stream (pv p) then put_null_on R m VideoType (video_stream (pv p)) (pv p) else pv p)"
  define b where "b = (if 0 \<le> audio_stream (pv p) then put_null_on R m AudioType (audio_stream (pv p)) a else a)"
  have "pv (end_of_file R m p) = (if 0 \<le> subtitle_stream p then put_null_on R m SubtitleType (subtitle_stream p) b else b)"
    unfolding end_of_file_def Let_def a_def [symmetric] b_def [symmetric] by (simp split del: if_split)
  moreover have "total_size a \<le> total_size (pv p) + node_size R" "total_size b \<le> total_size a + node_size R"
    unfolding a_def b_def by (rule null)+
  ultimately show ?thesis using null [of "0 \<le> subtitle_stream p" SubtitleType "subtitle_stream p" b] by (simp split del: if_split)
qed

text \<open>C26. The memory of the queues is bounded.  Unless the buffer is asked to be infinite, a turn without a seek
  and without a picture to attach lets the three queues together grow by at most one packet above
  \<open>MAX_QUEUE_SIZE\<close> (or the packets that mark the end of the file); once they are above it they do not
  grow at all.\<close>

theorem reading_is_bounded:
  assumes "infinite_buffer p < 1" "\<not> seek_req (pv p)" "\<not> queue_attachments_req p" "0 \<le> node_size R"
    and "\<And>a t tick. got A = GotPacket a t tick \<Longrightarrow> 0 \<le> pkt_size a \<and> pkt_size a \<le> big" "0 \<le> big"
    and "read_turn F R A p = (e, p')"
  shows "total_size (pv p') \<le> max (total_size (pv p)) (MAX_QUEUE_SIZE + big + 3 * node_size R)
    \<and> (MAX_QUEUE_SIZE < total_size (pv p) \<longrightarrow> total_size (pv p') = total_size (pv p))"
proof -
  define p1 where "p1 = note_pause p"
  have p1: "pv p1 = pv p" "infinite_buffer p1 = infinite_buffer p" "queue_attachments_req p1 = queue_attachments_req p"
    by (simp_all add: p1_def note_pause_def)
  have r: "p' = p \<or> p' = p1 \<or> turn_rest F R A p1 = (e, p')"
    using assms(2,7) by (auto simp: read_turn_def Let_def p1_def [symmetric] p1(1) split: if_splits)
  show ?thesis
  proof (cases "p' = p \<or> p' = p1")
    case True
    then show ?thesis using p1(1) by auto
  next
    case False
    then have t: "turn_rest F R A p1 = (e, p')" using r by blast
    have at: "attach_step R (mem A) (copied A) p1 = Some p1" using assms(3) p1(3) by (simp add: attach_step_def)
    have nf: "\<not> queues_full p1" using t False by (auto simp: turn_rest_def at)
    then have small: "total_size (pv p) \<le> MAX_QUEUE_SIZE"
      using assms(1) p1 by (auto simp: queues_full_def total_size_def Let_def)
    obtain quit p4 where q: "end_step R p1 = (quit, p4)" by force
    have t4: "total_size (pv p4) = total_size (pv p)" using end_step_total [OF q] p1(1) by simp
    have "total_size (pv p') \<le> total_size (pv p4) + big + 3 * node_size R"
    proof (cases quit)
      case True
      then show ?thesis using t nf assms(4,6) by (simp add: turn_rest_def at q)
    next
      case False
      show ?thesis
      proof (cases "got A")
        case (GotPacket a t' tick)
        then have "p' = store_packet F R (mem A) a t' tick (p4\<lparr>eof_sent := False\<rparr>)"
          using t nf False by (simp add: turn_rest_def at q)
        moreover have "total_size (put_on R (mem A) k a (pv p4)) \<le> total_size (pv p4) + big + 3 * node_size R" for k
          using total_put(1) [of R a "mem A" k "pv p4"] assms(4) assms(5) [OF GotPacket] by simp
        moreover have "total_size (pv p4) \<le> total_size (pv p4) + big + 3 * node_size R" using assms(4,6) by simp
        ultimately show ?thesis by (simp add: store_packet_def Let_def)
      next
        case (ReadError x y)
        then have "p' = (if x \<and> \<not> eof_sent p4 then end_of_file R (mem A) p4 else p4)"
          using t nf False by (simp add: turn_rest_def at q Let_def)
        then show ?thesis using end_of_file_total [OF assms(4), of "mem A" p4] assms(4,6) by auto
      qed
    qed
    then show ?thesis using small t4 by simp
  qed
qed

definition demo_packet :: answers where
  "demo_packet = demo_answers\<lparr>got := GotPacket \<lparr>data = Bytes ''x'', pkt_size = 1000, stream_index = 0\<rparr> 0 0\<rparr>"

theorem reading_is_bounded_witness:
  "total_size (pv (snd (read_turn demo_ticks demo_ropts demo_packet (demo_open\<lparr>queue_attachments_req := False\<rparr>))))
     \<le> max 100 (MAX_QUEUE_SIZE + 1000 + 3 * 100)"
proof -
  let ?p = "demo_open\<lparr>queue_attachments_req := False\<rparr>"
  have h: "infinite_buffer ?p < 1" "\<not> seek_req (pv ?p)" "\<not> queue_attachments_req ?p" "0 \<le> node_size demo_ropts"
    "total_size (pv ?p) = 100" "node_size demo_ropts = 100" by code_simp+
  have g: "got demo_packet = GotPacket a t tick \<Longrightarrow> 0 \<le> pkt_size a \<and> pkt_size a \<le> 1000" for a t tick
    by (auto simp: demo_packet_def)
  obtain e p' where r: "read_turn demo_ticks demo_ropts demo_packet ?p = (e, p')" by force
  show ?thesis using reading_is_bounded [OF h(1-4) g _ r] h(5,6) r by simp
qed

section \<open>Chapters\<close>

text \<open>
  The chapter a seek by chapters starts from is the current one, except in the last chapter, where it is
  one too many: going back from there leads to the start of the last chapter instead of the one before.
\<close>

lemma chapter_at_last:
  assumes "\<And>i. i < nb_chapters c \<Longrightarrow> chapter_after c i pos \<longleftrightarrow> j < i" "j < nb_chapters c"
  shows "chapter_at c pos = (if j + 1 = nb_chapters c then int (nb_chapters c) else int j)"
proof (cases "j + 1 = nb_chapters c")
  case True
  have "find (\<lambda>i. chapter_after c i pos) [0..<nb_chapters c] = None"
    using assms(1) True by (auto simp: find_None_iff)
  then show ?thesis using True by (simp add: chapter_at_def)
next
  case False
  have "find (\<lambda>i. chapter_after c i pos) [0..<nb_chapters c] = Some (j + 1)"
    using assms False by (auto simp: find_Some_iff intro!: exI [of _ "j + 1"])
  then show ?thesis using False by (simp add: chapter_at_def)
qed

end
