(* ===== verification/PlayerThreads.thy ===== *)
theory PlayerThreads
  imports PlayerControl PlayerAudio
begin

unbundle bit_operations_syntax

text \<open>
  The other threads of \<open>src/ffplay2.c\<close>: what \<open>read_thread\<close> does before its loop and after it, and a turn
  of each decoding thread, from a decoded frame through the filters into the frame queue.

  Demuxing, decoding and filtering are parameters by their results; waiting for room is \<open>None\<close>.
\<close>

section \<open>Opening the file\<close>

record file_setup =
  open_ret :: int
  unknown_option :: bool
  info_ret :: int
  the_file :: container
  ts_discont :: bool
  format_name :: string
  has_pb :: bool
  file_name :: string
  no_video :: bool
  no_audio :: bool
  no_subtitle :: bool
  wanted_mode :: show_mode
  wanted_stream :: "media \<Rightarrow> int"
  best_stream :: "media \<Rightarrow> int \<Rightarrow> int \<Rightarrow> int"
  component_ret :: "media \<Rightarrow> int"

definition AVERROR_OPTION_NOT_FOUND :: int where
  "AVERROR_OPTION_NOT_FOUND = - (0xF8 + 0x4F * 2 ^ 8 + 0x50 * 2 ^ 16 + 0x54 * 2 ^ 24)"

text \<open>The numbers of the streams to open.\<close>

definition video_index :: "file_setup \<Rightarrow> int" where
  "video_index S = (if \<not> no_video S then best_stream S VideoType (wanted_stream S VideoType) (-1) else -1)"

definition audio_index :: "file_setup \<Rightarrow> int" where
  "audio_index S =
     (if \<not> no_audio S then best_stream S AudioType (wanted_stream S AudioType) (video_index S) else -1)"

definition subtitle_index :: "file_setup \<Rightarrow> int" where
  "subtitle_index S =
     (if \<not> no_video S \<and> \<not> no_subtitle S
      then best_stream S SubtitleType (wanted_stream S SubtitleType)
             (if 0 \<le> audio_index S then audio_index S else video_index S)
      else -1)"

definition open_streams :: "ropts \<Rightarrow> file_setup \<Rightarrow> Player \<Rightarrow> Player" where
  "open_streams R S p =
     (let p1 = (if 0 \<le> audio_index S
                then snd (stream_component_open R True (component_ret S AudioType) (audio_index S) p) else p);
          (ret, p2) = (if 0 \<le> video_index S
                then stream_component_open R True (component_ret S VideoType) (video_index S) p1 else (-1, p1));
          p3 = (if mode (pv p2) = SHOW_MODE_NONE
                then p2\<lparr>pv := (pv p2)\<lparr>mode := (if 0 \<le> ret then SHOW_MODE_VIDEO else SHOW_MODE_RDFT)\<rparr>\<rparr> else p2) in
      if 0 \<le> subtitle_index S
      then snd (stream_component_open R True (component_ret S SubtitleType) (subtitle_index S) p3) else p3)"

text \<open>
  The first result is \<open>ret\<close> when the code goes to \<open>fail\<close>.  Options given to the libraries, the title, the start
  time (a seek of the file alone) and the default size of the window are left out; \<open>seek_by_bytes\<close> is an option.
\<close>

definition read_setup :: "fl \<Rightarrow> ropts \<Rightarrow> file_setup \<Rightarrow> Player \<Rightarrow> int option \<times> Player" where
  "read_setup F R S p =
     (let p0 = p\<lparr>subtitle_stream := -1, last_video_stream := -1, last_audio_stream := -1, last_subtitle_stream := -1,
                 pv := (pv p)\<lparr>video_stream := -1, audio_stream := -1\<rparr>\<rparr> in
      if open_ret S < 0 then (Some (-1), p0)
      else if unknown_option S then (Some AVERROR_OPTION_NOT_FOUND, p0)
      else
        let p1 = p0\<lparr>ic := Some (the_file S)\<rparr> in
        if info_ret S < 0 then (Some (-1), p1)
        else
          let rt = is_realtime (format_name S) (has_pb S) (file_name S);
              p2 = p1\<lparr>pv := (pv p1)\<lparr>max_frame_duration := (if ts_discont S then f_lit F 10 1 else f_lit F 3600 1),
                                    realtime := rt, mode := wanted_mode S\<rparr>\<rparr>;
              p3 = open_streams R S p2 in
          if video_stream (pv p3) < 0 \<and> audio_stream (pv p3) < 0 then (Some (-1), p3)
          else (None, if infinite_buffer p3 < 0 \<and> rt then p3\<lparr>infinite_buffer := 1\<rparr> else p3))"

definition read_finish :: "Player \<Rightarrow> Player" where
  "read_finish p =
     (let a = (if 0 \<le> audio_stream (pv p) then stream_component_close (audio_stream (pv p)) p else p);
          b = (if 0 \<le> video_stream (pv a) then stream_component_close (video_stream (pv a)) a else a);
          c = (if 0 \<le> subtitle_stream b then stream_component_close (subtitle_stream b) b else b) in
      c\<lparr>ic := None\<rparr>)"

lemma component_mode:
  "mode (pv (snd (stream_component_open R m ret i p))) = mode (pv p)"
  "ic (snd (stream_component_open R m ret i p)) = ic p"
  by (auto simp: stream_component_open_def Let_def split: option.splits media.splits)

text \<open>The streams that are numbered are the ones that are there.\<close>

definition streams_set :: "Player \<Rightarrow> bool" where
  "streams_set p \<longleftrightarrow> (0 \<le> video_stream (pv p) \<longrightarrow> has_video (pv p)) \<and> (0 \<le> audio_stream (pv p) \<longrightarrow> has_audio (pv p))"

lemma component_streams:
  "streams_set p \<Longrightarrow> streams_set (snd (stream_component_open R m ret i p))"
  by (auto simp: stream_component_open_def Let_def streams_set_def split: option.splits media.splits)

text \<open>C28. When the reading thread comes to its loop, the player can take every key: the file is open, a video or a
  sound stream is there, a mode is chosen, and the key for the display of sound returns.\<close>

theorem setup_makes_keys_safe:
  assumes "read_setup F R S p = (None, p')"
  shows "ic p' = Some (the_file S) \<and> mode (pv p') \<noteq> SHOW_MODE_NONE \<and> (has_video (pv p') \<or> has_audio (pv p'))
    \<and> toggle_audio_display (pv p') \<noteq> None"
proof -
  define p2 where "p2 = (let p0 = p\<lparr>subtitle_stream := -1, last_video_stream := -1, last_audio_stream := -1, last_subtitle_stream := -1,
                 pv := (pv p)\<lparr>video_stream := -1, audio_stream := -1\<rparr>\<rparr>; p1 = p0\<lparr>ic := Some (the_file S)\<rparr> in
      p1\<lparr>pv := (pv p1)\<lparr>max_frame_duration := (if ts_discont S then f_lit F 10 1 else f_lit F 3600 1),
          realtime := is_realtime (format_name S) (has_pb S) (file_name S), mode := wanted_mode S\<rparr>\<rparr>)"
  define p3 where "p3 = open_streams R S p2"
  have p': "p' = p3 \<or> p' = p3\<lparr>infinite_buffer := 1\<rparr>" "0 \<le> video_stream (pv p3) \<or> 0 \<le> audio_stream (pv p3)"
    using assms by (auto simp: read_setup_def Let_def p2_def p3_def split: if_splits)
  have 2: "streams_set p2" "ic p2 = Some (the_file S)" by (simp_all add: p2_def Let_def streams_set_def)
  define a where "a = (if 0 \<le> audio_index S
        then snd (stream_component_open R True (component_ret S AudioType) (audio_index S) p2) else p2)"
  obtain ret b where b: "(if 0 \<le> video_index S
        then stream_component_open R True (component_ret S VideoType) (video_index S) a else (-1, a)) = (ret, b)" by force
  define c where "c = (if mode (pv b) = SHOW_MODE_NONE
        then b\<lparr>pv := (pv b)\<lparr>mode := (if 0 \<le> ret then SHOW_MODE_VIDEO else SHOW_MODE_RDFT)\<rparr>\<rparr> else b)"
  have p3: "p3 = (if 0 \<le> subtitle_index S
      then snd (stream_component_open R True (component_ret S SubtitleType) (subtitle_index S) c) else c)"
    by (simp only: p3_def open_streams_def Let_def a_def [symmetric] b prod.case c_def)
  have "streams_set a \<and> ic a = Some (the_file S)" using 2 component_streams component_mode(2) by (simp add: a_def)
  moreover have "b = a \<or> b = snd (stream_component_open R True (component_ret S VideoType) (video_index S) a)"
    using b by (auto split: if_splits)
  ultimately have "streams_set b \<and> ic b = Some (the_file S)" using component_streams component_mode(2) by auto
  then have "streams_set c \<and> ic c = Some (the_file S) \<and> mode (pv c) \<noteq> SHOW_MODE_NONE" by (simp add: c_def streams_set_def)
  then have "streams_set p3 \<and> ic p3 = Some (the_file S) \<and> mode (pv p3) \<noteq> SHOW_MODE_NONE"
    using component_streams component_mode by (simp add: p3)
  then show ?thesis using p' toggle_none [of "pv p'"] by (auto simp: streams_set_def)
qed

definition demo_setup :: file_setup where
  "demo_setup = \<lparr>open_ret = 0, unknown_option = False, info_ret = 0, the_file = demo_file, ts_discont = True,
     format_name = ''mpegts'', has_pb = True, file_name = ''a.ts'', no_video = False, no_audio = False, no_subtitle = False,
     wanted_mode = SHOW_MODE_NONE, wanted_stream = (\<lambda>k. -1), best_stream = (\<lambda>k w r. if k = VideoType then 0 else -5),
     component_ret = (\<lambda>k. 0)\<rparr>"

theorem setup_makes_keys_safe_witness:
  "toggle_audio_display (pv (snd (read_setup demo_ticks demo_ropts demo_setup closed_player))) \<noteq> None
   \<and> mode (pv (snd (read_setup demo_ticks demo_ropts demo_setup closed_player))) = SHOW_MODE_VIDEO"
proof -
  obtain e p' where r: "read_setup demo_ticks demo_ropts demo_setup closed_player = (e, p')" by force
  have "fst (read_setup demo_ticks demo_ropts demo_setup closed_player) = None"
    "mode (pv (snd (read_setup demo_ticks demo_ropts demo_setup closed_player))) = SHOW_MODE_VIDEO" by code_simp+
  then show ?thesis using setup_makes_keys_safe [of demo_ticks demo_ropts demo_setup closed_player p'] r by simp
qed

section \<open>The video thread\<close>

text \<open>What the filters give for a picture: its size, time and position, and how its hand-over goes.\<close>

record filtered =
  o_width :: int
  o_height :: int
  o_pts :: "f64 option"
  o_pos :: int
  o_handled :: bool
  o_create :: bool
  o_abort :: bool

record vthread =
  last_w :: int
  last_h :: int
  last_format :: int
  last_serial :: int
  last_vfilter :: int

definition filter_delay :: "fl \<Rightarrow> VideoState \<Rightarrow> VideoState" where
  "filter_delay F is0 =
     (let (t0, is1) = gettime F is0;
          (t1, is2) = gettime F is1;
          dly = f_sub F t1 t0 in
      is2\<lparr>frame_last_filter_delay := (if f_lt F (f_lit F 1 1) (f_abs F dly) then f_lit F 0 1 else dly)\<rparr>)"

lemma filter_delay_keeps [simp]:
  "pictq (filter_delay F v) = pictq v" "viddec_pkt_serial (filter_delay F v) = viddec_pkt_serial v"
  "videoq (filter_delay F v) = videoq v"
  by (simp_all add: filter_delay_def gettime_def Let_def)

text \<open>The loop over the filtered pictures; \<open>d\<close> is the duration of one, \<open>ended\<close> that the filter has come to its end.\<close>

fun video_filtered :: "fl \<Rightarrow> f64 \<Rightarrow> bool \<Rightarrow> filtered list \<Rightarrow> Player \<Rightarrow> (int \<times> Player) option" where
  "video_filtered F d ended [] p =
     (let (t, is1) = gettime F (pv p) in
      Some (0, (if ended then p\<lparr>viddec_finished := viddec_pkt_serial is1\<rparr> else p)\<lparr>pv := is1\<rparr>))"
| "video_filtered F d ended (x # xs) p =
     (let is3 = filter_delay F (pv p);
          q1 = (videoq is3)\<lparr>abort_request := o_abort x\<rparr> in
      case queue_picture (videoq is3) q1 (o_handled x) (o_create x) (o_width x) (o_height x)
             (case o_pts x of None \<Rightarrow> NAN F | Some t \<Rightarrow> t) d (o_pos x) (viddec_pkt_serial is3) (pictq is3) of
        None \<Rightarrow> None
      | Some (r, f) \<Rightarrow>
          let p1 = p\<lparr>pv := is3\<lparr>pictq := f\<rparr>\<rparr> in
          if r < 0 then Some (r, p1) else video_filtered F d ended xs p1)"

text \<open>
  A turn: \<open>gotp\<close> and \<open>dpts\<close> are as in \<open>get_video_frame\<close>, \<open>w\<close>, \<open>h\<close> and \<open>fmt\<close> the decoded picture's;
  \<open>conf\<close> and \<open>add\<close> are what setting up the filters and feeding them return.  The first result is \<open>ret\<close>; the
  thread ends when it is negative.  The quit event is the last component.
\<close>

definition video_turn ::
  "fl \<Rightarrow> popts \<Rightarrow> int \<Rightarrow> f64 option \<Rightarrow> int \<Rightarrow> int \<Rightarrow> int \<Rightarrow> int \<Rightarrow> int \<Rightarrow> f64 \<Rightarrow> bool \<Rightarrow> filtered list \<Rightarrow> vthread \<Rightarrow> Player
   \<Rightarrow> (int \<times> vthread \<times> Player \<times> bool) option" where
  "video_turn F P gotp dpts w h fmt conf add d ended outs v p =
     (let (ret, is1) = get_video_frame F P gotp dpts (pv p); p1 = p\<lparr>pv := is1\<rparr> in
      if ret < 0 then Some (ret, v, p1, False)
      else if ret = 0 then Some (0, v, p1, False)
      else
        let changed = (last_w v \<noteq> w \<or> last_h v \<noteq> h \<or> last_format v \<noteq> fmt
                       \<or> last_serial v \<noteq> viddec_pkt_serial is1 \<or> last_vfilter v \<noteq> vfilter_idx p1);
            v1 = (if changed
                  then \<lparr>last_w = w, last_h = h, last_format = fmt, last_serial = viddec_pkt_serial is1, last_vfilter = vfilter_idx p1\<rparr>
                  else v) in
        if changed \<and> conf < 0 then Some (conf, v, p1, True)
        else if add < 0 then Some (add, v1, p1, False)
        else map_option (\<lambda>(r, p2). (r, v1, p2, False)) (video_filtered F d ended outs p1))"

lemma queue_picture_puts:
  assumes "fq_ok f" "queue_picture q0 q1 handled create w h t d pos n f = Some (r, f')" "0 \<le> r"
    "windex f < length (queue f)"
  shows "fq_ok f' \<and> keep_last f' = keep_last f \<and> (unshown f' = unshown f \<or>
     (\<exists>p. unshown f' = unshown f @ [p] \<and> fr_serial p = n \<and> fr_pts p = t))"
proof -
  let ?f1 = "update_slot (windex f) (\<lambda>v. v\<lparr>allocated := False, fr_width := w, fr_height := h\<rparr>) f"
  have peek: "frame_queue_peek_writable q0 f = Some (Some (windex f))" "fsize f < int (max_size f)"
    using assms(2,3) by (auto simp: queue_picture_def frame_queue_peek_writable_def split: if_splits)
  obtain f2 where f2: "(if handled then alloc_picture create w h ?f1 else Some ?f1) = Some f2"
    using assms(2) by (auto simp: queue_picture_def peek Let_def split: option.splits)
  have s2: "\<exists>v. f2 = f\<lparr>queue := (queue f)[windex f := v]\<rparr>"
    using f2 by (auto simp: alloc_picture_def update_slot_def Let_def split: if_splits)
  note r = assms(2) [unfolded queue_picture_def peek option.case Let_def f2]
  have ok2: "fq_ok f2" "fsize f2 < int (max_size f2)" "rindex_shown f2 = rindex_shown f" "keep_last f2 = keep_last f"
    using s2 assms(1) peek(2) by (auto simp: fq_ok_def)
  have h2: "held f2 = held f"
  proof -
    have "windex f \<noteq> (rindex f + i) mod max_size f" if "i < nat (fsize f)" for i
    proof -
      have "i < max_size f" "nat (fsize f) < max_size f" "rindex f < max_size f"
        "windex f = (rindex f + nat (fsize f)) mod max_size f"
        using that peek(2) assms(1) by (auto simp: fq_ok_def)
      then show ?thesis using mod_add_inj [of "rindex f" "max_size f" i "nat (fsize f)"] that by auto
    qed
    then show ?thesis using s2 by (auto simp: held_def)
  qed
  show ?thesis
  proof (cases "bmp (queue f2 ! windex f) = None")
    case True
    then have "f' = f2" using r assms(3) by (auto split: if_splits)
    then show ?thesis using ok2 h2 by (simp add: unshown_def)
  next
    case False
    let ?p = "(queue f2 ! windex f)\<lparr>fr_pts := t, fr_duration := d, fr_pos := pos, fr_serial := n\<rparr>"
    have "windex f2 = windex f" using s2 by auto
    then have f': "f' = frame_queue_push (fill ?p f2)"
      using r assms(3) False by (auto simp: update_slot_def fill_def split: if_splits)
    have "rindex_shown f \<le> length (held f)" using assms(1) by (auto simp: fq_ok_def)
    then have "unshown f' = unshown f @ [?p]"
      using held_push(2) [OF ok2(1,2), of ?p] push_fields(3) [of ?p f2] h2 ok2(3) by (simp add: f' unshown_def)
    moreover have "fq_ok f'" "keep_last f' = keep_last f"
      using held_push(1) [OF ok2(1,2), of ?p] push_fields(2) [of ?p f2] ok2(4) by (simp_all add: f')
    ultimately show ?thesis by (intro conjI disjI2 exI [of _ ?p]) simp_all
  qed
qed

text \<open>The pictures a list of filter outputs may become: in order, of one serial number, and with their times.\<close>

definition pictures_of :: "fl \<Rightarrow> int \<Rightarrow> filtered list \<Rightarrow> Frame list \<Rightarrow> bool" where
  "pictures_of F n outs ps \<longleftrightarrow> (\<forall>p \<in> set ps. fr_serial p = n)
     \<and> subseq (map fr_pts ps) (map (\<lambda>x. case o_pts x of None \<Rightarrow> NAN F | Some t \<Rightarrow> t) outs)"

lemma video_filtered_order:
  "fq_ok (pictq (pv p)) \<Longrightarrow> video_filtered F d ended outs p = Some (r, p') \<Longrightarrow> 0 \<le> r \<Longrightarrow>
   fq_ok (pictq (pv p')) \<and>
   (\<exists>ps. unshown (pictq (pv p')) = unshown (pictq (pv p)) @ ps \<and> pictures_of F (viddec_pkt_serial (pv p)) outs ps)"
proof (induction outs arbitrary: p)
  case Nil
  then show ?case by (auto simp: gettime_def pictures_of_def intro!: exI [of _ "[]"] split: if_splits)
next
  case (Cons x xs)
  let ?t = "case o_pts x of None \<Rightarrow> NAN F | Some t \<Rightarrow> t"
  let ?q = "queue_picture (videoq (pv p)) ((videoq (pv p))\<lparr>abort_request := o_abort x\<rparr>) (o_handled x) (o_create x) (o_width x) (o_height x)
             ?t d (o_pos x) (viddec_pkt_serial (pv p)) (pictq (pv p))"
  obtain r1 f where q: "?q = Some (r1, f)" using Cons.prems(2) by (cases ?q) (auto simp: Let_def)
  define p1 where "p1 = p\<lparr>pv := (filter_delay F (pv p))\<lparr>pictq := f\<rparr>\<rparr>"
  have p1: "pictq (pv p1) = f" "viddec_pkt_serial (pv p1) = viddec_pkt_serial (pv p)" by (simp_all add: p1_def)
  have r1: "0 \<le> r1" "video_filtered F d ended xs p1 = Some (r, p')"
    using Cons.prems(2,3) q by (auto simp: Let_def p1_def split: if_splits)
  have w: "windex (pictq (pv p)) < length (queue (pictq (pv p)))"
    using Cons.prems(1) by (auto simp: fq_ok_def intro: less_le_trans [OF mod_less_divisor])
  from queue_picture_puts [OF Cons.prems(1) q r1(1) w] have f: "fq_ok f"
    "\<exists>ys. unshown f = unshown (pictq (pv p)) @ ys \<and>
       (ys = [] \<or> (\<exists>y. ys = [y] \<and> fr_serial y = viddec_pkt_serial (pv p) \<and> fr_pts y = ?t))" by auto
  then obtain ys where ys: "unshown f = unshown (pictq (pv p)) @ ys"
    "ys = [] \<or> (\<exists>y. ys = [y] \<and> fr_serial y = viddec_pkt_serial (pv p) \<and> fr_pts y = ?t)" by blast
  from Cons.IH [OF _ r1(2) Cons.prems(3), unfolded p1] f(1) obtain zs where
    zs: "fq_ok (pictq (pv p'))" "unshown (pictq (pv p')) = unshown f @ zs"
        "pictures_of F (viddec_pkt_serial (pv p)) xs zs" by auto
  have "pictures_of F (viddec_pkt_serial (pv p)) (x # xs) (ys @ zs)"
    using ys(2) zs(3) by (auto simp: pictures_of_def)
  then show ?case using zs(1,2) ys(1) by (intro conjI exI [of _ "ys @ zs"]) simp_all
qed

section \<open>The audio thread\<close>

definition AVERROR_EOF :: int where
  "AVERROR_EOF = - (0x45 + 0x4F * 2 ^ 8 + 0x46 * 2 ^ 16 + 0x20 * 2 ^ 24)"

definition cmp_audio_fmts :: "(int \<Rightarrow> int) \<Rightarrow> int \<Rightarrow> int \<Rightarrow> int \<Rightarrow> int \<Rightarrow> bool" where
  "cmp_audio_fmts packed fmt1 count1 fmt2 count2 =
     (if count1 = 1 \<and> count2 = 1 then packed fmt1 \<noteq> packed fmt2 else count1 \<noteq> count2 \<or> fmt1 \<noteq> fmt2)"

definition get_valid_channel_layout :: "(int \<Rightarrow> int) \<Rightarrow> int \<Rightarrow> int \<Rightarrow> int" where
  "get_valid_channel_layout nb_channels layout channels =
     (if layout \<noteq> 0 \<and> nb_channels layout = channels then layout else 0)"

text \<open>
  What the filters give: the samples, their time and position; \<open>s_abort\<close> says whether the queue is aborted
  when the slot is asked for, \<open>s_now\<close> is the serial number of the packet queue after the frame is queued.
\<close>

record sampled =
  s_frame :: AVFrame
  s_pts :: "f64 option"
  s_pos :: int
  s_abort :: bool
  s_now :: int

text \<open>
  The loop over them, for the serial number \<open>n\<close> of the decoder; \<open>e\<close> is the error that ends the output.  The
  first result is \<open>ret\<close>, or \<open>None\<close> when the thread goes to its end; \<open>Waits\<close>: no slot is free.
\<close>

fun audio_filtered :: "fl \<Rightarrow> int \<Rightarrow> int \<Rightarrow> PacketQueue \<Rightarrow> sampled list \<Rightarrow> FrameQueue \<Rightarrow> (int option \<times> FrameQueue) run" where
  "audio_filtered F n e q [] f = Returns (Some e, f)"
| "audio_filtered F n e q (x # xs) f =
     (case frame_queue_peek_writable (q\<lparr>abort_request := s_abort x\<rparr>) f of
        None \<Rightarrow> Waits
      | Some None \<Rightarrow> Returns (None, f)
      | Some (Some i) \<Rightarrow>
          if length (queue f) \<le> i then Fault OutOfBounds
          else
            let f1 = frame_queue_push (update_slot i (\<lambda>v. v\<lparr>
                       fr_pts := (case s_pts x of None \<Rightarrow> NAN F | Some t \<Rightarrow> t), fr_pos := s_pos x, fr_serial := n,
                       fr_duration := f_div F (f_int F (nb_samples (s_frame x))) (f_int F (sample_rate (s_frame x))),
                       fr_data := Some (s_frame x)\<rparr>) f) in
            if s_now x \<noteq> n then Returns (Some 0, f1) else audio_filtered F n e q xs f1)"

text \<open>The thread's own state: what the filters are set up for.\<close>

record athread =
  filter_src :: AudioParams
  filter_serial :: int

text \<open>
  A turn: \<open>gotf\<close> is what \<open>decoder_decode_frame\<close> gave (\<open>None\<close>: it ends; \<open>Some None\<close>: no frame), \<open>n\<close> the
  decoder's serial number, \<open>conf\<close> and \<open>add\<close> what setting up and feeding the filters return, \<open>e\<close> the error
  that ends their output.  The first result says whether the thread goes on.
\<close>

definition goes_on :: "int \<Rightarrow> bool" where
  "goes_on ret \<longleftrightarrow> 0 \<le> ret \<or> ret = -11 \<or> ret = AVERROR_EOF"

definition audio_turn ::
  "fl \<Rightarrow> (int \<Rightarrow> int) \<Rightarrow> (int \<Rightarrow> int) \<Rightarrow> AVFrame option option \<Rightarrow> int \<Rightarrow> int \<Rightarrow> int \<Rightarrow> int \<Rightarrow> sampled list \<Rightarrow> athread \<Rightarrow> Player
   \<Rightarrow> (bool \<times> athread \<times> Player) run" where
  "audio_turn F packed nb_channels gotf n conf add e outs a p =
     (case gotf of
        None \<Rightarrow> Returns (False, a, p)
      | Some None \<Rightarrow> Returns (True, a, p)
      | Some (Some frame) \<Rightarrow>
          let src = filter_src a;
              layout = get_valid_channel_layout nb_channels (channel_layout frame) (av_channels frame);
              reconfigure = (cmp_audio_fmts packed (ap_fmt src) (ap_channels src) (av_format frame) (av_channels frame)
                 \<or> ap_layout src \<noteq> layout \<or> ap_freq src \<noteq> sample_rate frame \<or> n \<noteq> filter_serial a);
              a1 = (if reconfigure
                    then \<lparr>filter_src = src\<lparr>ap_fmt := av_format frame, ap_channels := av_channels frame,
                                          ap_layout := layout, ap_freq := sample_rate frame\<rparr>, filter_serial = n\<rparr>
                    else a) in
          if reconfigure \<and> conf < 0 then Returns (False, a1, p)
          else if add < 0 then Returns (False, a1, p)
          else
            (case audio_filtered F n e (audioq (pv p)) outs (sampq (pv p)) of
               Waits \<Rightarrow> Waits
             | Fault x \<Rightarrow> Fault x
             | Returns (None, f) \<Rightarrow> Returns (False, a1, p\<lparr>pv := (pv p)\<lparr>sampq := f\<rparr>\<rparr>)
             | Returns (Some ret, f) \<Rightarrow>
                 let p1 = p\<lparr>pv := (pv p)\<lparr>sampq := f\<rparr>\<rparr> in
                 Returns (goes_on ret, a1, if ret = AVERROR_EOF then p1\<lparr>auddec_finished := n\<rparr> else p1)))"

text \<open>What the reader of the samples sees of a frame, and of an output of the filters.\<close>

definition seen :: "Frame \<Rightarrow> AVFrame option \<times> f64 \<times> int \<times> int" where
  "seen p = (fr_data p, fr_pts p, fr_pos p, fr_serial p)"

definition sampled_as :: "fl \<Rightarrow> int \<Rightarrow> sampled \<Rightarrow> AVFrame option \<times> f64 \<times> int \<times> int" where
  "sampled_as F n x = (Some (s_frame x), (case s_pts x of None \<Rightarrow> NAN F | Some t \<Rightarrow> t), s_pos x, n)"

text \<open>Filling the slot of an output and pushing it.\<close>

lemma slot_pushed:
  assumes "fq_ok f" "frame_queue_peek_writable q f = Some (Some i)"
  shows "i < length (queue f)" "fq_ok (frame_queue_push (update_slot i g f))"
    "unshown (frame_queue_push (update_slot i g f)) = unshown f @ [g (queue f ! windex f)]"
proof -
  have i: "i = windex f" "fsize f < int (max_size f)"
    using assms(2) by (auto simp: frame_queue_peek_writable_def split: if_splits)
  show "i < length (queue f)"
    using assms(1) unfolding i by (auto simp: fq_ok_def intro: less_le_trans [OF mod_less_divisor])
  have u: "update_slot i g f = fill (g (queue f ! windex f)) f" by (simp add: update_slot_def fill_def i)
  have "rindex_shown f \<le> length (held f)" using assms(1) by (auto simp: fq_ok_def)
  then show "fq_ok (frame_queue_push (update_slot i g f))"
    "unshown (frame_queue_push (update_slot i g f)) = unshown f @ [g (queue f ! windex f)]"
    unfolding u using held_push [OF assms(1) i(2)] push_fields(3) by (simp_all add: unshown_def)
qed

lemma writable_runs: "\<not> b \<Longrightarrow> frame_queue_peek_writable (q\<lparr>abort_request := b\<rparr>) f = Some s \<Longrightarrow> s = Some (windex f)"
  by (auto simp: frame_queue_peek_writable_def split: if_splits)

lemma audio_filtered_order:
  "fq_ok f \<Longrightarrow> \<forall>x \<in> set outs. \<not> s_abort x \<Longrightarrow> audio_filtered F n e q outs f \<noteq> Waits \<Longrightarrow>
   \<exists>f'. audio_filtered F n e q outs f = Returns (Some (if list_all (\<lambda>x. s_now x = n) outs then e else 0), f') \<and> fq_ok f'
     \<and> map seen (unshown f') = map seen (unshown f)
         @ map (sampled_as F n) (takeWhile (\<lambda>x. s_now x = n) outs @ take 1 (dropWhile (\<lambda>x. s_now x = n) outs))"
proof (induction outs arbitrary: f)
  case Nil
  then show ?case by simp
next
  case (Cons x xs)
  obtain s where w: "frame_queue_peek_writable (q\<lparr>abort_request := s_abort x\<rparr>) f = Some s"
    using Cons.prems(3) by (cases "frame_queue_peek_writable (q\<lparr>abort_request := s_abort x\<rparr>) f") auto
  then have s: "s = Some (windex f)" using writable_runs Cons.prems(2) by auto
  define g where "g = (\<lambda>v :: Frame. v\<lparr>fr_pts := (case s_pts x of None \<Rightarrow> NAN F | Some t \<Rightarrow> t), fr_pos := s_pos x, fr_serial := n,
       fr_duration := f_div F (f_int F (nb_samples (s_frame x))) (f_int F (sample_rate (s_frame x))),
       fr_data := Some (s_frame x)\<rparr>)"
  define f1 where "f1 = frame_queue_push (update_slot (windex f) g f)"
  note i = slot_pushed(1) [OF Cons.prems(1) w [unfolded s]]
  note p = slot_pushed(2,3) [OF Cons.prems(1) w [unfolded s], of g, folded f1_def]
  have e: "audio_filtered F n e q (x # xs) f =
      (if s_now x \<noteq> n then Returns (Some 0, f1) else audio_filtered F n e q xs f1)"
    using i by (simp add: w s f1_def g_def Let_def)
  have sg: "seen (g v) = sampled_as F n x" for v by (simp add: seen_def g_def sampled_as_def)
  show ?case
  proof (cases "s_now x = n")
    case False
    then show ?thesis using p sg by (simp add: e del: audio_filtered.simps)
  next
    case True
    with Cons.prems e have "audio_filtered F n e q xs f1 \<noteq> Waits" "\<forall>x \<in> set xs. \<not> s_abort x" by auto
    from Cons.IH [OF p(1) this(2,1)] show ?thesis using True p(2) sg by (auto simp: e simp del: audio_filtered.simps)
  qed
qed

text \<open>C29. A turn of the audio thread puts what the filters give into the queue of samples, in order, with their
  times and the decoder's serial number, and no slot is overwritten; once the queue of packets has a new
  serial number, at most one more frame of the old one is put.\<close>

theorem audio_turn_keeps_order:
  assumes "fq_ok (sampq (pv p))" "\<forall>x \<in> set outs. \<not> s_abort x" "0 \<le> conf" "0 \<le> add"
    "audio_turn F packed nbc (Some (Some fr)) n conf add e outs a p \<noteq> Waits"
  shows "\<exists>a' p'. audio_turn F packed nbc (Some (Some fr)) n conf add e outs a p
        = Returns (goes_on (if list_all (\<lambda>x. s_now x = n) outs then e else 0), a', p')
    \<and> fq_ok (sampq (pv p')) \<and> filter_serial a' = n
    \<and> map seen (unshown (sampq (pv p'))) = map seen (unshown (sampq (pv p)))
         @ map (sampled_as F n) (takeWhile (\<lambda>x. s_now x = n) outs @ take 1 (dropWhile (\<lambda>x. s_now x = n) outs))"
proof -
  have "audio_filtered F n e (audioq (pv p)) outs (sampq (pv p)) \<noteq> Waits"
    using assms(3-5) by (auto simp: audio_turn_def Let_def)
  from audio_filtered_order [OF assms(1,2) this] obtain f' where
    f: "audio_filtered F n e (audioq (pv p)) outs (sampq (pv p))
        = Returns (Some (if list_all (\<lambda>x. s_now x = n) outs then e else 0), f')" "fq_ok f'"
      "map seen (unshown f') = map seen (unshown (sampq (pv p)))
         @ map (sampled_as F n) (takeWhile (\<lambda>x. s_now x = n) outs @ take 1 (dropWhile (\<lambda>x. s_now x = n) outs))" by blast
  show ?thesis using assms(3,4) f by (simp add: audio_turn_def Let_def AVERROR_EOF_def)
qed

definition demo_output :: "string \<Rightarrow> int \<Rightarrow> sampled" where
  "demo_output s n = \<lparr>s_frame = demo_samples s, s_pts = Some 0, s_pos = 0, s_abort = False, s_now = n\<rparr>"

definition demo_thread :: athread where
  "demo_thread = \<lparr>filter_src = demo_params, filter_serial = 7\<rparr>"

theorem audio_turn_witness:
  "case audio_turn demo_ticks id (\<lambda>_. 2) (Some (Some (demo_samples ''a''))) 1 0 0 (-11)
      [demo_output ''a'' 1, demo_output ''b'' 2, demo_output ''c'' 2] demo_thread (closed_player\<lparr>pv := (pv closed_player)\<lparr>sampq := demo_queue\<rparr>\<rparr>) of
     Returns (b, a, p) \<Rightarrow> b \<and> map fr_data (unshown (sampq (pv p))) = [Some (demo_samples ''a''), Some (demo_samples ''b'')]
   | _ \<Rightarrow> False"
proof -
  let ?p = "closed_player\<lparr>pv := (pv closed_player)\<lparr>sampq := demo_queue\<rparr>\<rparr>"
  let ?o = "[demo_output ''a'' 1, demo_output ''b'' 2, demo_output ''c'' 2]"
  let ?t = "audio_turn demo_ticks id (\<lambda>_. 2) (Some (Some (demo_samples ''a''))) 1 0 0 (-11) ?o demo_thread ?p"
  have w: "(case ?t of Waits \<Rightarrow> False | _ \<Rightarrow> True)" by code_simp
  have q: "fq_ok (sampq (pv ?p))" by code_simp
  have u: "unshown demo_queue = []" by code_simp
  have "?t \<noteq> Waits" using w by (cases ?t) simp_all
  from audio_turn_keeps_order [OF q _ _ _ this] obtain a' p' where
    r: "?t = Returns (goes_on (if list_all (\<lambda>x. s_now x = 1) ?o then -11 else 0), a', p')"
    "map seen (unshown (sampq (pv p'))) = map seen (unshown (sampq (pv ?p)))
       @ map (sampled_as demo_ticks 1) (takeWhile (\<lambda>x. s_now x = 1) ?o @ take 1 (dropWhile (\<lambda>x. s_now x = 1) ?o))"
    by (auto simp: demo_output_def)
  have "map fst (map seen (unshown (sampq (pv p')))) = [Some (demo_samples ''a''), Some (demo_samples ''b'')]"
    unfolding r(2) using u by (simp add: demo_output_def sampled_as_def)
  then show ?thesis unfolding r(1) by (simp add: seen_def goes_on_def demo_output_def comp_def)
qed

section \<open>The subtitle thread\<close>

definition RGBA_IN :: "32 word \<Rightarrow> 32 word \<times> 32 word \<times> 32 word \<times> 32 word" where
  "RGBA_IN v = (drop_bit 16 v AND 0xff, drop_bit 8 v AND 0xff, v AND 0xff, drop_bit 24 v AND 0xff)"

definition YUVA_OUT :: "32 word \<Rightarrow> 32 word \<Rightarrow> 32 word \<Rightarrow> 32 word \<Rightarrow> 32 word" where
  "YUVA_OUT y u v a = push_bit 24 a OR push_bit 16 y OR push_bit 8 u OR v"

text \<open>\<open>ccir\<close> is the three macros of \<open>libavutil/colorspace.h\<close>.\<close>

definition recolour :: "(32 word \<Rightarrow> 32 word \<Rightarrow> 32 word \<Rightarrow> 32 word \<times> 32 word \<times> 32 word) \<Rightarrow> 32 word \<Rightarrow> 32 word" where
  "recolour ccir c = (let (r, g, b, a) = RGBA_IN c; (y, u, v) = ccir r g b in YUVA_OUT y u v a)"

text \<open>A decoded subtitle, by its format, time, display times and the palettes of its rectangles.\<close>

record subtitle =
  sub_format :: int
  sub_pts :: "int option"
  start_display :: int
  end_display :: int
  palettes :: "32 word list list"

text \<open>
  A turn: \<open>q\<close> is the packet queue when the slot is asked for, \<open>gots\<close> what the decoder gives (\<open>None\<close>: it ends),
  \<open>n\<close> its serial number.  \<open>None\<close>: the thread waits.  The results: whether it goes on, the queue, and the
  recoloured palettes of a queued subtitle.
\<close>

definition subtitle_turn ::
  "fl \<Rightarrow> (32 word \<Rightarrow> 32 word \<Rightarrow> 32 word \<Rightarrow> 32 word \<times> 32 word \<times> 32 word) \<Rightarrow> PacketQueue \<Rightarrow> subtitle option option \<Rightarrow> int
   \<Rightarrow> FrameQueue \<Rightarrow> (bool \<times> FrameQueue \<times> 32 word list list) option" where
  "subtitle_turn F ccir q gots n f =
     (case frame_queue_peek_writable q f of
        None \<Rightarrow> None
      | Some None \<Rightarrow> Some (False, f, [])
      | Some (Some i) \<Rightarrow>
          (case gots of
             None \<Rightarrow> Some (False, f, [])
           | Some None \<Rightarrow> Some (True, f, [])
           | Some (Some s) \<Rightarrow>
               if sub_format s = 0 then
                 let t = (case sub_pts s of None \<Rightarrow> f_lit F 0 1 | Some x \<Rightarrow> f_div F (f_int F x) (f_lit F 1000000 1)) in
                 Some (True,
                   frame_queue_push (update_slot i (\<lambda>v. v\<lparr>sub_start := start_display s, sub_end := end_display s,
                     fr_pts := t, fr_serial := n\<rparr>) f),
                   map (map (recolour ccir)) (palettes s))
               else Some (True, update_slot i (\<lambda>v. v\<lparr>sub_start := 0, sub_end := 0\<rparr>) f, [])))"

text \<open>The colours of a palette come back out of the word they are packed into.\<close>

lemma byte_bits: "(x :: 32 word) AND 0xff = x \<Longrightarrow> bit x n \<Longrightarrow> n < 8"
proof -
  assume "x AND 0xff = x" "bit x n"
  moreover have "(0xff :: 32 word) = mask 8" by (simp add: mask_eq_exp_minus_1)
  ultimately have "bit (x AND mask 8) n" by simp
  then show ?thesis by (simp add: bit_and_iff bit_mask_iff)
qed

lemma colours_unpacked:
  assumes "y AND 0xff = y" "u AND 0xff = u" "v AND 0xff = v" "a AND 0xff = a"
  shows "RGBA_IN (YUVA_OUT y u v a) = (y, u, v, a)"
proof -
  have ff: "(0xff :: 32 word) = mask 8" by (simp add: mask_eq_exp_minus_1)
  note b = byte_bits [OF assms(1)] byte_bits [OF assms(2)] byte_bits [OF assms(3)] byte_bits [OF assms(4)]
  have "drop_bit 16 (YUVA_OUT y u v a) AND mask 8 = y"
    by (rule bit_word_eqI) (auto simp: YUVA_OUT_def bit_simps dest: b)
  moreover have "drop_bit 8 (YUVA_OUT y u v a) AND mask 8 = u"
    by (rule bit_word_eqI) (auto simp: YUVA_OUT_def bit_simps dest: b)
  moreover have "YUVA_OUT y u v a AND mask 8 = v"
    by (rule bit_word_eqI) (auto simp: YUVA_OUT_def bit_simps dest: b)
  moreover have "drop_bit 24 (YUVA_OUT y u v a) AND mask 8 = a"
    by (rule bit_word_eqI) (auto simp: YUVA_OUT_def bit_simps dest: b)
  ultimately show ?thesis by (simp add: RGBA_IN_def ff)
qed

text \<open>
  A subtitle that is queued: its frame is the last in the queue, with its serial number, and each colour is
  converted with its transparency kept.
\<close>

lemma subtitle_queued:
  assumes "fq_ok f" "\<And>r g b. case ccir r g b of (y, u, v) \<Rightarrow> y AND 0xff = y \<and> u AND 0xff = u \<and> v AND 0xff = v"
    "sub_format s = 0" "\<not> abort_request q" "fsize f < int (max_size f)"
  shows "\<exists>f' ps p. subtitle_turn F ccir q (Some (Some s)) n f = Some (True, f', ps) \<and> fq_ok f'
    \<and> unshown f' = unshown f @ [p] \<and> fr_serial p = n \<and> sub_start p = start_display s \<and> sub_end p = end_display s
    \<and> map (map RGBA_IN) ps = map (map (\<lambda>c. case RGBA_IN c of (r, g, b, a) \<Rightarrow>
        case ccir r g b of (y, u, v) \<Rightarrow> (y, u, v, a))) (palettes s)"
proof -
  have w: "frame_queue_peek_writable q f = Some (Some (windex f))"
    using assms(4,5) by (simp add: frame_queue_peek_writable_def)
  have c: "RGBA_IN (recolour ccir c) = (case RGBA_IN c of (r, g, b, a) \<Rightarrow> case ccir r g b of (y, u, v) \<Rightarrow> (y, u, v, a))" for c
  proof -
    obtain r g b a where rg: "RGBA_IN c = (r, g, b, a)" by (cases "RGBA_IN c") auto
    have a: "a AND 0xff = a" using rg by (auto simp: RGBA_IN_def)
    obtain y u v where yu: "ccir r g b = (y, u, v)" by (cases "ccir r g b") auto
    show ?thesis using colours_unpacked [OF _ _ _ a] assms(2) [of r g b] by (simp add: recolour_def rg yu)
  qed
  show ?thesis
    using slot_pushed(2,3) [OF assms(1) w] assms(3) w c by (simp add: subtitle_turn_def Let_def)
qed

end
