(* ===== verification/PlayerDevices.thy ===== *)
theory PlayerDevices
  imports PlayerThreads
begin

unbundle bit_operations_syntax

text \<open>
  The devices of \<open>src/ffplay2.c\<close>: the opening of the sound device (\<open>audio_open\<close>), the size of the window
  (\<open>calculate_display_rect\<close>, \<open>video_open\<close>), the options of the command line that choose them, and the end of the
  player (\<open>stream_close\<close>).  What SDL answers is a parameter.
\<close>

section \<open>The sound device\<close>

record dev_spec =
  sp_format :: int
  sp_channels :: int
  sp_freq :: int
  sp_size :: int

definition AUDIO_S16SYS :: int where "AUDIO_S16SYS = 0x8010"

definition next_nb_channels :: "int list" where "next_nb_channels = [0, 0, 1, 6, 2, 6, 4, 6]"

definition next_sample_rates :: "int list" where "next_sample_rates = [0, 44100, 48000, 96000, 192000]"

definition next_channels :: "int \<Rightarrow> int" where
  "next_channels c = next_nb_channels ! nat (min 7 c)"

text \<open>How far a number of channels is from the end of the table's chain.\<close>

definition chain_rank :: "int \<Rightarrow> nat" where
  "chain_rank c = (if c \<le> 1 then 1 else if c = 2 then 2 else if c = 4 then 3 else if c = 6 then 4 else 5)"

lemma next_channels_value:
  "next_channels c = (if c = 2 then 1 else if c = 4 then 2 else if c = 6 then 4 else if c \<le> 1 then 0 else 6)"
proof -
  consider "c \<le> 0" | "c = 1" | "c = 2" | "c = 3" | "c = 4" | "c = 5" | "c = 6" | "7 \<le> c" by linarith
  then show ?thesis by cases (simp_all add: next_channels_def next_nb_channels_def)
qed

lemma next_channels_rank: "next_channels c \<noteq> 0 \<Longrightarrow> chain_rank (next_channels c) < chain_rank c"
  by (auto simp: next_channels_value chain_rank_def split: if_splits)

text \<open>
  The loop over the settings: \<open>dev freq channels\<close> is what \<open>SDL_OpenAudio\<close> gives.  The result is the number of
  channels asked for, the layout, and what the device gives.
\<close>

function try_open ::
  "(int \<Rightarrow> int \<Rightarrow> dev_spec option) \<Rightarrow> (int \<Rightarrow> int) \<Rightarrow> int \<Rightarrow> int \<Rightarrow> int \<Rightarrow> nat \<Rightarrow> int \<Rightarrow> (int \<times> int \<times> dev_spec) option" where
  "try_open dev dfl wanted freq ch idx layout =
     (case dev freq ch of
        Some sp \<Rightarrow> Some (ch, layout, sp)
      | None \<Rightarrow>
          if next_channels ch = 0 then
            if next_sample_rates ! idx = 0 \<or> idx = 0 then None
            else try_open dev dfl wanted (next_sample_rates ! idx) wanted (idx - 1) (dfl wanted)
          else try_open dev dfl wanted freq (next_channels ch) idx (dfl (next_channels ch)))"
  by pat_completeness auto
termination try_open
  by (relation "measures [\<lambda>(dev, dfl, w, f, ch, idx, l). idx, \<lambda>(dev, dfl, w, f, ch, idx, l). chain_rank ch]")
     (auto dest: next_channels_rank)

declare try_open.simps [simp del]

text \<open>The place in the table of rates: the highest one below the rate wanted, or its first.\<close>

fun rate_index :: "int \<Rightarrow> nat \<Rightarrow> nat" where
  "rate_index freq 0 = 0"
| "rate_index freq (Suc i) = (if freq \<le> next_sample_rates ! Suc i then rate_index freq i else Suc i)"

definition AV_CH_LAYOUT_STEREO_DOWNMIX :: int where "AV_CH_LAYOUT_STEREO_DOWNMIX = 0x60000000"

text \<open>
  \<open>env\<close> is the number in \<open>SDL_AUDIO_CHANNELS\<close>; \<open>dev\<close> also gets the size of the device's buffer, for which \<open>log2\<close> is
  \<open>av_log2\<close>.  The number of channels SDL is asked for is a byte.
\<close>

definition audio_open ::
  "'s alib \<Rightarrow> (int \<Rightarrow> nat) \<Rightarrow> (int \<Rightarrow> int \<Rightarrow> int \<Rightarrow> dev_spec option) \<Rightarrow> int option \<Rightarrow> int \<Rightarrow> int \<Rightarrow> int \<Rightarrow> AudioParams
   \<Rightarrow> int \<times> AudioParams" where
  "audio_open L log2 dev env layout nb rate hw =
     (let (nb1, lay1) = (case env of Some n \<Rightarrow> (n, default_layout L n) | None \<Rightarrow> (nb, layout));
          lay2 = (if lay1 = 0 \<or> nb1 \<noteq> layout_channels L lay1
                  then default_layout L nb1 AND NOT AV_CH_LAYOUT_STEREO_DOWNMIX else lay1);
          nb2 = layout_channels L lay2;
          ch = nb2 mod 256 in
      if rate \<le> 0 \<or> ch \<le> 0 then (-1, hw)
      else
        let samples = max SDL_AUDIO_MIN_BUFFER_SIZE (push_bit (log2 (rate sdiv 30)) 2) mod 65536 in
        (case try_open (dev samples) (default_layout L) ch rate ch (rate_index rate 4) lay2 of
           None \<Rightarrow> (-1, hw)
         | Some (c, lay3, sp) \<Rightarrow>
             let lay4 = (if sp_channels sp \<noteq> c then default_layout L (sp_channels sp) else lay3) in
             if sp_format sp \<noteq> AUDIO_S16SYS then (-1, hw)
             else if sp_channels sp \<noteq> c \<and> lay4 = 0 then (-1, hw)
             else
               let hw1 = hw\<lparr>ap_fmt := 1, ap_freq := sp_freq sp, ap_layout := lay4, ap_channels := sp_channels sp,
                            ap_frame_size := samples_size L (sp_channels sp) 1 1 1,
                            ap_bytes_per_sec := samples_size L (sp_channels sp) (sp_freq sp) 1 1\<rparr> in
               if ap_bytes_per_sec hw1 \<le> 0 \<or> ap_frame_size hw1 \<le> 0 then (-1, hw1) else (sp_size sp, hw1)))"

section \<open>The settings that are tried\<close>

text \<open>The numbers of channels tried at one rate, and all the settings, in their order.\<close>

function channel_chain :: "int \<Rightarrow> int list" where
  "channel_chain c = c # (if next_channels c = 0 then [] else channel_chain (next_channels c))"
  by pat_completeness auto
termination channel_chain
  by (relation "measure chain_rank") (auto dest: next_channels_rank)

declare channel_chain.simps [simp del]

fun settings :: "int \<Rightarrow> int \<Rightarrow> int \<Rightarrow> nat \<Rightarrow> (int \<times> int) list" where
  "settings wanted freq ch 0 = map (Pair freq) (channel_chain ch)"
| "settings wanted freq ch (Suc i) = map (Pair freq) (channel_chain ch) @ settings wanted (next_sample_rates ! Suc i) wanted i"

lemma settings_head: "settings w f c i = (f, c) # tl (settings w f c i)"
  by (cases i) (simp_all add: channel_chain.simps [of c])

lemma settings_next:
  "next_channels c \<noteq> 0 \<Longrightarrow> settings w f c i = (f, c) # settings w f (next_channels c) i"
  by (cases i) (simp_all add: channel_chain.simps [of c])

lemma settings_rate:
  "next_channels c = 0 \<Longrightarrow> settings w f c i = (f, c) # (case i of 0 \<Rightarrow> [] | Suc j \<Rightarrow> settings w (next_sample_rates ! i) w j)"
  by (cases i) (simp_all add: channel_chain.simps [of c])

lemma rates_positive: "0 < i \<Longrightarrow> i < 5 \<Longrightarrow> next_sample_rates ! i \<noteq> 0"
  by (auto simp: next_sample_rates_def nth_Cons' )

text \<open>What the first setting the device takes gives; the layout is kept only for the very first.\<close>

definition answer_for :: "(int \<Rightarrow> int \<Rightarrow> dev_spec option) \<Rightarrow> (int \<Rightarrow> int) \<Rightarrow> int \<times> int \<Rightarrow> int \<Rightarrow> int \<times> int \<Rightarrow> int \<times> int \<times> dev_spec" where
  "answer_for dev dfl start layout s =
     (snd s, if s = start then layout else dfl (snd s), the (dev (fst s) (snd s)))"

lemma try_open_finds:
  "i < 5 \<Longrightarrow> try_open dev dfl w f c i lay =
     map_option (answer_for dev dfl (f, c) lay) (find (\<lambda>(f, c). dev f c \<noteq> None) (settings w f c i))"
proof (induction dev dfl w f c i lay rule: try_open.induct)
  case (1 dev dfl w f c i lay)
  have rest: "map_option (answer_for dev dfl (f', c') (dfl c')) (find (\<lambda>(f, c). dev f c \<noteq> None) ss) =
      map_option (answer_for dev dfl (f, c) lay) (find (\<lambda>(f, c). dev f c \<noteq> None) ss)" if "dev f c = None" for f' c' ss
  proof (cases "find (\<lambda>(f, c). dev f c \<noteq> None) ss")
    case (Some s)
    then have "dev (fst s) (snd s) \<noteq> None" by (auto simp: find_Some_iff)
    then have "s \<noteq> (f, c)" using that by auto
    then show ?thesis using Some by (auto simp: answer_for_def)
  qed simp
  show ?case
  proof (cases "dev f c")
    case (Some sp)
    then show ?thesis by (subst settings_head, subst try_open.simps) (simp add: answer_for_def)
  next
    case None
    show ?thesis
    proof (cases "next_channels c = 0")
      case False
      then show ?thesis using 1(2) [OF None False 1(3)] None rest [OF None]
        by (subst settings_next [OF False], subst try_open.simps) simp
    next
      case True
      show ?thesis
      proof (cases i)
        case 0
        then show ?thesis using None by (subst settings_rate [OF True], subst try_open.simps) (simp add: True)
      next
        case (Suc j)
        have "next_sample_rates ! i \<noteq> 0" using rates_positive [of i] 1(3) Suc by simp
        then have go: "\<not> (next_sample_rates ! i = 0 \<or> i = 0)" using Suc by simp
        have "i - 1 < 5" using 1(3) by simp
        from 1(1) [OF None True go this] show ?thesis using None rest [OF None] go Suc
          by (subst settings_rate [OF True], subst try_open.simps) (simp add: True)
      qed
    qed
  qed
qed

lemma rate_index_below: "rate_index f n \<le> n"
  by (induction n) auto

text \<open>The whole list, for a wanted rate: its own rate and then every lower one of the table, from the highest.\<close>

definition all_settings :: "int \<Rightarrow> int \<Rightarrow> (int \<times> int) list" where
  "all_settings rate ch =
     [(f, c). f \<leftarrow> rate # filter (\<lambda>r. r < rate) [192000, 96000, 48000, 44100], c \<leftarrow> channel_chain ch]"

lemma settings_all: "settings ch rate ch (rate_index rate 4) = all_settings rate ch"
  by (simp add: all_settings_def next_sample_rates_def eval_nat_numeral map_concat)

text \<open>C31. The sound device is opened with the first setting it takes, in this order: the wanted rate and then each
  lower one of 192000, 96000, 48000 and 44100; for each rate the wanted number of channels and then the
  ones the table leads to.  The search always ends, and it fails only when no setting is taken.\<close>

theorem audio_open_tries_all:
  assumes "0 < rate" "0 < ch" "ch < 256" "layout \<noteq> 0" "layout_channels L layout = ch"
  shows "audio_open L log2 dev None layout ch rate hw =
    (let samples = max SDL_AUDIO_MIN_BUFFER_SIZE (push_bit (log2 (rate sdiv 30)) 2) mod 65536 in
     case find (\<lambda>(f, c). dev samples f c \<noteq> None) (all_settings rate ch) of
       None \<Rightarrow> (-1, hw)
     | Some (f, c) \<Rightarrow>
         let sp = the (dev samples f c);
             lay = (if (f, c) = (rate, ch) then layout else default_layout L c);
             lay' = (if sp_channels sp = c then lay else default_layout L (sp_channels sp));
             bytes = (\<lambda>n. samples_size L (sp_channels sp) n 1 1) in
         if sp_format sp \<noteq> AUDIO_S16SYS \<or> sp_channels sp \<noteq> c \<and> lay' = 0 then (-1, hw)
         else (if bytes (sp_freq sp) \<le> 0 \<or> bytes 1 \<le> 0 then -1 else sp_size sp,
               hw\<lparr>ap_fmt := 1, ap_freq := sp_freq sp, ap_layout := lay', ap_channels := sp_channels sp,
                  ap_frame_size := bytes 1, ap_bytes_per_sec := bytes (sp_freq sp)\<rparr>))"
proof -
  define samples where "samples = max SDL_AUDIO_MIN_BUFFER_SIZE (push_bit (log2 (rate sdiv 30)) 2) mod 65536"
  have "rate_index rate 4 < 5" using rate_index_below [of rate 4] by simp
  from try_open_finds [OF this, of "dev samples" "default_layout L" ch rate ch layout]
  have t: "try_open (dev samples) (default_layout L) ch rate ch (rate_index rate 4) layout =
      map_option (answer_for (dev samples) (default_layout L) (rate, ch) layout)
        (find (\<lambda>(f, c). dev samples f c \<noteq> None) (all_settings rate ch))"
    by (simp only: settings_all)
  show ?thesis
    using assms unfolding audio_open_def Let_def samples_def [unfolded Let_def, symmetric]
    by (simp add: t answer_for_def split: option.splits prod.splits)
qed

definition demo_device :: "int \<Rightarrow> int \<Rightarrow> int \<Rightarrow> dev_spec option" where
  "demo_device samples f c =
     (if f = 44100 \<and> c = 2 then Some \<lparr>sp_format = AUDIO_S16SYS, sp_channels = 2, sp_freq = 44100, sp_size = 2 * c * samples\<rparr> else None)"

theorem audio_open_witness:
  "fst (audio_open (toy_lib\<lparr>layout_channels := \<lambda>l. 6\<rparr>) (\<lambda>n. 10) demo_device None 63 6 48000 demo_params) = 8192
   \<and> ap_channels (snd (audio_open (toy_lib\<lparr>layout_channels := \<lambda>l. 6\<rparr>) (\<lambda>n. 10) demo_device None 63 6 48000 demo_params)) = 2
   \<and> audio_open (toy_lib\<lparr>layout_channels := \<lambda>l. 6\<rparr>) (\<lambda>n. 10) (\<lambda>n f c. None) None 63 6 48000 demo_params = (-1, demo_params)"
proof -
  let ?L = "toy_lib\<lparr>layout_channels := \<lambda>l. 6\<rparr>"
  have l: "layout_channels ?L 63 = 6" by simp
  have f: "find (\<lambda>(f, c). demo_device 2048 f c \<noteq> None) (all_settings 48000 6) = Some (44100, 2)" by code_simp
  have n: "find (\<lambda>(f, c). (None :: dev_spec option) \<noteq> None) (all_settings 48000 6) = None" by (simp add: find_None_iff)
  have s: "max SDL_AUDIO_MIN_BUFFER_SIZE (push_bit 10 2) mod 65536 = (2048 :: int)" by code_simp
  have p: "(0 :: int) < 48000" "(0 :: int) < 6" "(6 :: int) < 256" "(63 :: int) \<noteq> 0" by simp_all
  note yes = audio_open_tries_all [OF p l, of "\<lambda>n. 10" demo_device demo_params, unfolded Let_def s f option.case prod.case]
  note no = audio_open_tries_all [OF p l, of "\<lambda>n. 10" "\<lambda>n f c. None" demo_params, unfolded Let_def n option.case]
  show ?thesis unfolding yes no by (simp add: demo_device_def toy_lib_def)
qed

section \<open>The window\<close>

text \<open>
  Arithmetic on the aspect ratio: \<open>ratio\<close> is the ratio of a picture with its sample aspect ratio, \<open>times_ratio\<close> and
  \<open>over_ratio\<close> are the rounded product and quotient.
\<close>

record 'a aspect =
  ratio :: "int \<Rightarrow> int \<Rightarrow> int \<times> int \<Rightarrow> 'a"
  times_ratio :: "int \<Rightarrow> 'a \<Rightarrow> int"
  over_ratio :: "int \<Rightarrow> 'a \<Rightarrow> int"

definition calculate_display_rect ::
  "'a aspect \<Rightarrow> int \<Rightarrow> int \<Rightarrow> int \<Rightarrow> int \<Rightarrow> int \<Rightarrow> int \<Rightarrow> int \<times> int \<Rightarrow> int \<times> int \<times> int \<times> int" where
  "calculate_display_rect A scr_xleft scr_ytop scr_width scr_height pic_width pic_height sar =
     (let a = ratio A pic_width pic_height sar;
          w0 = times_ratio A scr_height a AND NOT 1;
          (width, height) =
            (if scr_width < w0 then (scr_width, over_ratio A scr_width a AND NOT 1) else (w0, scr_height));
          x = (scr_width - width) sdiv 2;
          y = (scr_height - height) sdiv 2 in
      (scr_xleft + x, scr_ytop + y, max width 1, max height 1))"

text \<open>The picture is centred and, where the rounding does not make it higher than the screen, inside of it.\<close>

lemma display_rect_inside:
  assumes "0 < sw" "0 < sh" "\<And>a. 0 \<le> times_ratio A sh a" "\<And>a. sw < times_ratio A sh a AND NOT 1 \<Longrightarrow> over_ratio A sw a AND NOT 1 \<le> sh"
    "\<And>a. 0 \<le> over_ratio A sw a" "calculate_display_rect A l t sw sh pw ph sar = (x, y, w, h)"
  shows "l \<le> x \<and> x + w \<le> l + sw \<and> t \<le> y \<and> y + h \<le> t + sh \<and> 1 \<le> w \<and> 1 \<le> h"
proof -
  define a where "a = ratio A pw ph sar"
  define w0 where "w0 = times_ratio A sh a AND - 2"
  define h0 where "h0 = over_ratio A sw a AND - 2"
  have n: "0 \<le> w0" "0 \<le> h0" using assms(3) [of a] assms(5) [of a] by (simp_all add: w0_def h0_def)
  have half: "0 \<le> b \<Longrightarrow> b \<le> s \<Longrightarrow> 0 < s \<Longrightarrow> 0 \<le> (s - b) sdiv 2 \<and> (s - b) sdiv 2 + max b 1 \<le> s" for s b :: int
    using signed_divide_int_def [of "s - b" 2] by (cases "s = b") (auto simp: sgn_if max_def)
  show ?thesis
  proof (cases "sw < w0")
    case True
    then have "h0 \<le> sh" using assms(4) [of a] by (simp add: w0_def h0_def)
    moreover have "x = l + (sw - sw) sdiv 2" "y = t + (sh - h0) sdiv 2" "w = max sw 1" "h = max h0 1"
      using assms(6) True by (auto simp: calculate_display_rect_def Let_def a_def [symmetric] w0_def [symmetric] h0_def [symmetric])
    ultimately show ?thesis using half [of sw sw] half [of h0 sh] n assms(1,2) by auto
  next
    case False
    have "x = l + (sw - w0) sdiv 2" "y = t + (sh - sh) sdiv 2" "w = max w0 1" "h = max sh 1"
      using assms(6) False by (auto simp: calculate_display_rect_def Let_def a_def [symmetric] w0_def [symmetric] h0_def [symmetric])
    then show ?thesis using half [of w0 sw] half [of sh sh] False n assms(1,2) by auto
  qed
qed

text \<open>The static variables of the screen.\<close>

record screen =
  has_win :: bool
  screen_width :: int
  screen_height :: int
  fs_screen_width :: int
  fs_screen_height :: int
  default_width :: int
  default_height :: int

definition set_default_window_size :: "'a aspect \<Rightarrow> int \<Rightarrow> int \<Rightarrow> int \<times> int \<Rightarrow> screen \<Rightarrow> screen" where
  "set_default_window_size A width height sar sc =
     (let (x, y, w, h) = calculate_display_rect A 0 0 (2 ^ 31 - 1) height width height sar in
      sc\<lparr>default_width := w, default_height := h\<rparr>)"

text \<open>\<open>vp\<close> is the size and ratio of a picture, if there is one.\<close>

definition sized :: "'a aspect \<Rightarrow> (int \<times> int \<times> int \<times> int) option \<Rightarrow> screen \<Rightarrow> screen" where
  "sized A vp sc =
     (case vp of
        Some (width, height, sar) \<Rightarrow> if width \<noteq> 0 then set_default_window_size A width height sar sc else sc
      | None \<Rightarrow> sc)"

definition target_size :: "screen \<Rightarrow> Player \<Rightarrow> int \<times> int" where
  "target_size sc p =
     (let (w, h) =
            (if full_screen p \<and> fs_screen_width sc \<noteq> 0 then (fs_screen_width sc, fs_screen_height sc)
             else if \<not> full_screen p \<and> screen_width sc \<noteq> 0 then (screen_width sc, screen_height sc)
             else (default_width sc, default_height sc)) in
      (min 16383 w, h))"

text \<open>
  \<open>create\<close>: whether the window can be made (\<open>None\<close>: the player exits).  The last result says whether SDL was asked
  for anything.
\<close>

definition video_open ::
  "'a aspect \<Rightarrow> bool \<Rightarrow> bool \<Rightarrow> (int \<times> int \<times> int \<times> int) option \<Rightarrow> screen \<Rightarrow> Player \<Rightarrow> (screen \<times> Player \<times> bool) option" where
  "video_open A create force_set_video_mode vp sc p =
     (let sc1 = sized A vp sc; (w, h) = target_size sc1 p in
      if has_win sc1 \<and> win_width p = w \<and> win_height p = h \<and> \<not> force_set_video_mode then Some (sc1, p, False)
      else if \<not> has_win sc1 \<and> \<not> create then None
      else Some (sc1\<lparr>has_win := True\<rparr>, p\<lparr>win_width := w, win_height := h\<rparr>, True))"

text \<open>A window that has its size is left alone by the next picture of the same size.\<close>

lemma sized_again: "sized A vp (sized A vp sc\<lparr>has_win := b\<rparr>) = sized A vp sc\<lparr>has_win := b\<rparr>"
  "sized A vp (sized A vp sc) = sized A vp sc"
  by (auto simp: sized_def set_default_window_size_def Let_def split: option.splits prod.splits)

lemma target_same: "target_size (sc\<lparr>has_win := b\<rparr>) (p\<lparr>win_width := w, win_height := h\<rparr>) = target_size sc p"
  by (simp add: target_size_def)

lemma target_bound: "fst (target_size sc p) \<le> 16383"
  by (auto simp: target_size_def Let_def)

lemma video_open_settles:
  assumes "video_open A create force vp sc p = Some (sc', p', b)"
  shows "video_open A c False vp sc' p' = Some (sc', p', False) \<and> has_win sc' \<and> win_width p' \<le> 16383"
proof -
  obtain w h where t: "target_size (sized A vp sc) p = (w, h)" by force
  have "w \<le> 16383" using target_bound [of "sized A vp sc" p] t by simp
  moreover have "sc' = sized A vp sc \<and> p' = p \<and> has_win sc' \<and> win_width p = w \<and> win_height p = h
      \<or> sc' = sized A vp sc\<lparr>has_win := True\<rparr> \<and> p' = p\<lparr>win_width := w, win_height := h\<rparr>"
    using assms by (auto simp: video_open_def t Let_def split: if_splits)
  ultimately show ?thesis
    by (auto simp: video_open_def sized_again target_same t Let_def)
qed

section \<open>Options\<close>

record popt =
  sync_opt :: sync_type
  mode_opt :: show_mode
  input_filename :: "string option"
  audio_codec_name :: "string option"
  subtitle_codec_name :: "string option"
  video_codec_name :: "string option"
  vfilters_list :: "string list"

text \<open>The process ends where the code calls \<open>exit\<close>: \<open>None\<close>.\<close>

definition opt_add_vfilter :: "string \<Rightarrow> popt \<Rightarrow> popt" where
  "opt_add_vfilter arg o1 = o1\<lparr>vfilters_list := vfilters_list o1 @ [arg]\<rparr>"

definition opt_sync :: "string \<Rightarrow> popt \<Rightarrow> popt option" where
  "opt_sync arg o1 =
     (if arg = ''audio'' then Some (o1\<lparr>sync_opt := AV_SYNC_AUDIO_MASTER\<rparr>)
      else if arg = ''video'' then Some (o1\<lparr>sync_opt := AV_SYNC_VIDEO_MASTER\<rparr>)
      else if arg = ''ext'' then Some (o1\<lparr>sync_opt := AV_SYNC_EXTERNAL_CLOCK\<rparr>)
      else None)"

text \<open>\<open>number\<close> is what \<open>parse_number_or_die\<close> makes of the argument, within its bounds.\<close>

definition opt_show_mode :: "(string \<Rightarrow> int option) \<Rightarrow> string \<Rightarrow> popt \<Rightarrow> popt option" where
  "opt_show_mode number arg o1 =
     (if arg = ''video'' then Some (o1\<lparr>mode_opt := SHOW_MODE_VIDEO\<rparr>)
      else if arg = ''waves'' then Some (o1\<lparr>mode_opt := SHOW_MODE_WAVES\<rparr>)
      else if arg = ''rdft'' then Some (o1\<lparr>mode_opt := SHOW_MODE_RDFT\<rparr>)
      else map_option (\<lambda>n. o1\<lparr>mode_opt := num_mode n\<rparr>) (number arg))"

definition opt_input_file :: "string \<Rightarrow> popt \<Rightarrow> popt option" where
  "opt_input_file filename o1 =
     (if input_filename o1 \<noteq> None then None
      else Some (o1\<lparr>input_filename := Some (if filename = ''-'' then ''pipe:'' else filename)\<rparr>))"

text \<open>The letter behind the first colon of the option names the medium; -22 is \<open>AVERROR(EINVAL)\<close>.\<close>

definition opt_codec :: "string \<Rightarrow> string \<Rightarrow> popt \<Rightarrow> int \<times> popt" where
  "opt_codec opt arg o1 =
     (case dropWhile (\<lambda>c. c \<noteq> CHR '':'') opt of
        [] \<Rightarrow> (-22, o1)
      | _ # spec \<Rightarrow>
          (case spec of
             CHR ''a'' # _ \<Rightarrow> (0, o1\<lparr>audio_codec_name := Some arg\<rparr>)
           | CHR ''s'' # _ \<Rightarrow> (0, o1\<lparr>subtitle_codec_name := Some arg\<rparr>)
           | CHR ''v'' # _ \<Rightarrow> (0, o1\<lparr>video_codec_name := Some arg\<rparr>)
           | _ \<Rightarrow> (-22, o1)))"

section \<open>The end\<close>

definition free_picture :: "Frame \<Rightarrow> Frame" where
  "free_picture vp = vp\<lparr>bmp := None\<rparr>"

definition frame_queue_destory :: "FrameQueue \<Rightarrow> FrameQueue" where
  "frame_queue_destory f =
     fold (\<lambda>i g. update_slot i free_picture (frame_queue_unref_item i g)) [0..<max_size f] f"

definition packet_queue_destroy :: "PacketQueue \<Rightarrow> PacketQueue" where
  "packet_queue_destroy q = packet_queue_flush q"

text \<open>The reading thread sees the request, closes the streams and ends before the queues are destroyed.\<close>

definition stream_close :: "Player \<Rightarrow> Player" where
  "stream_close p =
     (let p1 = read_finish (p\<lparr>abort_player := True\<rparr>); v = pv p1 in
      p1\<lparr>pv := v\<lparr>videoq := packet_queue_destroy (videoq v), audioq := packet_queue_destroy (audioq v),
         subtitleq := packet_queue_destroy (subtitleq v), pictq := frame_queue_destory (pictq v),
         sampq := frame_queue_destory (sampq v), subpq := frame_queue_destory (subpq v)\<rparr>\<rparr>)"

definition released :: "FrameQueue \<Rightarrow> bool" where
  "released f \<longleftrightarrow> (\<forall>i < max_size f. fr_data (queue f ! i) = None \<and> bmp (queue f ! i) = None)"

lemma destory_prefix:
  "n \<le> max_size f \<Longrightarrow> max_size f \<le> length (queue f) \<Longrightarrow>
   (let g = fold (\<lambda>i g. update_slot i free_picture (frame_queue_unref_item i g)) [0..<n] f in
    max_size g = max_size f \<and> length (queue g) = length (queue f)
    \<and> (\<forall>i < n. fr_data (queue g ! i) = None \<and> bmp (queue g ! i) = None))"
proof (induction n)
  case (Suc n)
  then show ?case
    by (auto simp: Let_def update_slot_def frame_queue_unref_item_def free_picture_def nth_list_update less_Suc_eq)
qed simp

lemma queue_released: "fq_ok f \<Longrightarrow> released (frame_queue_destory f)"
  using destory_prefix [of "max_size f" f] by (simp add: released_def frame_queue_destory_def fq_ok_def Let_def)

lemma read_finish_pictures:
  "pictq (pv (read_finish p)) = pictq (pv p)" "sampq (pv (read_finish p)) = sampq (pv p)"
  "subpq (pv (read_finish p)) = subpq (pv p)"
proof -
  have c: "pictq (pv (stream_component_close i q)) = pictq (pv q) \<and> sampq (pv (stream_component_close i q)) = sampq (pv q)
      \<and> subpq (pv (stream_component_close i q)) = subpq (pv q)" for i q
    by (auto simp: stream_component_close_def Let_def split: option.splits media.splits)
  show "pictq (pv (read_finish p)) = pictq (pv p)" "sampq (pv (read_finish p)) = sampq (pv p)"
    "subpq (pv (read_finish p)) = subpq (pv p)"
    using c by (simp_all add: read_finish_def Let_def)
qed

text \<open>Nothing is kept: no packet, no decoded frame and no texture.\<close>

lemma stream_close_releases:
  assumes "fq_ok (pictq (pv p))" "fq_ok (sampq (pv p))" "fq_ok (subpq (pv p))"
  shows "released (pictq (pv (stream_close p))) \<and> released (sampq (pv (stream_close p))) \<and> released (subpq (pv (stream_close p)))
    \<and> pkts (videoq (pv (stream_close p))) = [] \<and> pkts (audioq (pv (stream_close p))) = []
    \<and> pkts (subtitleq (pv (stream_close p))) = [] \<and> ic (stream_close p) = None"
proof -
  have "ic (read_finish q) = None" for q by (simp add: read_finish_def Let_def)
  then show ?thesis
    using assms queue_released read_finish_pictures [of "p\<lparr>abort_player := True\<rparr>"]
    by (simp add: stream_close_def Let_def packet_queue_destroy_def packet_queue_flush_def)
qed

end
