(* ===== verification/PlayerWaves.thy ===== *)
theory PlayerWaves
  imports PlayerControl PlayerAudio
begin

unbundle bit_operations_syntax

text \<open>
  The drawing of sound of \<open>src/ffplay2.c\<close> (\<open>video_audio_display\<close>): which samples of the ring are read, and which
  rectangles are filled.  What SDL does with a rectangle is not modelled; the transform of the spectrum and the
  arithmetic on its results are parameters.
\<close>

section \<open>Rectangles\<close>

definition ARGB :: "int \<Rightarrow> int \<Rightarrow> int \<Rightarrow> int \<Rightarrow> 32 word" where
  "ARGB a r g b = push_bit 24 (word_of_int a) OR push_bit 16 (word_of_int r) OR push_bit 8 (word_of_int g) OR word_of_int b"

record rect =
  rx :: int
  ry :: int
  rw :: int
  rh :: int
  rcolour :: "8 word \<times> 8 word \<times> 8 word \<times> 8 word"

text \<open>The colour is given to SDL as red, green, blue and alpha.\<close>

definition fill_rectangle :: "int \<Rightarrow> int \<Rightarrow> int \<Rightarrow> int \<Rightarrow> 32 word \<Rightarrow> rect" where
  "fill_rectangle x y w h color =
     (let a = ucast (drop_bit 24 (color AND 0xff000000));
          r = ucast (drop_bit 16 (color AND 0x00ff0000));
          g = ucast (drop_bit 8 (color AND 0x0000ff00));
          b = ucast (color AND 0x000000ff) in
      \<lparr>rx = x, ry = y, rw = w, rh = h, rcolour = (r, g, b, a)\<rparr>)"

section \<open>Where the display starts\<close>

abbreviation SIZE :: int where "SIZE \<equiv> int SAMPLE_ARRAY_SIZE"

definition compute_mod :: "int \<Rightarrow> int \<Rightarrow> int" where
  "compute_mod a b = (if a < 0 then a smod b + b else a smod b)"

definition sample_at :: "16 word list \<Rightarrow> int \<Rightarrow> int result" where
  "sample_at arr i = (if 0 \<le> i \<and> i < int (length arr) then Inr (sint (arr ! nat i)) else Inl OutOfBounds)"

text \<open>The search, in 1000 places before \<open>x\<close>, for the steepest rise through zero.\<close>

function start_scan :: "16 word list \<Rightarrow> int \<Rightarrow> int \<Rightarrow> int \<Rightarrow> int \<Rightarrow> int \<Rightarrow> int result" where
  "start_scan arr channels x i h i_start =
     (if i < 1000 \<and> 0 < channels then
        let idx = (SIZE + x - i) smod SIZE in
        then_do (sample_at arr idx) (\<lambda>a.
        then_do (sample_at arr ((idx + 4 * channels) smod SIZE)) (\<lambda>b.
        then_do (sample_at arr ((idx + 5 * channels) smod SIZE)) (\<lambda>c.
        then_do (sample_at arr ((idx + 9 * channels) smod SIZE)) (\<lambda>d.
          let score = a - d in
          if h < score \<and> (b XOR c) < 0 then start_scan arr channels x (i + channels) score idx
          else start_scan arr channels x (i + channels) h i_start))))
      else Inr i_start)"
  by pat_completeness auto
termination start_scan
  by (relation "measure (\<lambda>(arr, channels, x, i, h, s). nat (1000 - i))") auto

declare start_scan.simps [simp del]

function rdft_size :: "int \<Rightarrow> nat \<Rightarrow> nat" where
  "rdft_size height bits = (if 2 ^ bits < 2 * height then rdft_size height (bits + 1) else bits)"
  by pat_completeness auto
termination rdft_size
proof (relation "measure (\<lambda>(height, bits). nat (2 * height) - bits)")
  fix height :: int and bits :: nat
  assume "2 ^ bits < 2 * height"
  moreover have "int bits < 2 ^ bits" by simp
  ultimately have "bits < nat (2 * height)" by linarith
  then show "((height, bits + 1), (height, bits)) \<in> measure (\<lambda>(height, bits). nat (2 * height) - bits)" by auto
qed simp

declare rdft_size.simps [simp del]

text \<open>The window's part of the state.\<close>

record wave =
  wv_width :: int
  wv_height :: int
  xleft :: int
  ytop :: int
  xpos :: int
  last_i_start :: int
  rdft_bits :: nat

text \<open>How many samples behind the last one written the display starts; \<open>used\<close> is how many it shows.\<close>

definition display_delay :: "fl \<Rightarrow> int \<Rightarrow> 's AudioState \<Rightarrow> int \<times> 's AudioState" where
  "display_delay F used st =
     (let channels = ap_channels (audio_tgt st);
          d0 = audio_write_buf_size st sdiv (2 * channels);
          (d1, st1) =
            (if audio_callback_time st \<noteq> 0
             then (d0 - ((now F (reads (vs st)) - audio_callback_time st) * ap_freq (audio_tgt st)) sdiv 1000000,
                   st\<lparr>vs := (vs st)\<lparr>reads := reads (vs st) + 1\<rparr>\<rparr>)
             else (d0, st));
          d2 = d1 + 2 * used in
      (if d2 < used then used else d2, st1))"

definition display_start :: "int \<Rightarrow> 's AudioState \<Rightarrow> int result" where
  "display_start delay st =
     (let channels = ap_channels (audio_tgt st);
          x = compute_mod (sample_array_index st - delay * channels) SIZE in
      if mode (vs st) = SHOW_MODE_WAVES then start_scan (sample_array st) channels x 0 (- (2 ^ 31)) x else Inr x)"

section \<open>The waves\<close>

text \<open>The step from one sample of a channel to the next, around the ring.\<close>

definition next_index :: "int \<Rightarrow> int \<Rightarrow> int" where
  "next_index channels i = (if SIZE \<le> i + channels then i + channels - SIZE else i + channels)"

fun wave_columns :: "16 word list \<Rightarrow> int \<Rightarrow> int \<Rightarrow> int \<Rightarrow> 32 word \<Rightarrow> nat \<Rightarrow> int \<Rightarrow> int \<Rightarrow> rect list result" where
  "wave_columns arr channels h2 y1 fg 0 x i = Inr []"
| "wave_columns arr channels h2 y1 fg (Suc n) x i =
     then_do (sample_at arr i) (\<lambda>s.
       let y0 = drop_bit 15 (s * h2);
           (y, ys) = (if y0 < 0 then (- y0, y1 - (- y0)) else (y0, y1)) in
       then_do (wave_columns arr channels h2 y1 fg n (x + 1) (next_index channels i)) (\<lambda>rs.
         Inr (fill_rectangle x ys 1 y fg # rs)))"

fun wave_channels :: "16 word list \<Rightarrow> int \<Rightarrow> wave \<Rightarrow> int \<Rightarrow> nat \<Rightarrow> int \<Rightarrow> rect list result" where
  "wave_channels arr channels w i_start 0 ch = Inr []"
| "wave_channels arr channels w i_start (Suc n) ch =
     (let h = wv_height w sdiv channels;
          h2 = (h * 9) sdiv 20;
          y1 = ytop w + ch * h + h sdiv 2 in
      then_do (wave_columns arr channels h2 y1 (ARGB 0xff 0xff 0xff 0xff) (nat (wv_width w)) (xleft w) (i_start + ch)) (\<lambda>rs.
      then_do (wave_channels arr channels w i_start n (ch + 1)) (\<lambda>qs. Inr (rs @ qs))))"

definition draw_waves :: "wave \<Rightarrow> 's AudioState \<Rightarrow> int \<Rightarrow> rect list result" where
  "draw_waves w st i_start =
     (let channels = ap_channels (audio_tgt st) in
      then_do (wave_channels (sample_array st) channels w i_start (nat channels) 0) (\<lambda>rs.
        Inr (fill_rectangle (xleft w) (ytop w) (wv_width w) (wv_height w) (ARGB 0xff 0 0 0) # rs
          @ map (\<lambda>ch. fill_rectangle (xleft w) (ytop w + int ch * (wv_height w sdiv channels)) (wv_width w) 1 (ARGB 0xff 0 0 0xff))
              [1..<nat channels])))"

section \<open>The spectrum\<close>

text \<open>
  \<open>weigh x nb s\<close> is the sample \<open>s\<close> under the window function, \<open>rdft bits\<close> the transform in place, \<open>level nb\<close>
  the brightness of a pair of its results.
\<close>

record 'f spectrum =
  weigh :: "int \<Rightarrow> int \<Rightarrow> int \<Rightarrow> 'f"
  rdft :: "nat \<Rightarrow> 'f list \<Rightarrow> 'f list"
  level :: "int \<Rightarrow> 'f \<Rightarrow> 'f \<Rightarrow> int"

fun rdft_data :: "'f spectrum \<Rightarrow> 16 word list \<Rightarrow> int \<Rightarrow> int \<Rightarrow> nat \<Rightarrow> int \<Rightarrow> int \<Rightarrow> 'f list result" where
  "rdft_data S arr channels nb 0 x i = Inr []"
| "rdft_data S arr channels nb (Suc n) x i =
     then_do (sample_at arr i) (\<lambda>s.
     then_do (rdft_data S arr channels nb n (x + 1) (next_index channels i)) (\<lambda>ds. Inr (weigh S x nb s # ds)))"

definition level_at :: "'f spectrum \<Rightarrow> int \<Rightarrow> 'f list \<Rightarrow> nat \<Rightarrow> int result" where
  "level_at S nb ds y = (if 2 * y + 1 < length ds then Inr (level S nb (ds ! (2 * y)) (ds ! (2 * y + 1))) else Inl OutOfBounds)"

fun spectrum_rows :: "'f spectrum \<Rightarrow> int \<Rightarrow> wave \<Rightarrow> 'f list \<Rightarrow> 'f list option \<Rightarrow> nat \<Rightarrow> nat \<Rightarrow> rect list result" where
  "spectrum_rows S nb w d0 d1 0 y = Inr []"
| "spectrum_rows S nb w d0 d1 (Suc n) y =
     then_do (level_at S nb d0 y) (\<lambda>a0.
     then_do (case d1 of Some ds \<Rightarrow> level_at S nb ds y | None \<Rightarrow> Inr a0) (\<lambda>b0.
       let a = min a0 255; b = min b0 255 in
       then_do (spectrum_rows S nb w d0 d1 n (y + 1)) (\<lambda>rs.
         Inr (fill_rectangle (xpos w) (wv_height w - int y) 1 1 (ARGB 0xff a b ((a + b) sdiv 2)) # rs))))"

definition draw_spectrum :: "'f spectrum \<Rightarrow> wave \<Rightarrow> 's AudioState \<Rightarrow> int \<Rightarrow> (rect list \<times> wave) result" where
  "draw_spectrum S w st i_start =
     (let bits = rdft_size (wv_height w) 1;
          nb = 2 ^ (bits - 1);
          channels = ap_channels (audio_tgt st);
          w1 = w\<lparr>rdft_bits := bits\<rparr> in
      then_do (rdft_data S (sample_array st) channels nb (nat (2 * nb)) 0 i_start) (\<lambda>d0.
      then_do (if 2 \<le> channels
               then then_do (rdft_data S (sample_array st) channels nb (nat (2 * nb)) 0 (i_start + 1)) (\<lambda>d. Inr (Some (rdft S bits d)))
               else Inr None) (\<lambda>d1.
      then_do (spectrum_rows S nb w1 (rdft S bits d0) d1 (nat (wv_height w)) 0) (\<lambda>rs.
        let w2 = (if \<not> paused (vs st) then w1\<lparr>xpos := xpos w1 + 1\<rparr> else w1);
            w3 = (if wv_width w2 \<le> xpos w2 then w2\<lparr>xpos := xleft w2\<rparr> else w2) in
        Inr (rs, w3)))))"

section \<open>The display\<close>

text \<open>How many samples of a channel are shown: one for each column, or what the transform takes.\<close>

definition data_used :: "wave \<Rightarrow> 's AudioState \<Rightarrow> int" where
  "data_used w st = (if mode (vs st) = SHOW_MODE_WAVES then wv_width w else 2 * 2 ^ (rdft_size (wv_height w) 1 - 1))"

text \<open>With no channel there is a division by zero.\<close>

definition video_audio_display :: "fl \<Rightarrow> 'f spectrum \<Rightarrow> wave \<Rightarrow> 's AudioState \<Rightarrow> (rect list \<times> wave \<times> 's AudioState) result" where
  "video_audio_display F S w st =
     (if ap_channels (audio_tgt st) \<le> 0 then Inl BadOperand
      else
        then_do
          (if \<not> paused (vs st) then
             let (delay, st1) = display_delay F (data_used w st) st in
             then_do (display_start delay st1) (\<lambda>i. Inr (i, w\<lparr>last_i_start := i\<rparr>, st1))
           else Inr (last_i_start w, w, st)) (\<lambda>(i, w1, st1).
        if mode (vs st1) = SHOW_MODE_WAVES
        then then_do (draw_waves w1 st1 i) (\<lambda>rs. Inr (rs, w1, st1))
        else then_do (draw_spectrum S w1 st1 i) (\<lambda>(rs, w2). Inr (rs, w2, st1))))"

section \<open>What is read\<close>

declare SAMPLE_ARRAY_pos [simp]

lemma SIZE_pos: "0 < SIZE" by simp

lemma smod_pos: "0 \<le> a \<Longrightarrow> 0 < b \<Longrightarrow> a smod b = a mod (b :: int)"
  by (cases "a = 0") (simp_all add: signed_modulo_int_def)

lemma smod_neg: "a < 0 \<Longrightarrow> 0 < b \<Longrightarrow> a smod b = - ((- a) mod (b :: int))"
  by (simp add: signed_modulo_int_def)

text \<open>The remainder is right but for one case: a negative multiple gives the divisor instead of 0.\<close>

lemma compute_mod_value:
  assumes "0 < b"
  shows "compute_mod a b = (if a < 0 \<and> b dvd a then b else a mod b)"
proof (cases "a < 0")
  case True
  then have "a mod b = (if b dvd a then 0 else b - (- a) mod b)"
    using zmod_zminus1_eq_if [of "- a" b] by (auto simp: dvd_eq_mod_eq_0)
  then show ?thesis using True assms by (auto simp: compute_mod_def smod_neg)
qed (use assms in \<open>simp add: compute_mod_def smod_pos\<close>)

lemma sample_in: "length arr = SAMPLE_ARRAY_SIZE \<Longrightarrow> 0 \<le> i \<Longrightarrow> i < SIZE \<Longrightarrow> sample_at arr i = Inr (sint (arr ! nat i))"
  by (simp add: sample_at_def)

definition start_ok :: "int \<Rightarrow> int \<Rightarrow> bool" where
  "start_ok channels i \<longleftrightarrow> 0 \<le> i \<and> i < SIZE \<and> channels dvd i"

lemma start_scan_ok:
  assumes "length arr = SAMPLE_ARRAY_SIZE" "0 < channels" "channels dvd SIZE" "start_ok channels x"
  shows "start_ok channels s \<Longrightarrow> 0 \<le> i \<Longrightarrow> channels dvd i \<Longrightarrow>
    \<exists>r. start_scan arr channels x i h s = Inr r \<and> start_ok channels r"
proof (induction "nat (1000 - i)" arbitrary: i h s rule: less_induct)
  case less
  show ?case
  proof (cases "i < 1000")
    case False
    then show ?thesis using less.prems by (subst start_scan.simps) simp
  next
    case True
    have big: "1000 < SIZE" by (simp add: SAMPLE_ARRAY_SIZE_def)
    define idx where "idx = (SIZE + x - i) smod SIZE"
    have pos: "0 \<le> SIZE + x - i" using True big assms(4) by (simp add: start_ok_def)
    have idx: "start_ok channels idx"
      using assms(3,4) less.prems(3) pos unfolding idx_def
      by (auto simp: smod_pos start_ok_def intro!: dvd_mod)
    have rd: "\<exists>v. sample_at arr ((idx + k) smod SIZE) = Inr v" if "0 \<le> k" for k
      using idx that sample_in [OF assms(1), of "(idx + k) mod SIZE"] by (auto simp: start_ok_def smod_pos)
    from rd [of 0] rd [of "4 * channels"] rd [of "5 * channels"] rd [of "9 * channels"] assms(2) obtain a b c d where
      r: "sample_at arr ((idx + 4 * channels) smod SIZE) = Inr b" "sample_at arr ((idx + 5 * channels) smod SIZE) = Inr c"
      "sample_at arr ((idx + 9 * channels) smod SIZE) = Inr d" by auto
    obtain a where a: "sample_at arr idx = Inr a" using sample_in [OF assms(1)] idx by (auto simp: start_ok_def)
    have next_i: "nat (1000 - (i + channels)) < nat (1000 - i)" "0 \<le> i + channels" "channels dvd i + channels"
      using True assms(2) less.prems by auto
    show ?thesis
      using less.hyps [OF next_i(1) less.prems(1) next_i(2,3)] less.hyps [OF next_i(1) idx next_i(2,3)]
      by (subst start_scan.simps) (simp add: True assms(2) idx_def [symmetric] a r Let_def)
  qed
qed

lemma next_index_ok:
  "0 < channels \<Longrightarrow> channels \<le> SIZE \<Longrightarrow> 0 \<le> i \<Longrightarrow> i < SIZE \<Longrightarrow> 0 \<le> next_index channels i \<and> next_index channels i < SIZE"
  by (auto simp: next_index_def)

text \<open>A column's bar stays within \<open>h2\<close> of the line.\<close>

lemma sint16: "- 32768 \<le> sint (s :: 16 word)" "sint (s :: 16 word) \<le> 32767"
  using sint_range_size [of s] by (simp_all add: word_size)

lemma bar_height:
  assumes "0 \<le> (h2 :: int)"
  shows "- h2 \<le> drop_bit 15 (sint (s :: 16 word) * h2)" "drop_bit 15 (sint (s :: 16 word) * h2) \<le> h2"
proof -
  have lo: "- 32768 * h2 \<le> sint s * h2" and hi: "sint s * h2 \<le> 32767 * h2"
    using sint16 [of s] assms by (intro mult_right_mono, simp_all)+
  show "- h2 \<le> drop_bit 15 (sint s * h2)" "drop_bit 15 (sint s * h2) \<le> h2"
    using lo hi assms by (simp_all add: drop_bit_eq_div)
qed

lemma wave_columns_ok:
  assumes "length arr = SAMPLE_ARRAY_SIZE" "0 < channels" "channels \<le> SIZE" "0 \<le> h2"
  shows "0 \<le> i \<Longrightarrow> i < SIZE \<Longrightarrow> \<exists>rs. wave_columns arr channels h2 y1 fg n x i = Inr rs \<and> length rs = n \<and>
    (\<forall>r \<in> set rs. x \<le> rx r \<and> rx r + rw r \<le> x + int n \<and> y1 - h2 \<le> ry r \<and> ry r + rh r \<le> y1 + h2 \<and> 0 \<le> rw r \<and> 0 \<le> rh r)"
proof (induction n arbitrary: x i)
  case 0
  then show ?case by simp
next
  case (Suc n)
  note nx = next_index_ok [OF assms(2,3) Suc.prems]
  obtain rs where rs: "wave_columns arr channels h2 y1 fg n (x + 1) (next_index channels i) = Inr rs" "length rs = n"
    "\<forall>r \<in> set rs. x + 1 \<le> rx r \<and> rx r + rw r \<le> x + 1 + int n \<and> y1 - h2 \<le> ry r \<and> ry r + rh r \<le> y1 + h2 \<and> 0 \<le> rw r \<and> 0 \<le> rh r"
    using Suc.IH [of "next_index channels i" "x + 1"] nx by auto
  define v where "v = drop_bit 15 (sint (arr ! nat i) * h2)"
  have "- h2 \<le> v" "v \<le> h2" using bar_height [OF assms(4)] by (simp_all add: v_def)
  then show ?case using sample_in [OF assms(1) Suc.prems] rs assms(4)
    by (auto simp: fill_rectangle_def Let_def v_def [symmetric] simp del: drop_bit_negative_int_iff)
qed

definition inside :: "wave \<Rightarrow> rect \<Rightarrow> bool" where
  "inside w r \<longleftrightarrow> xleft w \<le> rx r \<and> rx r + rw r \<le> xleft w + wv_width w \<and> ytop w \<le> ry r \<and> ry r + rh r \<le> ytop w + wv_height w
     \<and> 0 \<le> rw r \<and> 0 \<le> rh r"

lemma sdiv_pos: "0 \<le> a \<Longrightarrow> 0 < b \<Longrightarrow> a sdiv b = a div (b :: int)"
  by (cases "a = 0") (simp_all add: signed_divide_int_def)

lemma share_le: "0 \<le> a \<Longrightarrow> 0 < c \<Longrightarrow> 0 \<le> a sdiv c \<and> a sdiv c * c \<le> (a :: int)"
proof -
  assume p: "0 \<le> a" "0 < c"
  then have "a div c * c \<le> a" using minus_mod_eq_div_mult [of a c] pos_mod_sign [of c a] by linarith
  then show ?thesis using p by (simp add: sdiv_pos pos_imp_zdiv_nonneg_iff)
qed

lemma channel_start: "start_ok channels i \<Longrightarrow> channels dvd SIZE \<Longrightarrow> 0 \<le> ch \<Longrightarrow> ch < channels \<Longrightarrow> i + ch < SIZE"
proof -
  assume i: "start_ok channels i" "channels dvd SIZE" "0 \<le> ch" "ch < channels"
  then obtain k m where k: "i = channels * k" "SIZE = channels * m" by (auto simp: start_ok_def elim!: dvdE)
  then have "channels * k < channels * m" using i(1) by (simp add: start_ok_def)
  then have "k + 1 \<le> m" using i(3,4) by (simp add: mult_less_cancel_left)
  then have "channels * (k + 1) \<le> channels * m" using i(3,4) by (intro mult_left_mono) simp_all
  then show ?thesis using k i(4) by (simp add: algebra_simps)
qed

lemma wave_channels_ok:
  assumes "length (arr :: 16 word list) = SAMPLE_ARRAY_SIZE" "0 < channels" "channels dvd SIZE" "start_ok channels i"
    "0 \<le> wv_width w" "0 \<le> wv_height w"
  shows "0 \<le> ch \<Longrightarrow> ch + int n \<le> channels \<Longrightarrow>
    \<exists>rs. wave_channels arr channels w i n ch = Inr rs \<and> (\<forall>r \<in> set rs. inside w r)"
proof (induction n arbitrary: ch)
  case 0
  then show ?case by simp
next
  case (Suc n)
  have le: "channels \<le> SIZE" using assms(2,3) SAMPLE_ARRAY_pos by (intro zdvd_imp_le) simp_all
  define h where "h = wv_height w sdiv channels"
  define h2 where "h2 = (h * 9) sdiv 20"
  have h: "0 \<le> h" "h * channels \<le> wv_height w"
    using share_le [OF assms(6,2)] by (simp_all add: h_def)
  have hh: "h sdiv 2 = h div 2" "0 \<le> h2" "h2 \<le> h div 2" "h div 2 + h2 \<le> h"
    using h(1) by (simp_all add: h2_def sdiv_pos)
  have in_ch: "0 \<le> i + ch" "i + ch < SIZE"
    using channel_start [OF assms(4,3)] Suc.prems assms(4) by (simp_all add: start_ok_def)
  have band: "ch * h + h \<le> wv_height w" "0 \<le> ch * h"
  proof -
    have "(ch + 1) * h \<le> channels * h" using Suc.prems h(1) by (intro mult_right_mono) simp_all
    then show "ch * h + h \<le> wv_height w" "0 \<le> ch * h" using h Suc.prems by (simp_all add: algebra_simps)
  qed
  from wave_columns_ok [OF assms(1,2) le hh(2) in_ch, of "ytop w + ch * h + h sdiv 2" "ARGB 0xff 0xff 0xff 0xff" "nat (wv_width w)" "xleft w"]
  obtain rs where rs: "wave_columns arr channels h2 (ytop w + ch * h + h sdiv 2) (ARGB 0xff 0xff 0xff 0xff) (nat (wv_width w)) (xleft w) (i + ch) = Inr rs"
    "\<forall>r \<in> set rs. xleft w \<le> rx r \<and> rx r + rw r \<le> xleft w + wv_width w \<and> ytop w + ch * h + h sdiv 2 - h2 \<le> ry r
        \<and> ry r + rh r \<le> ytop w + ch * h + h sdiv 2 + h2 \<and> 0 \<le> rw r \<and> 0 \<le> rh r"
    using assms(5) by auto
  then have "\<forall>r \<in> set rs. inside w r" using hh band unfolding inside_def by fastforce
  moreover obtain qs where "wave_channels arr channels w i n (ch + 1) = Inr qs" "\<forall>r \<in> set qs. inside w r"
    using Suc.IH [of "ch + 1"] Suc.prems by auto
  ultimately show ?case using rs(1) by (auto simp: Let_def h_def h2_def)
qed

lemma draw_waves_ok:
  assumes "length (sample_array st) = SAMPLE_ARRAY_SIZE" "0 < ap_channels (audio_tgt st)" "ap_channels (audio_tgt st) dvd SIZE"
    "start_ok (ap_channels (audio_tgt st)) i" "0 \<le> wv_width w" "0 < wv_height w"
  shows "\<exists>rs. draw_waves w st i = Inr rs \<and> (\<forall>r \<in> set rs. inside w r)"
proof -
  let ?c = "ap_channels (audio_tgt st)"
  obtain rs where rs: "wave_channels (sample_array st) ?c w i (nat ?c) 0 = Inr rs" "\<forall>r \<in> set rs. inside w r"
    using wave_channels_ok [OF assms(1-5), of 0 "nat ?c"] assms(2,6) by auto
  have sep: "inside w (fill_rectangle (xleft w) (ytop w + int ch * (wv_height w sdiv ?c)) (wv_width w) 1 co)"
    if "ch < nat ?c" for ch co
  proof -
    define h where "h = wv_height w sdiv ?c"
    have h: "0 \<le> h" "h * ?c \<le> wv_height w"
      using share_le [OF less_imp_le [OF assms(6)] assms(2)] by (simp_all add: h_def)
    have "int ch + 1 \<le> ?c" using that by linarith
    then have "(int ch + 1) * h \<le> ?c * h" using h(1) by (intro mult_right_mono) simp_all
    then have "int ch * h + 1 \<le> wv_height w" using h assms(6) by (cases "h = 0") (simp_all add: algebra_simps)
    then show ?thesis using assms(5) h(1) by (simp add: inside_def fill_rectangle_def Let_def h_def [symmetric])
  qed
  have "inside w (fill_rectangle (xleft w) (ytop w) (wv_width w) (wv_height w) co)" for co
    using assms(5,6) by (simp add: inside_def fill_rectangle_def Let_def)
  then show ?thesis using rs sep by (auto simp: draw_waves_def Let_def)
qed

lemma rdft_size_enough: "1 \<le> rdft_size height 1" "height \<le> 2 ^ (rdft_size height 1 - 1)"
proof -
  have "b \<le> rdft_size height b \<and> 2 * height \<le> 2 ^ rdft_size height b" for b
  proof (induction height b rule: rdft_size.induct)
    case (1 height bits)
    then show ?case by (subst (1 2) rdft_size.simps) auto
  qed
  from this [of 1] show b: "1 \<le> rdft_size height 1" by simp
  then have "(2 :: int) ^ rdft_size height 1 = 2 * 2 ^ (rdft_size height 1 - 1)" by (cases "rdft_size height 1") auto
  with \<open>\<And>b. b \<le> rdft_size height b \<and> 2 * height \<le> 2 ^ rdft_size height b\<close> [of 1]
  show "height \<le> 2 ^ (rdft_size height 1 - 1)" by simp
qed

lemma rdft_data_ok:
  assumes "length (arr :: 16 word list) = SAMPLE_ARRAY_SIZE" "0 < channels" "channels \<le> SIZE"
  shows "0 \<le> i \<Longrightarrow> i < SIZE \<Longrightarrow> \<exists>ds. rdft_data S arr channels nb n x i = Inr ds \<and> length ds = n"
proof (induction n arbitrary: x i)
  case (Suc n)
  from Suc.IH [of "next_index channels i" "x + 1"] next_index_ok [OF assms(2,3) Suc.prems]
  show ?case using sample_in [OF assms(1) Suc.prems] by auto
qed simp

lemma spectrum_rows_ok:
  "2 * (y + n) \<le> length d0 \<Longrightarrow> (\<And>ds. d1 = Some ds \<Longrightarrow> 2 * (y + n) \<le> length ds) \<Longrightarrow>
   \<exists>rs. spectrum_rows S nb w d0 d1 n y = Inr rs \<and> length rs = n"
proof (induction n arbitrary: y)
  case (Suc n)
  obtain rs where "spectrum_rows S nb w d0 d1 n (y + 1) = Inr rs" "length rs = n"
    using Suc.IH [of "y + 1"] Suc.prems by auto
  then show ?case using Suc.prems by (cases d1) (auto simp: level_at_def Let_def)
qed simp

lemma draw_spectrum_ok:
  assumes "length (sample_array st) = SAMPLE_ARRAY_SIZE" "0 < ap_channels (audio_tgt st)" "ap_channels (audio_tgt st) dvd SIZE"
    "start_ok (ap_channels (audio_tgt st)) i" "\<And>b ds. length (rdft S b ds) = length ds"
  shows "\<exists>rs w'. draw_spectrum S w st i = Inr (rs, w') \<and> last_i_start w' = last_i_start w \<and> length rs = nat (wv_height w)"
proof -
  let ?c = "ap_channels (audio_tgt st)" and ?b = "rdft_size (wv_height w) 1"
  let ?nb = "2 ^ (?b - 1) :: int"
  have le: "?c \<le> SIZE" using assms(2,3) SAMPLE_ARRAY_pos by (intro zdvd_imp_le) simp_all
  have i: "0 \<le> i" "i < SIZE" using assms(4) by (simp_all add: start_ok_def)
  have i1: "2 \<le> ?c \<Longrightarrow> 0 \<le> i + 1 \<and> i + 1 < SIZE" using channel_start [OF assms(4,3), of 1] i by simp
  obtain d0 where d0: "rdft_data S (sample_array st) ?c ?nb (nat (2 * ?nb)) 0 i = Inr d0" "length d0 = nat (2 * ?nb)"
    using rdft_data_ok [OF assms(1,2) le i] by blast
  obtain d1 where d1: "(if 2 \<le> ?c
      then then_do (rdft_data S (sample_array st) ?c ?nb (nat (2 * ?nb)) 0 (i + 1)) (\<lambda>d. Inr (Some (rdft S ?b d)))
      else Inr None) = Inr d1" "\<And>ds. d1 = Some ds \<Longrightarrow> length ds = nat (2 * ?nb)"
    using rdft_data_ok [OF assms(1,2) le, of "i + 1" S ?nb "nat (2 * ?nb)" 0] i1 assms(5) by (cases "2 \<le> ?c") auto
  have "2 * nat (wv_height w) \<le> nat (2 * ?nb)" using rdft_size_enough(2) [of "wv_height w"] by linarith
  then obtain rs where "spectrum_rows S ?nb (w\<lparr>rdft_bits := ?b\<rparr>) (rdft S ?b d0) d1 (nat (wv_height w)) 0 = Inr rs"
    "length rs = nat (wv_height w)"
    using spectrum_rows_ok [of 0 "nat (wv_height w)" "rdft S ?b d0" d1 S ?nb "w\<lparr>rdft_bits := ?b\<rparr>"] d0 d1(2) assms(5) by auto
  then show ?thesis unfolding draw_spectrum_def Let_def
    by (simp add: d0(1) d1(1) del: nat_mult_distrib One_nat_def split del: if_split) (auto split: if_splits)
qed

text \<open>C30. The drawing of sound stays inside the ring of samples and, for the waves, inside its part of the window: when
  the number of channels divides the ring's size and the delay is less than the ring, no sample outside
  it is read, the place where the display starts is again the beginning of a set of samples, every
  rectangle of the waves lies in the window, and the spectrum has a point for each of its rows.\<close>

theorem sound_display_inside:
  fixes S :: "'f spectrum"
  assumes "length (sample_array st) = SAMPLE_ARRAY_SIZE" "0 < ap_channels (audio_tgt st)" "ap_channels (audio_tgt st) dvd SIZE"
    "start_ok (ap_channels (audio_tgt st)) (sample_array_index st)" "start_ok (ap_channels (audio_tgt st)) (last_i_start w)"
    "0 \<le> wv_width w" "0 < wv_height w" "\<And>b ds. length (rdft S b ds) = length ds"
    "fst (display_delay F (data_used w st) st) * ap_channels (audio_tgt st) - sample_array_index st < SIZE"
  shows "\<exists>rs w' st'. video_audio_display F S w st = Inr (rs, w', st') \<and> start_ok (ap_channels (audio_tgt st)) (last_i_start w')
    \<and> (if mode (vs st) = SHOW_MODE_WAVES then \<forall>r \<in> set rs. inside w r else length rs = nat (wv_height w))"
proof -
  let ?c = "ap_channels (audio_tgt st)"
  define used where "used = data_used w st"
  have d: "audio_tgt (snd (display_delay F u st)) = audio_tgt st" "sample_array (snd (display_delay F u st)) = sample_array st"
    "sample_array_index (snd (display_delay F u st)) = sample_array_index st"
    "mode (vs (snd (display_delay F u st))) = mode (vs st)" "paused (vs (snd (display_delay F u st))) = paused (vs st)" for u
    by (simp_all add: display_delay_def Let_def split: if_splits)
  obtain i w1 st1 where i: "(if \<not> paused (vs st) then
        let (delay, st1) = display_delay F used st in then_do (display_start delay st1) (\<lambda>i. Inr (i, w\<lparr>last_i_start := i\<rparr>, st1))
      else Inr (last_i_start w, w, st)) = Inr (i, w1, st1)"
    "start_ok ?c i" "inside w1 = inside w" "last_i_start w1 = i" "wv_width w1 = wv_width w" "wv_height w1 = wv_height w"
    "audio_tgt st1 = audio_tgt st" "sample_array st1 = sample_array st" "mode (vs st1) = mode (vs st)"
  proof (cases "paused (vs st)")
    case True
    then show ?thesis using assms(5) by (intro that [of "last_i_start w" w st]) simp_all
  next
    case False
    obtain delay st1 where dl: "display_delay F used st = (delay, st1)" by force
    note e = d [of used, unfolded dl snd_conv]
    define a where "a = sample_array_index st - delay * ?c"
    have "?c dvd a" "- SIZE < a" using assms(4,9) dl by (auto simp: a_def start_ok_def used_def)
    moreover have "\<not> (a < 0 \<and> SIZE dvd a)"
      using \<open>- SIZE < a\<close> zdvd_imp_le [of SIZE "- a"] by auto
    ultimately have x: "start_ok ?c (compute_mod a SIZE)"
      using compute_mod_value [OF SIZE_pos, of a] assms(3) pos_mod_sign [OF SIZE_pos, of a] pos_mod_bound [OF SIZE_pos, of a]
      by (auto simp: start_ok_def intro!: dvd_mod)
    obtain i where "display_start delay st1 = Inr i" "start_ok ?c i"
      using start_scan_ok [OF assms(1-3) x x, of 0 "- (2 ^ 31)"] x
      by (cases "mode (vs st) = SHOW_MODE_WAVES") (auto simp: display_start_def Let_def e a_def [symmetric])
    moreover have "inside (w\<lparr>last_i_start := i\<rparr>) = inside w" by (auto simp: inside_def fun_eq_iff)
    ultimately show ?thesis using False dl e by (intro that [of i "w\<lparr>last_i_start := i\<rparr>" st1]) simp_all
  qed
  have e: "video_audio_display F S w st =
      (if mode (vs st1) = SHOW_MODE_WAVES
       then then_do (draw_waves w1 st1 i) (\<lambda>rs. Inr (rs, w1, st1))
       else then_do (draw_spectrum S w1 st1 i) (\<lambda>(rs, w2). Inr (rs, w2, st1)))"
    using assms(2) i(1) unfolding video_audio_display_def used_def Let_def by simp
  show ?thesis
  proof (cases "mode (vs st) = SHOW_MODE_WAVES")
    case True
    from draw_waves_ok [of st1 i w1] obtain rs where "draw_waves w1 st1 i = Inr rs" "\<forall>r \<in> set rs. inside w r"
      using assms(1-3,6,7) i by auto
    then show ?thesis using True e i by simp
  next
    case False
    from draw_spectrum_ok [of st1 i S w1] obtain rs w2 where "draw_spectrum S w1 st1 i = Inr (rs, w2)"
      "last_i_start w2 = i" "length rs = nat (wv_height w)"
      using assms(1-3,8) i by auto
    then show ?thesis using False e i by simp
  qed
qed

definition demo_wave :: wave where
  "demo_wave = \<lparr>wv_width = 4, wv_height = 2, xleft = 0, ytop = 0, xpos = 0, last_i_start = 0, rdft_bits = 0\<rparr>"

definition toy_spectrum :: "int spectrum" where
  "toy_spectrum = \<lparr>weigh = (\<lambda>x n s. s), rdft = (\<lambda>b ds. ds), level = (\<lambda>n a b. 0)\<rparr>"

definition demo_waves :: "int \<Rightarrow> unit AudioState" where
  "demo_waves n = demo_audio\<lparr>vs := (vs demo_audio)\<lparr>mode := SHOW_MODE_WAVES, paused := False\<rparr>,
     audio_tgt := (audio_tgt demo_audio)\<lparr>ap_channels := n\<rparr>, sample_array_index := 12 * wv_width demo_wave - 2\<rparr>"

theorem sound_display_witness:
  "case video_audio_display demo_ticks toy_spectrum demo_wave (demo_waves 2) of
     Inr (rs, w, st) \<Rightarrow> \<forall>r \<in> set rs. inside demo_wave r | Inl e \<Rightarrow> False"
proof -
  have d: "fst (display_delay demo_ticks (data_used demo_wave (demo_waves 2)) (demo_waves 2)) = 8"
    by (simp add: display_delay_def demo_waves_def data_used_def demo_audio_def demo_wave_def signed_divide_int_def Let_def)
  have "start_ok 2 46" "start_ok 2 0" "(2 :: int) dvd SIZE" by (simp_all add: start_ok_def SAMPLE_ARRAY_SIZE_def)
  then have "\<exists>rs w' st'. video_audio_display demo_ticks toy_spectrum demo_wave (demo_waves 2) = Inr (rs, w', st')
      \<and> start_ok (ap_channels (audio_tgt (demo_waves 2))) (last_i_start w')
      \<and> (if mode (vs (demo_waves 2)) = SHOW_MODE_WAVES then \<forall>r \<in> set rs. inside demo_wave r
         else length rs = nat (wv_height demo_wave))"
    using d by (intro sound_display_inside) (simp_all add: demo_waves_def demo_audio_def demo_wave_def toy_spectrum_def SAMPLE_ARRAY_SIZE_def)
  then show ?thesis by (auto simp: demo_waves_def)
qed

section \<open>Six channels\<close>

lemma start_scan_silent:
  assumes "0 < channels" "0 \<le> x" "x \<le> SIZE"
  shows "0 \<le> i \<Longrightarrow> start_scan (replicate SAMPLE_ARRAY_SIZE 0) channels x i h s = Inr s"
proof (induction "nat (1000 - i)" arbitrary: i rule: less_induct)
  case less
  show ?case
  proof (cases "i < 1000")
    case False
    then show ?thesis by (subst start_scan.simps) simp
  next
    case True
    have big: "1000 < SIZE" by (simp add: SAMPLE_ARRAY_SIZE_def)
    have rd: "sample_at (replicate SAMPLE_ARRAY_SIZE 0) (n smod SIZE) = Inr 0" if "0 \<le> n" for n
      using that pos_mod_sign [OF SIZE_pos, of n] pos_mod_bound [OF SIZE_pos, of n]
      by (simp add: smod_pos sample_at_def nth_replicate nat_less_iff del: int_eq_iff)
    have p: "0 \<le> SIZE + x - i" using True big assms(2) by simp
    have q: "0 \<le> (SIZE + x - i) smod SIZE" using p pos_mod_sign [OF SIZE_pos, of "SIZE + x - i"] by (simp add: smod_pos)
    show ?thesis using less.hyps [of "i + channels"] less.prems True assms(1) rd p q
      by (subst start_scan.simps) (simp add: Let_def)
  qed
qed

text \<open>With six channels, which do not divide the ring, the waves of a silent sound read behind the ring: the
  third channel's first sample is taken at the ring's end.\<close>

theorem surround_reads_behind_ring:
  assumes "sample_array st = replicate SAMPLE_ARRAY_SIZE 0" "ap_channels (audio_tgt st) = 6" "\<not> paused (vs st)"
    "mode (vs st) = SHOW_MODE_WAVES" "audio_callback_time st = 0" "audio_write_buf_size st = 0"
    "0 < wv_width w" "0 \<le> wv_height w" "sample_array_index st = 12 * wv_width w - 2"
  shows "video_audio_display F S w st = Inl OutOfBounds"
proof -
  let ?arr = "replicate SAMPLE_ARRAY_SIZE 0 :: 16 word list"
  have big: "8 < SIZE" by (simp add: SAMPLE_ARRAY_SIZE_def)
  have dl: "display_delay F (data_used w st) st = (2 * wv_width w, st)"
    using assms by (simp add: display_delay_def data_used_def Let_def signed_divide_int_def)
  have "sample_array_index st - 2 * wv_width w * 6 = - 2" using assms(9) by simp
  moreover have "compute_mod (- 2) SIZE = SIZE - 2" using big by (simp add: compute_mod_def smod_neg smod_pos)
  ultimately have i: "display_start (2 * wv_width w) st = Inr (SIZE - 2)"
    using start_scan_silent [of 6 "SIZE - 2" 0] big by (simp only: display_start_def Let_def assms(1,2,4)) simp
  define h2 where "h2 = ((wv_height w sdiv 6) * 9) sdiv 20"
  have h2: "0 \<le> h2" using assms(8) share_le [of "wv_height w" 6] share_le [of "(wv_height w sdiv 6) * 9" 20] by (simp add: h2_def)
  have cols: "\<exists>rs. wave_columns ?arr 6 h2 y fg n x j = Inr rs" if "0 \<le> j" "j < SIZE" for y fg n x j
  proof -
    have "6 \<le> SIZE" using big by simp
    from wave_columns_ok [OF _ _ this h2 that, of ?arr y fg n x] show ?thesis by auto
  qed
  have out: "wave_columns ?arr 6 h2 y fg (nat (wv_width w)) x SIZE = Inl OutOfBounds" for y fg x
    using assms(7) by (cases "nat (wv_width w)") (simp_all add: sample_at_def)
  obtain r0 r1 where r: "wave_columns ?arr 6 h2 (ytop w + 0 * (wv_height w sdiv 6) + wv_height w sdiv 6 sdiv 2) (ARGB 0xff 0xff 0xff 0xff) (nat (wv_width w)) (xleft w) (SIZE - 2) = Inr r0"
    "wave_columns ?arr 6 h2 (ytop w + 1 * (wv_height w sdiv 6) + wv_height w sdiv 6 sdiv 2) (ARGB 0xff 0xff 0xff 0xff) (nat (wv_width w)) (xleft w) (SIZE - 1) = Inr r1"
    using cols [of "SIZE - 2"] cols [of "SIZE - 1"] big by fastforce
  have six: "nat 6 = Suc (Suc (Suc (Suc (Suc (Suc 0)))))" by simp
  have "wave_channels ?arr 6 v (SIZE - 2) (nat 6) 0 = Inl OutOfBounds" if "v = w\<lparr>last_i_start := SIZE - 2\<rparr>" for v
    unfolding six using r out that by (simp add: Let_def h2_def [symmetric])
  then show ?thesis using assms dl i by (simp add: video_audio_display_def draw_waves_def Let_def)
qed

theorem surround_witness:
  "video_audio_display demo_ticks toy_spectrum demo_wave (demo_waves 6) = Inl OutOfBounds"
  by (rule surround_reads_behind_ring) (simp_all add: demo_waves_def demo_audio_def demo_wave_def)

end
