(* ===== verification/Plugins.thy ===== *)
theory Plugins
  imports HttpText Posix
begin

text \<open>
  The optional parts of the server and its small client: the answers to searches of \<open>src/plugin_ssdp.c\<close>,
  the compressed reading of \<open>src/plugin_zlib.c\<close>, the results of \<open>src/plugin_ssl.c\<close> and the reception of
  \<open>src/http_client.c\<close>.  OpenSSL and zlib are parameters, by what their calls return.
\<close>

section \<open>Searches by SSDP\<close>

definition SSDP_ST :: string where
  "SSDP_ST = ''urn:schemas-upnp-org:device:Basic:1''"

definition SSDP_USN :: string where
  "SSDP_USN = ''uuid:37d0a56f-985d-4df1-77cd-ca49a836881b::urn:schemas-upnp-org:device:Basic:1''"

text \<open>\<open>strstr\<close> in a block of memory: it stops at the terminator and faults when there is none.\<close>

fun c_strstr :: "char list \<Rightarrow> string \<Rightarrow> string option result" where
  "c_strstr [] pat = Inl OutOfBounds"
| "c_strstr (c # cs) pat =
     (if take (length pat) (c # cs) = pat then Inr (Some (c # cs))
      else if c = NUL then Inr None else c_strstr cs pat)"

fun pass_spaces :: "char list \<Rightarrow> string result" where
  "pass_spaces [] = Inl OutOfBounds"
| "pass_spaces (c # cs) = (if c = CHR '' '' then pass_spaces cs else Inr (c # cs))"

definition ssdp_answer :: "string \<Rightarrow> string" where
  "ssdp_answer ip = ''HTTP/1.1 200 OK'' @ crlf @ ''Cache-Control: max-age=1800'' @ crlf
     @ ''ST: '' @ SSDP_ST @ crlf @ ''USN: '' @ SSDP_USN @ crlf
     @ ''Location: http://'' @ ip @ '':80/DeviceDescription.xml'' @ crlf @ crlf"

definition ssdp_notice :: "string \<Rightarrow> string \<Rightarrow> int \<Rightarrow> string \<Rightarrow> string" where
  "ssdp_notice msg dstip dstport ip = ''NOTIFY * HTTP/1.1'' @ crlf @ ''NTS: '' @ msg @ crlf
     @ ''HOST: '' @ dstip @ '':'' @ int_str dstport @ crlf @ ''NT: '' @ SSDP_ST @ crlf @ ''USN: '' @ SSDP_USN @ crlf
     @ ''Location: http://'' @ ip @ ''/DeviceDescription.xml'' @ crlf @ crlf"

text \<open>\<open>sprintf\<close> into a buffer of \<open>n\<close> bytes, and what is sent of it.\<close>

definition printed :: "nat \<Rightarrow> string \<Rightarrow> string result" where
  "printed n txt = (if length txt < n then Inr txt else Inl OutOfBounds)"

definition ssdp_notify :: "string \<Rightarrow> string \<Rightarrow> int \<Rightarrow> string \<Rightarrow> string result" where
  "ssdp_notify msg dstip dstport ip = printed 512 (ssdp_notice msg dstip dstport ip)"

text \<open>
  One datagram \<open>d\<close> (the buffer takes its first 1024 bytes) in the static \<open>state\<close>; the result is what the
  function returns, the new state and the answer sent.
\<close>

definition ssdp_response :: "string \<Rightarrow> int \<Rightarrow> char list \<Rightarrow> (int \<times> int \<times> string option) result" where
  "ssdp_response ip state d =
     (if d = [] then Inr (-1, state, None)
      else
        let buffer = take 1024 d @ replicate (1024 - length d) NUL;
            s1 = (if state = 0 \<and> take 8 buffer = ''M-SEARCH'' then 1 else 0) in
        then_do
          (if s1 = (1 :: int) then
             then_do (c_strstr buffer ''ST:'') (\<lambda>ptr.
               case ptr of
                 None \<Rightarrow> Inr 1
               | Some p \<Rightarrow>
                   then_do (pass_spaces (drop 3 p)) (\<lambda>q.
                     if length q < length SSDP_ST \<and> take (length q) SSDP_ST = q then Inl OutOfBounds
                     else Inr (if take (length SSDP_ST) q = SSDP_ST then 2 else 1)))
           else Inr s1) (\<lambda>s2.
        if s2 \<noteq> 2 then Inr (1, s2, None)
        else
          then_do (c_strstr buffer (crlf @ crlf)) (\<lambda>e.
            then_do (printed 512 (ssdp_answer ip)) (\<lambda>a.
              Inr (0, if e \<noteq> None then 0 else s2, Some a)))))"

text \<open>What the code looks for, on the text of a datagram.\<close>

fun first_at :: "string \<Rightarrow> string \<Rightarrow> string option" where
  "first_at pat [] = None"
| "first_at pat (c # cs) = (if take (length pat) (c # cs) = pat then Some (c # cs) else first_at pat cs)"

definition asks_for_us :: "string \<Rightarrow> bool" where
  "asks_for_us d = (case first_at ''ST:'' d of
     None \<Rightarrow> False | Some p \<Rightarrow> take (length SSDP_ST) (dropWhile (\<lambda>c. c = CHR '' '') (drop 3 p)) = SSDP_ST)"

lemma take_padded:
  assumes "NUL \<notin> set pat"
  shows "take (length pat) (xs @ replicate k NUL) = pat \<longleftrightarrow> take (length pat) xs = pat"
proof
  assume "take (length pat) (xs @ replicate k NUL) = pat"
  then have e: "take (length pat) xs @ replicate (min (length pat - length xs) k) NUL = pat" by simp
  then have "set (replicate (min (length pat - length xs) k) NUL) \<subseteq> set pat" by (metis set_append Un_upper2)
  then have "min (length pat - length xs) k = 0" using assms by (cases "min (length pat - length xs) k") auto
  then show "take (length pat) xs = pat" using e by simp
next
  assume t: "take (length pat) xs = pat"
  then have "length pat \<le> length xs" by (metis length_take min.cobounded1)
  with t show "take (length pat) (xs @ replicate k NUL) = pat" by simp
qed

lemma strstr_first:
  "NUL \<notin> set d \<Longrightarrow> NUL \<notin> set pat \<Longrightarrow> pat \<noteq> [] \<Longrightarrow> 0 < k \<Longrightarrow>
   c_strstr (d @ replicate k NUL) pat = Inr (map_option (\<lambda>p. p @ replicate k NUL) (first_at pat d))"
proof (induction d)
  case Nil
  obtain j where "k = Suc j" using Nil by (cases k) auto
  then show ?case using Nil take_padded [of pat "[]" k] by auto
next
  case (Cons c d)
  then show ?case using take_padded [of pat "c # d" k] by auto
qed

lemma pass_spaces_dropWhile:
  "0 < k \<Longrightarrow> pass_spaces (d @ replicate k NUL) = Inr (dropWhile (\<lambda>c. c = CHR '' '') d @ replicate k NUL)"
proof (induction d)
  case Nil
  then show ?case by (cases k) auto
qed simp

lemma first_at_drop: "first_at pat d = Some p \<Longrightarrow> \<exists>pre. d = pre @ p \<and> take (length pat) p = pat"
proof (induction d)
  case (Cons c d)
  then show ?case by (auto split: if_splits intro: exI [of _ "[]"] Cons_eq_appendI)
qed simp

text \<open>C27. What is answered.  A datagram shorter than the buffer and without zero bytes is answered, with the
  description of the device, exactly when the state is 0, it starts with \<open>M-SEARCH\<close> and its first
  \<open>ST:\<close> names the device's type; no access leaves the buffer and the answer fits its own.  After a
  search that is not answered the state is 1, and after one without a blank line it is 2: in these
  states the next datagram, whatever it is, is not answered and only takes the state back to 0.\<close>

theorem ssdp_answers_iff:
  assumes "d \<noteq> []" "length d < 1024" "NUL \<notin> set d" "length ip \<le> 31"
  shows "ssdp_response ip state d = Inr
    (if state = 0 \<and> take 8 d = ''M-SEARCH'' then
       if asks_for_us d then (0, if first_at (crlf @ crlf) d = None then 2 else 0, Some (ssdp_answer ip))
       else (1, 1, None)
     else (1, 0, None))"
proof -
  let ?k = "1024 - length d"
  have k: "0 < ?k" using assms(2) by simp
  define B where "B = d @ replicate ?k NUL"
  have buf: "take 1024 d @ replicate ?k NUL = B" using assms(2) by (simp add: B_def)
  have ms: "take 8 B = ''M-SEARCH'' \<longleftrightarrow> take 8 d = ''M-SEARCH''"
  proof -
    have l: "length ''M-SEARCH'' = 8" and n: "NUL \<notin> set ''M-SEARCH''" by simp_all
    show ?thesis using take_padded [OF n, of d ?k] unfolding l B_def .
  qed
  have fits: "printed 512 (ssdp_answer ip) = Inr (ssdp_answer ip)"
    using assms(4) by (simp add: printed_def ssdp_answer_def SSDP_ST_def SSDP_USN_def crlf_def)
  have st: "c_strstr B ''ST:'' = Inr (map_option (\<lambda>p. p @ replicate ?k NUL) (first_at ''ST:'' d))"
    using assms(3) k unfolding B_def by (intro strstr_first) simp_all
  have bl: "c_strstr B (crlf @ crlf) = Inr (map_option (\<lambda>p. p @ replicate ?k NUL) (first_at (crlf @ crlf) d))"
    using assms(3) k unfolding B_def by (intro strstr_first) (simp_all add: crlf_def)
  have r: "ssdp_response ip state d =
      (let s1 = (if state = 0 \<and> take 8 d = ''M-SEARCH'' then 1 else 0) in
        then_do
          (if s1 = (1 :: int) then
             then_do (c_strstr B ''ST:'') (\<lambda>ptr.
               case ptr of
                 None \<Rightarrow> Inr 1
               | Some p \<Rightarrow>
                   then_do (pass_spaces (drop 3 p)) (\<lambda>q.
                     if length q < length SSDP_ST \<and> take (length q) SSDP_ST = q then Inl OutOfBounds
                     else Inr (if take (length SSDP_ST) q = SSDP_ST then 2 else 1)))
           else Inr s1) (\<lambda>s2.
        if s2 \<noteq> 2 then Inr (1, s2, None)
        else
          then_do (c_strstr B (crlf @ crlf)) (\<lambda>e.
            then_do (printed 512 (ssdp_answer ip)) (\<lambda>a.
              Inr (0, if e \<noteq> None then 0 else s2, Some a)))))"
    using assms(1) unfolding ssdp_response_def buf ms Let_def [of B] by simp
  show ?thesis
  proof (cases "state = 0 \<and> take 8 d = ''M-SEARCH''")
    case False
    then show ?thesis unfolding r if_not_P [OF False] by simp
  next
    case True
    show ?thesis
    proof (cases "first_at ''ST:'' d")
      case None
      show ?thesis unfolding r if_P [OF True] st None asks_for_us_def by simp
    next
      case (Some p)
      from first_at_drop [OF this] have p3: "3 \<le> length p" by (auto dest: arg_cong [where f = length])
      define Q where "Q = dropWhile (\<lambda>c. c = CHR '' '') (drop 3 p)"
      define QB where "QB = Q @ replicate ?k NUL"
      have sk: "pass_spaces (drop 3 (p @ replicate ?k NUL)) = Inr QB"
        using p3 pass_spaces_dropWhile [OF k, of "drop 3 p"] by (simp add: Q_def QB_def)
      have nn: "NUL \<notin> set SSDP_ST" by (simp add: SSDP_ST_def)
      have inside: "\<not> (length QB < length SSDP_ST \<and> take (length QB) SSDP_ST = QB)"
      proof
        assume "length QB < length SSDP_ST \<and> take (length QB) SSDP_ST = QB"
        then have "set QB \<subseteq> set SSDP_ST" by (metis set_take_subset)
        then show False using nn k by (auto simp: QB_def)
      qed
      have cmp: "take (length SSDP_ST) QB = SSDP_ST \<longleftrightarrow> take (length SSDP_ST) Q = SSDP_ST"
        unfolding QB_def using nn by (rule take_padded)
      have "asks_for_us d \<longleftrightarrow> take (length SSDP_ST) Q = SSDP_ST" by (simp add: asks_for_us_def Some Q_def)
      then show ?thesis unfolding r if_P [OF True] st Some bl using inside cmp fits by (simp add: sk del: drop_append)
    qed
  qed
qed

definition demo_search :: string where
  "demo_search = ''M-SEARCH * HTTP/1.1'' @ crlf @ ''ST:  '' @ SSDP_ST @ crlf @ crlf"

theorem ssdp_answers_witness:
  "ssdp_response ''10.0.0.2'' 0 demo_search = Inr (0, 0, Some (ssdp_answer ''10.0.0.2''))
   \<and> ssdp_response ''10.0.0.2'' 0 ''M-SEARCH'' = Inr (1, 1, None)
   \<and> ssdp_response ''10.0.0.2'' 1 demo_search = Inr (1, 0, None)"
proof -
  have a: "asks_for_us demo_search" "first_at (crlf @ crlf) demo_search \<noteq> None" "take 8 demo_search = ''M-SEARCH''"
    "demo_search \<noteq> []" "length demo_search < 1024" "NUL \<notin> set demo_search" "length ''10.0.0.2'' \<le> 31"
    "\<not> asks_for_us ''M-SEARCH''" by code_simp+
  show ?thesis using ssdp_answers_iff [OF a(4-7)] ssdp_answers_iff [of "''M-SEARCH''", OF _ _ _ a(7)] a by simp
qed

section \<open>Compressed reading\<close>

datatype zresult = Z_OK | Z_STREAM_END | Z_STREAM_ERROR | Z_BUF_ERROR

text \<open>The state: zlib's, and the bytes of the buffer it has not taken yet.\<close>

record 'z zlib =
  z_st :: 'z
  z_in :: "byte list"

text \<open>
  \<open>rd\<close> is what reading the file gives (a negative result, or bytes); \<open>deflate z bs room finish\<close> gives the
  result, how many of the bytes were taken, the output and the new state.
\<close>

definition zlib_read_compress ::
  "('z \<Rightarrow> byte list \<Rightarrow> nat \<Rightarrow> bool \<Rightarrow> zresult \<times> nat \<times> byte list \<times> 'z) \<Rightarrow> int + byte list \<Rightarrow> nat \<Rightarrow> 'z zlib
   \<Rightarrow> int \<times> byte list \<times> 'z zlib" where
  "zlib_read_compress deflate rd sz z =
     (case (if z_in z = [] then rd else Inr (z_in z)) of
        Inl e \<Rightarrow> (e, [], z)
      | Inr bs \<Rightarrow>
          let (ret, n, out, st) = deflate (z_st z) bs sz (bs = []);
              z1 = \<lparr>z_st = st, z_in = drop n bs\<rparr> in
          if ret = Z_STREAM_ERROR then (-1, out, z1)
          else if ret \<noteq> Z_STREAM_END \<and> out = [] then (-11, out, z1)
          else (int (length out), out, z1))"

text \<open>The reader takes 0 for the end of the file, so 0 must not be returned before: only zlib's own end gives it.\<close>

lemma zlib_zero_is_end:
  "zlib_read_compress deflate rd sz z = (0, out, z1) \<Longrightarrow> rd \<noteq> Inl 0 \<Longrightarrow> z_in z = [] \<Longrightarrow>
   \<exists>bs n st. rd = Inr bs \<and> deflate (z_st z) bs sz (bs = []) = (Z_STREAM_END, n, [], st)"
  by (auto simp: zlib_read_compress_def Let_def split: sum.splits prod.splits if_splits)

section \<open>Results of OpenSSL\<close>

datatype ssl_error = WANT_READ | WANT_WRITE | OTHER_ERROR

definition ssl_read :: "int \<Rightarrow> ssl_error \<Rightarrow> int" where
  "ssl_read n err = (if n < 0 then (if err = WANT_READ then -11 else -1) else n)"

definition ssl_write :: "int \<Rightarrow> ssl_error \<Rightarrow> int" where
  "ssl_write n err = (if n < 0 then (if err = WANT_WRITE then -11 else -1) else n)"

text \<open>A session that is not established yet is kept when it only waits; \<open>None\<close>: it is freed.\<close>

definition ssl_open :: "'s \<Rightarrow> int \<Rightarrow> ssl_error \<Rightarrow> 's option" where
  "ssl_open s n err = (if n \<noteq> 1 \<and> err \<noteq> WANT_READ \<and> err \<noteq> WANT_WRITE then None else Some s)"

text \<open>The global context, from what creating it and loading and checking the files give.\<close>

definition ssl_init :: "'c option \<Rightarrow> int \<Rightarrow> int \<Rightarrow> int \<Rightarrow> 'c option \<Rightarrow> int \<times> 'c option" where
  "ssl_init ctx cert_ret key_ret check_ret old =
     (if ctx = None then (-1, old)
      else if cert_ret \<noteq> 1 \<or> key_ret \<noteq> 1 \<or> check_ret \<noteq> 1 then (-1, old)
      else (0, ctx))"

text \<open>A handshake that \<open>ssl_open\<close> left unfinished may have to write during a read: that is taken for an error.\<close>

lemma ssl_read_gives_up:
  "ssl_open s (-1) WANT_WRITE = Some s \<and> ssl_read (-1) WANT_WRITE = -1"
  by (simp add: ssl_open_def ssl_read_def)

section \<open>The client\<close>

text \<open>The loop that receives up to \<open>n\<close> bytes.\<close>

function client_recv :: "nat \<Rightarrow> byte list \<Rightarrow> byte rx_event list \<Rightarrow> byte list \<times> byte rx_event list" where
  "client_recv n bs es =
     (case sock_recv (n - length bs) es of
        (Got (c # cs), es') \<Rightarrow>
          if length (bs @ c # cs) \<le> n then client_recv n (bs @ c # cs) es' else (bs @ c # cs, es')
      | (_, es') \<Rightarrow> (bs, es'))"
  by pat_completeness auto
termination client_recv
  by (relation "measure (\<lambda>(n, bs, es). rx_size es)") (auto dest!: sock_recv_size [OF sym])

declare client_recv.simps [simp del]

definition blank_line :: "byte list" where "blank_line = [13, 10, 13, 10]"

text \<open>The search for the end of the head in the block \<open>b\<close>, of which \<open>e\<close> bytes were received.\<close>

function head_end :: "byte list \<Rightarrow> nat \<Rightarrow> nat \<Rightarrow> nat result" where
  "head_end b e i =
     (if i < e then
        then_do (mem_rd b (int i) 4) (\<lambda>w. if w = blank_line then Inr (i + 4) else head_end b e (i + 1))
      else Inr i)"
  by pat_completeness auto
termination head_end
  by (relation "measure (\<lambda>(b, e, i). e - i)") auto

declare head_end.simps [simp del]

text \<open>The first and the last four bytes of the body, as they are logged.\<close>

definition client_report :: "byte list \<Rightarrow> nat \<Rightarrow> (nat \<times> byte list \<times> byte list) result" where
  "client_report b e =
     then_do (head_end b e 0) (\<lambda>p.
     then_do (mem_rd b (int p) 4) (\<lambda>h.
     then_do (mem_rd b (int e - 4) 4) (\<lambda>t. Inr (p, h, t))))"

lemma client_recv_bytes:
  "length bs \<le> n \<Longrightarrow> client_recv n bs es = (r, es') \<Longrightarrow> bs @ rx_bytes es = r @ rx_bytes es' \<and> length r \<le> n"
proof (induction n bs es rule: client_recv.induct)
  case (1 n bs es)
  obtain g es1 where s: "sock_recv (n - length bs) es = (g, es1)" by force
  show ?case
  proof (cases "\<exists>c cs. g = Got (c # cs)")
    case True
    then obtain c cs where g: "g = Got (c # cs)" by blast
    note b = sock_recv_bytes [OF s [unfolded g]]
    then have le: "length (bs @ c # cs) \<le> n" using 1(2) by (simp del: diff_diff_left) linarith
    have "client_recv n (bs @ c # cs) es1 = (r, es')"
      using 1(3) s g le by (subst (asm) client_recv.simps) simp
    with 1(1) [OF s [symmetric] g refl le le] b show ?thesis by simp
  next
    case False
    then have "r = bs" "es' = es1" using 1(3) s by (auto simp: client_recv.simps [of n bs es] split: io_result.splits list.splits)
    moreover have "rx_bytes es = rx_bytes es1"
    proof (cases g)
      case (Got x)
      then show ?thesis using False sock_recv_bytes [OF s [unfolded Got]] by (cases x) auto
    next
      case (Failed x)
      then show ?thesis using sock_recv_failed_bytes s by blast
    qed
    ultimately show ?thesis using 1(2) by simp
  qed
qed

lemma head_end_find:
  "i \<le> e \<Longrightarrow> e + 3 \<le> length b \<Longrightarrow>
   head_end b e i = Inr (case find (\<lambda>j. take 4 (drop j b) = blank_line) [i..<e] of Some j \<Rightarrow> j + 4 | None \<Rightarrow> e)"
proof (induction b e i rule: head_end.induct)
  case (1 b e i)
  show ?case
  proof (cases "i < e")
    case True
    have rd: "mem_rd b (int i) 4 = Inr (take 4 (drop i b))"
      using mem_rd_nat [of i 4 b] True 1(3) by simp
    have u: "[i..<e] = i # [i + 1..<e]" using True by (simp add: upt_conv_Cons)
    show ?thesis using 1 True rd unfolding u by (subst head_end.simps) auto
  next
    case False
    then show ?thesis using 1(2) by (subst head_end.simps) simp
  qed
qed

text \<open>The client finds the body: after an answer of at least four bytes that leaves seven bytes of the block
  free it reports the position behind the first blank line (or the end, when there is none) without
  reading outside the block; after a connection closed without an answer it reads in front of it.\<close>

theorem client_finds_body:
  assumes "4 \<le> e" "e + 7 \<le> length b"
  shows "client_report b e =
      (let p = (case find (\<lambda>j. take 4 (drop j b) = blank_line) [0..<e] of Some j \<Rightarrow> j + 4 | None \<Rightarrow> e) in
       Inr (p, take 4 (drop p b), take 4 (drop (e - 4) b)))
    \<and> client_report b 0 = Inl OutOfBounds"
proof
  define p where "p = (case find (\<lambda>j. take 4 (drop j b) = blank_line) [0..<e] of Some j \<Rightarrow> j + 4 | None \<Rightarrow> e)"
  have "p \<le> e + 3" by (auto simp: p_def find_Some_iff split: option.splits)
  then have rd: "mem_rd b (int p) 4 = Inr (take 4 (drop p b))" "mem_rd b (int e - 4) 4 = Inr (take 4 (drop (e - 4) b))"
    using mem_rd_nat [of p 4 b] mem_rd_nat [of "e - 4" 4 b] assms by (simp_all add: of_nat_diff)
  have "head_end b e 0 = Inr p" using head_end_find [of 0 e b] assms(2) by (simp add: p_def)
  then show "client_report b e =
      (let p = (case find (\<lambda>j. take 4 (drop j b) = blank_line) [0..<e] of Some j \<Rightarrow> j + 4 | None \<Rightarrow> e) in
       Inr (p, take 4 (drop p b), take 4 (drop (e - 4) b)))"
    using rd by (simp add: client_report_def p_def [symmetric] Let_def)
  show "client_report b 0 = Inl OutOfBounds"
    using mem_rd_nat [of 0 4 b] assms by (simp add: client_report_def head_end.simps [of b 0 0] mem_rd_def)
qed

theorem client_finds_body_witness:
  "client_report ([72, 10, 13, 10, 13, 10, 1, 2, 3, 4] @ replicate 10 0) 10 = Inr (6, [1, 2, 3, 4], [1, 2, 3, 4])"
proof -
  let ?b = "[72, 10, 13, 10, 13, 10, 1, 2, 3, 4] @ replicate 10 0 :: byte list"
  have "find (\<lambda>j. take 4 (drop j ?b) = blank_line) [0..<10] = Some 2" by code_simp
  moreover have "take 4 (drop 6 ?b) = [1, 2, 3, 4]" by code_simp
  ultimately show ?thesis using client_finds_body [of 10 ?b] by simp
qed

end
