(* ===== verification/Portability.thy ===== *)
theory Portability
  imports Posix
begin

unbundle bit_operations_syntax

text \<open>
  \<open>src/compact.c\<close>, \<open>src/compact.h\<close> and \<open>src/time_log.h\<close>: \<open>poll\<close> made from \<open>select\<close> for systems without it, the
  allocation wrappers, the clocks, and the time in front of a line of the log.
\<close>

section \<open>Polling with select\<close>

definition POLLIN :: "16 word" where "POLLIN = 0x0001"
definition POLLOUT :: "16 word" where "POLLOUT = 0x0002"
definition POLLERR :: "16 word" where "POLLERR = 0x0004"

definition FD_SETSIZE :: int where "FD_SETSIZE = 1024"

record pollfd =
  pfd :: int
  events :: "16 word"
  revents :: "16 word"

text \<open>An \<open>fd_set\<close> is its members; asking for or setting a place outside of the array is a fault.\<close>

type_synonym fd_set = "int set"

definition FD_SET :: "int \<Rightarrow> fd_set \<Rightarrow> fd_set result" where
  "FD_SET fd s = (if 0 \<le> fd \<and> fd < FD_SETSIZE then Inr (insert fd s) else Inl OutOfBounds)"

definition FD_ISSET :: "int \<Rightarrow> fd_set \<Rightarrow> bool result" where
  "FD_ISSET fd s = (if 0 \<le> fd \<and> fd < FD_SETSIZE then Inr (fd \<in> s) else Inl OutOfBounds)"

text \<open>The first loop: the sets, the number for \<open>select\<close>; \<open>None\<close>: a descriptor is too large.\<close>

fun fill_sets :: "pollfd list \<Rightarrow> fd_set \<Rightarrow> fd_set \<Rightarrow> fd_set \<Rightarrow> int \<Rightarrow> (fd_set \<times> fd_set \<times> fd_set \<times> int) option result" where
  "fill_sets [] r w e n = Inr (Some (r, w, e, n))"
| "fill_sets (p # ps) r w e n =
     (if pfd p < 0 then fill_sets ps r w e n
      else if FD_SETSIZE \<le> pfd p then Inr None
      else
        then_do (if events p AND POLLIN \<noteq> 0 then FD_SET (pfd p) r else Inr r) (\<lambda>r1.
        then_do (if events p AND POLLOUT \<noteq> 0 then FD_SET (pfd p) w else Inr w) (\<lambda>w1.
        then_do (if events p AND POLLERR \<noteq> 0 then FD_SET (pfd p) e else Inr e) (\<lambda>e1.
          fill_sets ps r1 w1 e1 (if n \<le> pfd p then pfd p + 1 else n)))))"

text \<open>The second: what \<open>select\<close> left in the sets.\<close>

fun read_sets :: "fd_set \<Rightarrow> fd_set \<Rightarrow> fd_set \<Rightarrow> pollfd list \<Rightarrow> pollfd list result" where
  "read_sets r w e [] = Inr []"
| "read_sets r w e (p # ps) =
     then_do (FD_ISSET (pfd p) r) (\<lambda>a.
     then_do (FD_ISSET (pfd p) w) (\<lambda>b.
     then_do (FD_ISSET (pfd p) e) (\<lambda>c.
     then_do (read_sets r w e ps) (\<lambda>qs.
       Inr (p\<lparr>revents := (if a then POLLIN else 0) OR (if b then POLLOUT else 0) OR (if c then POLLERR else 0)\<rparr> # qs)))))"

text \<open>The time to wait in seconds and microseconds; \<open>None\<close>: for ever.\<close>

definition wait_time :: "int \<Rightarrow> (int \<times> int) option" where
  "wait_time timeout = (if timeout < 0 then None else Some (timeout div 1000, 1000 * (timeout mod 1000)))"

text \<open>\<open>select n r w e tv\<close> gives its result and the sets.\<close>

definition ff_poll ::
  "(int \<Rightarrow> fd_set \<Rightarrow> fd_set \<Rightarrow> fd_set \<Rightarrow> (int \<times> int) option \<Rightarrow> int \<times> fd_set \<times> fd_set \<times> fd_set)
   \<Rightarrow> pollfd list \<Rightarrow> int \<Rightarrow> (int \<times> pollfd list) result" where
  "ff_poll select fds timeout =
     then_do (fill_sets fds {} {} {} 0) (\<lambda>sets.
     case sets of
       None \<Rightarrow> Inr (-1, fds)
     | Some (r, w, e, n) \<Rightarrow>
         if n = 0 then Inr (0, fds)
         else
           let (rc, r1, w1, e1) = select n r w e (wait_time timeout) in
           if rc < 0 then Inr (rc, fds)
           else then_do (read_sets r1 w1 e1 fds) (\<lambda>qs. Inr (rc, qs)))"

text \<open>What \<open>poll\<close> says of a descriptor: those of the events asked for that it is ready for.\<close>

definition ready_events :: "(int \<Rightarrow> 16 word) \<Rightarrow> pollfd \<Rightarrow> pollfd" where
  "ready_events ready p = p\<lparr>revents := events p AND ready (pfd p) AND (POLLIN OR POLLOUT OR POLLERR)\<rparr>"

text \<open>What \<open>select\<close> does: it leaves the members that are ready, and counts them.\<close>

definition select_ok ::
  "(int \<Rightarrow> 16 word) \<Rightarrow> (int \<Rightarrow> fd_set \<Rightarrow> fd_set \<Rightarrow> fd_set \<Rightarrow> (int \<times> int) option \<Rightarrow> int \<times> fd_set \<times> fd_set \<times> fd_set) \<Rightarrow> bool" where
  "select_ok ready select \<longleftrightarrow> (\<forall>n r w e tv. \<exists>rc. select n r w e tv =
     (rc, {fd \<in> r. ready fd AND POLLIN \<noteq> 0}, {fd \<in> w. ready fd AND POLLOUT \<noteq> 0}, {fd \<in> e. ready fd AND POLLERR \<noteq> 0}))"

definition asked :: "16 word \<Rightarrow> pollfd list \<Rightarrow> fd_set" where
  "asked b ps = {pfd p | p. p \<in> set ps \<and> events p AND b \<noteq> 0}"

lemma fill_sets_ok:
  "\<forall>p \<in> set ps. 0 \<le> pfd p \<and> pfd p < FD_SETSIZE \<Longrightarrow> 0 \<le> n \<Longrightarrow>
   \<exists>m. fill_sets ps r w e n = Inr (Some (r \<union> asked POLLIN ps, w \<union> asked POLLOUT ps, e \<union> asked POLLERR ps, m))
     \<and> n \<le> m \<and> (ps \<noteq> [] \<longrightarrow> 0 < m)"
proof (induction ps arbitrary: r w e n)
  case Nil
  then show ?case by (simp add: asked_def)
next
  case (Cons p ps)
  have a: "asked b (p # ps) = (if events p AND b \<noteq> 0 then insert (pfd p) (asked b ps) else asked b ps)" for b
    by (auto simp: asked_def)
  let ?r = "if events p AND POLLIN \<noteq> 0 then insert (pfd p) r else r"
  let ?w = "if events p AND POLLOUT \<noteq> 0 then insert (pfd p) w else w"
  let ?e = "if events p AND POLLERR \<noteq> 0 then insert (pfd p) e else e"
  let ?n = "if n \<le> pfd p then pfd p + 1 else n"
  have "fill_sets (p # ps) r w e n = fill_sets ps ?r ?w ?e ?n" using Cons.prems by (simp add: FD_SET_def)
  moreover have "0 \<le> ?n" "0 < ?n" "n \<le> ?n" using Cons.prems by auto
  moreover obtain m where "fill_sets ps ?r ?w ?e ?n =
      Inr (Some (?r \<union> asked POLLIN ps, ?w \<union> asked POLLOUT ps, ?e \<union> asked POLLERR ps, m))" "?n \<le> m"
    using Cons.IH [of ?n ?r ?w ?e] Cons.prems(1) calculation(2) by (auto simp del: if_split)
  moreover have "?r \<union> asked POLLIN ps = r \<union> asked POLLIN (p # ps)" "?w \<union> asked POLLOUT ps = w \<union> asked POLLOUT (p # ps)"
    "?e \<union> asked POLLERR ps = e \<union> asked POLLERR (p # ps)" by (auto simp: a)
  ultimately show ?case by (intro exI [of _ m] conjI impI) (simp, linarith, linarith)
qed

lemma read_sets_ok:
  "\<forall>p \<in> set ps. 0 \<le> pfd p \<and> pfd p < FD_SETSIZE \<Longrightarrow>
   read_sets r w e ps = Inr (map (\<lambda>p. p\<lparr>revents := (if pfd p \<in> r then POLLIN else 0) OR (if pfd p \<in> w then POLLOUT else 0)
     OR (if pfd p \<in> e then POLLERR else 0)\<rparr>) ps)"
  by (induction ps) (simp_all add: FD_ISSET_def)

lemma asked_distinct: "distinct (map pfd ps) \<Longrightarrow> p \<in> set ps \<Longrightarrow> pfd p \<in> asked b ps \<longleftrightarrow> events p AND b \<noteq> 0"
  by (auto simp: asked_def distinct_map dest: inj_onD)

text \<open>Three bits of a word, one by one.\<close>

lemma one_bit: "((x :: 16 word) AND 2 ^ n \<noteq> 0) \<longleftrightarrow> bit x n" if "n < 16"
  using that by (simp add: and_exp_eq_0_iff_not_bit)

lemma three_bits:
  "((if (x :: 16 word) AND POLLIN \<noteq> 0 \<and> y AND POLLIN \<noteq> 0 then POLLIN else 0)
    OR (if x AND POLLOUT \<noteq> 0 \<and> y AND POLLOUT \<noteq> 0 then POLLOUT else 0)
    OR (if x AND POLLERR \<noteq> 0 \<and> y AND POLLERR \<noteq> 0 then POLLERR else 0))
   = x AND y AND (POLLIN OR POLLOUT OR POLLERR)"
proof -
  have one: "(z AND POLLIN \<noteq> 0) = bit z 0" "(z AND POLLOUT \<noteq> 0) = bit z 1" "(z AND POLLERR \<noteq> 0) = bit z 2" for z :: "16 word"
    using one_bit [of 0 z] one_bit [of 1 z] one_bit [of 2 z] by (simp_all add: POLLIN_def POLLOUT_def POLLERR_def)
  have p: "POLLIN = 2 ^ 0" "POLLOUT = 2 ^ 1" "POLLERR = 2 ^ 2" by (simp_all add: POLLIN_def POLLOUT_def POLLERR_def)
  have b: "bit POLLIN n \<longleftrightarrow> n = 0" "bit POLLOUT n \<longleftrightarrow> n = 1" "bit POLLERR n \<longleftrightarrow> n = 2" for n
    unfolding p by (auto simp only: bit_exp_iff possible_bit_word) simp_all
  show ?thesis unfolding one
    by (rule bit_word_eqI) (auto simp: bit_or_iff bit_and_iff b intro!: gr0I)
qed


definition toy_select :: "int \<Rightarrow> fd_set \<Rightarrow> fd_set \<Rightarrow> fd_set \<Rightarrow> (int \<times> int) option \<Rightarrow> int \<times> fd_set \<times> fd_set \<times> fd_set" where
  "toy_select n r w e tv = (1, {fd \<in> r. fd = 3}, {}, {})"


text \<open>An entry with a negative descriptor, which \<open>poll\<close> ignores, is looked up in the sets all the same.\<close>

lemma ff_poll_negative_fd:
  assumes "select_ok ready select" "\<And>n r w e tv. 0 \<le> fst (select n r w e tv)"
    "0 \<le> fd" "fd < FD_SETSIZE"
  shows "ff_poll select [\<lparr>pfd = -1, events = a, revents = b\<rparr>, \<lparr>pfd = fd, events = c, revents = d\<rparr>] timeout = Inl OutOfBounds"
proof -
  obtain m where "fill_sets [\<lparr>pfd = fd, events = c, revents = d\<rparr>] {} {} {} 0 = Inr (Some (asked POLLIN [\<lparr>pfd = fd, events = c, revents = d\<rparr>],
      asked POLLOUT [\<lparr>pfd = fd, events = c, revents = d\<rparr>], asked POLLERR [\<lparr>pfd = fd, events = c, revents = d\<rparr>], m))" "m \<noteq> 0"
    using fill_sets_ok [of "[\<lparr>pfd = fd, events = c, revents = d\<rparr>]" 0 "{}" "{}" "{}"] assms(3,4) by auto
  moreover obtain rc r w e where "select m (asked POLLIN [\<lparr>pfd = fd, events = c, revents = d\<rparr>])
      (asked POLLOUT [\<lparr>pfd = fd, events = c, revents = d\<rparr>]) (asked POLLERR [\<lparr>pfd = fd, events = c, revents = d\<rparr>]) (wait_time timeout) = (rc, r, w, e)"
    by (metis prod_cases4)
  moreover from this have "0 \<le> rc" using assms(2) by (metis fst_conv)
  ultimately show ?thesis by (simp add: ff_poll_def Let_def FD_ISSET_def del: fill_sets.simps(2)) (simp add: FD_ISSET_def)
qed

section \<open>Memory\<close>

text \<open>\<open>malloc n\<close> is a block of \<open>n\<close> bytes, or \<open>None\<close>.\<close>

definition av_malloc :: "(nat \<Rightarrow> byte list option) \<Rightarrow> nat \<Rightarrow> byte list option" where
  "av_malloc malloc n = malloc n"

definition av_mallocz :: "(nat \<Rightarrow> byte list option) \<Rightarrow> nat \<Rightarrow> byte list option" where
  "av_mallocz malloc n = map_option (\<lambda>b. replicate n 0) (av_malloc malloc n)"

definition av_realloc :: "('p \<Rightarrow> nat \<Rightarrow> byte list option) \<Rightarrow> 'p \<Rightarrow> nat \<Rightarrow> byte list option" where
  "av_realloc realloc p n = realloc p (n + (if n = 0 then 1 else 0))"

text \<open>Sizes are of 64 bits.\<close>

definition av_malloc_array :: "(nat \<Rightarrow> byte list option) \<Rightarrow> nat \<Rightarrow> nat \<Rightarrow> byte list option" where
  "av_malloc_array malloc nmemb sz =
     (if sz = 0 \<or> (2 ^ 31 - 1) div sz \<le> nmemb then None else av_malloc malloc (nmemb * sz mod 2 ^ 64))"

definition av_mallocz_array :: "(nat \<Rightarrow> byte list option) \<Rightarrow> nat \<Rightarrow> nat \<Rightarrow> byte list option" where
  "av_mallocz_array malloc nmemb sz =
     (if sz = 0 \<or> (2 ^ 31 - 1) div sz \<le> nmemb then None else av_mallocz malloc (nmemb * sz mod 2 ^ 64))"

text \<open>A block that is given out has room for all its elements: the product does not wrap.\<close>

lemma array_has_room:
  assumes "\<And>n b. malloc n = Some b \<Longrightarrow> length b = n" "av_malloc_array malloc nmemb sz = Some b"
  shows "length b = nmemb * sz \<and> nmemb * sz < 2 ^ 31"
proof -
  have n: "nmemb < (2 ^ 31 - 1) div sz" "0 < sz" "malloc (nmemb * sz mod 2 ^ 64) = Some b"
    using assms(2) by (auto simp: av_malloc_array_def av_malloc_def split: if_splits)
  have "nmemb * sz \<le> (2 ^ 31 - 1) div sz * sz" using n(1) by (intro mult_right_mono) simp_all
  also have "\<dots> \<le> 2 ^ 31 - 1" by (rule div_times_less_eq_dividend)
  finally have "nmemb * sz < 2 ^ 31" by simp
  then show ?thesis using assms(1) [OF n(3)] by simp
qed

text \<open>The heap by the blocks that are allocated; \<open>av_free\<close> takes a null pointer, and \<open>av_freep\<close> leaves one.\<close>

definition av_free :: "(nat \<rightharpoonup> byte list) \<Rightarrow> nat option \<Rightarrow> (nat \<rightharpoonup> byte list) result" where
  "av_free h p = (case p of None \<Rightarrow> Inr h | Some a \<Rightarrow> if h a = None then Inl UseAfterFree else Inr (h(a := None)))"

definition av_freep :: "(nat \<rightharpoonup> byte list) \<Rightarrow> nat option \<Rightarrow> ((nat \<rightharpoonup> byte list) \<times> nat option) result" where
  "av_freep h p = then_do (av_free h p) (\<lambda>h1. Inr (h1, None))"

lemma freep_twice: "av_freep h p = Inr (h1, p1) \<Longrightarrow> av_freep h1 p1 = Inr (h1, p1)"
  by (auto simp: av_freep_def av_free_def split: option.splits if_splits)

section \<open>Time\<close>

text \<open>Without \<open>clock_gettime\<close> in the configuration the relative time is the time of day, moved.\<close>

definition av_gettime :: "int \<times> int \<Rightarrow> int" where
  "av_gettime tv = fst tv * 1000000 + snd tv"

definition av_gettime_relative :: "int \<times> int \<Rightarrow> int" where
  "av_gettime_relative tv = av_gettime tv + 42 * 60 * 60 * 1000000"

definition av_gettime_relative_is_monotonic :: int where
  "av_gettime_relative_is_monotonic = 0"

text \<open>\<open>fl\<close> are the flags of the descriptor, \<open>setfl\<close> what setting them gives.\<close>

definition ff_socket_nonblock :: "(int \<Rightarrow> int) \<Rightarrow> int \<Rightarrow> int \<Rightarrow> int \<Rightarrow> int" where
  "ff_socket_nonblock setfl nonblock fl enable =
     (if enable \<noteq> 0 then setfl (fl OR nonblock) else setfl (fl AND NOT nonblock))"

end
