(* ===== verification/Remux.thy ===== *)
theory Remux
  imports FfUtils
begin

text \<open>
  The remuxer of \<open>src/remuxing.c\<close>: its loop copies the packets of the input to the output, in blocks of the relay or
  by FFmpeg's muxer, and waits after each so that a file is sent at the speed it is played at.
\<close>

section \<open>The state\<close>

definition AV_NOPTS_VALUE :: int where "AV_NOPTS_VALUE = - (2 ^ 63)"

text \<open>The four static arrays, of \<open>M\<close> entries; \<open>rm_reads\<close> counts the readings of the clock.\<close>

definition M :: nat where "M = 4"

record remux =
  start_time :: "int list"
  curr_time :: "int list"
  first_dts :: "int list"
  curr_dts :: "int list"
  rm_reads :: nat
  rm_out :: out_ctx

definition remux_start :: "out_ctx \<Rightarrow> remux" where
  "remux_start oc = \<lparr>start_time = replicate M 0, curr_time = replicate M 0, first_dts = replicate M 0,
     curr_dts = replicate M AV_NOPTS_VALUE, rm_reads = 0, rm_out = oc\<rparr>"

text \<open>A packet: its stream, its time, and what the muxer knows of it.\<close>

record 'p in_packet =
  ip_stream :: int
  ip_dts :: int
  ip_rest :: 'p

definition in_array :: "int \<Rightarrow> 'b list \<Rightarrow> bool" where
  "in_array i xs \<longleftrightarrow> 0 \<le> i \<and> i < int (length xs)"

definition set_at :: "'b list \<Rightarrow> int \<Rightarrow> 'b \<Rightarrow> 'b list" where
  "set_at xs i v = xs[nat i := v]"

section \<open>One packet\<close>

text \<open>The first packet of a stream that has a time starts the stream's clock.\<close>

definition note_time :: "(nat \<Rightarrow> int) \<Rightarrow> 'p in_packet \<Rightarrow> remux \<Rightarrow> remux result" where
  "note_time clock p s =
     (let i = ip_stream p in
      if \<not> in_array i (curr_dts s) then Inl OutOfBounds
      else
        let s1 = (if curr_dts s ! nat i = AV_NOPTS_VALUE \<and> ip_dts p \<noteq> AV_NOPTS_VALUE
                  then s\<lparr>first_dts := set_at (first_dts s) i (ip_dts p),
                         start_time := set_at (start_time s) i (clock (rm_reads s)), rm_reads := rm_reads s + 1\<rparr>
                  else s) in
        Inr (if ip_dts p \<noteq> AV_NOPTS_VALUE then s1\<lparr>curr_dts := set_at (curr_dts s1) i (ip_dts p)\<rparr> else s1))"

text \<open>
  \<open>cmp i a b\<close> is \<open>av_compare_ts\<close> of \<open>a\<close> in the time base of stream \<open>i\<close> and \<open>b\<close> microseconds.  The loop waits until it is not
  positive; the time passes in its sleep.
\<close>

partial_function (option) pace :: "bool \<Rightarrow> (int \<Rightarrow> int \<Rightarrow> int \<Rightarrow> int) \<Rightarrow> (nat \<Rightarrow> int) \<Rightarrow> int \<Rightarrow> remux \<Rightarrow> remux option" where
  "pace rate_emu cmp clock i s =
     (let t = clock (rm_reads s);
          s1 = s\<lparr>curr_time := set_at (curr_time s) i t, rm_reads := rm_reads s + 1\<rparr>;
          c = cmp i (curr_dts s1 ! nat i - first_dts s1 ! nat i) (t - start_time s1 ! nat i) in
      if \<not> rate_emu \<or> c \<le> 0 then Some s1 else pace rate_emu cmp clock i s1)"

declare pace.simps [code]

text \<open>
  What is written: with \<open>do_sff\<close> and a byte stream one of the relay's blocks, else \<open>lib\<close>.  The times of the packet
  are rescaled for the output's time bases by the library, which is part of \<open>mux\<close> and \<open>lib\<close>.
\<close>

definition write_packet ::
  "bool \<Rightarrow> ((int \<times> 'p) option \<Rightarrow> int \<times> char list) \<Rightarrow> (out_ctx \<Rightarrow> (int \<times> 'p) option \<Rightarrow> int \<times> out_ctx) \<Rightarrow> (int \<times> 'p) option
   \<Rightarrow> remux \<Rightarrow> (int \<times> remux) result" where
  "write_packet do_sff mux lib p s =
     then_do (if pb (rm_out s) \<noteq> None \<and> do_sff then sff_write_packet True mux (rm_out s) p else Inr (lib (rm_out s) p))
       (\<lambda>(ret, oc). Inr (ret, s\<lparr>rm_out := oc\<rparr>))"

text \<open>
  The loop over what \<open>av_read_frame\<close> gives, up to its error \<open>e\<close>, and the trailer.  \<open>None\<close>: it waits for ever.  The result is
  \<open>ret\<close> and the state.
\<close>

fun remux_loop ::
  "bool \<Rightarrow> bool \<Rightarrow> (int \<Rightarrow> int \<Rightarrow> int \<Rightarrow> int) \<Rightarrow> (nat \<Rightarrow> int) \<Rightarrow> ((int \<times> 'p) option \<Rightarrow> int \<times> char list)
   \<Rightarrow> (out_ctx \<Rightarrow> (int \<times> 'p) option \<Rightarrow> int \<times> out_ctx) \<Rightarrow> int \<Rightarrow> 'p in_packet list \<Rightarrow> remux \<Rightarrow> (int \<times> remux) result option" where
  "remux_loop do_sff rate_emu cmp clock mux lib e [] s =
     Some (then_do (write_packet do_sff mux lib None s) (\<lambda>(_, s1). Inr (e, s1)))"
| "remux_loop do_sff rate_emu cmp clock mux lib e (p # ps) s =
     (case note_time clock p s of
        Inl x \<Rightarrow> Some (Inl x)
      | Inr s1 \<Rightarrow>
          (case write_packet do_sff mux lib (Some (ip_stream p, ip_rest p)) s1 of
             Inl x \<Rightarrow> Some (Inl x)
           | Inr (ret, s2) \<Rightarrow>
               if ret < 0 then Some (then_do (write_packet do_sff mux lib None s2) (\<lambda>(_, s3). Inr (ret, s3)))
               else
                 (case pace rate_emu cmp clock (ip_stream p) s2 of
                    None \<Rightarrow> None
                  | Some s3 \<Rightarrow> remux_loop do_sff rate_emu cmp clock mux lib e ps s3)))"

definition exit_code :: "int \<Rightarrow> int" where
  "exit_code ret = (if ret < 0 \<and> ret \<noteq> - 541478725 then 1 else 0)"

section \<open>The whole program\<close>

text \<open>
  What the libraries answer while the files are opened: \<open>rs_streams\<close> says for each stream whether the output's could
  be made, and what copying its codec context returns; \<open>rs_header\<close> is the muxer's header.
\<close>

record remux_setup =
  rs_open :: int
  rs_info :: int
  rs_octx :: bool
  rs_streams :: "(bool \<times> int) list"
  rs_nofile :: bool
  rs_open2 :: int
  rs_header :: "char list option"
  rs_lib_header :: int

definition AVERROR_UNKNOWN :: int where
  "AVERROR_UNKNOWN = - (0x55 + 0x4E * 2 ^ 8 + 0x4B * 2 ^ 16 + 0x4E * 2 ^ 24)"

fun copy_streams :: "(bool \<times> int) list \<Rightarrow> int \<Rightarrow> int + int" where
  "copy_streams [] ret = Inr ret"
| "copy_streams ((made, r) # xs) ret =
     (if \<not> made then Inl AVERROR_UNKNOWN else if r < 0 then Inl r else copy_streams xs r)"

text \<open>\<open>number\<close> is \<open>atoi\<close>; the last two arguments may be left out.  The result is the exit code.\<close>

definition remux_main ::
  "(string \<Rightarrow> int) \<Rightarrow> remux_setup \<Rightarrow> (int \<Rightarrow> int \<Rightarrow> int \<Rightarrow> int) \<Rightarrow> (nat \<Rightarrow> int) \<Rightarrow> ((int \<times> 'p) option \<Rightarrow> int \<times> char list)
   \<Rightarrow> (out_ctx \<Rightarrow> (int \<times> 'p) option \<Rightarrow> int \<times> out_ctx) \<Rightarrow> int \<Rightarrow> 'p in_packet list \<Rightarrow> string list \<Rightarrow> (int \<times> remux) result option" where
  "remux_main number S cmp clock mux lib e ps argv =
     (let oc = \<lparr>is_flv = False, pb = (if rs_nofile S then None else Some [])\<rparr>;
          s0 = remux_start oc in
      if length argv < 4 then Some (Inr (1, s0))
      else
        let do_sff = (5 \<le> length argv \<longrightarrow> number (argv ! 4) \<noteq> 0);
            rate_emu = (6 \<le> length argv \<longrightarrow> number (argv ! 5) \<noteq> 0);
            leave = (\<lambda>ret. Some (Inr (exit_code ret, s0))) in
        if rs_open S < 0 then leave (rs_open S)
        else if rs_info S < 0 then leave (rs_info S)
        else if \<not> rs_octx S then leave AVERROR_UNKNOWN
        else
          (case copy_streams (rs_streams S) 0 of
             Inl ret \<Rightarrow> leave ret
           | Inr _ \<Rightarrow>
               if \<not> rs_nofile S \<and> rs_open2 S < 0 then leave (rs_open2 S)
               else
                 (case (if pb oc \<noteq> None \<and> do_sff then sff_write_header True (rs_header S) oc else Inr (rs_lib_header S, oc)) of
                    Inl x \<Rightarrow> Some (Inl x)
                  | Inr (ret, oc1) \<Rightarrow>
                      if ret < 0 then leave ret
                      else map_option (\<lambda>r. then_do r (\<lambda>(ret, s). Inr (exit_code ret, s)))
                             (remux_loop do_sff rate_emu cmp clock mux lib e ps (remux_start oc1)))))"

section \<open>What is sent, and when\<close>

definition arrays_ok :: "remux \<Rightarrow> bool" where
  "arrays_ok s \<longleftrightarrow> length (start_time s) = M \<and> length (curr_time s) = M \<and> length (first_dts s) = M \<and> length (curr_dts s) = M"

lemma note_time_ok:
  assumes "arrays_ok s" "0 \<le> ip_stream p" "ip_stream p < int M"
  shows "\<exists>s'. note_time clock p s = Inr s' \<and> arrays_ok s' \<and> rm_out s' = rm_out s
    \<and> (ip_dts p \<noteq> AV_NOPTS_VALUE \<longrightarrow> curr_dts s' ! nat (ip_stream p) = ip_dts p)"
  using assms by (auto simp: note_time_def arrays_ok_def in_array_def set_at_def Let_def nat_less_iff)

text \<open>The wait ends as soon as the clock is late enough; when it ends, it was.\<close>

lemma pace_ends:
  "\<exists>m \<ge> rm_reads s. cmp i (curr_dts s ! nat i - first_dts s ! nat i) (clock m - start_time s ! nat i) \<le> 0 \<Longrightarrow>
   \<exists>s'. pace rate_emu cmp clock i s = Some s'"
proof -
  assume "\<exists>m \<ge> rm_reads s. cmp i (curr_dts s ! nat i - first_dts s ! nat i) (clock m - start_time s ! nat i) \<le> 0"
  then obtain m where m: "rm_reads s \<le> m" "cmp i (curr_dts s ! nat i - first_dts s ! nat i) (clock m - start_time s ! nat i) \<le> 0" by blast
  have "rm_reads s \<le> m \<Longrightarrow> cmp i (curr_dts s ! nat i - first_dts s ! nat i) (clock m - start_time s ! nat i) \<le> 0
     \<Longrightarrow> \<exists>s'. pace rate_emu cmp clock i s = Some s'" for s
  proof (induction "m - rm_reads s" arbitrary: s)
    case 0
    then have e: "rm_reads s = m" by simp
    show ?case using 0(3) by (subst pace.simps) (simp add: e Let_def)
  next
    case (Suc k)
    let ?s = "s\<lparr>curr_time := set_at (curr_time s) i (clock (rm_reads s)), rm_reads := rm_reads s + 1\<rparr>"
    have "\<exists>s'. pace rate_emu cmp clock i ?s = Some s'" using Suc.hyps(2) Suc.prems by (intro Suc.hyps(1)) simp_all
    then show ?case by (subst pace.simps) (auto simp: Let_def)
  qed
  with m show ?thesis by blast
qed

lemma pace_keeps:
  assumes "pace rate_emu cmp clock i s = Some s'"
  shows "arrays_ok s' = arrays_ok s \<and> rm_out s' = rm_out s \<and> curr_dts s' = curr_dts s \<and> first_dts s' = first_dts s
    \<and> start_time s' = start_time s \<and> (rate_emu \<longrightarrow> (\<exists>m \<ge> rm_reads s. rm_reads s' = m + 1
        \<and> cmp i (curr_dts s ! nat i - first_dts s ! nat i) (clock m - start_time s ! nat i) \<le> 0))"
proof (rule pace.raw_induct [where P = "\<lambda>rate_emu cmp clock i s s'.
    arrays_ok s' = arrays_ok s \<and> rm_out s' = rm_out s \<and> curr_dts s' = curr_dts s \<and> first_dts s' = first_dts s
    \<and> start_time s' = start_time s \<and> (rate_emu \<longrightarrow> (\<exists>m \<ge> rm_reads s. rm_reads s' = m + 1
        \<and> cmp i (curr_dts s ! nat i - first_dts s ! nat i) (clock m - start_time s ! nat i) \<le> 0))", OF _ assms])
  fix f rate_emu clock i and s s' :: remux and cmp :: "int \<Rightarrow> int \<Rightarrow> int \<Rightarrow> int"
  assume IH: "\<And>rate_emu cmp clock i s s'. f rate_emu cmp clock i s = Some s' \<Longrightarrow>
    arrays_ok s' = arrays_ok s \<and> rm_out s' = rm_out s \<and> curr_dts s' = curr_dts s \<and> first_dts s' = first_dts s
    \<and> start_time s' = start_time s \<and> (rate_emu \<longrightarrow> (\<exists>m \<ge> rm_reads s. rm_reads s' = m + 1
        \<and> cmp i (curr_dts s ! nat i - first_dts s ! nat i) (clock m - start_time s ! nat i) \<le> (0 :: int)))"
  let ?s = "s\<lparr>curr_time := set_at (curr_time s) i (clock (rm_reads s)), rm_reads := rm_reads s + 1\<rparr>"
  let ?c = "cmp i (curr_dts s ! nat i - first_dts s ! nat i) (clock (rm_reads s) - start_time s ! nat i)"
  assume "(let t = clock (rm_reads s); s1 = s\<lparr>curr_time := set_at (curr_time s) i t, rm_reads := rm_reads s + 1\<rparr>;
       c = cmp i (curr_dts s1 ! nat i - first_dts s1 ! nat i) (t - start_time s1 ! nat i)
     in if \<not> rate_emu \<or> c \<le> 0 then Some s1 else f rate_emu cmp clock i s1) = Some s'"
  then have e: "(if \<not> rate_emu \<or> ?c \<le> 0 then Some ?s else f rate_emu cmp clock i ?s) = Some s'" by (simp add: Let_def cong del: if_weak_cong)
  have a: "arrays_ok ?s = arrays_ok s" by (simp add: arrays_ok_def set_at_def)
  show "arrays_ok s' = arrays_ok s \<and> rm_out s' = rm_out s \<and> curr_dts s' = curr_dts s \<and> first_dts s' = first_dts s
    \<and> start_time s' = start_time s \<and> (rate_emu \<longrightarrow> (\<exists>m \<ge> rm_reads s. rm_reads s' = m + 1
        \<and> cmp i (curr_dts s ! nat i - first_dts s ! nat i) (clock m - start_time s ! nat i) \<le> 0))"
  proof (cases "\<not> rate_emu \<or> ?c \<le> 0")
    case True
    then have "s' = ?s" using e by simp
    then show ?thesis using True a by auto
  next
    case False
    then have "f rate_emu cmp clock i ?s = Some s'" using e by simp
    from IH [OF this] a show ?thesis by (auto dest: Suc_leD)
  qed
qed

text \<open>The block a packet becomes; a packet the muxer keeps back becomes none.\<close>

definition block_of :: "((int \<times> 'p) option \<Rightarrow> int \<times> char list) \<Rightarrow> (int \<times> 'p) option \<Rightarrow> char list" where
  "block_of mux p =
     (let (ret, bs) = mux p; i = (case p of Some (i, _) \<Rightarrow> word_of_int i | None \<Rightarrow> -1) in
      if bs = [] \<or> ret < 0 then [] else sff_write_block 2 (wb32_chars i @ bs))"

lemma write_packet_block:
  assumes "pb (rm_out s) = Some out"
  shows "\<exists>ret. write_packet True mux lib p s = Inr (ret, s\<lparr>rm_out := (rm_out s)\<lparr>pb := Some (out @ block_of mux p)\<rparr>\<rparr>)
    \<and> (0 \<le> fst (mux p) \<longrightarrow> 0 \<le> ret)"
proof -
  obtain r bs where m: "mux p = (r, bs)" by force
  show ?thesis using assms
    by (cases "bs = []") (auto simp: write_packet_def sff_write_packet_def put_block_def block_of_def m Let_def split: option.splits)
qed



text \<open>An input with a fifth stream breaks the program: its first packet is looked up behind the arrays.\<close>

theorem fifth_stream_leaves_arrays:
  assumes "arrays_ok s" "4 \<le> ip_stream p"
  shows "remux_loop do_sff rate_emu cmp clock mux lib e (p # ps) s = Some (Inl OutOfBounds)"
  using assms by (simp add: note_time_def in_array_def arrays_ok_def M_def)

definition demo_cmp :: "int \<Rightarrow> int \<Rightarrow> int \<Rightarrow> int" where
  "demo_cmp i a b = a - b"

definition demo_in :: "int \<Rightarrow> int \<Rightarrow> unit in_packet" where
  "demo_in i t = \<lparr>ip_stream = i, ip_dts = t, ip_rest = ()\<rparr>"

lemma demo_in_fields [simp]: "ip_stream (demo_in i t) = i" "ip_dts (demo_in i t) = t" "ip_rest (demo_in i t) = ()"
  by (simp_all add: demo_in_def)

lemma demo_remux:
  "arrays_ok (remux_start demo_out)" "pb (rm_out (remux_start demo_out)) = Some ''POST''"
  "\<forall>i a c n. \<exists>m \<ge> n. demo_cmp i a (int m - c) \<le> 0"
proof -
  have "n \<le> n + nat (a + c) \<and> a - (int (n + nat (a + c)) - c) \<le> 0" for n a c by simp
  then show "\<forall>i a c n. \<exists>m \<ge> n. demo_cmp i a (int m - c) \<le> 0" unfolding demo_cmp_def by blast
qed (simp_all add: arrays_ok_def remux_start_def demo_out_def)



theorem fifth_stream_witness:
  "remux_loop True True demo_cmp int demo_mux (\<lambda>oc p. (0, oc)) (-1) [demo_in 4 7] (remux_start demo_out) = Some (Inl OutOfBounds)"
  using fifth_stream_leaves_arrays [OF demo_remux(1), of "demo_in 4 7"] by (simp add: demo_in_def)

end
