(* ===== verification/Thumbnail.thy ===== *)
theory Thumbnail
  imports Prelude
begin

text \<open>
  \<open>src/ff_transcoding.c\<close>: a thumbnail from one packet, by decoding, scaling and encoding.  What FFmpeg's calls answer is
  a parameter; the model follows the program's branches and keeps the objects that are allocated, so that it
  shows what is freed on each path.
\<close>

section \<open>Objects and answers\<close>

text \<open>The packet's data, the decoder's context, its frame, the output context, its frame, the scaler and the file.\<close>

datatype obj = PacketData | InCodec | InFrame | OutContext | OutPicture | Scaler | OutFile

text \<open>A run ends in a result, with the objects that are left, in \<open>exit(1)\<close>, or in a fault.\<close>

datatype 'a ending = Left 'a "obj set" | Exits | Faults fault

fun and_go :: "'a ending \<Rightarrow> ('a \<Rightarrow> obj set \<Rightarrow> 'b ending) \<Rightarrow> 'b ending" where
  "and_go (Left x os) f = f x os"
| "and_go Exits f = Exits"
| "and_go (Faults e) f = Faults e"

record in_frame =
  if_format :: int
  if_width :: int
  if_height :: int

text \<open>The answers while decoding: \<open>d_first\<close> and \<open>d_flush\<close> are the results of the two calls of the decoder, with \<open>d_got\<close>.\<close>

record decode_answers =
  d_found :: bool
  d_copy :: int
  d_open :: int
  d_first :: int
  d_got :: bool
  d_flush :: int
  d_frame :: in_frame

text \<open>The answers while encoding; \<open>e_fmts\<close> is the encoder's list of pixel formats, \<open>None\<close> where it has none.\<close>

record encode_answers =
  e_context :: bool
  e_encoder :: bool
  e_fmts :: "int list option"
  e_global_header :: bool
  e_stream :: bool
  e_picture :: bool
  e_buffer :: int
  e_scaler :: bool
  e_encode :: int
  e_file :: bool

section \<open>Decoding\<close>

definition AV_PIX_FMT_NONE :: int where "AV_PIX_FMT_NONE = -1"

text \<open>From the label \<open>end\<close> on; \<open>ret\<close> is what the last call returned.\<close>

definition decode_end :: "int \<Rightarrow> in_frame option \<Rightarrow> obj set \<Rightarrow> in_frame option ending" where
  "decode_end ret frame os =
     (let os1 = os - {InCodec, PacketData} in
      if ret < 0 then Left None (os1 - {InFrame}) else Left frame os1)"

definition decode_frame :: "decode_answers \<Rightarrow> obj set \<Rightarrow> in_frame option ending" where
  "decode_frame D os =
     (if \<not> d_found D then decode_end 0 None os
      else
        let os1 = insert InCodec os in
        if d_copy D < 0 then decode_end (d_copy D) None os1
        else if d_open D < 0 then decode_end (d_open D) None os1
        else
          let os2 = insert InFrame os1; frame = Some (d_frame D) in
          if d_first D < 0 then decode_end (d_first D) frame os2
          else if d_got D then decode_end (d_first D) frame os2
          else decode_end (d_flush D) frame os2)"

section \<open>Encoding\<close>

text \<open>The stream's settings that do not depend on the library.\<close>

definition AV_CODEC_ID_MPEG1VIDEO :: int where "AV_CODEC_ID_MPEG1VIDEO = 1"
definition AV_CODEC_ID_MPEG2VIDEO :: int where "AV_CODEC_ID_MPEG2VIDEO = 2"

record out_codec =
  oc_id :: int
  oc_bit_rate :: int
  oc_width :: int
  oc_height :: int
  oc_time_base :: "int \<times> int"
  oc_gop :: int
  oc_pix_fmt :: int
  oc_b_frames :: int
  oc_mb_decision :: int
  oc_global_header :: bool

definition out_settings :: "int \<Rightarrow> int \<Rightarrow> bool \<Rightarrow> int \<Rightarrow> int \<Rightarrow> out_codec" where
  "out_settings cid fmt gh w h =
     \<lparr>oc_id = cid, oc_bit_rate = 400000, oc_width = push_bit 1 (drop_bit 1 w), oc_height = push_bit 1 (drop_bit 1 h),
      oc_time_base = (1, 25), oc_gop = 1,
      oc_pix_fmt = fmt, oc_b_frames = (if cid = AV_CODEC_ID_MPEG2VIDEO then 2 else 0),
      oc_mb_decision = (if cid = AV_CODEC_ID_MPEG1VIDEO then 2 else 0), oc_global_header = gh\<rparr>"

text \<open>\<open>frame_write\<close>: the frame is there, so it returns 0 when it returns.\<close>

definition frame_write :: "encode_answers \<Rightarrow> obj set \<Rightarrow> int ending" where
  "frame_write E os =
     (if \<not> e_scaler E then Exits
      else if e_encode E < 0 then Exits
      else Left 0 (insert Scaler os))"

text \<open>The errors of opening the encoder and the file are printed or ignored.  The result also has the settings.\<close>

definition encode_frame :: "encode_answers \<Rightarrow> int \<Rightarrow> int \<Rightarrow> int \<Rightarrow> obj set \<Rightarrow> (int \<times> out_codec option) ending" where
  "encode_frame E cid w h os =
     (if \<not> e_context E then Left (-1, None) os
      else
        let os1 = insert OutContext os in
        if \<not> e_stream E then Left (-2, None) os1
        else if \<not> e_encoder E then Faults NullDeref
        else
          (case e_fmts E of
             None \<Rightarrow> Faults NullDeref
           | Some fmts \<Rightarrow>
               if fmts = [] then Faults OutOfBounds
               else
                 let c = out_settings cid (hd fmts) (e_global_header E) w h in
                 if \<not> e_picture E then Left (-3, Some c) os1
                 else
                   let os2 = insert OutPicture os1 in
                   if e_buffer E < 0 then Left (-4, Some c) os2
                   else
                     let os3 = (if e_file E then insert OutFile os2 else os2) in
                     and_go (frame_write E os3) (\<lambda>ret os4.
                       Left (ret, Some c) (os4 - {OutPicture, Scaler, OutFile, OutContext}))))"

definition ff_thumbnail_generate :: "decode_answers \<Rightarrow> encode_answers \<Rightarrow> int \<Rightarrow> int \<Rightarrow> int \<Rightarrow> obj set \<Rightarrow> int ending" where
  "ff_thumbnail_generate D E cid width height os =
     and_go (decode_frame D os) (\<lambda>frame os1.
       case frame of
         None \<Rightarrow> Left (-1) os1
       | Some f \<Rightarrow>
           if if_format f = AV_PIX_FMT_NONE \<or> if_width f = 0 \<or> if_height f = 0 then Left (-1) os1
           else and_go (encode_frame E cid width height os1) (\<lambda>(ret, _) os2. Left ret os2))"

section \<open>What is freed\<close>

text \<open>When decoding succeeds only the frame is left of what it allocated, and else nothing; the packet is freed.\<close>

lemma decode_frame_objects:
  assumes "os \<inter> {InCodec, InFrame} = {}"
  shows "\<exists>r. decode_frame D os = Left r (os - {PacketData} \<union> (if r = None then {} else {InFrame}))"
  using assms by (auto simp: decode_frame_def decode_end_def Let_def)

lemma encode_frame_objects:
  assumes "os \<inter> {OutContext, OutPicture, Scaler, OutFile} = {}" "encode_frame E cid w h os = Left (ret, c) os'"
  shows "(ret = 0 \<longrightarrow> os' = os) \<and> (ret < 0 \<longrightarrow> ret \<in> {-1, -2, -3, -4} \<and>
     os' = os \<union> (if ret = -1 then {} else if ret = -4 then {OutContext, OutPicture} else {OutContext})) \<and> ret \<le> 0"
  using assms by (auto simp: encode_frame_def frame_write_def Let_def split: if_splits option.splits)

lemma settings_even: "even (oc_width (out_settings cid fmt gh w h))" "even (oc_height (out_settings cid fmt gh w h))"
  "w - 1 \<le> oc_width (out_settings cid fmt gh w h) \<and> oc_width (out_settings cid fmt gh w h) \<le> w"
  using minus_mod_eq_div_mult [of w 2] pos_mod_bound [of 2 w] pos_mod_sign [of 2 w]
  by (auto simp: out_settings_def push_bit_eq_mult drop_bit_eq_div)


definition demo_decode :: decode_answers where
  "demo_decode = \<lparr>d_found = True, d_copy = 0, d_open = 0, d_first = 5, d_got = True, d_flush = 0,
     d_frame = \<lparr>if_format = 0, if_width = 4, if_height = 4\<rparr>\<rparr>"

definition demo_encode :: encode_answers where
  "demo_encode = \<lparr>e_context = True, e_encoder = True, e_fmts = Some [12], e_global_header = False, e_stream = True, e_picture = True, e_buffer = 0,
     e_scaler = True, e_encode = 0, e_file = True\<rparr>"


text \<open>A file whose encoder is not compiled in: the missing encoder is only printed, and used.\<close>

lemma missing_encoder_crashes:
  "e_context E \<Longrightarrow> e_stream E \<Longrightarrow> \<not> e_encoder E \<Longrightarrow> encode_frame E cid w h os = Faults NullDeref"
  by (simp add: encode_frame_def Let_def)

end
