(* ===== verification/TimeStamps.thy ===== *)
theory TimeStamps
  imports AvString
begin

text \<open>
  \<open>ff_ts_wrap\<close> of \<open>src/ff_utils.c\<close>: time stamps of packets that wrap around or jump are shifted so that
  the stream goes on where the last packet ended.

  Arithmetic on \<open>int64_t\<close> is checked: an overflow of a signed operation is undefined behaviour and a
  fault; where the code computes with \<open>unsigned long long\<close>, the result wraps.
\<close>

section \<open>64-bit arithmetic\<close>

abbreviation NOPTS_VALUE :: int where "NOPTS_VALUE \<equiv> - (2 ^ 63)"

definition s64 :: "int \<Rightarrow> int result" where
  "s64 x = (if - (2 ^ 63) \<le> x \<and> x < 2 ^ 63 then Inr x else Inl SignedOverflow)"

definition u64 :: "int \<Rightarrow> int" where
  "u64 x = (x + 2 ^ 63) mod 2 ^ 64 - 2 ^ 63"

lemma s64_Inr [simp]: "s64 x = Inr y \<longleftrightarrow> y = x \<and> - (2 ^ 63) \<le> x \<and> x < 2 ^ 63"
  by (auto simp: s64_def)

section \<open>The context\<close>

record TimestampContext =
  ts_dts :: int
  next_dts :: int
  ts_pts :: int
  next_pts :: int
  last_ts :: int
  ts_offset :: int
  saw_first_ts :: bool

record ts_packet =
  dts :: int
  pts :: int
  duration :: int

text \<open>
  Of the stream: the time base, the number of bits of its time stamps, and \<open>b_delay\<close>, which is
  \<open>has_b_frames * (den/num) / frame_rate\<close> as a number of ticks (0 without a frame rate);
  \<open>tenth x\<close> is \<open>(int64_t)(x * 0.1)\<close>.
\<close>

record ts_stream =
  tb_num :: int
  tb_den :: int
  pts_wrap_bits :: int
  b_delay :: int
  tenth :: "int \<Rightarrow> int"

definition ff_ts_init :: TimestampContext where
  "ff_ts_init =
     \<lparr>ts_dts = NOPTS_VALUE, next_dts = NOPTS_VALUE, ts_pts = NOPTS_VALUE, next_pts = NOPTS_VALUE,
      last_ts = NOPTS_VALUE, ts_offset = NOPTS_VALUE, saw_first_ts = False\<rparr>"

text \<open>\<open>den/num\<close>, the ticks of a second.\<close>

definition ticks :: "ts_stream \<Rightarrow> int" where
  "ticks st = tb_den st sdiv tb_num st"

definition delta_threshold :: "ts_stream \<Rightarrow> int" where
  "delta_threshold st = u64 (ticks st * 10)"

text \<open>A time stamp more than half the range behind the start belongs before it.\<close>

definition unwrap :: "int \<Rightarrow> ts_stream \<Rightarrow> int \<Rightarrow> int result" where
  "unwrap stime st t =
     (if u64 (stime + 2 ^ nat (pts_wrap_bits st)) > stime \<and> t \<noteq> NOPTS_VALUE then
        then_do (s64 (stime + 2 ^ nat (pts_wrap_bits st - 1))) (\<lambda>half.
          Inr (if t > half then u64 (t - 2 ^ nat (pts_wrap_bits st)) else t))
      else Inr t)"

definition add_offset :: "int \<Rightarrow> int \<Rightarrow> int result" where
  "add_offset off t = (if t \<noteq> NOPTS_VALUE then s64 (t + off) else Inr t)"

definition ts_unwrap ::
  "int \<Rightarrow> ts_stream \<Rightarrow> TimestampContext \<Rightarrow> ts_packet \<Rightarrow> (TimestampContext \<times> ts_packet) result" where
  "ts_unwrap start st ts p =
     (if start \<noteq> NOPTS_VALUE \<and> pts_wrap_bits st < 64 then
        if pts_wrap_bits st < 1 then Inl BadOperand
        else
          let ts1 = (if next_dts ts = NOPTS_VALUE \<and> ts_offset ts = NOPTS_VALUE then ts\<lparr>ts_offset := - start\<rparr> else ts) in
          then_do (unwrap start st (dts p)) (\<lambda>d.
          then_do (unwrap start st (pts p)) (\<lambda>t. Inr (ts1, p\<lparr>dts := d, pts := t\<rparr>)))
      else Inr (ts, p))"

text \<open>The jump: the result is 1 if the packet was moved.\<close>

definition ts_jump ::
  "ts_stream \<Rightarrow> TimestampContext \<Rightarrow> ts_packet \<Rightarrow> (int \<times> TimestampContext \<times> ts_packet) result" where
  "ts_jump st ts p =
     (if dts p \<noteq> NOPTS_VALUE \<and> next_dts ts \<noteq> NOPTS_VALUE then
        then_do (s64 (dts p - next_dts ts)) (\<lambda>delta.
        then_do (s64 \<bar>delta\<bar>) (\<lambda>size.
        then_do (if size > delta_threshold st then Inr True
                 else then_do (s64 (dts p + tenth st (ticks st))) (\<lambda>x. Inr (x < max (ts_pts ts) (ts_dts ts))))
          (\<lambda>jump.
            if jump then
              then_do (s64 (ts_offset ts - delta)) (\<lambda>off.
              then_do (if pts p \<noteq> NOPTS_VALUE then s64 (pts p - delta) else Inr (pts p)) (\<lambda>t.
                Inr (1, ts\<lparr>ts_offset := off\<rparr>, p\<lparr>dts := dts p - delta, pts := t\<rparr>)))
            else Inr (0, ts, p))))
      else Inr (0, ts, p))"

text \<open>What is remembered for the next packet.\<close>

definition ts_remember :: "ts_stream \<Rightarrow> TimestampContext \<Rightarrow> ts_packet \<Rightarrow> TimestampContext result" where
  "ts_remember st ts p =
     (let ts1 = (if dts p \<noteq> NOPTS_VALUE then ts\<lparr>last_ts := dts p\<rparr> else ts) in
      then_do
        (if saw_first_ts ts1 then Inr ts1
         else if pts p \<noteq> NOPTS_VALUE then
           then_do (s64 (- b_delay st + pts p)) (\<lambda>d. Inr (ts1\<lparr>ts_dts := d, ts_pts := d, saw_first_ts := True\<rparr>))
         else Inr (ts1\<lparr>ts_dts := - b_delay st, ts_pts := 0, saw_first_ts := True\<rparr>)) (\<lambda>ts2.
      let ts3 = (if next_dts ts2 = NOPTS_VALUE then ts2\<lparr>next_dts := ts_dts ts2\<rparr> else ts2);
          ts4 = (if next_pts ts3 = NOPTS_VALUE then ts3\<lparr>next_pts := ts_pts ts3\<rparr> else ts3);
          ts5 = (if dts p \<noteq> NOPTS_VALUE
                 then ts4\<lparr>next_dts := dts p, ts_dts := dts p, next_pts := dts p, ts_pts := dts p\<rparr> else ts4);
          ts6 = ts5\<lparr>ts_dts := next_dts ts5\<rparr> in
      then_do (s64 (next_dts ts6 + duration p)) (\<lambda>n.
        Inr (ts6\<lparr>next_dts := n, ts_pts := ts_dts ts6, next_pts := n\<rparr>))))"

definition ff_ts_wrap ::
  "int \<Rightarrow> ts_stream \<Rightarrow> TimestampContext \<Rightarrow> ts_packet \<Rightarrow> (int \<times> TimestampContext \<times> ts_packet) result" where
  "ff_ts_wrap start st ts p =
     (if tb_num st = 0 then Inl BadOperand else
     then_do (ts_unwrap start st ts p) (\<lambda>(ts1, p1).
     then_do (add_offset (ts_offset ts1) (dts p1)) (\<lambda>d.
     then_do (add_offset (ts_offset ts1) (pts p1)) (\<lambda>t.
     then_do (ts_jump st ts1 (p1\<lparr>dts := d, pts := t\<rparr>)) (\<lambda>(ret, ts2, p2).
     then_do (ts_remember st ts2 p2) (\<lambda>ts3. Inr (ret, ts3, p2)))))))"

section \<open>Continuity\<close>

lemma ts_unwrap_fields:
  "ts_unwrap start st ts p = Inr (ts1, p1) \<Longrightarrow> next_dts ts1 = next_dts ts \<and> ts_pts ts1 = ts_pts ts
     \<and> ts_dts ts1 = ts_dts ts \<and> duration p1 = duration p"
  by (auto simp: ts_unwrap_def Let_def split: if_splits)

lemma ts_jump_cases:
  assumes "ts_jump st ts p = Inr (r, ts1, p1)" "dts p \<noteq> NOPTS_VALUE" "next_dts ts \<noteq> NOPTS_VALUE"
  shows "(r = 1 \<and> dts p1 = next_dts ts \<and> (pts p \<noteq> NOPTS_VALUE \<longrightarrow> pts p1 - dts p1 = pts p - dts p))
    \<or> (r = 0 \<and> p1 = p \<and> \<bar>dts p1 - next_dts ts\<bar> \<le> delta_threshold st
        \<and> max (ts_pts ts) (ts_dts ts) \<le> dts p1 + tenth st (ticks st))"
  using assms by (auto simp: ts_jump_def split: if_splits)

lemma ts_jump_fields:
  "ts_jump st ts p = Inr (r, ts1, p1) \<Longrightarrow>
   next_dts ts1 = next_dts ts \<and> duration p1 = duration p \<and> (dts p = NOPTS_VALUE \<longrightarrow> dts p1 = NOPTS_VALUE)"
  by (auto simp: ts_jump_def split: if_splits)

lemma ts_remember_next:
  assumes "ts_remember st ts p = Inr ts1" "dts p \<noteq> NOPTS_VALUE"
  shows "next_dts ts1 = dts p + duration p"
  using assms by (auto simp: ts_remember_def Let_def split: if_splits)

lemma ts_wrap_step:
  assumes "ff_ts_wrap start st ts p = Inr (r, ts1, p1)"
  shows "duration p1 = duration p"
    and "dts p1 \<noteq> NOPTS_VALUE \<Longrightarrow> next_dts ts1 = dts p1 + duration p1"
    and "dts p1 \<noteq> NOPTS_VALUE \<Longrightarrow> next_dts ts \<noteq> NOPTS_VALUE \<Longrightarrow>
      (r = 1 \<and> dts p1 = next_dts ts) \<or> (r = 0 \<and> \<bar>dts p1 - next_dts ts\<bar> \<le> delta_threshold st
        \<and> max (ts_pts ts) (ts_dts ts) \<le> dts p1 + tenth st (ticks st))"
proof -
  obtain ta pa d t tb where
    u: "ts_unwrap start st ts p = Inr (ta, pa)" and j: "ts_jump st ta (pa\<lparr>dts := d, pts := t\<rparr>) = Inr (r, tb, p1)"
    and m: "ts_remember st tb p1 = Inr ts1"
    using assms unfolding ff_ts_wrap_def by (auto split: if_splits)
  show "duration p1 = duration p" using ts_unwrap_fields [OF u] ts_jump_fields [OF j] by simp
  show "next_dts ts1 = dts p1 + duration p1" if "dts p1 \<noteq> NOPTS_VALUE" using ts_remember_next [OF m that] .
  show "(r = 1 \<and> dts p1 = next_dts ts) \<or> (r = 0 \<and> \<bar>dts p1 - next_dts ts\<bar> \<le> delta_threshold st
        \<and> max (ts_pts ts) (ts_dts ts) \<le> dts p1 + tenth st (ticks st))"
    if known: "dts p1 \<noteq> NOPTS_VALUE" "next_dts ts \<noteq> NOPTS_VALUE"
  proof -
    have "d \<noteq> NOPTS_VALUE" using ts_jump_fields [OF j] known(1) by auto
    then show ?thesis using ts_jump_cases [OF j] ts_unwrap_fields [OF u] known(2) by auto
  qed
qed

text \<open>A whole stream.\<close>

fun ts_run ::
  "int \<Rightarrow> ts_stream \<Rightarrow> TimestampContext \<Rightarrow> ts_packet list \<Rightarrow> ((int \<times> ts_packet) list \<times> TimestampContext) result" where
  "ts_run start st ts [] = Inr ([], ts)"
| "ts_run start st ts (p # ps) =
     then_do (ff_ts_wrap start st ts p) (\<lambda>(r, ts1, p1).
     then_do (ts_run start st ts1 ps) (\<lambda>(qs, ts2). Inr ((r, p1) # qs, ts2)))"

lemma ts_run_first:
  assumes "ts_run start st ts ps = Inr (qs, ts2)" "qs \<noteq> []" "dts (snd (hd qs)) \<noteq> NOPTS_VALUE"
    and "next_dts ts \<noteq> NOPTS_VALUE" "0 \<le> delta_threshold st"
  shows "\<bar>dts (snd (hd qs)) - next_dts ts\<bar> \<le> delta_threshold st"
proof (cases ps)
  case Nil
  then show ?thesis using assms by simp
next
  case (Cons p ps')
  then obtain r t1 p1 where w: "ff_ts_wrap start st ts p = Inr (r, t1, p1)" "snd (hd qs) = p1"
    using assms(1) by auto
  then show ?thesis using ts_wrap_step(3) [OF w(1)] assms(3-5) by auto
qed

text \<open>C17. Time goes on.  However the time stamps of a stream jump or wrap, the packets that leave
  \<open>ff_ts_wrap\<close> follow each other: a packet's time stamp differs from the end of the packet before it
  (its time stamp plus its duration) by at most ten seconds, whenever both are known.\<close>

theorem time_goes_on:
  assumes "ts_run start st ts ps = Inr (qs, ts2)" "Suc j < length qs" "0 \<le> delta_threshold st"
    and "dts (snd (qs ! j)) \<noteq> NOPTS_VALUE" "dts (snd (qs ! Suc j)) \<noteq> NOPTS_VALUE"
    and "dts (snd (qs ! j)) + duration (snd (qs ! j)) \<noteq> NOPTS_VALUE"
  shows "\<bar>dts (snd (qs ! Suc j)) - (dts (snd (qs ! j)) + duration (snd (qs ! j)))\<bar> \<le> delta_threshold st"
  using assms
proof (induction ps arbitrary: ts qs j)
  case Nil
  then show ?case by simp
next
  case (Cons p ps)
  obtain r t1 p1 rest where w: "ff_ts_wrap start st ts p = Inr (r, t1, p1)"
    "ts_run start st t1 ps = Inr (rest, ts2)" "qs = (r, p1) # rest" using Cons.prems(1) by auto
  show ?case
  proof (cases j)
    case 0
    have n: "next_dts t1 = dts p1 + duration p1" using ts_wrap_step(2) [OF w(1)] Cons.prems(4) w(3) 0 by simp
    have "rest \<noteq> []" "hd rest = rest ! 0" using Cons.prems(2) w(3) 0 by (auto simp: hd_conv_nth)
    then show ?thesis using ts_run_first [OF w(2)] Cons.prems w(3) 0 n by simp
  next
    case (Suc i)
    then show ?thesis using Cons.IH [OF w(2), of i] Cons.prems w(3) by simp
  qed
qed

definition pal :: ts_stream where
  "pal = \<lparr>tb_num = 1, tb_den = 90000, pts_wrap_bits = 33, b_delay = 0, tenth = (\<lambda>x. x div 10)\<rparr>"

definition at :: "int \<Rightarrow> ts_packet" where
  "at t = \<lparr>dts = t, pts = t, duration = 3600\<rparr>"

text \<open>A wrap of the 33-bit clock and a jump by an hour are both taken out.\<close>

theorem time_goes_on_witness:
  "\<exists>qs ts2. ts_run 1000 pal ff_ts_init (map at [2 ^ 32 - 4600, 2 ^ 32 - 1000, 2600, 324006200]) = Inr (qs, ts2)
     \<and> map (\<lambda>(r, p). (r, dts p)) qs = [(0, 2 ^ 32 - 5600), (0, 2 ^ 32 - 2000), (1, 2 ^ 32 + 1600), (1, 2 ^ 32 + 5200)]
     \<and> \<bar>dts (snd (qs ! 2)) - (dts (snd (qs ! 1)) + duration (snd (qs ! 1)))\<bar> \<le> delta_threshold pal"
proof -
  let ?ps = "map at [2 ^ 32 - 4600, 2 ^ 32 - 1000, 2600, 324006200]"
  have "map_sum id fst (ts_run 1000 pal ff_ts_init ?ps) = Inr
     [(0, \<lparr>dts = 2 ^ 32 - 5600, pts = 2 ^ 32 - 5600, duration = 3600\<rparr>),
      (0, \<lparr>dts = 2 ^ 32 - 2000, pts = 2 ^ 32 - 2000, duration = 3600\<rparr>),
      (1, \<lparr>dts = 2 ^ 32 + 1600, pts = 2 ^ 32 + 1600, duration = 3600\<rparr>),
      (1, \<lparr>dts = 2 ^ 32 + 5200, pts = 2 ^ 32 + 5200, duration = 3600\<rparr>)]"
    by code_simp
  then obtain qs ts2 where r: "ts_run 1000 pal ff_ts_init ?ps = Inr (qs, ts2)"
    and qs: "qs = [(0, \<lparr>dts = 2 ^ 32 - 5600, pts = 2 ^ 32 - 5600, duration = 3600\<rparr>),
      (0, \<lparr>dts = 2 ^ 32 - 2000, pts = 2 ^ 32 - 2000, duration = 3600\<rparr>),
      (1, \<lparr>dts = 2 ^ 32 + 1600, pts = 2 ^ 32 + 1600, duration = 3600\<rparr>),
      (1, \<lparr>dts = 2 ^ 32 + 5200, pts = 2 ^ 32 + 5200, duration = 3600\<rparr>)]"
    by (cases "ts_run 1000 pal ff_ts_init ?ps") auto
  have th: "delta_threshold pal = 900000" by code_simp
  from time_goes_on [OF r, of 1] have "\<bar>dts (snd (qs ! 2)) - (dts (snd (qs ! 1)) + duration (snd (qs ! 1)))\<bar> \<le> delta_threshold pal"
    by (simp add: qs th numeral_2_eq_2)
  with r show ?thesis by (intro exI [of _ qs] exI [of _ ts2]) (simp add: qs)
qed

section \<open>Unknown start\<close>

text \<open>Without a start time the offset is never set: the mark for an unknown time stamp itself is added,
  so that a first packet at time 0 loses its time stamp, and any later one becomes about minus 2^63.\<close>

theorem unknown_start_spoils_time:
  assumes "0 \<le> t" "t < 2 ^ 62" "0 \<le> w" "w < 2 ^ 32" "0 \<le> b_delay st" "b_delay st < 2 ^ 32" "tb_num st \<noteq> 0"
  shows "\<exists>ts. ff_ts_wrap NOPTS_VALUE st ff_ts_init \<lparr>dts = t, pts = NOPTS_VALUE, duration = w\<rparr>
      = Inr (0, ts, \<lparr>dts = t - 2 ^ 63, pts = NOPTS_VALUE, duration = w\<rparr>)
    \<and> (t = 0 \<longrightarrow> t - 2 ^ 63 = NOPTS_VALUE)"
  using assms
  by (simp add: ff_ts_wrap_def ts_unwrap_def add_offset_def ff_ts_init_def ts_jump_def ts_remember_def Let_def s64_def)

theorem unknown_start_witness:
  "\<exists>ts. ff_ts_wrap NOPTS_VALUE pal ff_ts_init \<lparr>dts = 3600, pts = NOPTS_VALUE, duration = 3600\<rparr>
      = Inr (0, ts, \<lparr>dts = 3600 - 2 ^ 63, pts = NOPTS_VALUE, duration = 3600\<rparr>)"
  using unknown_start_spoils_time [of 3600 3600 pal] by (auto simp: pal_def)

end
