(* ===== verification/Spec2Isabelle.thy ===== *)
theory Spec2Isabelle
  imports Prelude Posix StreamBuffer AvString HttpText HttpTypes HlsCells SffRing Receive ReceiveProofs RelayProofs Send Files Request Connection ConnectionProofs StreamHeader HlsMuxer PacketQueue ControlChannel DateText FfUtils FrameQueue Pes PlayerAudio PlayerClock PlayerControl PlayerDevices PlayerThreads PlayerVideo PlayerWaves Plugins Portability QueueSpec Remux Thumbnail TimeStamps
begin

text \<open>
  ffmpeg-streaming: a small HTTP server that relays live streams (\<open>src/ffserver.c\<close> with
  \<open>src/plugin_dir.c\<close>), the segmenter and helpers that feed it (\<open>src/hlsenc.c\<close>, \<open>src/ff_header.c\<close>,
  \<open>src/ff_utils.c\<close>), a control channel (\<open>src/stream_buffer.c\<close>), the string routines of
  \<open>src/avstring.c\<close> and a player (\<open>src/ffplay2.c\<close>).

  The configuration is the one \<open>file_server.linux\<close> builds: Linux, \<open>PLUGIN_DIR\<close> on, no zlib, DVB or
  SSDP, iconv present; TLS only changes the transport.

  How the parts work together.  The event loop of \<open>http_server\<close> polls all sockets and calls
  \<open>handle_connection\<close> for each connection that is ready or timed out.  A connection collects its
  request, \<open>http_parse_request\<close> decides what it is (a file, a directory, an upload, a deletion, a
  segment, a feed or the reader of one), and then data is sent or received piece by piece.  A live
  writer and its readers meet in two shared structures: the cells of the HLS segments, which grow while
  they are read, and the ring of packets of an SFF feed.  \<open>wake_others\<close> moves readers that wait.

  Conventions.  A C object is the list of its bytes (\<open>Prelude\<close>); an access outside of it, through a
  null pointer or to a freed object is \<open>Inl\<close> of a fault in the model, so that a theorem that says
  \<open>Inr\<close> says that no such access happens.  Memory that \<open>malloc\<close> does not initialise and everything
  system calls answer is data of the model (\<open>kernel\<close> in \<open>HttpTypes\<close>, scripts of socket events in
  \<open>Posix\<close>), so theorems hold for whatever the network, the disk and the clock do.  The system calls
  made are logged in the state.  Numbers that C keeps in \<open>int\<close> or \<open>int64_t\<close> are \<open>int\<close>, with the
  conversion written out where the code converts; fields of file formats are words.

  Theories and the code they model:

  \<^item> \<open>StreamBuffer\<close>: \<open>sb_*\<close>, \<open>ctl_msg_*\<close> and \<open>ff_ctl_*\<close> of \<open>src/stream_buffer.c\<close>.  The buffer
    implements a byte queue (locale \<open>byte_fifo\<close>); a message sent is received unchanged; the parser of
    partial messages hangs or overruns.
  \<^item> \<open>AvString\<close>: \<open>src/avstring.c\<close> and the character helpers of \<open>src/compact.h\<close>, against reference
    definitions on lists.  \<open>av_timegm\<close> is proved to count days of the Gregorian calendar.
  \<^item> \<open>HttpText\<close>: URL decoding, the UTF-8 test, MIME types, escaping and the line and word scanners of
    \<open>src/ffserver.c\<close>.
  \<^item> \<open>HttpTypes\<close>: the connection record, cells, packets and static variables.
  \<^item> \<open>HlsCells\<close>, \<open>SffRing\<close>: the two shared structures, with the locales \<open>append_log\<close> and
    \<open>packet_queue\<close> (\<open>QueueSpec\<close>) as their contracts and interpretations on the code's operations.
  \<^item> \<open>Receive\<close>, \<open>ReceiveProofs\<close>, \<open>RelayProofs\<close>: \<open>http_receive_data\<close>, \<open>recv_chunked\<close> and
    \<open>wake_others\<close>, with \<open>sff_write_block\<close> of \<open>src/ff_utils.c\<close> as the sender.
  \<^item> \<open>Send\<close>: \<open>http_send_data\<close> and the sources of data it calls.
  \<^item> \<open>Files\<close>: \<open>prepare_local_file\<close>, the directory creation, and \<open>src/plugin_dir.c\<close>.
  \<^item> \<open>Request\<close>: \<open>handle_line\<close>, \<open>http_parse_request\<close> and the pages it answers.
  \<^item> \<open>Connection\<close>, \<open>ConnectionProofs\<close>: configuration, accepting and closing, \<open>handle_connection\<close> and
    one round of \<open>http_server\<close>; \<open>server_reaches\<close> is what rounds can reach, and the connection list is
    proved sound in all of it.
  \<^item> \<open>StreamHeader\<close>: \<open>src/ff_header.c\<close>, the header of a stream written and read back.
  \<^item> \<open>HlsMuxer\<close>: \<open>src/hlsenc.c\<close>, the window of segments, the playlist and where segments end.
  \<^item> \<open>PacketQueue\<close>: the packet queues of \<open>src/ffplay2.c\<close> and the decoder that empties one, as steps of
    interleaved threads.
  \<^item> \<open>FrameQueue\<close>: the frame queues of \<open>src/ffplay2.c\<close>, a second implementation of \<open>packet_queue\<close>.
  \<^item> \<open>TimeStamps\<close>, \<open>FfUtils\<close>: the correction of time stamps and the packet writers of \<open>src/ff_utils.c\<close>;
    a packet is followed from the muxer's output into the server's ring.
  \<^item> \<open>Pes\<close>: the demuxer of \<open>src/pes.c\<close>; a stream of packets is read back as it was sent, and the search
    for a start code is right where no zero byte stands before it.
  \<^item> \<open>PlayerClock\<close>, \<open>PlayerVideo\<close>, \<open>PlayerAudio\<close>: the player's clocks, \<open>video_refresh\<close> and the device's
    callback, over the frame queues.  A refresh returns and draws only pictures decoded after the last
    seek; the callback writes exactly what is asked for.  Arithmetic on doubles, the time and the
    resampler are parameters.
  \<^item> \<open>PlayerControl\<close>: \<open>read_thread\<close>'s loop, the opening and closing of streams and \<open>event_loop\<close>;
    \<open>player_reaches\<close> is what all of them together can reach, and in all of it the display goes on.
  \<^item> \<open>PlayerThreads\<close>: the set-up of \<open>read_thread\<close>, and a turn of \<open>video_thread\<close>, \<open>audio_thread\<close> and
    \<open>subtitle_thread\<close>: what the filters give enters the frame queues in order.
  \<^item> \<open>PlayerWaves\<close>: the drawing of waves and spectrum: what is read of the ring of samples and where
    rectangles are filled.
  \<^item> \<open>PlayerDevices\<close>: \<open>audio_open\<close>, the size of the window, options and \<open>stream_close\<close>.
  \<^item> \<open>Plugins\<close>: the answers of \<open>src/plugin_ssdp.c\<close>, the compressed reading of \<open>src/plugin_zlib.c\<close>, the
    results of \<open>src/plugin_ssl.c\<close> and the client of \<open>src/http_client.c\<close>.
  \<^item> \<open>ControlChannel\<close>: the opening and closing of the control channel of \<open>src/stream_buffer.c\<close>.
  \<^item> \<open>Portability\<close>: \<open>src/compact.c\<close> and \<open>src/compact.h\<close>, \<open>poll\<close> made from \<open>select\<close> and the wrappers of the
    allocator and the clock (\<open>ff_poll\<close> is compiled only where \<open>poll\<close> is missing).
  \<^item> \<open>Remux\<close>: \<open>src/remuxing.c\<close>, which sends every packet in order and waits until the next is due.
  \<^item> \<open>Thumbnail\<close>: \<open>src/ff_transcoding.c\<close>, a thumbnail from one packet, with what is freed on each path.
  \<^item> \<open>DateText\<close>: \<open>ff_strptime\<close> of \<open>src/avstring.c\<close>: the dates of HTTP are read back.

  Loops.  A loop that may not end is a \<open>partial_function (option)\<close> (\<open>get_line\<close>, \<open>ff_ctl_recv\<close>,
  \<open>parse_lines\<close>, \<open>picture_loop\<close>, \<open>fill_stream\<close>,
  \<open>cycle_loop\<close>, \<open>toggle_loop\<close>, \<open>pace\<close>), and the theorems say when it returns; the others are total with a measure, most
  often the room left in a buffer or the events left in a script.  No definition uses fuel.

  Not modelled: logging, the calls of OpenSSL, zlib and DVB themselves, what SDL draws,
  and the calls of FFmpeg's libraries (parameters of the definitions that use
  their results).
\<close>

end
